(* ===== verification/Prelude.thy ===== *)
theory Prelude
  imports Main
begin

text \<open>
  Shared vocabulary of the development.

  \<^item> SQL statements over one table.  A table is the list of its rows in insertion order;
    \<open>UPDATE t SET .. WHERE P RETURNING *\<close> is the pair of \<open>update_where P f t\<close> (the new table)
    and \<open>updated P f t\<close> (the returned rows); \<open>DELETE FROM t WHERE P\<close> is \<open>delete_where P t\<close>.
  \<^item> The JavaScript idioms the components share: \<open>??\<close> (\<open>orElse\<close>) and the first minimum of a
    list under a comparison (the \<open>ORDER BY .. LIMIT 1\<close> of SQL and the \<open>reduce\<close> of JavaScript).
  \<^item> The interface of a transition system with an invariant (locale \<open>invariant_system\<close>), which
    every stateful component of the development instantiates.
\<close>

named_theorems sql_simps \<open>evaluation of the SQL statements on a table\<close>

section \<open>Tables and SQL statements\<close>

definition update_where :: "('r \<Rightarrow> bool) \<Rightarrow> ('r \<Rightarrow> 'r) \<Rightarrow> 'r list \<Rightarrow> 'r list" where
  "update_where P f t = map (\<lambda>r. if P r then f r else r) t"

definition updated :: "('r \<Rightarrow> bool) \<Rightarrow> ('r \<Rightarrow> 'r) \<Rightarrow> 'r list \<Rightarrow> 'r list" where
  "updated P f t = map f (filter P t)"

definition delete_where :: "('r \<Rightarrow> bool) \<Rightarrow> 'r list \<Rightarrow> 'r list" where
  "delete_where P t = filter (\<lambda>r. \<not> P r) t"

lemma update_where_Nil [simp, sql_simps]: "update_where P f [] = []"
  by (simp add: update_where_def)

lemma update_where_Cons [simp, sql_simps]:
  "update_where P f (r # t) = (if P r then f r else r) # update_where P f t"
  by (simp add: update_where_def)

lemma updated_Nil [simp, sql_simps]: "updated P f [] = []"
  by (simp add: updated_def)

lemma updated_Cons [simp, sql_simps]:
  "updated P f (r # t) = (if P r then f r # updated P f t else updated P f t)"
  by (simp add: updated_def)

lemma delete_where_Nil [simp, sql_simps]: "delete_where P [] = []"
  by (simp add: delete_where_def)

lemma delete_where_Cons [simp, sql_simps]:
  "delete_where P (r # t) = (if P r then delete_where P t else r # delete_where P t)"
  by (simp add: delete_where_def)

lemma set_update_where:
  "set (update_where P f t) = {r \<in> set t. \<not> P r} \<union> f ` {r \<in> set t. P r}"
  by (auto simp: update_where_def)

lemma in_update_whereE:
  assumes "r' \<in> set (update_where P f t)"
  obtains r where "r \<in> set t" "r' = (if P r then f r else r)"
  using assms by (auto simp: update_where_def)

lemma ball_update_where [simp]:
  "(\<forall>r \<in> set (update_where P f t). Q r) \<longleftrightarrow> (\<forall>r \<in> set t. Q (if P r then f r else r))"
  by (induction t) auto

lemma bex_update_where [simp]:
  "(\<exists>r \<in> set (update_where P f t). Q r) \<longleftrightarrow> (\<exists>r \<in> set t. Q (if P r then f r else r))"
  by (induction t) auto

lemma list_ex_update_where [simp]:
  "list_ex Q (update_where P f t) \<longleftrightarrow> list_ex (\<lambda>r. Q (if P r then f r else r)) t"
  by (simp add: list_ex_iff)

lemma set_delete_where [simp]: "set (delete_where P t) = {r \<in> set t. \<not> P r}"
  by (auto simp: delete_where_def)

lemma length_update_where [simp]: "length (update_where P f t) = length t"
  by (simp add: update_where_def)

lemma updated_eq_Nil [simp]: "updated P f t = [] \<longleftrightarrow> (\<forall>r \<in> set t. \<not> P r)"
  by (simp add: updated_def filter_empty_conv)

lemma set_updated: "set (updated P f t) = f ` {r \<in> set t. P r}"
  by (auto simp: updated_def)

lemma update_where_none: "\<forall>r \<in> set t. \<not> P r \<Longrightarrow> update_where P f t = t"
  by (induction t) auto

lemma delete_where_none: "\<forall>r \<in> set t. \<not> P r \<Longrightarrow> delete_where P t = t"
  by (induction t) auto

text \<open>A statement that leaves the key column alone keeps the column as a whole.\<close>

lemma map_key_update_where:
  "(\<And>r. key (f r) = key r) \<Longrightarrow> map key (update_where P f t) = map key t"
  by (induction t) auto

lemma distinct_key_delete_where:
  "distinct (map key t) \<Longrightarrow> distinct (map key (delete_where P t))"
  by (induction t) auto

lemma distinct_key_unique:
  "distinct (map key t) \<Longrightarrow> r \<in> set t \<Longrightarrow> r' \<in> set t \<Longrightarrow> key r = key r' \<Longrightarrow> r = r'"
  by (induction t) (auto simp: rev_image_eqI)

section \<open>JavaScript idioms\<close>

definition orElse :: "'a option \<Rightarrow> 'a \<Rightarrow> 'a" where
  "orElse x d = (case x of None \<Rightarrow> d | Some v \<Rightarrow> v)"

lemma orElse_simps [simp]: "orElse None d = d" "orElse (Some v) d = v"
  by (simp_all add: orElse_def)

text \<open>
  The first element that is smallest under a strict comparison: the row that
  \<open>ORDER BY .. LIMIT 1\<close> returns, ties going to the row that is first in the table.
\<close>

fun first_min :: "('a \<Rightarrow> 'a \<Rightarrow> bool) \<Rightarrow> 'a list \<Rightarrow> 'a option" where
  "first_min lt [] = None"
| "first_min lt (x # xs) =
     (case first_min lt xs of None \<Rightarrow> Some x | Some y \<Rightarrow> if lt y x then Some y else Some x)"

lemma first_min_None [simp]: "first_min lt xs = None \<longleftrightarrow> xs = []"
  by (cases xs) (auto split: option.splits if_splits)

lemma first_min_in: "first_min lt xs = Some x \<Longrightarrow> x \<in> set xs"
  by (induction xs arbitrary: x) (auto split: option.splits if_splits)

lemma first_min_least:
  assumes "\<And>a b c. \<not> lt b a \<Longrightarrow> \<not> lt c b \<Longrightarrow> \<not> lt c a"
    and "\<And>a b. lt a b \<Longrightarrow> \<not> lt b a"
  shows "first_min lt xs = Some x \<Longrightarrow> y \<in> set xs \<Longrightarrow> \<not> lt y x"
proof (induction xs arbitrary: x y)
  case Nil
  then show ?case by simp
next
  case (Cons z zs)
  have irrefl: "\<not> lt a a" for a
    using assms(2) by blast
  show ?case
  proof (cases "first_min lt zs")
    case None
    with Cons.prems irrefl show ?thesis by simp
  next
    case (Some m)
    have m: "\<not> lt v m" if "v \<in> set zs" for v
      using Cons.IH [OF Some that] .
    show ?thesis
    proof (cases "lt m z")
      case True
      then have "x = m" and "\<not> lt z m"
        using Some Cons.prems(1) assms(2) by simp_all
      then show ?thesis
        using Cons.prems(2) m by auto
    next
      case False
      have "\<not> lt v z" if "v \<in> set zs" for v
        using assms(1) [OF False m [OF that]] .
      moreover have "x = z"
        using False Some Cons.prems(1) by simp
      ultimately show ?thesis
        using Cons.prems(2) irrefl by auto
    qed
  qed
qed

section \<open>Sliding windows of time stamps\<close>

text \<open>A log that is cut at the start of a window keeps what a later window still holds.\<close>

lemma filter_cut:
  fixes cut c :: int
  assumes "cut \<le> c"
  shows "filter (\<lambda>t. t > c) (filter (\<lambda>t. t > cut) ts) = filter (\<lambda>t. t > c) ts"
  using assms unfolding filter_filter by (intro filter_cong) auto

section \<open>Transition systems with an invariant\<close>

text \<open>
  The interface every stateful component offers: its initial states, its steps, and a
  predicate that holds initially and that every step keeps.  The client gets that the
  predicate holds in every reachable state and along every run.
\<close>

locale invariant_system =
  fixes init :: "'s \<Rightarrow> bool"
    and step :: "'s \<Rightarrow> 's \<Rightarrow> bool"
    and inv :: "'s \<Rightarrow> bool"
  assumes init_inv: "init s \<Longrightarrow> inv s"
    and step_inv: "step s t \<Longrightarrow> inv s \<Longrightarrow> inv t"
begin

lemma steps_inv: "step\<^sup>*\<^sup>* s t \<Longrightarrow> inv s \<Longrightarrow> inv t"
  by (induction rule: rtranclp_induct) (auto intro: step_inv)

lemma reachable_inv: "init s \<Longrightarrow> step\<^sup>*\<^sup>* s t \<Longrightarrow> inv t"
  by (blast intro: steps_inv init_inv)

end

end
