(* ===== verification/Minion_Types.thy ===== *)
theory Minion_Types
  imports Complex_Main Prelude
begin

text \<open>
  The data model of the Minions job queue: the status and policy unions and the job record of
  \<open>src/core/minions/types.ts\<close>, and the tables \<open>minion_jobs\<close> and \<open>minion_inbox\<close> of
  \<open>src/schema.sql\<close> with their CHECK constraints.

  Time stamps and durations are integers in milliseconds.  The JSON documents stored in the
  tables are values of the datatype \<open>json\<close>; an object is its list of members in order.
\<close>

section \<open>JSON documents\<close>

datatype json =
    JNull
  | JBool bool
  | JNum int
  | JStr string
  | JArr "json list"
  | JObj "(string \<times> json) list"

text \<open>Decimal text of an integer, as \<open>String(n)\<close> and SQL print it.\<close>

fun nat_digits :: "nat \<Rightarrow> string" where
  "nat_digits n = (if n < 10 then [char_of (48 + n)]
                   else nat_digits (n div 10) @ [char_of (48 + n mod 10)])"

declare nat_digits.simps [simp del]

definition int_text :: "int \<Rightarrow> string" where
  "int_text i = (if i < 0 then ''-'' @ nat_digits (nat (- i)) else nat_digits (nat i))"

text \<open>\<open>data->>'k'\<close>: the text of a member, SQL NULL when it is absent or null.  The
  text of an array or object, its JSON source, is never equal to a source id and is not
  modelled.\<close>

definition json_text :: "json \<Rightarrow> string \<Rightarrow> string option" where
  "json_text j k =
     (case j of
        JObj ms \<Rightarrow> (case map_of ms k of
                      Some (JStr s) \<Rightarrow> Some s
                    | Some (JNum n) \<Rightarrow> Some (int_text n)
                    | Some (JBool b) \<Rightarrow> Some (if b then ''true'' else ''false'')
                    | _ \<Rightarrow> None)
      | _ \<Rightarrow> None)"

section \<open>Unions of types.ts\<close>

datatype job_status =
    Waiting | Active | Completed | Failed | Delayed | Dead | Cancelled | WaitingChildren | Paused

datatype backoff_type = Fixed | Exponential

datatype child_fail_policy = FailParent | RemoveDep | Ignore | Continue

datatype child_outcome = OComplete | OFailed | ODead | OCancelled | OTimeout

section \<open>The job record\<close>

record minion_job =
  j_id :: int
  j_name :: string
  j_queue :: string
  j_status :: job_status
  j_priority :: int
  j_data :: json
  j_max_attempts :: int
  j_attempts_made :: int
  j_attempts_started :: int
  j_backoff_type :: backoff_type
  j_backoff_delay :: int
  j_backoff_jitter :: rat
  j_stalled_counter :: int
  j_max_stalled :: int
  j_lock_token :: "string option"
  j_lock_until :: "int option"
  j_delay_until :: "int option"
  j_parent_job_id :: "int option"
  j_on_child_fail :: child_fail_policy
  j_tokens_input :: int
  j_tokens_output :: int
  j_tokens_cache_read :: int
  j_depth :: int
  j_max_children :: "int option"
  j_timeout_ms :: "int option"
  j_timeout_at :: "int option"
  j_remove_on_complete :: bool
  j_remove_on_fail :: bool
  j_idempotency_key :: "string option"
  j_quiet_hours :: "json option"
  j_stagger_key :: "string option"
  j_result :: "json option"
  j_progress :: "json option"
  j_error_text :: "string option"
  j_stacktrace :: "string list"
  j_created_at :: int
  j_started_at :: "int option"
  j_finished_at :: "int option"
  j_updated_at :: int

text \<open>The terminal statuses: \<open>TERMINAL_STATUSES\<close> of queue.ts, and the set every
  \<open>status NOT IN ('completed','failed','dead','cancelled')\<close> of its SQL names.\<close>

fun terminal :: "job_status \<Rightarrow> bool" where
  "terminal Completed = True"
| "terminal Failed = True"
| "terminal Dead = True"
| "terminal Cancelled = True"
| "terminal _ = False"

abbreviation open_job :: "minion_job \<Rightarrow> bool" where
  "open_job r \<equiv> \<not> terminal (j_status r)"

text \<open>The CHECK constraints of the table that the model's types do not already enforce
  (\<open>chk_status\<close>, \<open>chk_backoff_type\<close> and \<open>chk_on_child_fail\<close> are the datatypes).\<close>

definition check_constraints :: "minion_job \<Rightarrow> bool" where
  "check_constraints r \<longleftrightarrow>
     0 \<le> j_backoff_jitter r \<and> j_backoff_jitter r \<le> 1 \<and>
     j_attempts_made r \<le> j_attempts_started r \<and>
     0 \<le> j_attempts_made r \<and> 0 \<le> j_attempts_started r \<and> 0 \<le> j_stalled_counter r \<and>
     1 \<le> j_max_attempts r \<and> 0 \<le> j_max_stalled r \<and>
     0 \<le> j_depth r \<and>
     (case j_max_children r of None \<Rightarrow> True | Some n \<Rightarrow> 0 < n) \<and>
     (case j_timeout_ms r of None \<Rightarrow> True | Some n \<Rightarrow> 0 < n)"

section \<open>Inbox, attachments, leases and the database\<close>

record inbox_message =
  m_id :: int
  m_job_id :: int
  m_sender :: string
  m_payload :: json
  m_sent_at :: int
  m_read_at :: "int option"

record attachment =
  a_id :: int
  a_job_id :: int
  a_filename :: string
  a_content_type :: string
  a_content :: "string"
  a_size_bytes :: nat
  a_sha256 :: string
  a_created_at :: int

record rate_lease =
  l_id :: int
  l_key :: string
  l_owner_job_id :: int
  l_expires_at :: int

record db =
  jobs :: "minion_job list"
  inbox :: "inbox_message list"
  attachments :: "attachment list"
  leases :: "rate_lease list"
  next_job_id :: int
  next_msg_id :: int
  next_att_id :: int
  next_lease_id :: int
  schema_version :: int

definition empty_db :: "int \<Rightarrow> db" where
  "empty_db v = \<lparr>jobs = [], inbox = [], attachments = [], leases = [], next_job_id = 1,
     next_msg_id = 1, next_att_id = 1, next_lease_id = 1, schema_version = v\<rparr>"

definition find_job :: "int \<Rightarrow> db \<Rightarrow> minion_job option" where
  "find_job i d = List.find (\<lambda>r. j_id r = i) (jobs d)"

definition update_jobs :: "(minion_job \<Rightarrow> bool) \<Rightarrow> (minion_job \<Rightarrow> minion_job) \<Rightarrow> db \<Rightarrow> db" where
  "update_jobs P f d = d\<lparr>jobs := update_where P f (jobs d)\<rparr>"

definition updated_jobs ::
  "(minion_job \<Rightarrow> bool) \<Rightarrow> (minion_job \<Rightarrow> minion_job) \<Rightarrow> db \<Rightarrow> minion_job list" where
  "updated_jobs P f d = updated P f (jobs d)"

text \<open>\<open>DELETE FROM minion_jobs\<close> with the foreign keys of the schema: a child's
  \<open>parent_job_id\<close> is set to NULL, inbox rows, attachments and leases are deleted too.\<close>

definition delete_jobs :: "(minion_job \<Rightarrow> bool) \<Rightarrow> db \<Rightarrow> db" where
  "delete_jobs P d =
     (let gone = map j_id (filter P (jobs d)) in
      d\<lparr>jobs := update_where
            (\<lambda>r. case j_parent_job_id r of None \<Rightarrow> False | Some p \<Rightarrow> p \<in> set gone)
            (\<lambda>r. r\<lparr>j_parent_job_id := None\<rparr>)
            (delete_where P (jobs d)),
        inbox := delete_where (\<lambda>m. m_job_id m \<in> set gone) (inbox d),
        attachments := delete_where (\<lambda>a. a_job_id a \<in> set gone) (attachments d),
        leases := delete_where (\<lambda>l. l_owner_job_id l \<in> set gone) (leases d)\<rparr>)"

definition insert_message :: "int \<Rightarrow> int \<Rightarrow> string \<Rightarrow> json \<Rightarrow> db \<Rightarrow> inbox_message \<times> db" where
  "insert_message now job sender payload d =
     (let m = \<lparr>m_id = next_msg_id d, m_job_id = job, m_sender = sender, m_payload = payload,
               m_sent_at = now, m_read_at = None\<rparr>
      in (m, d\<lparr>inbox := inbox d @ [m], next_msg_id := next_msg_id d + 1\<rparr>))"

text \<open>The \<open>ChildDoneMessage\<close> of types.ts as the JSON document stored in the inbox; the member
  \<open>error\<close> is absent on the complete outcome.\<close>

fun outcome_text :: "child_outcome \<Rightarrow> string" where
  "outcome_text OComplete = ''complete''"
| "outcome_text OFailed = ''failed''"
| "outcome_text ODead = ''dead''"
| "outcome_text OCancelled = ''cancelled''"
| "outcome_text OTimeout = ''timeout''"

definition child_done ::
  "int \<Rightarrow> string \<Rightarrow> json option \<Rightarrow> child_outcome \<Rightarrow> string option \<Rightarrow> json" where
  "child_done child name result outcome err =
     JObj ([(''type'', JStr ''child_done''), (''child_id'', JNum child), (''job_name'', JStr name),
            (''result'', orElse result JNull), (''outcome'', JStr (outcome_text outcome))] @
           (case err of None \<Rightarrow> [] | Some e \<Rightarrow> [(''error'', JStr e)]))"

text \<open>\<open>rowToMinionJob\<close>: the row as the queue hands it out.  Empty strings and falsy JSON
  values of the nullable columns become null.\<close>

definition nonempty :: "string option \<Rightarrow> string option" where
  "nonempty x = (case x of None \<Rightarrow> None | Some s \<Rightarrow> if s = [] then None else Some s)"

fun falsy :: "json \<Rightarrow> bool" where
  "falsy JNull = True"
| "falsy (JBool b) = (\<not> b)"
| "falsy (JNum n) = (n = 0)"
| "falsy (JStr s) = (s = [])"
| "falsy _ = False"

definition truthy_json :: "json option \<Rightarrow> json option" where
  "truthy_json x = (case x of None \<Rightarrow> None | Some j \<Rightarrow> if falsy j then None else Some j)"

definition rowToMinionJob :: "minion_job \<Rightarrow> minion_job" where
  "rowToMinionJob r =
     r\<lparr>j_lock_token := nonempty (j_lock_token r),
       j_idempotency_key := nonempty (j_idempotency_key r),
       j_quiet_hours := truthy_json (j_quiet_hours r),
       j_stagger_key := nonempty (j_stagger_key r),
       j_result := truthy_json (j_result r),
       j_progress := truthy_json (j_progress r),
       j_error_text := nonempty (j_error_text r)\<rparr>"

lemma rowToMinionJob_simps [simp]:
  "j_id (rowToMinionJob r) = j_id r"
  "j_name (rowToMinionJob r) = j_name r"
  "j_status (rowToMinionJob r) = j_status r"
  "j_parent_job_id (rowToMinionJob r) = j_parent_job_id r"
  "j_on_child_fail (rowToMinionJob r) = j_on_child_fail r"
  "j_remove_on_complete (rowToMinionJob r) = j_remove_on_complete r"
  "j_remove_on_fail (rowToMinionJob r) = j_remove_on_fail r"
  "j_depth (rowToMinionJob r) = j_depth r"
  "j_max_children (rowToMinionJob r) = j_max_children r"
  "j_attempts_made (rowToMinionJob r) = j_attempts_made r"
  "j_attempts_started (rowToMinionJob r) = j_attempts_started r"
  "j_max_attempts (rowToMinionJob r) = j_max_attempts r"
  "j_tokens_input (rowToMinionJob r) = j_tokens_input r"
  "j_tokens_output (rowToMinionJob r) = j_tokens_output r"
  "j_tokens_cache_read (rowToMinionJob r) = j_tokens_cache_read r"
  by (simp_all add: rowToMinionJob_def)

lemma db_update_simps [simp]:
  "jobs (update_jobs P f d) = update_where P f (jobs d)"
  "inbox (update_jobs P f d) = inbox d"
  "attachments (update_jobs P f d) = attachments d"
  "leases (update_jobs P f d) = leases d"
  "next_job_id (update_jobs P f d) = next_job_id d"
  "next_msg_id (update_jobs P f d) = next_msg_id d"
  "schema_version (update_jobs P f d) = schema_version d"
  by (simp_all add: update_jobs_def)

lemma insert_message_simps [simp]:
  "jobs (snd (insert_message now j s p d)) = jobs d"
  "next_job_id (snd (insert_message now j s p d)) = next_job_id d"
  "leases (snd (insert_message now j s p d)) = leases d"
  "schema_version (snd (insert_message now j s p d)) = schema_version d"
  by (simp_all add: insert_message_def Let_def)

lemma delete_jobs_simps [simp]:
  "next_job_id (delete_jobs P d) = next_job_id d"
  "schema_version (delete_jobs P d) = schema_version d"
  by (simp_all add: delete_jobs_def Let_def)

lemma find_job_Some: "find_job i d = Some r \<Longrightarrow> r \<in> set (jobs d) \<and> j_id r = i"
  by (auto simp: find_job_def find_Some_iff in_set_conv_nth)

lemma find_job_None: "find_job i d = None \<longleftrightarrow> (\<forall>r \<in> set (jobs d). j_id r \<noteq> i)"
  by (auto simp: find_job_def find_None_iff)

end
