(* ===== verification/Minion_Queue.thy ===== *)
theory Minion_Queue
  imports Minion_Types
begin

text \<open>
  The state-changing operations of \<open>MinionQueue\<close> (\<open>src/core/minions/queue.ts\<close>), one definition
  per method, as functions on the database.  \<open>now\<close> is the transaction time stamp, which
  PostgreSQL keeps constant inside one transaction.  A method runs in one transaction (or is
  one statement), so it is one atomic step; the row and advisory locks it takes make
  concurrent calls serialise, which is the sequence of steps of theory Minion_Invariants.
  Submission (\<open>add\<close>, \<open>replayJob\<close>) is in theory Minion_Submit.

  Where a result can depend on an order SQL leaves open, the model takes table order.
\<close>

section \<open>Statements the methods share\<close>

text \<open>\<open>NOT EXISTS (SELECT 1 .. WHERE parent_job_id = p AND status NOT IN terminal)\<close>, negated.\<close>

definition is_child :: "int \<Rightarrow> minion_job \<Rightarrow> bool" where
  "is_child p r \<longleftrightarrow> j_parent_job_id r = Some p"

definition has_open_child :: "int \<Rightarrow> minion_job list \<Rightarrow> bool" where
  "has_open_child p t = list_ex (\<lambda>r. is_child p r \<and> open_job r) t"

definition holds :: "int \<Rightarrow> string \<Rightarrow> minion_job \<Rightarrow> bool" where
  "holds i tok r \<longleftrightarrow> j_id r = i \<and> j_status r = Active \<and> j_lock_token r = Some tok"

definition set_status :: "job_status \<Rightarrow> int \<Rightarrow> minion_job \<Rightarrow> minion_job" where
  "set_status s now r = r\<lparr>j_status := s, j_updated_at := now\<rparr>"

definition unlock :: "minion_job \<Rightarrow> minion_job" where
  "unlock r = r\<lparr>j_lock_token := None, j_lock_until := None\<rparr>"

text \<open>\<open>UPDATE .. RETURNING *\<close> of one row, and \<open>rows.length > 0 ? rowToMinionJob(rows[0]) : null\<close>.\<close>

definition one_row :: "(minion_job \<Rightarrow> bool) \<Rightarrow> (minion_job \<Rightarrow> minion_job) \<Rightarrow> db \<Rightarrow> minion_job option \<times> db" where
  "one_row P f d =
     (case updated_jobs P f d of [] \<Rightarrow> None | r # _ \<Rightarrow> Some (rowToMinionJob r), update_jobs P f d)"

definition resolveParent :: "int \<Rightarrow> int \<Rightarrow> db \<Rightarrow> minion_job option \<times> db" where
  "resolveParent now p d =
     one_row (\<lambda>r. j_id r = p \<and> j_status r = WaitingChildren \<and> \<not> has_open_child p (jobs d))
       (set_status Waiting now) d"

text \<open>\<open>INSERT INTO minion_inbox .. WHERE EXISTS (.. id = p AND status NOT IN terminal)\<close>.\<close>

definition post_child_done :: "int \<Rightarrow> int \<Rightarrow> json \<Rightarrow> db \<Rightarrow> db" where
  "post_child_done now p payload d =
     (if list_ex (\<lambda>r. j_id r = p \<and> open_job r) (jobs d)
      then snd (insert_message now p ''minions'' payload d) else d)"

text \<open>The loop shared by \<open>cancelJob\<close>, \<open>handleTimeouts\<close> and \<open>handleWallClockTimeouts\<close>: a
  \<open>child_done\<close> message per closed row that has a parent, then one resolve per parent.\<close>

definition notify_parents ::
  "int \<Rightarrow> child_outcome \<Rightarrow> string \<Rightarrow> minion_job list \<Rightarrow> db \<Rightarrow> db" where
  "notify_parents now outcome err rows d =
     fold (\<lambda>r. case j_parent_job_id r of
                 None \<Rightarrow> id
               | Some p \<Rightarrow> post_child_done now p
                   (child_done (j_id r) (j_name r) None outcome (Some err))) rows d"

definition parent_ids :: "minion_job list \<Rightarrow> int list" where
  "parent_ids rows = remdups (List.map_filter j_parent_job_id rows)"

definition resolve_parents :: "int \<Rightarrow> int list \<Rightarrow> db \<Rightarrow> db" where
  "resolve_parents now ps d = fold (\<lambda>p. snd \<circ> resolveParent now p) ps d"

section \<open>Reading\<close>

definition getJob :: "int \<Rightarrow> db \<Rightarrow> minion_job option" where
  "getJob i d = map_option rowToMinionJob (find_job i d)"

definition getJobs ::
  "job_status option \<Rightarrow> string option \<Rightarrow> string option \<Rightarrow> nat option \<Rightarrow> nat option \<Rightarrow> db
   \<Rightarrow> minion_job list" where
  "getJobs st q nm limit offset d =
     (let matches = (\<lambda>r. (case st of None \<Rightarrow> True | Some s \<Rightarrow> j_status r = s) \<and>
                         (case nonempty q of None \<Rightarrow> True | Some x \<Rightarrow> j_queue r = x) \<and>
                         (case nonempty nm of None \<Rightarrow> True | Some x \<Rightarrow> j_name r = x))
      in map rowToMinionJob
           (take (orElse limit 50)
              (drop (orElse offset 0)
                 (sort_key (\<lambda>r. - j_created_at r) (filter matches (jobs d))))))"

section \<open>Removing and pruning\<close>

definition removeJob :: "int \<Rightarrow> db \<Rightarrow> bool \<times> db" where
  "removeJob i d =
     (let P = (\<lambda>r. j_id r = i \<and> terminal (j_status r))
      in (list_ex P (jobs d), delete_jobs P d))"

text \<open>\<open>prune\<close> with its resolved options; the default statuses are \<open>prune_default\<close>, the default
  cut-off is 30 days before the caller's clock.\<close>

definition prune_default :: "job_status list" where
  "prune_default = [Completed, Dead, Cancelled]"

definition prune :: "int \<Rightarrow> int option \<Rightarrow> job_status list option \<Rightarrow> bool \<Rightarrow> db \<Rightarrow> nat \<times> db" where
  "prune clock older_than sts dry_run d =
     (let statuses = orElse sts prune_default;
          cutoff = orElse older_than (clock - 30 * 86400000);
          P = (\<lambda>r. j_status r \<in> set statuses \<and> j_updated_at r < cutoff);
          n = length (filter P (jobs d))
      in if dry_run then (n, d) else (n, delete_jobs P d))"

section \<open>Cancelling\<close>

text \<open>The recursive CTE: level by level from the root, at most 100 levels below it.\<close>

fun descendants :: "nat \<Rightarrow> minion_job list \<Rightarrow> int list \<Rightarrow> int list" where
  "descendants 0 t front = front"
| "descendants (Suc n) t front =
     (let below = concat (map (\<lambda>p. map j_id (filter (is_child p) t)) front)
      in if below = [] then front else front @ descendants n t below)"

definition cancel_ids :: "int \<Rightarrow> db \<Rightarrow> int list" where
  "cancel_ids i d = descendants 100 (jobs d) (map j_id (filter (\<lambda>r. j_id r = i) (jobs d)))"

definition cancel_row :: "int \<Rightarrow> minion_job \<Rightarrow> minion_job" where
  "cancel_row now r =
     (unlock r)\<lparr>j_status := Cancelled, j_finished_at := Some now, j_updated_at := now\<rparr>"

definition cancelJob :: "int \<Rightarrow> int \<Rightarrow> db \<Rightarrow> minion_job option \<times> db" where
  "cancelJob now i d =
     (let ids = cancel_ids i d;
          P = (\<lambda>r. j_id r \<in> set ids \<and> open_job r);
          rows = updated_jobs P (cancel_row now) d;
          d1 = update_jobs P (cancel_row now) d
      in if rows = [] then (None, d)
         else (map_option rowToMinionJob (List.find (\<lambda>r. j_id r = i) rows),
               resolve_parents now (parent_ids rows)
                 (notify_parents now OCancelled ''cancelled'' rows d1)))"

section \<open>Retrying, pausing, resuming\<close>

definition retry_row :: "int \<Rightarrow> minion_job \<Rightarrow> minion_job" where
  "retry_row now r =
     (unlock r)\<lparr>j_status := Waiting, j_error_text := None, j_delay_until := None,
        j_finished_at := None, j_started_at := None, j_attempts_made := 0,
        j_attempts_started := 0, j_stalled_counter := 0, j_updated_at := now\<rparr>"

definition retryJob :: "int \<Rightarrow> int \<Rightarrow> db \<Rightarrow> minion_job option \<times> db" where
  "retryJob now i = one_row (\<lambda>r. j_id r = i \<and> j_status r \<in> {Failed, Dead}) (retry_row now)"

definition pauseJob :: "int \<Rightarrow> int \<Rightarrow> db \<Rightarrow> minion_job option \<times> db" where
  "pauseJob now i = one_row (\<lambda>r. j_id r = i \<and> j_status r \<in> {Waiting, Active, Delayed})
     (\<lambda>r. set_status Paused now (unlock r))"

definition resumeJob :: "int \<Rightarrow> int \<Rightarrow> db \<Rightarrow> minion_job option \<times> db" where
  "resumeJob now i = one_row (\<lambda>r. j_id r = i \<and> j_status r = Paused)
     (\<lambda>r. set_status Waiting now (unlock r))"

section \<open>Claiming\<close>

definition claim_before :: "minion_job \<Rightarrow> minion_job \<Rightarrow> bool" where
  "claim_before a b \<longleftrightarrow>
     j_priority a < j_priority b \<or>
     (j_priority a = j_priority b \<and> j_created_at a < j_created_at b)"

definition claimable :: "string \<Rightarrow> string list \<Rightarrow> minion_job \<Rightarrow> bool" where
  "claimable q names r \<longleftrightarrow> j_queue r = q \<and> j_status r = Waiting \<and> j_name r \<in> set names"

definition claim_row :: "int \<Rightarrow> string \<Rightarrow> int \<Rightarrow> minion_job \<Rightarrow> minion_job" where
  "claim_row now tok dur r =
     r\<lparr>j_status := Active, j_lock_token := Some tok, j_lock_until := Some (now + dur),
       j_timeout_at := map_option (\<lambda>ms. now + ms) (j_timeout_ms r),
       j_attempts_started := j_attempts_started r + 1,
       j_started_at := Some (orElse (j_started_at r) now), j_updated_at := now\<rparr>"

definition claim ::
  "int \<Rightarrow> string \<Rightarrow> int \<Rightarrow> string \<Rightarrow> string list \<Rightarrow> db \<Rightarrow> minion_job option \<times> db" where
  "claim now tok dur q names d =
     (if names = [] then (None, d)
      else case first_min claim_before (filter (claimable q names) (jobs d)) of
        None \<Rightarrow> (None, d)
      | Some r \<Rightarrow> one_row (\<lambda>x. j_id x = j_id r) (claim_row now tok dur) d)"

section \<open>Timeouts and stalls\<close>

definition lock_live :: "int \<Rightarrow> minion_job \<Rightarrow> bool" where
  "lock_live now r \<longleftrightarrow> (case j_lock_until r of None \<Rightarrow> False | Some u \<Rightarrow> u > now)"

definition lock_expired :: "int \<Rightarrow> minion_job \<Rightarrow> bool" where
  "lock_expired now r \<longleftrightarrow> (case j_lock_until r of None \<Rightarrow> False | Some u \<Rightarrow> u < now)"

definition timed_out :: "int \<Rightarrow> minion_job \<Rightarrow> bool" where
  "timed_out now r \<longleftrightarrow> j_status r = Active \<and>
     (case j_timeout_at r of None \<Rightarrow> False | Some t \<Rightarrow> t < now) \<and> lock_live now r"

definition timeout_row :: "string \<Rightarrow> int \<Rightarrow> minion_job \<Rightarrow> minion_job" where
  "timeout_row err now r =
     (unlock r)\<lparr>j_status := Dead, j_error_text := Some err,
        j_attempts_made := j_attempts_made r + 1, j_finished_at := Some now, j_updated_at := now\<rparr>"

definition dead_letter_sweep ::
  "(minion_job \<Rightarrow> bool) \<Rightarrow> string \<Rightarrow> int \<Rightarrow> db \<Rightarrow> minion_job list \<times> db" where
  "dead_letter_sweep P err now d =
     (let rows = updated_jobs P (timeout_row err now) d;
          d1 = update_jobs P (timeout_row err now) d
      in (map rowToMinionJob rows,
          resolve_parents now (parent_ids rows) (notify_parents now OTimeout err rows d1)))"

definition handleTimeouts :: "int \<Rightarrow> db \<Rightarrow> minion_job list \<times> db" where
  "handleTimeouts now = dead_letter_sweep (timed_out now) ''timeout exceeded'' now"

definition wall_clock_limit :: "int \<Rightarrow> minion_job \<Rightarrow> int" where
  "wall_clock_limit dur r =
     (case j_timeout_ms r of Some ms \<Rightarrow> ms * 2 | None \<Rightarrow> dur * 2 * max (j_max_stalled r) 1)"

definition wall_clock_exceeded :: "int \<Rightarrow> int \<Rightarrow> minion_job \<Rightarrow> bool" where
  "wall_clock_exceeded now dur r \<longleftrightarrow> j_status r = Active \<and>
     (case j_started_at r of None \<Rightarrow> False | Some s \<Rightarrow> now - s > wall_clock_limit dur r)"

definition handleWallClockTimeouts :: "int \<Rightarrow> int \<Rightarrow> db \<Rightarrow> minion_job list \<times> db" where
  "handleWallClockTimeouts now dur =
     dead_letter_sweep (wall_clock_exceeded now dur) ''wall-clock timeout exceeded'' now"

definition stalled :: "int \<Rightarrow> minion_job \<Rightarrow> bool" where
  "stalled now r \<longleftrightarrow> j_status r = Active \<and> lock_expired now r"

definition stall_requeue_row :: "int \<Rightarrow> minion_job \<Rightarrow> minion_job" where
  "stall_requeue_row now r =
     (unlock r)\<lparr>j_status := Waiting, j_stalled_counter := j_stalled_counter r + 1,
        j_updated_at := now\<rparr>"

definition stall_dead_row :: "int \<Rightarrow> minion_job \<Rightarrow> minion_job" where
  "stall_dead_row now r =
     (unlock r)\<lparr>j_status := Dead, j_stalled_counter := j_stalled_counter r + 1,
        j_attempts_made := j_attempts_made r + 1,
        j_error_text := Some ''max stalled count exceeded'',
        j_finished_at := Some now, j_updated_at := now\<rparr>"

text \<open>Both branches of the statement read the same snapshot, so each stalled row is changed
  by exactly one of them.\<close>

definition stall_row :: "int \<Rightarrow> minion_job \<Rightarrow> minion_job" where
  "stall_row now r =
     (if j_stalled_counter r + 1 < j_max_stalled r then stall_requeue_row now r
      else stall_dead_row now r)"

definition handleStalled :: "int \<Rightarrow> db \<Rightarrow> (minion_job list \<times> minion_job list) \<times> db" where
  "handleStalled now d =
     (let rows = filter (stalled now) (jobs d);
          again = (\<lambda>r. j_stalled_counter r + 1 < j_max_stalled r)
      in ((map (rowToMinionJob \<circ> stall_requeue_row now) (filter again rows),
           map (rowToMinionJob \<circ> stall_dead_row now) (filter (\<lambda>r. \<not> again r) rows)),
          update_jobs (stalled now) (stall_row now) d))"

definition promoteDelayed :: "int \<Rightarrow> db \<Rightarrow> minion_job list \<times> db" where
  "promoteDelayed now d =
     (let P = (\<lambda>r. j_status r = Delayed \<and>
                   (case j_delay_until r of None \<Rightarrow> False | Some t \<Rightarrow> t \<le> now));
          f = (\<lambda>r. (set_status Waiting now (unlock r))\<lparr>j_delay_until := None\<rparr>)
      in (map rowToMinionJob (updated_jobs P f d), update_jobs P f d))"

section \<open>Completing and failing (token-fenced)\<close>

definition complete_row :: "int \<Rightarrow> json option \<Rightarrow> minion_job \<Rightarrow> minion_job" where
  "complete_row now result r =
     (unlock r)\<lparr>j_status := Completed, j_result := result, j_finished_at := Some now,
        j_updated_at := now\<rparr>"

definition add_tokens :: "int \<Rightarrow> int \<Rightarrow> int \<Rightarrow> int \<Rightarrow> minion_job \<Rightarrow> minion_job" where
  "add_tokens now ti to tc r =
     r\<lparr>j_tokens_input := j_tokens_input r + ti, j_tokens_output := j_tokens_output r + to,
       j_tokens_cache_read := j_tokens_cache_read r + tc, j_updated_at := now\<rparr>"

definition roll_up_tokens :: "int \<Rightarrow> minion_job \<Rightarrow> int \<Rightarrow> db \<Rightarrow> db" where
  "roll_up_tokens now c p d =
     (if j_tokens_input c > 0 \<or> j_tokens_output c > 0 \<or> j_tokens_cache_read c > 0
      then update_jobs (\<lambda>r. j_id r = p \<and> open_job r)
             (add_tokens now (j_tokens_input c) (j_tokens_output c) (j_tokens_cache_read c)) d
      else d)"

definition completeJob ::
  "int \<Rightarrow> int \<Rightarrow> string \<Rightarrow> json option \<Rightarrow> db \<Rightarrow> minion_job option \<times> db" where
  "completeJob now i tok result d =
     (let f = complete_row now result;
          d1 = update_jobs (holds i tok) f d
      in case updated_jobs (holds i tok) f d of
           [] \<Rightarrow> (None, d)
         | row # _ \<Rightarrow>
             (let c = rowToMinionJob row;
                  d2 = (case j_parent_job_id c of
                          None \<Rightarrow> d1
                        | Some p \<Rightarrow>
                            snd (resolveParent now p
                              (post_child_done now p
                                (child_done (j_id c) (j_name c) result OComplete None)
                                (roll_up_tokens now c p d1))));
                  d3 = (if j_remove_on_complete c then delete_jobs (\<lambda>r. j_id r = j_id c) d2 else d2)
              in (Some c, d3)))"

text \<open>The status a failure may ask for, \<open>'delayed' | 'failed' | 'dead'\<close>.\<close>

datatype fail_status = FDelayed | FFailed | FDead

fun status_of :: "fail_status \<Rightarrow> job_status" where
  "status_of FDelayed = Delayed"
| "status_of FFailed = Failed"
| "status_of FDead = Dead"

definition fail_row :: "int \<Rightarrow> fail_status \<Rightarrow> string \<Rightarrow> int \<Rightarrow> minion_job \<Rightarrow> minion_job" where
  "fail_row now st err backoff r =
     (unlock r)\<lparr>j_status := status_of st, j_error_text := Some err,
        j_attempts_made := j_attempts_made r + 1, j_stacktrace := j_stacktrace r @ [err],
        j_delay_until := (if st = FDelayed then Some (now + backoff) else None),
        j_finished_at := (if st = FDelayed then None else Some now), j_updated_at := now\<rparr>"

definition fail_parent_row :: "int \<Rightarrow> int \<Rightarrow> string \<Rightarrow> minion_job \<Rightarrow> minion_job" where
  "fail_parent_row now child err r =
     r\<lparr>j_status := Failed,
       j_error_text := Some (''child job '' @ int_text child @ '' failed: '' @ err),
       j_finished_at := Some now, j_updated_at := now\<rparr>"

definition failParent :: "int \<Rightarrow> int \<Rightarrow> int \<Rightarrow> string \<Rightarrow> db \<Rightarrow> minion_job option \<times> db" where
  "failParent now p child err =
     one_row (\<lambda>r. j_id r = p \<and> j_status r = WaitingChildren) (fail_parent_row now child err)"

definition removeChildDependency :: "int \<Rightarrow> int \<Rightarrow> db \<Rightarrow> db" where
  "removeChildDependency now i =
     update_jobs (\<lambda>r. j_id r = i) (\<lambda>r. r\<lparr>j_parent_job_id := None, j_updated_at := now\<rparr>)"

text \<open>The parent hook of a terminal failure: the message first, then the policy.\<close>

definition fail_parent_hook :: "int \<Rightarrow> fail_status \<Rightarrow> string \<Rightarrow> minion_job \<Rightarrow> int \<Rightarrow> db \<Rightarrow> db" where
  "fail_parent_hook now st err c p d =
     (let d1 = post_child_done now p
                 (child_done (j_id c) (j_name c) None (if st = FDead then ODead else OFailed)
                   (Some err)) d
      in case j_on_child_fail c of
           FailParent \<Rightarrow> snd (failParent now p (j_id c) err d1)
         | RemoveDep \<Rightarrow> snd (resolveParent now p (removeChildDependency now (j_id c) d1))
         | _ \<Rightarrow> snd (resolveParent now p d1))"

definition failJob ::
  "int \<Rightarrow> int \<Rightarrow> string \<Rightarrow> string \<Rightarrow> fail_status \<Rightarrow> int option \<Rightarrow> db \<Rightarrow> minion_job option \<times> db" where
  "failJob now i tok err st backoff d =
     (let f = fail_row now st err (orElse backoff 0);
          d1 = update_jobs (holds i tok) f d;
          term = (st \<noteq> FDelayed)
      in case updated_jobs (holds i tok) f d of
           [] \<Rightarrow> (None, d)
         | row # _ \<Rightarrow>
             (let c = rowToMinionJob row;
                  d2 = (case j_parent_job_id c of
                          Some p \<Rightarrow> if term then fail_parent_hook now st err c p d1 else d1
                        | None \<Rightarrow> d1);
                  d3 = (if term \<and> j_remove_on_fail c then delete_jobs (\<lambda>r. j_id r = j_id c) d2
                        else d2)
              in (Some c, d3)))"

definition release_row :: "int \<Rightarrow> string \<Rightarrow> int \<Rightarrow> minion_job \<Rightarrow> minion_job" where
  "release_row now err backoff r =
     (unlock r)\<lparr>j_status := Delayed, j_error_text := Some err,
        j_stacktrace := j_stacktrace r @ [err], j_delay_until := Some (now + backoff),
        j_updated_at := now\<rparr>"

definition releaseLeaseFullJob ::
  "int \<Rightarrow> int \<Rightarrow> string \<Rightarrow> string \<Rightarrow> int \<Rightarrow> db \<Rightarrow> minion_job option \<times> db" where
  "releaseLeaseFullJob now i tok err backoff = one_row (holds i tok) (release_row now err backoff)"

section \<open>Progress, lock renewal, tokens, log (token-fenced)\<close>

definition fenced :: "int \<Rightarrow> string \<Rightarrow> (minion_job \<Rightarrow> minion_job) \<Rightarrow> db \<Rightarrow> bool \<times> db" where
  "fenced i tok f d = (list_ex (holds i tok) (jobs d), update_jobs (holds i tok) f d)"

definition updateProgress :: "int \<Rightarrow> int \<Rightarrow> string \<Rightarrow> json \<Rightarrow> db \<Rightarrow> bool \<times> db" where
  "updateProgress now i tok p =
     fenced i tok (\<lambda>r. r\<lparr>j_progress := Some p, j_updated_at := now\<rparr>)"

definition renewLock :: "int \<Rightarrow> int \<Rightarrow> string \<Rightarrow> int \<Rightarrow> db \<Rightarrow> bool \<times> db" where
  "renewLock now i tok dur =
     fenced i tok (\<lambda>r. r\<lparr>j_lock_until := Some (now + dur), j_updated_at := now\<rparr>)"

definition updateTokens ::
  "int \<Rightarrow> int \<Rightarrow> string \<Rightarrow> int option \<Rightarrow> int option \<Rightarrow> int option \<Rightarrow> db \<Rightarrow> bool \<times> db" where
  "updateTokens now i tok ti to tc =
     fenced i tok (add_tokens now (orElse ti 0) (orElse to 0) (orElse tc 0))"

section \<open>Inbox\<close>

definition sendMessage :: "int \<Rightarrow> int \<Rightarrow> json \<Rightarrow> string \<Rightarrow> db \<Rightarrow> inbox_message option \<times> db" where
  "sendMessage now i payload sender d =
     (case getJob i d of
        None \<Rightarrow> (None, d)
      | Some job \<Rightarrow>
          if terminal (j_status job) then (None, d)
          else if sender \<noteq> ''admin'' \<and>
             sender \<noteq> (case j_parent_job_id job of None \<Rightarrow> ''null'' | Some p \<Rightarrow> int_text p)
          then (None, d)
          else (let (m, d') = insert_message now i sender payload d in (Some m, d')))"

definition readInbox :: "int \<Rightarrow> int \<Rightarrow> string \<Rightarrow> db \<Rightarrow> inbox_message list \<times> db" where
  "readInbox now i tok d =
     (if \<not> list_ex (holds i tok) (jobs d) then ([], d)
      else (let P = (\<lambda>m. m_job_id m = i \<and> m_read_at m = None);
                f = (\<lambda>m. m\<lparr>m_read_at := Some now\<rparr>)
            in (updated P f (inbox d), d\<lparr>inbox := update_where P f (inbox d)\<rparr>)))"

definition readChildCompletions :: "int \<Rightarrow> string \<Rightarrow> int option \<Rightarrow> db \<Rightarrow> json list" where
  "readChildCompletions i tok since d =
     (if \<not> list_ex (holds i tok) (jobs d) then []
      else map m_payload
        (sort_key m_sent_at
          (filter (\<lambda>m. m_job_id m = i \<and> json_text (m_payload m) ''type'' = Some ''child_done'' \<and>
                       (case since of None \<Rightarrow> True | Some s \<Rightarrow> m_sent_at m > s)) (inbox d))))"

section \<open>Statements the worker runs itself\<close>

text \<open>\<open>src/core/minions/worker.ts\<close>: the lock release, the fall-back cancellation and the
  deferral of \<open>handleQuietHoursDefer\<close>, and the \<open>log\<close> call of the job context.  The first
  and the third are fenced by the token alone, not by the status.\<close>

definition by_token :: "int \<Rightarrow> string \<Rightarrow> minion_job \<Rightarrow> bool" where
  "by_token i tok r \<longleftrightarrow> j_id r = i \<and> j_lock_token r = Some tok"

definition quiet_release :: "int \<Rightarrow> int \<Rightarrow> string \<Rightarrow> db \<Rightarrow> db" where
  "quiet_release now i tok = update_jobs (by_token i tok) (\<lambda>r. (unlock r)\<lparr>j_updated_at := now\<rparr>)"

definition quiet_force_cancel :: "int \<Rightarrow> int \<Rightarrow> db \<Rightarrow> db" where
  "quiet_force_cancel now i =
     update_jobs (\<lambda>r. j_id r = i \<and> j_status r \<notin> {Completed, Failed, Dead})
       (\<lambda>r. r\<lparr>j_status := Cancelled, j_error_text := Some ''skipped_quiet_hours'',
                j_updated_at := now\<rparr>)"

definition quiet_defer :: "int \<Rightarrow> int \<Rightarrow> string \<Rightarrow> db \<Rightarrow> db" where
  "quiet_defer now i tok =
     update_jobs (by_token i tok)
       (\<lambda>r. (unlock r)\<lparr>j_status := Delayed, j_delay_until := Some (now + 15 * 60 * 1000),
                j_updated_at := now\<rparr>)"

definition log_line :: "int \<Rightarrow> int \<Rightarrow> string \<Rightarrow> string \<Rightarrow> db \<Rightarrow> db" where
  "log_line now i tok msg =
     update_jobs (holds i tok) (\<lambda>r. r\<lparr>j_stacktrace := j_stacktrace r @ [msg], j_updated_at := now\<rparr>)"

end
