(* ===== verification/Minion_Sched.thy ===== *)
theory Minion_Sched
  imports "HOL-Library.Word" Minion_Types
begin

text \<open>
  The pure scheduling helpers of Minions: retry back-off (\<open>backoff.ts\<close>), stagger slots
  (\<open>stagger.ts\<close>), the quiet-hours gate (\<open>quiet-hours.ts\<close>), protected job names
  (\<open>protected-names.ts\<close>) and default handler time-outs (\<open>handler-timeouts.ts\<close>).

  \<open>Math.random()\<close> is an argument between 0 and 1 (exclusive); JavaScript numbers that can be
  fractional are rationals.  Strings are lists of 8-bit code units.
\<close>

unbundle bit_operations_syntax

section \<open>Strings\<close>

text \<open>The white space that \<open>String.prototype.trim\<close> removes, among 8-bit code units.\<close>

definition js_space :: "char \<Rightarrow> bool" where
  "js_space c \<longleftrightarrow> (of_char c :: nat) \<in> {9, 10, 11, 12, 13, 32, 160}"

definition js_trim :: "string \<Rightarrow> string" where
  "js_trim s = rev (dropWhile js_space (rev (dropWhile js_space s)))"

lemma js_trim_idem [simp]: "js_trim (js_trim s) = js_trim s"
proof -
  let ?d = "dropWhile js_space"
  have stable: "?d (rev (?d (rev t))) = rev (?d (rev t))" if "?d t = t" for t
  proof (cases "rev (?d (rev t))")
    case Nil
    show ?thesis unfolding Nil by simp
  next
    case (Cons a u)
    have "rev t = takeWhile js_space (rev t) @ ?d (rev t)" by simp
    then have "t = rev (?d (rev t)) @ rev (takeWhile js_space (rev t))"
      by (metis rev_append rev_rev_ident)
    with Cons obtain w where "t = a # w" by (metis append_Cons)
    with that have "\<not> js_space a"
      by (metis dropWhile.simps(2) dropWhile_eq_self_iff list.distinct(1) list.sel(1))
    then show ?thesis unfolding Cons by simp
  qed
  have "?d (?d s) = ?d s" by simp
  from stable [OF this] show ?thesis
    by (simp add: js_trim_def)
qed

section \<open>Retry back-off\<close>

definition calculateBackoff :: "rat \<Rightarrow> backoff_type \<Rightarrow> int \<Rightarrow> rat \<Rightarrow> int \<Rightarrow> rat" where
  "calculateBackoff rnd bt delay0 jitter attempts_made =
     (let delay = (case bt of
                     Exponential \<Rightarrow> 2 ^ nat (max (attempts_made - 1) 0) * of_int delay0
                   | Fixed \<Rightarrow> of_int delay0);
          jittered = (if jitter > 0
                      then (let jitterRange = delay * jitter
                            in delay + (rnd * jitterRange * 2 - jitterRange))
                      else delay)
      in max jittered 0)"

definition backoff_base :: "backoff_type \<Rightarrow> int \<Rightarrow> int \<Rightarrow> rat" where
  "backoff_base bt delay0 attempts_made =
     (case bt of Exponential \<Rightarrow> 2 ^ nat (max (attempts_made - 1) 0) * of_int delay0
               | Fixed \<Rightarrow> of_int delay0)"

lemma jitter_interval:
  fixes b j rnd :: rat
  assumes "0 \<le> b" "0 \<le> j" "0 \<le> rnd" "rnd \<le> 1"
  shows "(1 - j) * b \<le> b + (rnd * (b * j) * 2 - b * j)"
    and "b + (rnd * (b * j) * 2 - b * j) \<le> (1 + j) * b"
proof -
  have nn: "0 \<le> rnd * (b * j)"
    using assms by simp
  then show "(1 - j) * b \<le> b + (rnd * (b * j) * 2 - b * j)"
    by (simp add: algebra_simps)
  have "rnd * (b * j) \<le> 1 * (b * j)"
    using assms by (intro mult_right_mono) simp_all
  then show "b + (rnd * (b * j) * 2 - b * j) \<le> (1 + j) * b"
    by (simp add: algebra_simps)
qed

lemma calculateBackoff_bounds:
  fixes bt :: backoff_type and attempts_made :: int
  assumes "0 \<le> delay0" "0 \<le> jitter" "jitter \<le> 1" "0 \<le> rnd" "rnd \<le> 1"
  defines "b \<equiv> backoff_base bt delay0 attempts_made"
  shows "(1 - jitter) * b \<le> calculateBackoff rnd bt delay0 jitter attempts_made"
    and "calculateBackoff rnd bt delay0 jitter attempts_made \<le> (1 + jitter) * b"
proof -
  have b0: "0 \<le> b"
    using assms(1) by (simp add: b_def backoff_base_def split: backoff_type.split)
  have eq: "calculateBackoff rnd bt delay0 jitter attempts_made =
      max (if jitter > 0 then b + (rnd * (b * jitter) * 2 - b * jitter) else b) 0"
    by (simp add: calculateBackoff_def b_def backoff_base_def Let_def split: backoff_type.split)
  note iv = jitter_interval [OF b0 assms(2) assms(4) assms(5)]
  show "(1 - jitter) * b \<le> calculateBackoff rnd bt delay0 jitter attempts_made"
    using iv(1) assms(2) by (auto simp: eq max_def)
  have "0 \<le> (1 + jitter) * b"
    using b0 assms(2) by simp
  then show "calculateBackoff rnd bt delay0 jitter attempts_made \<le> (1 + jitter) * b"
    using iv(2) assms(2) by (auto simp: eq)
qed

section \<open>Stagger slots\<close>

definition FNV_OFFSET :: "32 word" where "FNV_OFFSET = 0x811c9dc5"
definition FNV_PRIME :: "32 word" where "FNV_PRIME = 0x01000193"

definition fnv_step :: "char \<Rightarrow> 32 word \<Rightarrow> 32 word" where
  "fnv_step c h = (h XOR of_nat (of_char c)) * FNV_PRIME"

definition staggerMinuteOffset :: "string \<Rightarrow> nat" where
  "staggerMinuteOffset key =
     (if key = [] then 0 else unat (fold fnv_step key FNV_OFFSET) mod 60)"

definition staggerSecondOffset :: "string \<Rightarrow> nat" where
  "staggerSecondOffset key = staggerMinuteOffset key * 60"

lemma staggerMinuteOffset_less: "staggerMinuteOffset key < 60"
  by (simp add: staggerMinuteOffset_def)

section \<open>Quiet hours\<close>

datatype quiet_verdict = Allow | Skip | Defer

definition json_member :: "json \<Rightarrow> string \<Rightarrow> json option" where
  "json_member j k = (case j of JObj ms \<Rightarrow> map_of ms k | _ \<Rightarrow> None)"

definition json_hour :: "json option \<Rightarrow> int option" where
  "json_hour j = (case j of Some (JNum n) \<Rightarrow> if 0 \<le> n \<and> n \<le> 23 then Some n else None | _ \<Rightarrow> None)"

definition json_nonempty_text :: "json option \<Rightarrow> string option" where
  "json_nonempty_text j = (case j of Some (JStr s) \<Rightarrow> if s = [] then None else Some s | _ \<Rightarrow> None)"

text \<open>\<open>isValidConfig\<close>, returning the validated members.\<close>

definition quiet_window :: "json \<Rightarrow> (int \<times> int \<times> string) option" where
  "quiet_window cfg =
     (case (json_hour (json_member cfg ''start''), json_hour (json_member cfg ''end''),
            json_nonempty_text (json_member cfg ''tz'')) of
        (Some s, Some e, Some tz) \<Rightarrow> if s = e then None else Some (s, e, tz)
      | _ \<Rightarrow> None)"

definition in_quiet_window :: "int \<Rightarrow> int \<Rightarrow> int \<Rightarrow> bool" where
  "in_quiet_window s e hour =
     (if s \<le> e then hour \<ge> s \<and> hour < e else hour \<ge> s \<or> hour < e)"

text \<open>\<open>localHour\<close> without its library call: \<open>tz_hour\<close> stands for the hour that
  \<open>Intl.DateTimeFormat\<close> reports for an instant, None when the zone is unknown.\<close>

definition localHour :: "(string \<Rightarrow> int \<Rightarrow> int option) \<Rightarrow> int \<Rightarrow> string \<Rightarrow> int option" where
  "localHour tz_hour now tz = map_option (\<lambda>n. n mod 24) (tz_hour tz now)"

definition evaluateQuietHours ::
  "(string \<Rightarrow> int \<Rightarrow> int option) \<Rightarrow> json option \<Rightarrow> int \<Rightarrow> quiet_verdict" where
  "evaluateQuietHours tz_hour cfg now =
     (case cfg of
        None \<Rightarrow> Allow
      | Some c \<Rightarrow>
          (case quiet_window c of
             None \<Rightarrow> Allow
           | Some (s, e, tz) \<Rightarrow>
               (case localHour tz_hour now tz of
                  None \<Rightarrow> Allow
                | Some hour \<Rightarrow>
                    if \<not> in_quiet_window s e hour then Allow
                    else if json_member c ''policy'' = Some (JStr ''skip'') then Skip else Defer)))"

lemma quiet_window_range:
  "quiet_window c = Some (s, e, tz) \<Longrightarrow> 0 \<le> s \<and> s < 24 \<and> 0 \<le> e \<and> e < 24 \<and> s \<noteq> e"
  by (auto simp: quiet_window_def json_hour_def split: option.splits json.splits if_splits)

text \<open>The two comparisons together are membership in the cyclic interval from \<open>s\<close> to \<open>e\<close>.\<close>

lemma in_quiet_window_cyclic:
  assumes "0 \<le> s" "s < 24" "0 \<le> e" "e < 24" "s \<noteq> e" "0 \<le> h" "h < 24"
  shows "in_quiet_window s e h \<longleftrightarrow> (h - s) mod 24 < (e - s) mod 24"
proof -
  have m: "(x - s) mod 24 = (if s \<le> x then x - s else x - s + 24)" if "0 \<le> x" "x < 24" for x :: int
  proof (cases "s \<le> x")
    case True
    with that assms(1) show ?thesis by simp
  next
    case False
    have "(x - s) mod 24 = (x - s + 24) mod 24" by simp
    also have "\<dots> = x - s + 24"
      using that assms(1,2) False by (intro mod_pos_pos_trivial) simp_all
    finally show ?thesis using False by simp
  qed
  show ?thesis
    using m [OF assms(6,7)] m [OF assms(3,4)] assms by (auto simp: in_quiet_window_def)
qed

section \<open>Protected names and default time-outs\<close>

definition PROTECTED_JOB_NAMES :: "string list" where
  "PROTECTED_JOB_NAMES =
     [''shell'', ''subagent'', ''subagent_aggregator'', ''synthesize'', ''patterns'',
      ''consolidate'', ''contextual_reindex_per_chunk'', ''extract-takes-from-pages'',
      ''unify-types'', ''skillopt'', ''extract-atoms-drain'']"

definition isProtectedJobName :: "string \<Rightarrow> bool" where
  "isProtectedJobName name = (js_trim name \<in> set PROTECTED_JOB_NAMES)"

definition HANDLER_DEFAULT_TIMEOUT_MS :: "(string \<times> int) list" where
  "HANDLER_DEFAULT_TIMEOUT_MS =
     [(''subagent'', 30 * 60 * 1000), (''subagent_aggregator'', 30 * 60 * 1000),
      (''embed-backfill'', 30 * 60 * 1000), (''autopilot-cycle'', 30 * 60 * 1000),
      (''autopilot-global-maintenance'', 30 * 60 * 1000),
      (''chronicle_extract'', 10 * 60 * 1000), (''facts-absorb'', 10 * 60 * 1000),
      (''contextual_reindex_per_chunk'', 60 * 60 * 1000)]"

definition defaultTimeoutMsFor :: "string \<Rightarrow> int option" where
  "defaultTimeoutMsFor name = map_of HANDLER_DEFAULT_TIMEOUT_MS name"

lemma defaultTimeoutMsFor_pos: "defaultTimeoutMsFor name = Some ms \<Longrightarrow> 0 < ms"
  by (auto simp: defaultTimeoutMsFor_def HANDLER_DEFAULT_TIMEOUT_MS_def split: if_splits)

end
