(* ===== verification/Minion_Submit.thy ===== *)
theory Minion_Submit
  imports Minion_Queue Minion_Sched
begin

text \<open>
  Submission: \<open>MinionQueue.add\<close> and \<open>replayJob\<close> of \<open>src/core/minions/queue.ts\<close>.  An exception
  rolls the transaction back, so it is a value of \<open>submit_error\<close> and no new database.

  \<open>clock\<close> is the caller's \<open>Date.now()\<close>, \<open>now\<close> the database's.  \<open>capability\<close> is the verdict of
  \<open>classifyCapabilities\<close> on a model name, a look-up in the tables of provider recipes.
\<close>

datatype submit_error =
    EmptyName
  | ProtectedName string
  | NoToolCalling string
  | UnknownProvider string
  | SchemaTooOld int
  | ParentNotFound int
  | SpawnDepthExceeded int int
  | TooManyChildren int int
  | CheckViolation
  | UniqueViolation
  | ForeignKeyViolation

datatype capability = CapOk | CapNoTools | CapUnknown | CapNoCaching | CapNoParallel

record job_opts =
  o_queue :: "string option"
  o_priority :: "int option"
  o_max_attempts :: "int option"
  o_backoff_type :: "backoff_type option"
  o_backoff_delay :: "int option"
  o_backoff_jitter :: "rat option"
  o_max_stalled :: "int option"
  o_delay :: "int option"
  o_parent_job_id :: "int option"
  o_on_child_fail :: "child_fail_policy option"
  o_max_children :: "int option"
  o_timeout_ms :: "int option"
  o_remove_on_complete :: "bool option"
  o_remove_on_fail :: "bool option"
  o_max_spawn_depth :: "int option"
  o_idempotency_key :: "string option"
  o_maxWaiting :: "int option"
  o_quiet_hours :: "json option"
  o_stagger_key :: "string option"

definition no_opts :: job_opts where
  "no_opts = \<lparr>o_queue = None, o_priority = None, o_max_attempts = None, o_backoff_type = None,
     o_backoff_delay = None, o_backoff_jitter = None, o_max_stalled = None, o_delay = None,
     o_parent_job_id = None, o_on_child_fail = None, o_max_children = None, o_timeout_ms = None,
     o_remove_on_complete = None, o_remove_on_fail = None, o_max_spawn_depth = None,
     o_idempotency_key = None, o_maxWaiting = None, o_quiet_hours = None, o_stagger_key = None\<rparr>"

definition MIGRATION_VERSION :: int where "MIGRATION_VERSION = 7"
definition DEFAULT_MAX_SPAWN_DEPTH :: int where "DEFAULT_MAX_SPAWN_DEPTH = 5"

definition nonzero :: "int option \<Rightarrow> int option" where
  "nonzero x = (case x of None \<Rightarrow> None | Some n \<Rightarrow> if n = 0 then None else Some n)"

section \<open>The checks before the transaction\<close>

definition check_name :: "string \<Rightarrow> bool \<Rightarrow> submit_error + string" where
  "check_name name trusted =
     (let jobName = js_trim name
      in if jobName = [] then Inl EmptyName
         else if isProtectedJobName jobName \<and> \<not> trusted then Inl (ProtectedName jobName)
         else Inr jobName)"

definition check_model :: "(string \<Rightarrow> capability) \<Rightarrow> string \<Rightarrow> json \<Rightarrow> submit_error option" where
  "check_model capability jobName data =
     (if jobName = ''subagent'' then
        (case json_member data ''model'' of
           Some (JStr m) \<Rightarrow>
             if m = [] then None
             else (case capability m of
                     CapNoTools \<Rightarrow> Some (NoToolCalling m)
                   | CapUnknown \<Rightarrow> Some (UnknownProvider m)
                   | _ \<Rightarrow> None)
         | _ \<Rightarrow> None)
      else None)"

definition ensureSchema :: "db \<Rightarrow> submit_error option" where
  "ensureSchema d =
     (if schema_version d < MIGRATION_VERSION then Some (SchemaTooOld (schema_version d)) else None)"

section \<open>The steps of the transaction\<close>

text \<open>Step 1: the idempotency fast path.  \<open>Inl\<close> is the early return of an existing row, \<open>Inr\<close>
  the database to go on with (the key of a dead or cancelled job is freed).\<close>

definition idempotent_hit :: "string option \<Rightarrow> db \<Rightarrow> minion_job + db" where
  "idempotent_hit key d =
     (case nonempty key of
        None \<Rightarrow> Inr d
      | Some k \<Rightarrow>
          (case List.find (\<lambda>r. j_idempotency_key r = Some k) (jobs d) of
             None \<Rightarrow> Inr d
           | Some r \<Rightarrow>
               if j_status r = Dead \<or> j_status r = Cancelled
               then Inr (update_jobs (\<lambda>x. j_id x = j_id r) (\<lambda>x. x\<lparr>j_idempotency_key := None\<rparr>) d)
               else Inl (rowToMinionJob r)))"

text \<open>Step 1b: submission back-pressure; a hit returns the newest waiting row of the scope.\<close>

definition bp_source :: "json \<Rightarrow> string option" where
  "bp_source data = (case json_member data ''sourceId'' of Some (JStr s) \<Rightarrow> Some s | _ \<Rightarrow> None)"

definition in_bp_scope :: "string \<Rightarrow> string \<Rightarrow> string option \<Rightarrow> minion_job \<Rightarrow> bool" where
  "in_bp_scope name q src r \<longleftrightarrow>
     j_name r = name \<and> j_queue r = q \<and> j_status r = Waiting \<and>
     (src = None \<or> json_text (j_data r) ''sourceId'' = src)"

definition newer_first :: "minion_job \<Rightarrow> minion_job \<Rightarrow> bool" where
  "newer_first a b \<longleftrightarrow>
     j_created_at a > j_created_at b \<or> (j_created_at a = j_created_at b \<and> j_id a > j_id b)"

definition backpressure_hit ::
  "string \<Rightarrow> json \<Rightarrow> string option \<Rightarrow> int option \<Rightarrow> db \<Rightarrow> minion_job option" where
  "backpressure_hit name data qopt maxw d =
     (case maxw of
        None \<Rightarrow> None
      | Some w \<Rightarrow>
          (let scope = filter (in_bp_scope name (orElse qopt ''default'') (bp_source data)) (jobs d)
           in if int (length scope) \<ge> max 1 w
              then map_option rowToMinionJob (first_min newer_first scope)
              else None))"

text \<open>Step 2: the parent's row, the depth limit and the cap on live children.\<close>

definition live_children :: "int \<Rightarrow> db \<Rightarrow> int" where
  "live_children p d = int (length (filter (\<lambda>r. is_child p r \<and> open_job r) (jobs d)))"

definition check_parent :: "int option \<Rightarrow> int \<Rightarrow> db \<Rightarrow> submit_error + int" where
  "check_parent parent max_depth d =
     (case nonzero parent of
        None \<Rightarrow> Inr 0
      | Some p \<Rightarrow>
          (case find_job p d of
             None \<Rightarrow> Inl (ParentNotFound p)
           | Some r \<Rightarrow>
               if j_depth r + 1 > max_depth then Inl (SpawnDepthExceeded (j_depth r + 1) max_depth)
               else (case j_max_children r of
                       None \<Rightarrow> Inr (j_depth r + 1)
                     | Some cap \<Rightarrow>
                         if live_children p d \<ge> cap
                         then Inl (TooManyChildren (live_children p d) cap)
                         else Inr (j_depth r + 1))))"

text \<open>Step 3: the inserted row; columns the statement leaves out take the schema's defaults.\<close>

definition SCHEMA_DEFAULT_MAX_STALLED :: int where "SCHEMA_DEFAULT_MAX_STALLED = 5"

definition new_row ::
  "int \<Rightarrow> int \<Rightarrow> int \<Rightarrow> string \<Rightarrow> json \<Rightarrow> job_opts \<Rightarrow> int \<Rightarrow> minion_job" where
  "new_row clock now i name data opts depth =
     \<lparr>j_id = i, j_name = name, j_queue = orElse (o_queue opts) ''default'',
      j_status = (if nonzero (o_delay opts) = None then Waiting else Delayed),
      j_priority = orElse (o_priority opts) 0, j_data = data,
      j_max_attempts = orElse (o_max_attempts opts) 3, j_attempts_made = 0, j_attempts_started = 0,
      j_backoff_type = orElse (o_backoff_type opts) Exponential,
      j_backoff_delay = orElse (o_backoff_delay opts) 1000,
      j_backoff_jitter = orElse (o_backoff_jitter opts) (1 / 5),
      j_stalled_counter = 0,
      j_max_stalled = (case o_max_stalled opts of
                         None \<Rightarrow> SCHEMA_DEFAULT_MAX_STALLED
                       | Some n \<Rightarrow> max 1 (min 100 n)),
      j_lock_token = None, j_lock_until = None,
      j_delay_until = map_option (\<lambda>ms. clock + ms) (nonzero (o_delay opts)),
      j_parent_job_id = o_parent_job_id opts,
      j_on_child_fail = orElse (o_on_child_fail opts) FailParent,
      j_tokens_input = 0, j_tokens_output = 0, j_tokens_cache_read = 0,
      j_depth = depth, j_max_children = o_max_children opts,
      j_timeout_ms = (case o_timeout_ms opts of
                        Some ms \<Rightarrow> Some ms | None \<Rightarrow> defaultTimeoutMsFor name),
      j_timeout_at = None,
      j_remove_on_complete = orElse (o_remove_on_complete opts) False,
      j_remove_on_fail = orElse (o_remove_on_fail opts) False,
      j_idempotency_key = o_idempotency_key opts, j_quiet_hours = o_quiet_hours opts,
      j_stagger_key = o_stagger_key opts, j_result = None, j_progress = None,
      j_error_text = None, j_stacktrace = [], j_created_at = now, j_started_at = None,
      j_finished_at = None, j_updated_at = now\<rparr>"

text \<open>The INSERT with the table's constraints.  With a non-empty key a conflicting row makes the
  statement do nothing and the row that won is returned; the fast path above makes that case
  unreachable in a serial run, but the code has it.\<close>

definition insert_job :: "minion_job \<Rightarrow> db \<Rightarrow> submit_error + minion_job \<times> bool \<times> db" where
  "insert_job r d =
     (let clash = (case j_idempotency_key r of
                     None \<Rightarrow> None
                   | Some k \<Rightarrow> List.find (\<lambda>x. j_idempotency_key x = Some k) (jobs d))
      in if \<not> check_constraints r then Inl CheckViolation
         else case clash of
           Some x \<Rightarrow> if nonempty (j_idempotency_key r) = None then Inl UniqueViolation
                      else Inr (x, False, d)
         | None \<Rightarrow>
             if (case j_parent_job_id r of None \<Rightarrow> False | Some p \<Rightarrow> find_job p d = None)
             then Inl ForeignKeyViolation
             else Inr (r, True, d\<lparr>jobs := jobs d @ [r], next_job_id := next_job_id d + 1\<rparr>))"

text \<open>Step 4: the parent waits for its children.\<close>

definition park_parent :: "int \<Rightarrow> int option \<Rightarrow> db \<Rightarrow> db" where
  "park_parent now parent d =
     (case nonzero parent of
        None \<Rightarrow> d
      | Some p \<Rightarrow>
          update_jobs (\<lambda>r. j_id r = p \<and> j_status r \<in> {Waiting, Active, Delayed})
            (set_status WaitingChildren now) d)"

definition add_tx ::
  "int \<Rightarrow> int \<Rightarrow> string \<Rightarrow> json \<Rightarrow> job_opts \<Rightarrow> db \<Rightarrow> submit_error + minion_job \<times> db" where
  "add_tx clock now jobName data opts d =
     (case idempotent_hit (o_idempotency_key opts) d of
        Inl r \<Rightarrow> Inr (r, d)
      | Inr d1 \<Rightarrow>
          (case backpressure_hit jobName data (o_queue opts) (o_maxWaiting opts) d1 of
             Some r \<Rightarrow> Inr (r, d1)
           | None \<Rightarrow>
               (case check_parent (o_parent_job_id opts)
                       (orElse (o_max_spawn_depth opts) DEFAULT_MAX_SPAWN_DEPTH) d1 of
                  Inl e \<Rightarrow> Inl e
                | Inr depth \<Rightarrow>
                    (case insert_job (new_row clock now (next_job_id d1) jobName data opts depth) d1 of
                       Inl e \<Rightarrow> Inl e
                     | Inr (r, False, d2) \<Rightarrow> Inr (rowToMinionJob r, d2)
                     | Inr (r, True, d2) \<Rightarrow>
                         Inr (rowToMinionJob r, park_parent now (o_parent_job_id opts) d2)))))"

definition add ::
  "(string \<Rightarrow> capability) \<Rightarrow> int \<Rightarrow> int \<Rightarrow> string \<Rightarrow> json option \<Rightarrow> job_opts \<Rightarrow> bool \<Rightarrow> db
   \<Rightarrow> submit_error + minion_job \<times> db" where
  "add capability clock now name data opts trusted d =
     (case check_name name trusted of
        Inl e \<Rightarrow> Inl e
      | Inr jobName \<Rightarrow>
          (case (if data = None then None else check_model capability jobName (the data)) of
             Some e \<Rightarrow> Inl e
           | None \<Rightarrow>
               (case ensureSchema d of
                  Some e \<Rightarrow> Inl e
                | None \<Rightarrow> add_tx clock now jobName (orElse data (JObj [])) opts d)))"

text \<open>\<open>{...source.data, ...overrides}\<close>: an overridden member keeps its place.\<close>

definition spread :: "json \<Rightarrow> json \<Rightarrow> json" where
  "spread a b =
     (case (a, b) of
        (JObj xs, JObj ys) \<Rightarrow>
          JObj (map (\<lambda>(k, v). (k, orElse (map_of ys k) v)) xs @
                filter (\<lambda>(k, v). k \<notin> fst ` set xs) ys)
      | _ \<Rightarrow> b)"

definition replayJob ::
  "(string \<Rightarrow> capability) \<Rightarrow> int \<Rightarrow> int \<Rightarrow> int \<Rightarrow> json option \<Rightarrow> db
   \<Rightarrow> submit_error + minion_job option \<times> db" where
  "replayJob capability clock now i overrides d =
     (case getJob i d of
        None \<Rightarrow> Inr (None, d)
      | Some s \<Rightarrow>
          if j_status s \<notin> {Completed, Failed, Dead} then Inr (None, d)
          else
            (case add capability clock now (j_name s)
                    (Some (case overrides of None \<Rightarrow> j_data s | Some ov \<Rightarrow> spread (j_data s) ov))
                    (no_opts\<lparr>o_queue := Some (j_queue s), o_priority := Some (j_priority s),
                       o_max_attempts := Some (j_max_attempts s),
                       o_backoff_type := Some (j_backoff_type s),
                       o_backoff_delay := Some (j_backoff_delay s),
                       o_backoff_jitter := Some (j_backoff_jitter s)\<rparr>) False d of
               Inl e \<Rightarrow> Inl e
             | Inr (r, d') \<Rightarrow> Inr (Some r, d')))"

end
