(* ===== verification/Minion_Lifecycle.thy ===== *)
theory Minion_Lifecycle
  imports Minion_Submit
begin

text \<open>
  The abstract specification of the queue, and the proof that its operations implement it.

  \<^item> \<open>advance\<close> is the state machine of one job's status, \<open>reopen\<close> the operator's retry.
  \<^item> \<open>row_ok\<close> is the invariant of one row: the CHECK constraints of the table, and one more
    attempt started than made while the job is active (which is what makes the constraint
    \<open>attempts_made <= attempts_started\<close> survive the next failure).
  \<^item> \<open>evolves T d d'\<close> says that every row of \<open>d\<close> is still there in \<open>d'\<close>, at the same place, with
    its identity kept, its invariant kept, and its status moved along \<open>T\<close>.
  \<^item> Each operation is an \<open>evolves\<close> step, followed by a deletion of closed rows or preceded by an
    insertion where the code has them.
\<close>

named_theorems evolves_intros \<open>operations that move rows along the life cycle\<close>

section \<open>The status machine\<close>

inductive advance :: "job_status \<Rightarrow> job_status \<Rightarrow> bool" where
  claimed: "advance Waiting Active"
| completed: "advance Active Completed"
| failed_for_good: "s \<in> {Failed, Dead} \<Longrightarrow> advance Active s"
| retry_later: "advance Active Delayed"
| requeued: "advance Active Waiting"
| promoted: "advance Delayed Waiting"
| parked: "s \<in> {Waiting, Active, Delayed} \<Longrightarrow> advance s WaitingChildren"
| unparked: "advance WaitingChildren Waiting"
| failed_by_child: "advance WaitingChildren Failed"
| paused: "s \<in> {Waiting, Active, Delayed} \<Longrightarrow> advance s Paused"
| resumed: "advance Paused Waiting"
| cancelled: "\<not> terminal s \<Longrightarrow> advance s Cancelled"

inductive reopen :: "job_status \<Rightarrow> job_status \<Rightarrow> bool" where
  "s \<in> {Failed, Dead} \<Longrightarrow> reopen s Waiting"

definition advance_or_reopen :: "job_status \<Rightarrow> job_status \<Rightarrow> bool" where
  "advance_or_reopen s t \<longleftrightarrow> advance s t \<or> reopen s t"

inductive_cases advance_terminal: "advance Completed t" "advance Failed t" "advance Dead t" "advance Cancelled t"

inductive_simps advance_into:
  "advance s Active" "advance s Completed" "advance s WaitingChildren" "advance s Delayed"

lemma advance_from_open: "advance s t \<Longrightarrow> \<not> terminal s"
  by (induction rule: advance.induct) auto

lemma advances_from_terminal:
  assumes "advance\<^sup>*\<^sup>* s t" "terminal s"
  shows "t = s"
  using assms by (induction rule: converse_rtranclp_induct) (auto dest: advance_from_open)

section \<open>One row\<close>

definition row_ok :: "minion_job \<Rightarrow> bool" where
  "row_ok r \<longleftrightarrow> check_constraints r \<and>
     (j_status r = Active \<longrightarrow> j_attempts_made r < j_attempts_started r)"

definition same_identity :: "minion_job \<Rightarrow> minion_job \<Rightarrow> bool" where
  "same_identity r r' \<longleftrightarrow>
     j_id r' = j_id r \<and> j_name r' = j_name r \<and> j_queue r' = j_queue r \<and> j_depth r' = j_depth r \<and>
     j_max_attempts r' = j_max_attempts r \<and> j_max_children r' = j_max_children r \<and>
     j_created_at r' = j_created_at r \<and>
     (j_parent_job_id r' = j_parent_job_id r \<or> j_parent_job_id r' = None) \<and>
     (j_idempotency_key r' = j_idempotency_key r \<or> j_idempotency_key r' = None)"

definition row_evolves ::
  "(job_status \<Rightarrow> job_status \<Rightarrow> bool) \<Rightarrow> minion_job \<Rightarrow> minion_job \<Rightarrow> bool" where
  "row_evolves T r r' \<longleftrightarrow>
     same_identity r r' \<and> (row_ok r \<longrightarrow> row_ok r') \<and> T\<^sup>*\<^sup>* (j_status r) (j_status r')"

lemma same_identity_refl [simp]: "same_identity r r"
  by (simp add: same_identity_def)

lemma same_identity_trans: "same_identity a b \<Longrightarrow> same_identity b c \<Longrightarrow> same_identity a c"
  unfolding same_identity_def by (elim conjE disjE; simp)

lemma row_evolves_refl [simp]: "row_evolves T r r"
  by (simp add: row_evolves_def)

lemma row_evolves_trans: "row_evolves T a b \<Longrightarrow> row_evolves T b c \<Longrightarrow> row_evolves T a c"
  by (auto simp: row_evolves_def intro: same_identity_trans)

lemma row_evolves_mono:
  assumes "\<And>s t. T s t \<Longrightarrow> U s t" "row_evolves T a b"
  shows "row_evolves U a b"
proof -
  have "T\<^sup>*\<^sup>* \<le> U\<^sup>*\<^sup>*"
    by (rule rtranclp_mono) (use assms(1) in auto)
  then show ?thesis
    using assms(2) by (auto simp: row_evolves_def)
qed

text \<open>How a single row function is shown to follow the machine.\<close>

lemma row_evolvesI:
  assumes "same_identity r r'" "row_ok r \<Longrightarrow> row_ok r'"
    and "j_status r' = j_status r \<or> T (j_status r) (j_status r')"
  shows "row_evolves T r r'"
  using assms by (auto simp: row_evolves_def)

lemmas row_defs =
  same_identity_def row_ok_def check_constraints_def unlock_def set_status_def cancel_row_def
  claim_row_def timeout_row_def stall_requeue_row_def stall_dead_row_def complete_row_def
  add_tokens_def fail_row_def fail_parent_row_def release_row_def retry_row_def

section \<open>The table\<close>

definition evolves :: "(job_status \<Rightarrow> job_status \<Rightarrow> bool) \<Rightarrow> db \<Rightarrow> db \<Rightarrow> bool" where
  "evolves T d d' \<longleftrightarrow>
     list_all2 (row_evolves T) (jobs d) (jobs d') \<and> next_job_id d' = next_job_id d \<and>
     schema_version d' = schema_version d"

lemma evolves_refl [simp]: "evolves T d d"
  by (simp add: evolves_def list.rel_refl)

lemma evolves_trans [trans]:
  assumes "evolves T a b" "evolves T b c"
  shows "evolves T a c"
proof -
  have "list_all2 (row_evolves T) (jobs a) (jobs c)"
    by (rule list_all2_trans [OF row_evolves_trans]) (use assms in \<open>auto simp: evolves_def\<close>)
  with assms show ?thesis
    by (simp add: evolves_def)
qed

lemma evolves_mono:
  assumes "\<And>s t. T s t \<Longrightarrow> U s t" "evolves T a b"
  shows "evolves U a b"
  using assms unfolding evolves_def
  by (auto elim!: list_all2_mono intro: row_evolves_mono)

lemma evolves_same_jobs:
  "jobs d' = jobs d \<Longrightarrow> next_job_id d' = next_job_id d \<Longrightarrow> schema_version d' = schema_version d
   \<Longrightarrow> evolves T d d'"
  by (simp add: evolves_def list.rel_refl)

lemma evolves_update_jobs:
  assumes "\<And>r. r \<in> set (jobs d) \<Longrightarrow> P r \<Longrightarrow> row_evolves T r (f r)"
  shows "evolves T d (update_jobs P f d)"
  using assms
  by (simp add: evolves_def update_where_def list_all2_conv_all_nth)

lemma evolves_row:
  assumes "evolves T d d'" "r' \<in> set (jobs d')"
  obtains r where "r \<in> set (jobs d)" "row_evolves T r r'"
  using assms by (force simp: evolves_def list_all2_conv_all_nth in_set_conv_nth)

lemma evolves_ids: "evolves T d d' \<Longrightarrow> map j_id (jobs d') = map j_id (jobs d)"
  by (auto simp: evolves_def list_all2_conv_all_nth row_evolves_def same_identity_def
      intro!: nth_equalityI)

lemma evolves_fold:
  assumes "\<And>x d. evolves T d (f x d)"
  shows "evolves T d (fold f xs d)"
proof (induction xs arbitrary: d)
  case Nil
  show ?case by simp
next
  case (Cons x xs)
  have "evolves T d (f x d)" by (rule assms)
  also have "evolves T (f x d) (fold f xs (f x d))" by (rule Cons.IH)
  finally show ?case by simp
qed

text \<open>The building blocks of the operations.\<close>

lemma jobs_post_child_done [simp]:
  "jobs (post_child_done now p m d) = jobs d"
  "next_job_id (post_child_done now p m d) = next_job_id d"
  "schema_version (post_child_done now p m d) = schema_version d"
  by (simp_all add: post_child_done_def)

lemma jobs_notify_parents [simp]:
  "jobs (notify_parents now oc err rows d) = jobs d"
  "next_job_id (notify_parents now oc err rows d) = next_job_id d"
  "schema_version (notify_parents now oc err rows d) = schema_version d"
  unfolding notify_parents_def
  by (induction rows arbitrary: d) (simp_all split: option.split)

lemma snd_one_row [simp]: "snd (one_row P f d) = update_jobs P f d"
  by (simp add: one_row_def)

lemma jobs_resolveParent:
  "snd (resolveParent now p d) =
     update_jobs (\<lambda>r. j_id r = p \<and> j_status r = WaitingChildren \<and> \<not> has_open_child p (jobs d))
       (set_status Waiting now) d"
  by (simp add: resolveParent_def)

lemma evolves_resolveParent [evolves_intros]: "evolves advance d (snd (resolveParent now p d))"
  unfolding jobs_resolveParent
  by (rule evolves_update_jobs, rule row_evolvesI) (auto simp: row_defs intro: advance.intros)

lemma evolves_resolve_parents [evolves_intros]: "evolves advance d (resolve_parents now ps d)"
  unfolding resolve_parents_def comp_def by (rule evolves_fold) (rule evolves_resolveParent)

lemma evolves_post_child_done [evolves_intros]: "evolves T d (post_child_done now p m d)"
  by (rule evolves_same_jobs) simp_all

lemma evolves_notify_parents [evolves_intros]: "evolves T d (notify_parents now oc err rows d)"
  by (rule evolves_same_jobs) simp_all

lemma evolves_roll_up_tokens [evolves_intros]: "evolves T d (roll_up_tokens now c p d)"
proof -
  have "evolves T d (update_jobs (\<lambda>r. j_id r = p \<and> open_job r) (add_tokens now a b e) d)" for a b e
    by (rule evolves_update_jobs, rule row_evolvesI) (auto simp: row_defs)
  then show ?thesis
    by (simp add: roll_up_tokens_def)
qed

lemma snd_fenced [simp]: "snd (fenced i tok f d) = update_jobs (holds i tok) f d"
  by (simp add: fenced_def)

section \<open>Deleting and inserting rows\<close>

text \<open>
  \<open>table_ok\<close>: ids are unique, positive and below the sequence; a parent link points to an
  existing row with a smaller id and a depth one less; an idempotency key names one row.
\<close>

definition lineage_ok :: "minion_job list \<Rightarrow> bool" where
  "lineage_ok t \<longleftrightarrow>
     (\<forall>r \<in> set t. \<forall>p. j_parent_job_id r = Some p \<longrightarrow>
        (\<exists>q \<in> set t. j_id q = p \<and> j_depth r = j_depth q + 1 \<and> p < j_id r))"

definition keys_ok :: "minion_job list \<Rightarrow> bool" where
  "keys_ok t \<longleftrightarrow>
     (\<forall>r \<in> set t. \<forall>r' \<in> set t. \<forall>k. j_idempotency_key r = Some k \<longrightarrow>
        j_idempotency_key r' = Some k \<longrightarrow> j_id r = j_id r')"

text \<open>Equations that compute.\<close>

lemma lineage_ok_code [code]:
  "lineage_ok t = list_all (\<lambda>r. case j_parent_job_id r of None \<Rightarrow> True
     | Some p \<Rightarrow> list_ex (\<lambda>q. j_id q = p \<and> j_depth r = j_depth q + 1 \<and> p < j_id r) t) t"
proof -
  have "(\<forall>p. a = Some p \<longrightarrow> Q p) \<longleftrightarrow> (case a of None \<Rightarrow> True | Some p \<Rightarrow> Q p)" for a :: "int option" and Q
    by (cases a) auto
  then show ?thesis by (simp only: lineage_ok_def list_all_iff list_ex_iff)
qed

lemma keys_ok_code [code]:
  "keys_ok t = list_all (\<lambda>r. list_all (\<lambda>r'. j_idempotency_key r \<noteq> None \<longrightarrow>
     j_idempotency_key r' = j_idempotency_key r \<longrightarrow> j_id r = j_id r') t) t"
proof -
  have "(\<forall>k. a = Some k \<longrightarrow> b = Some k \<longrightarrow> c) \<longleftrightarrow> (a \<noteq> None \<longrightarrow> b = a \<longrightarrow> c)" for a b :: "string option" and c
    by (cases a) auto
  then show ?thesis by (simp only: keys_ok_def list_all_iff)
qed

definition table_ok :: "db \<Rightarrow> bool" where
  "table_ok d \<longleftrightarrow>
     distinct (map j_id (jobs d)) \<and>
     (\<forall>r \<in> set (jobs d). 1 \<le> j_id r \<and> j_id r < next_job_id d) \<and> 1 \<le> next_job_id d \<and>
     lineage_ok (jobs d) \<and> keys_ok (jobs d)"

definition fresh_row :: "db \<Rightarrow> minion_job \<Rightarrow> bool" where
  "fresh_row d r \<longleftrightarrow> j_id r = next_job_id d \<and> row_ok r \<and> j_status r \<in> {Waiting, Delayed}"

text \<open>The specification of one operation over the whole table.\<close>

definition follows :: "(job_status \<Rightarrow> job_status \<Rightarrow> bool) \<Rightarrow> db \<Rightarrow> db \<Rightarrow> bool" where
  "follows T d d' \<longleftrightarrow>
     (\<forall>r' \<in> set (jobs d'). (\<exists>r \<in> set (jobs d). row_evolves T r r') \<or> fresh_row d r') \<and>
     next_job_id d \<le> next_job_id d' \<and> (table_ok d \<longrightarrow> table_ok d')"

lemma lineage_okD:
  "lineage_ok t \<Longrightarrow> r \<in> set t \<Longrightarrow> j_parent_job_id r = Some p \<Longrightarrow>
   \<exists>q \<in> set t. j_id q = p \<and> j_depth r = j_depth q + 1 \<and> p < j_id r"
  by (simp add: lineage_ok_def)

lemma keys_okD:
  "keys_ok t \<Longrightarrow> r \<in> set t \<Longrightarrow> r' \<in> set t \<Longrightarrow> j_idempotency_key r = Some k \<Longrightarrow>
   j_idempotency_key r' = Some k \<Longrightarrow> j_id r = j_id r'"
  unfolding keys_ok_def by blast

lemma evolves_row_forward:
  assumes "evolves T d d'" "r \<in> set (jobs d)"
  obtains r' where "r' \<in> set (jobs d')" "row_evolves T r r'"
  using assms by (force simp: evolves_def list_all2_conv_all_nth in_set_conv_nth)

lemma row_evolvesD:
  assumes "row_evolves T r r'"
  shows "j_id r' = j_id r" "j_depth r' = j_depth r"
    and "j_parent_job_id r' = Some p \<Longrightarrow> j_parent_job_id r = Some p"
    and "j_idempotency_key r' = Some k \<Longrightarrow> j_idempotency_key r = Some k"
    and "row_ok r \<Longrightarrow> row_ok r'"
  using assms by (auto simp: row_evolves_def same_identity_def)

lemma evolves_lineage_ok:
  assumes "evolves T d d'" "lineage_ok (jobs d)"
  shows "lineage_ok (jobs d')"
  unfolding lineage_ok_def
proof (intro ballI allI impI)
  fix r' p assume r': "r' \<in> set (jobs d')" "j_parent_job_id r' = Some p"
  obtain r where r: "r \<in> set (jobs d)" "row_evolves T r r'"
    using evolves_row [OF assms(1) r'(1)] .
  obtain q where q: "q \<in> set (jobs d)" "j_id q = p" "j_depth r = j_depth q + 1" "p < j_id r"
    using lineage_okD [OF assms(2) r(1)] row_evolvesD(3) [OF r(2) r'(2)] by blast
  obtain q' where "q' \<in> set (jobs d')" "row_evolves T q q'"
    using evolves_row_forward [OF assms(1) q(1)] .
  then show "\<exists>q \<in> set (jobs d'). j_id q = p \<and> j_depth r' = j_depth q + 1 \<and> p < j_id r'"
    using q row_evolvesD(1,2) [OF r(2)] row_evolvesD(1,2) [of T q q'] by auto
qed

lemma evolves_keys_ok:
  assumes "evolves T d d'" "keys_ok (jobs d)"
  shows "keys_ok (jobs d')"
  unfolding keys_ok_def
proof (intro ballI allI impI)
  fix a b k assume ab: "a \<in> set (jobs d')" "b \<in> set (jobs d')"
    and k: "j_idempotency_key a = Some k" "j_idempotency_key b = Some k"
  obtain a0 where a0: "a0 \<in> set (jobs d)" "row_evolves T a0 a"
    using evolves_row [OF assms(1) ab(1)] .
  obtain b0 where b0: "b0 \<in> set (jobs d)" "row_evolves T b0 b"
    using evolves_row [OF assms(1) ab(2)] .
  have "j_id a0 = j_id b0"
    using keys_okD [OF assms(2) a0(1) b0(1) row_evolvesD(4) [OF a0(2) k(1)]
      row_evolvesD(4) [OF b0(2) k(2)]] .
  then show "j_id a = j_id b"
    using row_evolvesD(1) [OF a0(2)] row_evolvesD(1) [OF b0(2)] by simp
qed

lemma evolves_table_ok:
  assumes "evolves T d d'" "table_ok d"
  shows "table_ok d'"
proof -
  have "1 \<le> j_id r' \<and> j_id r' < next_job_id d'" if r': "r' \<in> set (jobs d')" for r'
  proof -
    obtain r where r: "r \<in> set (jobs d)" "row_evolves T r r'"
      using evolves_row [OF assms(1) r'] .
    then show ?thesis
      using assms row_evolvesD(1) [OF r(2)] by (simp add: table_ok_def evolves_def)
  qed
  moreover have "lineage_ok (jobs d')" "keys_ok (jobs d')"
    using evolves_lineage_ok [OF assms(1)] evolves_keys_ok [OF assms(1)] assms(2)
    by (simp_all add: table_ok_def)
  ultimately show ?thesis
    using assms(2) evolves_ids [OF assms(1)] assms(1) by (simp add: table_ok_def evolves_def)
qed

lemma evolves_follows:
  assumes "evolves T d d'"
  shows "follows T d d'"
proof -
  have "\<exists>r \<in> set (jobs d). row_evolves T r r'" if "r' \<in> set (jobs d')" for r'
    using evolves_row [OF assms that] by blast
  moreover have "next_job_id d' = next_job_id d"
    using assms by (simp add: evolves_def)
  ultimately show ?thesis
    using evolves_table_ok [OF assms] by (simp add: follows_def)
qed

lemma jobs_delete_jobs:
  "jobs (delete_jobs P d) =
     update_where
       (\<lambda>r. case j_parent_job_id r of None \<Rightarrow> False
            | Some p \<Rightarrow> (\<exists>q \<in> set (jobs d). P q \<and> j_id q = p))
       (\<lambda>r. r\<lparr>j_parent_job_id := None\<rparr>) (delete_where P (jobs d))"
  unfolding delete_jobs_def Let_def
  by (auto simp: update_where_def split: option.split)

lemma in_delete_jobsE:
  assumes "r' \<in> set (jobs (delete_jobs P d))"
  obtains r where "r \<in> set (jobs d)" "\<not> P r" "r' = r \<or> r' = r\<lparr>j_parent_job_id := None\<rparr>"
    "\<And>p. j_parent_job_id r' = Some p \<Longrightarrow>
       j_parent_job_id r = Some p \<and> (\<forall>q \<in> set (jobs d). j_id q = p \<longrightarrow> \<not> P q)"
proof -
  obtain r where "r \<in> set (delete_where P (jobs d))"
    "r' = (if (case j_parent_job_id r of None \<Rightarrow> False
               | Some p \<Rightarrow> (\<exists>q \<in> set (jobs d). P q \<and> j_id q = p))
           then r\<lparr>j_parent_job_id := None\<rparr> else r)"
    using assms unfolding jobs_delete_jobs by (rule in_update_whereE)
  then show thesis
    by (intro that [of r]) (auto split: option.splits if_splits)
qed

lemma row_evolves_drop_parent: "row_evolves T r (r\<lparr>j_parent_job_id := None\<rparr>)"
  by (rule row_evolvesI) (simp_all add: row_defs)

lemma delete_jobs_rows:
  assumes "r' \<in> set (jobs (delete_jobs P d))"
  shows "\<exists>r \<in> set (jobs d). \<not> P r \<and> row_evolves T r r' \<and> j_status r' = j_status r"
proof -
  obtain r where "r \<in> set (jobs d)" "\<not> P r" "r' = r \<or> r' = r\<lparr>j_parent_job_id := None\<rparr>"
    using assms by (rule in_delete_jobsE)
  then show ?thesis
    using row_evolves_drop_parent row_evolves_refl by (intro bexI [of _ r]) auto
qed

lemma in_delete_jobsI:
  assumes "q \<in> set (jobs d)" "\<not> P q"
  shows "\<exists>q' \<in> set (jobs (delete_jobs P d)). j_id q' = j_id q \<and> j_depth q' = j_depth q"
  using assms by (auto simp: jobs_delete_jobs)

lemma delete_jobs_lineage_ok:
  assumes "lineage_ok (jobs d)"
  shows "lineage_ok (jobs (delete_jobs P d))"
  unfolding lineage_ok_def
proof (intro ballI allI impI)
  fix r' p assume r': "r' \<in> set (jobs (delete_jobs P d))" "j_parent_job_id r' = Some p"
  then obtain r where r: "r \<in> set (jobs d)" "j_id r' = j_id r" "j_depth r' = j_depth r"
    "\<forall>q \<in> set (jobs d). j_id q = p \<longrightarrow> \<not> P q" "j_parent_job_id r = Some p"
    by (elim in_delete_jobsE) auto
  obtain q where q: "q \<in> set (jobs d)" "j_id q = p" "j_depth r = j_depth q + 1" "p < j_id r"
    using lineage_okD [OF assms r(1) r(5)] by blast
  then obtain q' where "q' \<in> set (jobs (delete_jobs P d))" "j_id q' = p" "j_depth q' = j_depth q"
    using in_delete_jobsI [of q d P] r(4) by auto
  then show "\<exists>q \<in> set (jobs (delete_jobs P d)). j_id q = p \<and> j_depth r' = j_depth q + 1 \<and> p < j_id r'"
    using q r(2,3) by auto
qed

lemma delete_jobs_keys_ok:
  assumes "keys_ok (jobs d)"
  shows "keys_ok (jobs (delete_jobs P d))"
proof -
  have old: "\<exists>r \<in> set (jobs d). row_evolves advance r r'"
    if "r' \<in> set (jobs (delete_jobs P d))" for r'
    using delete_jobs_rows [OF that] by blast
  show ?thesis
    unfolding keys_ok_def
  proof (intro ballI allI impI)
    fix a b k assume ab: "a \<in> set (jobs (delete_jobs P d))" "b \<in> set (jobs (delete_jobs P d))"
      and k: "j_idempotency_key a = Some k" "j_idempotency_key b = Some k"
    obtain a0 b0 where a0: "a0 \<in> set (jobs d)" "row_evolves advance a0 a"
      and b0: "b0 \<in> set (jobs d)" "row_evolves advance b0 b"
      using old [OF ab(1)] old [OF ab(2)] by blast
    show "j_id a = j_id b"
      using keys_okD [OF assms a0(1) b0(1) row_evolvesD(4) [OF a0(2) k(1)]
        row_evolvesD(4) [OF b0(2) k(2)]] row_evolvesD(1) [OF a0(2)] row_evolvesD(1) [OF b0(2)]
      by simp
  qed
qed

lemma delete_jobs_ids:
  "map j_id (jobs (delete_jobs P d)) = map j_id (delete_where P (jobs d))"
  unfolding jobs_delete_jobs by (rule map_key_update_where) simp

lemma delete_jobs_table_ok:
  assumes "table_ok d"
  shows "table_ok (delete_jobs P d)"
proof -
  have "distinct (map j_id (jobs (delete_jobs P d)))"
    using assms by (simp add: delete_jobs_ids table_ok_def distinct_key_delete_where)
  moreover have "1 \<le> j_id r' \<and> j_id r' < next_job_id d"
    if r': "r' \<in> set (jobs (delete_jobs P d))" for r'
  proof -
    obtain r where r: "r \<in> set (jobs d)" "row_evolves advance r r'"
      using delete_jobs_rows [OF r'] by blast
    then show ?thesis
      using assms row_evolvesD(1) [OF r(2)] by (simp add: table_ok_def)
  qed
  ultimately show ?thesis
    using assms by (simp add: table_ok_def delete_jobs_lineage_ok delete_jobs_keys_ok)
qed

lemma follows_delete:
  assumes "follows T d e"
  shows "follows T d (delete_jobs P e)"
proof -
  have "(\<exists>r \<in> set (jobs d). row_evolves T r r') \<or> fresh_row d r'"
    if r': "r' \<in> set (jobs (delete_jobs P e))" for r'
  proof -
    obtain s where s: "s \<in> set (jobs e)" and step: "row_evolves T s r'"
      and st: "j_status r' = j_status s"
      using delete_jobs_rows [OF r'] by blast
    from assms s consider r where "r \<in> set (jobs d)" "row_evolves T r s" | "fresh_row d s"
      unfolding follows_def by blast
    then show ?thesis
    proof cases
      case 1
      with step show ?thesis by (blast intro: row_evolves_trans)
    next
      case 2
      then have "fresh_row d r'"
        using row_evolvesD(1,5) [OF step] st by (simp add: fresh_row_def)
      then show ?thesis ..
    qed
  qed
  with assms show ?thesis
    by (auto simp: follows_def intro: delete_jobs_table_ok)
qed

end
