(* ===== verification/Minion_Refinement.thy ===== *)
theory Minion_Refinement
  imports Minion_Lifecycle
begin

text \<open>
  Every operation of the queue (theory Minion_Queue, Minion_Submit) refines the abstract life
  cycle of theory Minion_Lifecycle: one lemma per operation, \<open>evolves_<op>\<close> when it keeps the
  set of rows, \<open>follows_<op>\<close> when it may also delete or insert.  The lemma says that identities
  are kept, the row invariant is kept and every status moves along the state machine.
\<close>

section \<open>Each operation follows the life cycle\<close>

lemma distinct_idD:
  "table_ok d \<Longrightarrow> r \<in> set (jobs d) \<Longrightarrow> r' \<in> set (jobs d) \<Longrightarrow> j_id r = j_id r' \<Longrightarrow> r = r'"
  using distinct_key_unique [of j_id "jobs d"] by (simp add: table_ok_def)

lemma followsI_evolves: "evolves advance d e \<Longrightarrow> d' = e \<Longrightarrow> follows advance d d'"
  using evolves_follows by simp

lemma claim_snd:
  "snd (claim now tok dur q names d) =
     (if names = [] then d
      else case first_min claim_before (filter (claimable q names) (jobs d)) of
        None \<Rightarrow> d
      | Some r \<Rightarrow> update_jobs (\<lambda>x. j_id x = j_id r) (claim_row now tok dur) d)"
  by (simp add: claim_def split: option.split)

lemma evolves_claim:
  assumes "table_ok d"
  shows "evolves advance d (snd (claim now tok dur q names d))"
proof (cases "first_min claim_before (filter (claimable q names) (jobs d))")
  case None
  then show ?thesis by (simp add: claim_snd)
next
  case (Some r)
  then have r: "r \<in> set (jobs d)" "claimable q names r"
    using first_min_in [OF Some] by simp_all
  have "evolves advance d (update_jobs (\<lambda>x. j_id x = j_id r) (claim_row now tok dur) d)"
  proof (rule evolves_update_jobs)
    fix x assume x: "x \<in> set (jobs d)" "j_id x = j_id r"
    have "j_status x = Waiting"
      using distinct_idD [OF assms x(1) r(1) x(2)] r(2) by (simp add: claimable_def)
    then show "row_evolves advance x (claim_row now tok dur x)"
      by (intro row_evolvesI) (auto simp: row_defs intro: advance.intros)
  qed
  with Some show ?thesis by (simp add: claim_snd)
qed

lemma evolves_cancelJob: "evolves advance d (snd (cancelJob now i d))"
proof -
  let ?P = "\<lambda>r. j_id r \<in> set (cancel_ids i d) \<and> open_job r"
  let ?d1 = "update_jobs ?P (cancel_row now) d"
  let ?rows = "updated_jobs ?P (cancel_row now) d"
  let ?d2 = "notify_parents now OCancelled ''cancelled'' ?rows ?d1"
  have "evolves advance d ?d1"
    by (rule evolves_update_jobs, rule row_evolvesI) (auto simp: row_defs intro: advance.intros)
  also have "evolves advance ?d1 ?d2"
    by (rule evolves_notify_parents)
  also have "evolves advance ?d2 (resolve_parents now (parent_ids ?rows) ?d2)"
    by (rule evolves_resolve_parents)
  finally show ?thesis
    by (simp add: cancelJob_def Let_def)
qed

lemma evolves_dead_letter_sweep:
  assumes "\<And>r. P r \<Longrightarrow> j_status r = Active"
  shows "evolves advance d (snd (dead_letter_sweep P err now d))"
proof -
  let ?d1 = "update_jobs P (timeout_row err now) d"
  let ?rows = "updated_jobs P (timeout_row err now) d"
  let ?d2 = "notify_parents now OTimeout err ?rows ?d1"
  have "evolves advance d ?d1"
  proof (rule evolves_update_jobs, rule row_evolvesI)
    fix r assume "P r"
    then have act: "j_status r = Active" by (rule assms)
    show "same_identity r (timeout_row err now r)"
      by (simp add: row_defs)
    show "row_ok r \<Longrightarrow> row_ok (timeout_row err now r)"
      using act by (simp add: row_defs)
    show "j_status (timeout_row err now r) = j_status r \<or>
          advance (j_status r) (j_status (timeout_row err now r))"
      using act by (auto simp: row_defs intro: advance.intros)
  qed
  also have "evolves advance ?d1 ?d2"
    by (rule evolves_notify_parents)
  also have "evolves advance ?d2 (resolve_parents now (parent_ids ?rows) ?d2)"
    by (rule evolves_resolve_parents)
  finally show ?thesis
    by (simp add: dead_letter_sweep_def Let_def)
qed

lemma evolves_handleTimeouts: "evolves advance d (snd (handleTimeouts now d))"
  unfolding handleTimeouts_def by (rule evolves_dead_letter_sweep) (simp add: timed_out_def)

lemma evolves_handleWallClockTimeouts:
  "evolves advance d (snd (handleWallClockTimeouts now dur d))"
  unfolding handleWallClockTimeouts_def
  by (rule evolves_dead_letter_sweep) (simp add: wall_clock_exceeded_def)

lemma evolves_handleStalled: "evolves advance d (snd (handleStalled now d))"
proof -
  have "row_evolves advance r (stall_row now r)" if "stalled now r" for r
    using that
    by (intro row_evolvesI) (auto simp: stall_row_def stalled_def row_defs intro: advance.intros)
  then show ?thesis
    by (simp add: handleStalled_def Let_def evolves_update_jobs)
qed

lemma evolves_promoteDelayed: "evolves advance d (snd (promoteDelayed now d))"
  unfolding promoteDelayed_def Let_def snd_conv
  by (rule evolves_update_jobs, rule row_evolvesI) (auto simp: row_defs intro: advance.intros)

lemma evolves_pauseJob: "evolves advance d (snd (pauseJob now i d))"
  unfolding pauseJob_def snd_one_row
  by (rule evolves_update_jobs, rule row_evolvesI) (auto simp: row_defs intro: advance.intros)

lemma evolves_resumeJob: "evolves advance d (snd (resumeJob now i d))"
  unfolding resumeJob_def snd_one_row
  by (rule evolves_update_jobs, rule row_evolvesI) (auto simp: row_defs intro: advance.intros)

lemma evolves_retryJob: "evolves reopen d (snd (retryJob now i d))"
  unfolding retryJob_def snd_one_row
  by (rule evolves_update_jobs, rule row_evolvesI) (auto simp: row_defs intro: reopen.intros)

lemma evolves_failParent: "evolves advance d (snd (failParent now p c err d))"
  unfolding failParent_def snd_one_row
  by (rule evolves_update_jobs, rule row_evolvesI) (auto simp: row_defs intro: advance.intros)

lemma evolves_removeChildDependency: "evolves T d (removeChildDependency now i d)"
  unfolding removeChildDependency_def
  by (rule evolves_update_jobs, rule row_evolvesI) (auto simp: row_defs)

lemma evolves_releaseLeaseFullJob:
  "evolves advance d (snd (releaseLeaseFullJob now i tok err b d))"
  unfolding releaseLeaseFullJob_def snd_one_row
  by (rule evolves_update_jobs, rule row_evolvesI) (auto simp: row_defs holds_def intro: advance.intros)

lemma evolves_updateProgress: "evolves T d (snd (updateProgress now i tok p d))"
  unfolding updateProgress_def snd_fenced
  by (rule evolves_update_jobs, rule row_evolvesI) (auto simp: row_defs)

lemma evolves_renewLock: "evolves T d (snd (renewLock now i tok dur d))"
  unfolding renewLock_def snd_fenced
  by (rule evolves_update_jobs, rule row_evolvesI) (auto simp: row_defs)

lemma evolves_updateTokens: "evolves T d (snd (updateTokens now i tok a b c d))"
  unfolding updateTokens_def snd_fenced
  by (rule evolves_update_jobs, rule row_evolvesI) (auto simp: row_defs)

lemma evolves_log_line: "evolves T d (log_line now i tok m d)"
  unfolding log_line_def
  by (rule evolves_update_jobs, rule row_evolvesI) (auto simp: row_defs)

lemma evolves_quiet_release: "evolves T d (quiet_release now i tok d)"
  unfolding quiet_release_def
  by (rule evolves_update_jobs, rule row_evolvesI) (auto simp: row_defs)

lemma evolves_quiet_force_cancel: "evolves advance d (quiet_force_cancel now i d)"
proof -
  have "row_evolves advance r
      (r\<lparr>j_status := Cancelled, j_error_text := Some e, j_updated_at := now\<rparr>)"
    if s: "j_status r \<notin> {Completed, Failed, Dead}" for r e
  proof (rule row_evolvesI)
    have "s = Cancelled \<or> advance s Cancelled" if "s \<notin> {Completed, Failed, Dead}" for s
      using that by (cases s) (simp_all add: advance.cancelled)
    from this [OF s]
    show "j_status (r\<lparr>j_status := Cancelled, j_error_text := Some e, j_updated_at := now\<rparr>) = j_status r \<or>
          advance (j_status r) (j_status (r\<lparr>j_status := Cancelled, j_error_text := Some e, j_updated_at := now\<rparr>))"
      by (simp add: eq_commute)
  qed (simp_all add: row_defs)
  then show ?thesis
    unfolding quiet_force_cancel_def by (intro evolves_update_jobs) simp
qed

lemma sendMessage_jobs:
  "jobs (snd (sendMessage now i m s d)) = jobs d"
  "next_job_id (snd (sendMessage now i m s d)) = next_job_id d"
  "schema_version (snd (sendMessage now i m s d)) = schema_version d"
  by (simp_all add: sendMessage_def insert_message_def Let_def split: option.split)

lemma evolves_sendMessage: "evolves T d (snd (sendMessage now i m s d))"
  by (rule evolves_same_jobs) (simp_all add: sendMessage_jobs)

lemma evolves_readInbox: "evolves T d (snd (readInbox now i tok d))"
  by (rule evolves_same_jobs) (simp_all add: readInbox_def Let_def)

text \<open>Completing and failing: the row, the parent, then possibly the deletion of the row.\<close>

lemma evolves_complete_parent:
  "evolves advance d
     (case po of None \<Rightarrow> d
      | Some p \<Rightarrow> snd (resolveParent now p (post_child_done now p m (roll_up_tokens now c p d))))"
proof (cases po)
  case None
  then show ?thesis by simp
next
  case (Some p)
  have "evolves advance d (roll_up_tokens now c p d)"
    by (rule evolves_roll_up_tokens)
  also have "evolves advance \<dots> (post_child_done now p m (roll_up_tokens now c p d))"
    by (rule evolves_post_child_done)
  also have "evolves advance \<dots> (snd (resolveParent now p \<dots>))"
    by (rule evolves_resolveParent)
  finally show ?thesis using Some by simp
qed

lemma evolves_fail_parent_hook: "evolves advance d (fail_parent_hook now st err c p d)"
proof -
  let ?m = "child_done (j_id c) (j_name c) None (if st = FDead then ODead else OFailed) (Some err)"
  let ?d1 = "post_child_done now p ?m d"
  have 1: "evolves advance d ?d1"
    by (rule evolves_post_child_done)
  have "evolves advance ?d1 (fail_parent_hook now st err c p d)"
  proof (cases "j_on_child_fail c")
    case FailParent
    then show ?thesis by (simp add: fail_parent_hook_def Let_def evolves_failParent)
  next
    case RemoveDep
    have "evolves advance ?d1 (snd (resolveParent now p (removeChildDependency now (j_id c) ?d1)))"
      using evolves_removeChildDependency evolves_resolveParent by (rule evolves_trans)
    with RemoveDep show ?thesis by (simp add: fail_parent_hook_def Let_def)
  qed (simp_all add: fail_parent_hook_def Let_def evolves_resolveParent)
  with 1 show ?thesis by (rule evolves_trans)
qed

lemma follows_completeJob: "follows advance d (snd (completeJob now i tok res d))"
proof (cases "updated_jobs (holds i tok) (complete_row now res) d")
  case Nil
  then show ?thesis by (simp add: completeJob_def Let_def evolves_follows)
next
  case (Cons row rest)
  let ?d1 = "update_jobs (holds i tok) (complete_row now res) d"
  let ?c = "rowToMinionJob row"
  let ?m = "child_done (j_id ?c) (j_name ?c) res OComplete None"
  let ?d2 = "case j_parent_job_id ?c of None \<Rightarrow> ?d1
    | Some p \<Rightarrow> snd (resolveParent now p (post_child_done now p ?m (roll_up_tokens now ?c p ?d1)))"
  have "evolves advance d ?d1"
    by (rule evolves_update_jobs, rule row_evolvesI)
       (auto simp: row_defs holds_def intro: advance.intros)
  also have "evolves advance ?d1 ?d2"
    by (rule evolves_complete_parent)
  finally have "follows advance d ?d2"
    by (rule evolves_follows)
  then show ?thesis
    using Cons follows_delete [OF \<open>follows advance d ?d2\<close>]
    by (simp add: completeJob_def Let_def)
qed

lemma follows_failJob: "follows advance d (snd (failJob now i tok err st b d))"
proof (cases "updated_jobs (holds i tok) (fail_row now st err (orElse b 0)) d")
  case Nil
  then show ?thesis by (simp add: failJob_def Let_def evolves_follows)
next
  case (Cons row rest)
  let ?d1 = "update_jobs (holds i tok) (fail_row now st err (orElse b 0)) d"
  let ?c = "rowToMinionJob row"
  let ?d2 = "case j_parent_job_id ?c of
      Some p \<Rightarrow> if st \<noteq> FDelayed then fail_parent_hook now st err ?c p ?d1 else ?d1 | None \<Rightarrow> ?d1"
  have "evolves advance d ?d1"
    by (rule evolves_update_jobs, rule row_evolvesI)
       (cases st; auto simp: row_defs holds_def intro: advance.intros)+
  also have "evolves advance ?d1 ?d2"
    by (simp add: evolves_fail_parent_hook split: option.split)
  finally have "follows advance d ?d2"
    by (rule evolves_follows)
  then show ?thesis
    using Cons follows_delete [OF \<open>follows advance d ?d2\<close>]
    by (simp add: failJob_def Let_def)
qed

lemma follows_removeJob: "follows advance d (snd (removeJob i d))"
  by (simp add: removeJob_def Let_def follows_delete evolves_follows)

lemma follows_prune: "follows advance d (snd (prune clock o1 sts dry d))"
  by (simp add: prune_def Let_def follows_delete evolves_follows)

section \<open>Submission\<close>

lemma find_key_row:
  "List.find (\<lambda>r. j_idempotency_key r = Some k) t = None \<longleftrightarrow>
     (\<forall>r \<in> set t. j_idempotency_key r \<noteq> Some k)"
  by (auto simp: find_None_iff)

lemma evolves_idempotent_hit:
  assumes "idempotent_hit key d = Inr d1"
  shows "evolves advance d d1"
proof -
  have "evolves advance d (update_jobs (\<lambda>x. j_id x = i) (\<lambda>x. x\<lparr>j_idempotency_key := None\<rparr>) d)" for i
    by (rule evolves_update_jobs, rule row_evolvesI) (auto simp: row_defs)
  with assms show ?thesis
    by (auto simp: idempotent_hit_def split: option.splits if_splits)
qed

lemma check_parent_Inr:
  assumes "check_parent parent md d = Inr depth" "parent = Some p" "p \<noteq> 0"
  obtains q where "q \<in> set (jobs d)" "j_id q = p" "depth = j_depth q + 1" "depth \<le> md"
    "\<And>cap. j_max_children q = Some cap \<Longrightarrow> live_children p d < cap"
proof -
  from assms obtain q where q: "find_job p d = Some q"
    by (auto simp: check_parent_def nonzero_def split: option.splits)
  show thesis
    by (rule that [of q])
       (use assms q find_job_Some [OF q] in
          \<open>auto simp: check_parent_def nonzero_def split: option.splits if_splits\<close>)
qed

lemma row_ok_new_row:
  "check_constraints (new_row clock now i nm data opts depth) \<Longrightarrow>
   row_ok (new_row clock now i nm data opts depth)"
  by (simp add: row_ok_def new_row_def)

lemma insert_job_Inr:
  assumes "insert_job r d = Inr (r', True, d')"
  shows "r' = r" "check_constraints r" "d' = d\<lparr>jobs := jobs d @ [r], next_job_id := next_job_id d + 1\<rparr>"
    and "\<And>k. j_idempotency_key r = Some k \<Longrightarrow> \<forall>x \<in> set (jobs d). j_idempotency_key x \<noteq> Some k"
    and "\<And>p. j_parent_job_id r = Some p \<Longrightarrow> \<exists>x \<in> set (jobs d). j_id x = p"
  using assms
  by (auto simp: insert_job_def Let_def find_key_row find_job_None split: if_splits option.splits
      dest: find_job_Some)

lemma insert_job_table_ok:
  assumes ok: "table_ok d" and ins: "insert_job r d = Inr (r', True, d')"
    and i: "j_id r = next_job_id d"
    and depth: "\<And>p. j_parent_job_id r = Some p \<Longrightarrow>
      \<exists>q \<in> set (jobs d). j_id q = p \<and> j_depth r = j_depth q + 1"
  shows "table_ok d'"
proof -
  note I = insert_job_Inr [OF ins]
  have below: "\<And>x. x \<in> set (jobs d) \<Longrightarrow> 1 \<le> j_id x \<and> j_id x < next_job_id d"
    using ok by (simp add: table_ok_def)
  have "lineage_ok (jobs d @ [r])"
    unfolding lineage_ok_def
  proof (intro ballI allI impI)
    fix x p assume x: "x \<in> set (jobs d @ [r])" "j_parent_job_id x = Some p"
    have "\<exists>q \<in> set (jobs d). j_id q = p \<and> j_depth x = j_depth q + 1 \<and> p < j_id x"
    proof (cases "x = r")
      case True
      with depth [of p] x(2) obtain q where "q \<in> set (jobs d)" "j_id q = p" "j_depth r = j_depth q + 1"
        by auto
      with True below [of q] i show ?thesis by auto
    next
      case False
      with x have "x \<in> set (jobs d)" by simp
      with ok x(2) show ?thesis
        by (auto simp: table_ok_def dest: lineage_okD)
    qed
    then show "\<exists>q \<in> set (jobs d @ [r]). j_id q = p \<and> j_depth x = j_depth q + 1 \<and> p < j_id x"
      by auto
  qed
  moreover have "keys_ok (jobs d @ [r])"
    unfolding keys_ok_def
  proof (intro ballI allI impI)
    fix a b k assume "a \<in> set (jobs d @ [r])" "b \<in> set (jobs d @ [r])"
      and k: "j_idempotency_key a = Some k" "j_idempotency_key b = Some k"
    then consider "a = r" "b = r" | "a \<in> set (jobs d)" "b \<in> set (jobs d)"
      | "a = r" "b \<in> set (jobs d)" | "a \<in> set (jobs d)" "b = r" by auto
    then show "j_id a = j_id b"
    proof cases
      case 2
      then show ?thesis
        using ok k keys_okD [of "jobs d" a b k] by (simp add: table_ok_def)
    qed (use I(4) k in auto)
  qed
  moreover have "j_id r \<notin> j_id ` set (jobs d)"
    using below i by fastforce
  then have "distinct (map j_id (jobs d @ [r]))"
    using ok by (simp add: table_ok_def)
  moreover have "\<forall>x \<in> set (jobs d @ [r]). 1 \<le> j_id x \<and> j_id x < next_job_id d + 1"
    using below i ok by (simp add: table_ok_def) force
  ultimately show ?thesis
    using ok by (simp add: table_ok_def I(3))
qed

lemma follows_evolves_left:
  assumes "evolves T d e" "follows T e d'"
  shows "follows T d d'"
proof -
  have "(\<exists>r \<in> set (jobs d). row_evolves T r r') \<or> fresh_row d r'" if r': "r' \<in> set (jobs d')" for r'
  proof -
    from assms(2) r' consider s where "s \<in> set (jobs e)" "row_evolves T s r'" | "fresh_row e r'"
      unfolding follows_def by blast
    then show ?thesis
    proof cases
      case 1
      obtain r where "r \<in> set (jobs d)" "row_evolves T r s"
        using evolves_row [OF assms(1) 1(1)] .
      with 1(2) show ?thesis by (blast intro: row_evolves_trans)
    next
      case 2
      then show ?thesis
        using assms(1) by (simp add: fresh_row_def evolves_def)
    qed
  qed
  then show ?thesis
    using assms evolves_table_ok [OF assms(1)] by (simp add: follows_def evolves_def)
qed

lemma evolves_park_parent: "evolves advance d (park_parent now parent d)"
proof -
  have "evolves advance d (update_jobs (\<lambda>r. j_id r = p \<and> j_status r \<in> {Waiting, Active, Delayed})
      (set_status WaitingChildren now) d)" for p
    by (rule evolves_update_jobs, rule row_evolvesI) (auto simp: row_defs intro: advance.intros)
  then show ?thesis
    by (simp add: park_parent_def split: option.split)
qed

lemma in_park_parent:
  assumes "y \<in> set (jobs (park_parent now parent d))"
  shows "y \<in> set (jobs d) \<or> parent = Some (j_id y)"
  using assms
  by (auto simp: park_parent_def nonzero_def set_status_def elim!: in_update_whereE
      split: option.splits if_splits)

text \<open>A successful INSERT followed by the parking of the parent.\<close>

lemma follows_insert:
  assumes ok: "table_ok d"
    and par: "check_parent (o_parent_job_id opts) md d = Inr depth"
    and ins: "insert_job (new_row clock now (next_job_id d) nm data opts depth) d = Inr (r', True, d2)"
  shows "follows advance d (park_parent now (o_parent_job_id opts) d2)"
proof -
  let ?r = "new_row clock now (next_job_id d) nm data opts depth"
  let ?d3 = "park_parent now (o_parent_job_id opts) d2"
  note I = insert_job_Inr [OF ins]
  have below: "\<And>x. x \<in> set (jobs d) \<Longrightarrow> 1 \<le> j_id x \<and> j_id x < next_job_id d"
    using ok by (simp add: table_ok_def)
  have r: "j_id ?r = next_job_id d" "j_parent_job_id ?r = o_parent_job_id opts" "j_depth ?r = depth"
    "j_status ?r \<in> {Waiting, Delayed}"
    by (auto simp: new_row_def)
  have parent: "\<exists>q \<in> set (jobs d). j_id q = p \<and> depth = j_depth q + 1"
    if p: "o_parent_job_id opts = Some p" for p
  proof -
    have "\<exists>x \<in> set (jobs d). j_id x = p"
      using I(5) [of p] p r(2) by simp
    with below have "p \<noteq> 0" by fastforce
    then show ?thesis
      using check_parent_Inr [OF par p] by blast
  qed
  have "table_ok d2"
    by (rule insert_job_table_ok [OF ok ins r(1)]) (use parent r(2,3) in auto)
  then have t3: "table_ok ?d3"
    using evolves_table_ok [OF evolves_park_parent] by blast
  have fresh: "fresh_row d ?r"
    using I(2) r row_ok_new_row by (simp add: fresh_row_def)
  have "(\<exists>x \<in> set (jobs d). row_evolves advance x y) \<or> fresh_row d y" if y: "y \<in> set (jobs ?d3)" for y
  proof -
    obtain x where x: "x \<in> set (jobs d2)" "row_evolves advance x y"
      using evolves_row [OF evolves_park_parent y] .
    show ?thesis
    proof (cases "x \<in> set (jobs d)")
      case True
      with x(2) show ?thesis by blast
    next
      case False
      with x(1) have xr: "x = ?r" by (simp add: I(3))
      have idy: "j_id y = next_job_id d"
        using row_evolvesD(1) [OF x(2)] xr r(1) by simp
      then have "\<not> (o_parent_job_id opts = Some (j_id y))"
        using parent [of "j_id y"] below by fastforce
      with in_park_parent [OF y] have "y \<in> set (jobs d2)" by simp
      with idy below [of y] have "y = ?r" by (auto simp: I(3))
      with fresh show ?thesis by simp
    qed
  qed
  moreover have "next_job_id ?d3 = next_job_id d + 1"
    using evolves_park_parent [of d2 now "o_parent_job_id opts"] I(3) by (simp add: evolves_def)
  ultimately show ?thesis
    using t3 by (simp add: follows_def)
qed

lemma insert_job_False:
  "insert_job r d = Inr (r', False, d') \<Longrightarrow> d' = d"
  by (auto simp: insert_job_def Let_def split: if_splits option.splits)

lemma follows_add_tx:
  assumes ok: "table_ok d" and res: "add_tx clock now nm data opts d = Inr (r, d')"
  shows "follows advance d d'"
proof (cases "idempotent_hit (o_idempotency_key opts) d")
  case (Inl x)
  with res show ?thesis by (simp add: add_tx_def evolves_follows)
next
  case (Inr d1)
  have e: "evolves advance d d1"
    using evolves_idempotent_hit [OF Inr] .
  have ok1: "table_ok d1"
    using evolves_table_ok [OF e ok] .
  have "follows advance d1 d'"
  proof (cases "backpressure_hit nm data (o_queue opts) (o_maxWaiting opts) d1")
    case (Some b)
    with Inr res show ?thesis by (simp add: add_tx_def evolves_follows)
  next
    case None
    let ?md = "orElse (o_max_spawn_depth opts) DEFAULT_MAX_SPAWN_DEPTH"
    obtain depth where par: "check_parent (o_parent_job_id opts) ?md d1 = Inr depth"
      using Inr None res by (auto simp: add_tx_def split: sum.splits)
    let ?row = "new_row clock now (next_job_id d1) nm data opts depth"
    obtain x b d2 where ins: "insert_job ?row d1 = Inr (x, b, d2)"
      using Inr None par res by (auto simp: add_tx_def split: sum.splits)
    show ?thesis
    proof (cases b)
      case True
      have "d' = park_parent now (o_parent_job_id opts) d2"
        using Inr None par res ins True by (simp add: add_tx_def)
      moreover have "insert_job ?row d1 = Inr (x, True, d2)"
        using ins True by simp
      ultimately show ?thesis
        using follows_insert [OF ok1 par] by blast
    next
      case False
      then have "d' = d2" "d2 = d1"
        using Inr None par res ins insert_job_False [of ?row d1 x d2] by (simp_all add: add_tx_def)
      then show ?thesis by (simp add: evolves_follows)
    qed
  qed
  with e show ?thesis by (rule follows_evolves_left)
qed

lemma add_InrE:
  assumes "add cap clock now name data opts trusted d = Inr (r, d')"
  obtains nm where "check_name name trusted = Inr nm"
    "add_tx clock now nm (orElse data (JObj [])) opts d = Inr (r, d')"
  using assms by (auto simp: add_def split: sum.splits option.splits if_splits)

lemma follows_add:
  "table_ok d \<Longrightarrow> add cap clock now name data opts trusted d = Inr (r, d') \<Longrightarrow> follows advance d d'"
  by (elim add_InrE) (rule follows_add_tx)

lemma follows_replayJob:
  assumes "table_ok d" "replayJob cap clock now i ov d = Inr (r, d')"
  shows "follows advance d d'"
  using assms follows_add [OF assms(1)]
  by (auto simp: replayJob_def evolves_follows split: option.splits if_splits sum.splits)

end
