(* ===== verification/Minion_Invariants.thy ===== *)
theory Minion_Invariants
  imports Minion_Refinement
begin

text \<open>
  The queue as a transition system: one rule per operation, for any caller, any clock and any
  arguments (\<open>op_step\<close> for all of them but the claim, \<open>queue_step\<close> with it).  Concurrent calls are interleaved sequences of these steps, because each call is
  one transaction.  The invariant is the locale \<open>invariant_system\<close> of the prelude, interpreted
  on this relation; the theorems about reachable states rest on its facts.
\<close>

section \<open>The step relation\<close>

inductive op_step :: "db \<Rightarrow> db \<Rightarrow> bool" where
  q_add: "add cap clock now name data opts trusted d = Inr (r, d') \<Longrightarrow> op_step d d'"
| q_replay: "replayJob cap clock now i ov d = Inr (r, d') \<Longrightarrow> op_step d d'"
| q_complete: "completeJob now i tok res d = (r, d') \<Longrightarrow> op_step d d'"
| q_fail: "failJob now i tok err st b d = (r, d') \<Longrightarrow> op_step d d'"
| q_release: "releaseLeaseFullJob now i tok err bo d = (r, d') \<Longrightarrow> op_step d d'"
| q_cancel: "cancelJob now i d = (r, d') \<Longrightarrow> op_step d d'"
| q_retry: "retryJob now i d = (r, d') \<Longrightarrow> op_step d d'"
| q_pause: "pauseJob now i d = (r, d') \<Longrightarrow> op_step d d'"
| q_resume: "resumeJob now i d = (r, d') \<Longrightarrow> op_step d d'"
| q_remove: "removeJob i d = (ok, d') \<Longrightarrow> op_step d d'"
| q_prune: "prune clock cutoff sts dry d = (n, d') \<Longrightarrow> op_step d d'"
| q_timeouts: "handleTimeouts now d = (rows, d') \<Longrightarrow> op_step d d'"
| q_wall_clock: "handleWallClockTimeouts now dur d = (rows, d') \<Longrightarrow> op_step d d'"
| q_stalled: "handleStalled now d = (res2, d') \<Longrightarrow> op_step d d'"
| q_promote: "promoteDelayed now d = (rows, d') \<Longrightarrow> op_step d d'"
| q_progress: "updateProgress now i tok pr d = (ok, d') \<Longrightarrow> op_step d d'"
| q_renew: "renewLock now i tok dur d = (ok, d') \<Longrightarrow> op_step d d'"
| q_tokens: "updateTokens now i tok ti to tc d = (ok, d') \<Longrightarrow> op_step d d'"
| q_send: "sendMessage now i payload sender d = (m, d') \<Longrightarrow> op_step d d'"
| q_read: "readInbox now i tok d = (ms, d') \<Longrightarrow> op_step d d'"
| q_resolve: "resolveParent now p d = (r, d') \<Longrightarrow> op_step d d'"
| q_fail_parent: "failParent now p c err d = (r, d') \<Longrightarrow> op_step d d'"
| q_detach: "d' = removeChildDependency now i d \<Longrightarrow> op_step d d'"
| q_log: "d' = log_line now i tok msg d \<Longrightarrow> op_step d d'"
| q_quiet_release: "d' = quiet_release now i tok d \<Longrightarrow> op_step d d'"
| q_quiet_cancel: "d' = quiet_force_cancel now i d \<Longrightarrow> op_step d d'"

inductive queue_step :: "db \<Rightarrow> db \<Rightarrow> bool" where
  q_op: "op_step d d' \<Longrightarrow> queue_step d d'"
| q_claim: "claim now tok dur q names d = (r, d') \<Longrightarrow> queue_step d d'"

text \<open>The deferral of a quiet-hours job is the one statement outside the state machine.\<close>

inductive system_step :: "db \<Rightarrow> db \<Rightarrow> bool" where
  s_queue: "queue_step d d' \<Longrightarrow> system_step d d'"
| s_defer: "d' = quiet_defer now i tok d \<Longrightarrow> system_step d d'"

lemma follows_mono:
  assumes f: "follows T d d'" and TU: "\<And>s t. T s t \<Longrightarrow> U s t"
  shows "follows U d d'"
proof -
  have "(\<exists>r \<in> set (jobs d). row_evolves U r r') \<or> fresh_row d r'" if r': "r' \<in> set (jobs d')" for r'
  proof -
    from f r' consider r where "r \<in> set (jobs d)" "row_evolves T r r'" | "fresh_row d r'"
      unfolding follows_def by blast
    then show ?thesis
    proof cases
      case 1
      have "row_evolves U r r'"
        using TU 1(2) by (rule row_evolves_mono)
      with 1(1) show ?thesis by blast
    qed simp
  qed
  with f show ?thesis by (simp add: follows_def)
qed

lemma follows_advance_mono: "follows advance d d' \<Longrightarrow> follows advance_or_reopen d d'"
  by (rule follows_mono [of advance]) (simp_all add: advance_or_reopen_def)

lemma follows_evolves_mono: "evolves advance d d' \<Longrightarrow> follows advance_or_reopen d d'"
  by (rule follows_advance_mono [OF evolves_follows])

lemma follows_reopen_mono: "evolves reopen d d' \<Longrightarrow> follows advance_or_reopen d d'"
  by (rule follows_mono [of reopen, OF evolves_follows]) (simp_all add: advance_or_reopen_def)

lemmas evolves_ops =
  evolves_cancelJob evolves_handleTimeouts evolves_handleWallClockTimeouts evolves_handleStalled
  evolves_promoteDelayed evolves_pauseJob evolves_resumeJob evolves_failParent
  evolves_resolveParent evolves_releaseLeaseFullJob evolves_updateProgress evolves_renewLock
  evolves_updateTokens evolves_sendMessage evolves_readInbox

lemma sndI: "f = (a, b) \<Longrightarrow> b = snd f"
  by simp

section \<open>Every step refines the life cycle\<close>

text \<open>Every operation but the retry moves statuses along \<open>advance\<close>.\<close>

lemma op_step_follows:
  assumes "op_step d d'" "table_ok d"
  shows "follows advance_or_reopen d d'"
  using assms
proof cases
  case (q_add cap clock now name data opts trusted r)
  then show ?thesis using follows_add [OF assms(2)] follows_advance_mono by blast
next
  case (q_replay cap clock now i ov r)
  then show ?thesis using follows_replayJob [OF assms(2)] follows_advance_mono by blast
next
  case (q_complete now i tok res r)
  then show ?thesis
    using follows_advance_mono [OF follows_completeJob [of d now i tok res]] by simp
next
  case (q_fail now i tok err st b r)
  then show ?thesis
    using follows_advance_mono [OF follows_failJob [of d now i tok err st b]] by simp
next
  case (q_retry now i r)
  then show ?thesis
    using follows_reopen_mono [OF evolves_retryJob [of d now i]] by simp
next
  case (q_remove i ok)
  then show ?thesis
    using follows_advance_mono [OF follows_removeJob [of d i]] by simp
next
  case (q_prune clock cutoff sts dry n)
  then show ?thesis
    using follows_advance_mono [OF follows_prune [of d clock cutoff sts dry]] by simp
next
  case q_detach
  then show ?thesis
    by (simp add: follows_evolves_mono evolves_removeChildDependency)
next
  case q_log
  then show ?thesis
    by (simp add: follows_evolves_mono evolves_log_line)
next
  case q_quiet_release
  then show ?thesis
    by (simp add: follows_evolves_mono evolves_quiet_release)
next
  case q_quiet_cancel
  then show ?thesis
    by (simp add: follows_evolves_mono evolves_quiet_force_cancel)
qed (drule sndI, simp only: follows_evolves_mono evolves_ops)+

lemma queue_step_follows:
  assumes "queue_step d d'" "table_ok d"
  shows "follows advance_or_reopen d d'"
  using assms
proof cases
  case q_op
  then show ?thesis using assms(2) by (rule op_step_follows)
next
  case (q_claim now tok dur q names r)
  then show ?thesis
    using follows_evolves_mono [OF evolves_claim [OF assms(2), of now tok dur q names]] by simp
qed

section \<open>The invariant\<close>

definition queue_ok :: "db \<Rightarrow> bool" where
  "queue_ok d \<longleftrightarrow> table_ok d \<and> (\<forall>r \<in> set (jobs d). row_ok r)"

lemma follows_rows_ok:
  assumes "follows T d d'" "\<forall>r \<in> set (jobs d). row_ok r"
  shows "\<forall>r' \<in> set (jobs d'). row_ok r'"
proof
  fix r' assume "r' \<in> set (jobs d')"
  with assms(1) consider r where "r \<in> set (jobs d)" "row_evolves T r r'" | "fresh_row d r'"
    unfolding follows_def by blast
  then show "row_ok r'"
    by cases (use assms(2) row_evolvesD(5) fresh_row_def in blast)+
qed

lemma follows_queue_ok: "follows T d d' \<Longrightarrow> queue_ok d \<Longrightarrow> queue_ok d'"
  unfolding queue_ok_def using follows_rows_ok by (auto simp: follows_def)

lemma evolves_quiet_defer: "evolves (\<lambda>_ _. True) d (quiet_defer now i tok d)"
  unfolding quiet_defer_def
  by (rule evolves_update_jobs, rule row_evolvesI) (auto simp: row_defs)

lemma system_step_ok:
  assumes "system_step d d'" "queue_ok d"
  shows "queue_ok d'"
  using assms(1)
proof cases
  case s_queue
  have "table_ok d" using assms(2) by (simp add: queue_ok_def)
  from queue_step_follows [OF s_queue this] assms(2) show ?thesis
    by (rule follows_queue_ok)
next
  case (s_defer now i tok)
  then show ?thesis
    using follows_queue_ok [OF evolves_follows [OF evolves_quiet_defer] assms(2)] by simp
qed

lemma empty_db_ok: "queue_ok (empty_db v)"
  by (simp add: queue_ok_def table_ok_def empty_db_def lineage_ok_def keys_ok_def)

interpretation queue: invariant_system "\<lambda>d. \<exists>v. d = empty_db v" system_step queue_ok
  by unfold_locales (auto simp: empty_db_ok intro: system_step_ok)

definition reachable_db :: "db \<Rightarrow> bool" where
  "reachable_db d \<longleftrightarrow> (\<exists>v. system_step\<^sup>*\<^sup>* (empty_db v) d)"

lemma reachable_ok: "reachable_db d \<Longrightarrow> queue_ok d"
  unfolding reachable_db_def by (blast intro: queue.reachable_inv)

section \<open>What a row can do along a run\<close>

lemma ids_grow: "queue_step d d' \<Longrightarrow> queue_ok d \<Longrightarrow> next_job_id d \<le> next_job_id d'"
  using queue_step_follows by (auto simp: queue_ok_def follows_def)

lemma queue_steps_ok:
  assumes "queue_step\<^sup>*\<^sup>* d d'" "queue_ok d"
  shows "queue_ok d'"
proof -
  have "system_step\<^sup>*\<^sup>* d d'"
    using assms(1) mono_rtranclp [of queue_step system_step] s_queue by blast
  then show ?thesis using assms(2) by (rule queue.steps_inv)
qed

text \<open>A row that exists before and after a run got there along the state machine; it never
  comes back under the same id once deleted, because ids are not reused.\<close>

lemma run_row:
  assumes "queue_step\<^sup>*\<^sup>* d d'" "queue_ok d" "r' \<in> set (jobs d')" "j_id r' < next_job_id d"
  shows "\<exists>r \<in> set (jobs d). row_evolves advance_or_reopen r r'"
  using assms
proof (induction arbitrary: r' rule: rtranclp_induct)
  case base
  then show ?case using row_evolves_refl by blast
next
  case (step e e')
  have ok: "queue_ok e" using queue_steps_ok step.hyps(1) step.prems(1) by blast
  have le: "next_job_id d \<le> next_job_id e"
    using step.hyps(1) step.prems(1)
    by (induction rule: rtranclp_induct) (auto dest: ids_grow [OF _ queue_steps_ok])
  have "follows advance_or_reopen e e'"
    using queue_step_follows [OF step.hyps(2)] ok by (simp add: queue_ok_def)
  with step.prems(2) consider s where "s \<in> set (jobs e)" "row_evolves advance_or_reopen s r'"
    | "fresh_row e r'"
    unfolding follows_def by blast
  then show ?case
  proof cases
    case 1
    then obtain r where "r \<in> set (jobs d)" "row_evolves advance_or_reopen r s"
      using step.IH [OF step.prems(1) 1(1)] row_evolvesD(1) [OF 1(2)] step.prems(3) by auto
    with 1(2) show ?thesis by (blast intro: row_evolves_trans)
  next
    case 2
    then show ?thesis using le step.prems(3) by (simp add: fresh_row_def)
  qed
qed

lemma settled_absorbing:
  assumes "advance_or_reopen\<^sup>*\<^sup>* s t" "s \<in> {Completed, Cancelled}"
  shows "t = s"
  using assms
  by (induction rule: converse_rtranclp_induct)
     (auto simp: advance_or_reopen_def elim: reopen.cases dest: advance_from_open)

end
