(* ===== verification/Minion_Join.thy ===== *)
theory Minion_Join
  imports Minion_Invariants
begin

text \<open>
  The join of a parent with its children.  A parent in \<open>waiting-children\<close> none of whose children
  is open is \<open>stranded\<close>: nothing will wake it.  The lemmas say what each building block of the
  queue does to the set of stranded parents; an operation that closes rows has to resolve the
  parents of exactly these rows.
\<close>

section \<open>Stranded parents\<close>

definition stranded :: "minion_job list \<Rightarrow> int set" where
  "stranded t =
     j_id ` set (filter (\<lambda>r. j_status r = WaitingChildren \<and> \<not> has_open_child (j_id r) t) t)"

named_theorems strands \<open>what an operation does to the set of stranded parents\<close>

lemma stranded_iff:
  "p \<in> stranded t \<longleftrightarrow>
     (\<exists>r \<in> set t. j_id r = p \<and> j_status r = WaitingChildren) \<and>
     (\<forall>c \<in> set t. is_child p c \<longrightarrow> terminal (j_status c))"
  by (auto simp: stranded_def has_open_child_def list_ex_iff image_iff)

lemma strandedE:
  assumes "p \<in> stranded t"
  obtains r where "r \<in> set t" "j_id r = p" "j_status r = WaitingChildren"
  using assms unfolding stranded_iff by blast

lemma strandedD: "p \<in> stranded t \<Longrightarrow> c \<in> set t \<Longrightarrow> is_child p c \<Longrightarrow> terminal (j_status c)"
  unfolding stranded_iff by blast

text \<open>The parents of the rows a statement closes.\<close>

definition closed_by :: "(minion_job \<Rightarrow> bool) \<Rightarrow> (minion_job \<Rightarrow> minion_job) \<Rightarrow> minion_job list \<Rightarrow> int set" where
  "closed_by P f t =
     {p. \<exists>r \<in> set t. P r \<and> is_child p r \<and> open_job r \<and> (terminal (j_status (f r)) \<or> \<not> is_child p (f r))}"

lemma stranded_update:
  assumes keep: "\<And>r. r \<in> set (jobs d) \<Longrightarrow> P r \<Longrightarrow>
      j_id (f r) = j_id r \<and> (j_status (f r) = WaitingChildren \<longrightarrow> j_status r = WaitingChildren)"
  shows "stranded (jobs (update_jobs P f d)) \<subseteq> stranded (jobs d) \<union> closed_by P f (jobs d)"
proof
  fix p assume p: "p \<in> stranded (jobs (update_jobs P f d))"
  then obtain r' where r': "r' \<in> set (jobs (update_jobs P f d))" "j_id r' = p"
    "j_status r' = WaitingChildren"
    by (rule strandedE)
  then obtain r where "r \<in> set (jobs d)" "r' = (if P r then f r else r)"
    by (auto elim: in_update_whereE)
  with keep r' have r: "r \<in> set (jobs d)" "j_id r = p" "j_status r = WaitingChildren"
    by (auto split: if_splits)
  show "p \<in> stranded (jobs d) \<union> closed_by P f (jobs d)"
  proof (cases "p \<in> stranded (jobs d)")
    case False
    then obtain c where c: "c \<in> set (jobs d)" "is_child p c" "open_job c"
      using r by (auto simp: stranded_iff)
    let ?c' = "if P c then f c else c"
    have "?c' \<in> set (jobs (update_jobs P f d))"
      using c(1) by (auto simp: update_where_def)
    then have "is_child p ?c' \<Longrightarrow> terminal (j_status ?c')"
      using strandedD [OF p] by blast
    with c have "P c \<and> (terminal (j_status (f c)) \<or> \<not> is_child p (f c))"
      by (cases "P c") auto
    with c show ?thesis by (auto simp: closed_by_def)
  qed simp
qed

lemma stranded_keep_open:
  assumes "\<And>r. r \<in> set (jobs d) \<Longrightarrow> P r \<Longrightarrow>
      j_id (f r) = j_id r \<and> j_parent_job_id (f r) = j_parent_job_id r \<and>
      (j_status (f r) = WaitingChildren \<longrightarrow> j_status r = WaitingChildren) \<and>
      (terminal (j_status (f r)) \<longrightarrow> terminal (j_status r))"
  shows "stranded (jobs (update_jobs P f d)) \<subseteq> stranded (jobs d)"
proof -
  have "closed_by P f (jobs d) = {}"
    using assms by (auto simp: closed_by_def is_child_def)
  moreover have "stranded (jobs (update_jobs P f d)) \<subseteq> stranded (jobs d) \<union> closed_by P f (jobs d)"
    by (rule stranded_update) (use assms in blast)
  ultimately show ?thesis by simp
qed

lemma stranded_resolveParent:
  "stranded (jobs (snd (resolveParent now p d))) \<subseteq> stranded (jobs d) - {p}"
proof -
  let ?P = "\<lambda>r. j_id r = p \<and> j_status r = WaitingChildren \<and> \<not> has_open_child p (jobs d)"
  let ?d' = "update_jobs ?P (set_status Waiting now) d"
  have "stranded (jobs ?d') \<subseteq> stranded (jobs d)"
    by (rule stranded_keep_open) (auto simp: set_status_def)
  moreover have "p \<notin> stranded (jobs ?d')"
  proof
    assume p: "p \<in> stranded (jobs ?d')"
    then obtain r' where r': "r' \<in> set (jobs ?d')" "j_id r' = p" "j_status r' = WaitingChildren"
      by (rule strandedE)
    then obtain r where r: "r \<in> set (jobs d)" "r' = (if ?P r then set_status Waiting now r else r)"
      by (auto elim: in_update_whereE)
    with r' have "has_open_child p (jobs d)"
      by (auto simp: set_status_def split: if_splits)
    then have "p \<notin> stranded (jobs d)"
      by (auto simp: stranded_iff has_open_child_def list_ex_iff)
    with p \<open>stranded (jobs ?d') \<subseteq> stranded (jobs d)\<close> show False by blast
  qed
  ultimately show ?thesis
    by (auto simp: jobs_resolveParent)
qed

lemma stranded_resolve_parents:
  "stranded (jobs (resolve_parents now ps d)) \<subseteq> stranded (jobs d) - set ps"
  unfolding resolve_parents_def
proof (induction ps arbitrary: d)
  case Nil
  then show ?case by simp
next
  case (Cons p ps)
  have "stranded (jobs (snd (resolveParent now p d))) \<subseteq> stranded (jobs d) - {p}"
    by (rule stranded_resolveParent)
  with Cons [of "snd (resolveParent now p d)"] show ?case by auto
qed

lemma set_parent_ids: "set (parent_ids rows) = {p. \<exists>r \<in> set rows. is_child p r}"
  unfolding parent_ids_def
  by (induction rows) (auto simp: map_filter_simps is_child_def split: option.splits)

text \<open>Closing rows, telling the parents, resolving them.\<close>

lemma stranded_close_and_resolve:
  assumes "\<And>r. j_id (f r) = j_id r" "\<And>r. j_parent_job_id (f r) = j_parent_job_id r"
    and "\<And>r. terminal (j_status (f r))"
    and "rows = updated_jobs P f d"
  shows "stranded (jobs (resolve_parents now (parent_ids rows)
           (notify_parents now oc err rows (update_jobs P f d)))) \<subseteq> stranded (jobs d)"
proof -
  have "j_status (f r) \<noteq> WaitingChildren" for r
    using assms(3) [of r] by auto
  then have "stranded (jobs (update_jobs P f d)) \<subseteq> stranded (jobs d) \<union> closed_by P f (jobs d)"
    by (intro stranded_update) (simp add: assms(1))
  moreover have "closed_by P f (jobs d) \<subseteq> set (parent_ids rows)"
  proof
    fix p assume "p \<in> closed_by P f (jobs d)"
    then obtain r where "r \<in> set (jobs d)" "P r" "is_child p r"
      by (auto simp: closed_by_def)
    then have "f r \<in> set rows" "is_child p (f r)"
      using assms(2) by (simp_all add: assms(4) updated_jobs_def updated_def is_child_def)
    then show "p \<in> set (parent_ids rows)"
      by (auto simp: set_parent_ids)
  qed
  ultimately show ?thesis
    using stranded_resolve_parents [of now "parent_ids rows" "notify_parents now oc err rows (update_jobs P f d)"]
    by auto
qed

lemma stranded_delete:
  assumes "table_ok d" "\<And>r. r \<in> set (jobs d) \<Longrightarrow> P r \<Longrightarrow> terminal (j_status r)"
  shows "stranded (jobs (delete_jobs P d)) \<subseteq> stranded (jobs d)"
proof
  fix p assume p: "p \<in> stranded (jobs (delete_jobs P d))"
  then obtain r' where r': "r' \<in> set (jobs (delete_jobs P d))" "j_id r' = p"
    "j_status r' = WaitingChildren"
    by (rule strandedE)
  obtain r where r: "r \<in> set (jobs d)" "\<not> P r" "r' = r \<or> r' = r\<lparr>j_parent_job_id := None\<rparr>"
    using r'(1) by (rule in_delete_jobsE)
  have "terminal (j_status c)" if c: "c \<in> set (jobs d)" "is_child p c" for c
  proof (rule ccontr)
    assume op: "\<not> terminal (j_status c)"
    then have "\<not> P c" using assms(2) c(1) by blast
    moreover have "\<not> P q" if "q \<in> set (jobs d)" "j_id q = p" for q
      using distinct_idD [OF assms(1) that(1) r(1)] that(2) r r'(2) by auto
    ultimately have "c \<in> set (jobs (delete_jobs P d))"
      using c unfolding jobs_delete_jobs
      by (auto simp: update_where_def delete_where_def is_child_def image_iff intro!: bexI [of _ c])
    from strandedD [OF p this c(2)] op show False by simp
  qed
  with r r' show "p \<in> stranded (jobs d)"
    by (auto simp: stranded_iff)
qed

section \<open>Each operation\<close>

lemma held_row:
  assumes "table_ok d" "updated_jobs (holds i tok) f d = row # rest"
  obtains r where "r \<in> set (jobs d)" "holds i tok r" "row = f r"
    "\<And>x. x \<in> set (jobs d) \<Longrightarrow> j_id x = i \<Longrightarrow> x = r"
proof -
  have "row \<in> set (updated_jobs (holds i tok) f d)"
    using assms(2) by simp
  then obtain r where r: "r \<in> set (jobs d)" "holds i tok r" "row = f r"
    by (auto simp: updated_jobs_def updated_def)
  have "x = r" if x: "x \<in> set (jobs d)" "j_id x = i" for x
    by (rule distinct_idD [OF assms(1) x(1) r(1)]) (use x(2) r(2) in \<open>simp add: holds_def\<close>)
  then show thesis by (rule that [OF r])
qed

lemma stranded_roll_up_tokens:
  "stranded (jobs (roll_up_tokens now c p d)) \<subseteq> stranded (jobs d)"
proof -
  have "stranded (jobs (update_jobs (\<lambda>r. j_id r = p \<and> open_job r) (add_tokens now a b e) d))
          \<subseteq> stranded (jobs d)" for a b e
    by (rule stranded_keep_open) (auto simp: add_tokens_def)
  then show ?thesis by (simp add: roll_up_tokens_def)
qed

text \<open>A statement that closes the one row of id \<open>i\<close> can only strand the parent of that row.\<close>

lemma stranded_close_held:
  assumes ok: "table_ok d" and row: "updated_jobs (holds i tok) f d = row # rest"
    and f: "\<And>r. j_id (f r) = j_id r" "\<And>r. j_parent_job_id (f r) = j_parent_job_id r"
    and st: "\<And>r. j_status (f r) \<noteq> WaitingChildren"
  shows "stranded (jobs (update_jobs (holds i tok) f d))
           \<subseteq> stranded (jobs d) \<union> set_option (j_parent_job_id row)"
proof -
  obtain r where r: "row = f r" "\<And>x. x \<in> set (jobs d) \<Longrightarrow> j_id x = i \<Longrightarrow> x = r"
    using held_row [OF ok row] by metis
  have "closed_by (holds i tok) f (jobs d) \<subseteq> set_option (j_parent_job_id row)"
  proof
    fix p assume "p \<in> closed_by (holds i tok) f (jobs d)"
    then obtain x where x: "x \<in> set (jobs d)" "holds i tok x" "is_child p x"
      by (auto simp: closed_by_def)
    then have "x = r" using r(2) by (simp add: holds_def)
    with x(3) show "p \<in> set_option (j_parent_job_id row)"
      by (simp add: r(1) f(2) is_child_def)
  qed
  moreover have "stranded (jobs (update_jobs (holds i tok) f d))
      \<subseteq> stranded (jobs d) \<union> closed_by (holds i tok) f (jobs d)"
    by (rule stranded_update) (simp add: f(1) st)
  ultimately show ?thesis by blast
qed

lemma held_after:
  assumes ok: "table_ok d" and row: "updated_jobs (holds i tok) f d = row # rest"
    and f: "\<And>r. j_id (f r) = j_id r"
    and y: "y \<in> set (jobs (update_jobs (holds i tok) f d))" "j_id y = j_id row"
  shows "y = row"
proof -
  obtain r where r: "r \<in> set (jobs d)" "holds i tok r" "row = f r"
    and uniq: "\<And>x. x \<in> set (jobs d) \<Longrightarrow> j_id x = i \<Longrightarrow> x = r"
    using ok row by (rule held_row) blast
  from y(1) obtain x where x: "x \<in> set (jobs d)" "y = (if holds i tok x then f x else x)"
    by (auto elim: in_update_whereE)
  have "j_id x = i"
    using x(2) y(2) r(2,3) f by (simp add: holds_def split: if_splits)
  with x(1) have "x = r" by (rule uniq)
  with x(2) r show ?thesis by simp
qed

text \<open>The deletion of the closed row after its parent was told.\<close>

lemma stranded_delete_held:
  assumes ok: "table_ok d" and row: "updated_jobs (holds i tok) f d = row # rest"
    and f: "\<And>r. j_id (f r) = j_id r" and cl: "terminal (j_status row)"
    and e1: "evolves advance d (update_jobs (holds i tok) f d)"
    and e2: "evolves advance (update_jobs (holds i tok) f d) d2"
  shows "stranded (jobs (delete_jobs (\<lambda>x. j_id x = j_id row) d2)) \<subseteq> stranded (jobs d2)"
proof (rule stranded_delete)
  show "table_ok d2"
    using evolves_table_ok [OF e2 evolves_table_ok [OF e1 ok]] .
  fix x assume x: "x \<in> set (jobs d2)" "j_id x = j_id row"
  obtain y where y: "y \<in> set (jobs (update_jobs (holds i tok) f d))" "row_evolves advance y x"
    using evolves_row [OF e2 x(1)] .
  have "y = row"
    by (rule held_after [OF ok row f y(1)]) (use row_evolvesD(1) [OF y(2)] x(2) in simp)
  then show "terminal (j_status x)"
    using y(2) advances_from_terminal [of "j_status y" "j_status x"] cl
    by (simp add: row_evolves_def)
qed

lemma stranded_completeJob:
  assumes ok: "table_ok d"
  shows "stranded (jobs (snd (completeJob now i tok res d))) \<subseteq> stranded (jobs d)"
proof (cases "updated_jobs (holds i tok) (complete_row now res) d")
  case Nil
  then show ?thesis by (simp add: completeJob_def Let_def)
next
  case (Cons row rest)
  let ?d1 = "update_jobs (holds i tok) (complete_row now res) d"
  let ?c = "rowToMinionJob row"
  let ?m = "child_done (j_id ?c) (j_name ?c) res OComplete None"
  let ?d2 = "case j_parent_job_id ?c of None \<Rightarrow> ?d1
    | Some p \<Rightarrow> snd (resolveParent now p (post_child_done now p ?m (roll_up_tokens now ?c p ?d1)))"
  have e1: "evolves advance d ?d1"
    by (rule evolves_update_jobs, rule row_evolvesI)
       (auto simp: row_defs holds_def intro: advance.intros)
  have e2: "evolves advance ?d1 ?d2"
    by (rule evolves_complete_parent)
  have "stranded (jobs ?d1) \<subseteq> stranded (jobs d) \<union> set_option (j_parent_job_id row)"
    by (rule stranded_close_held [OF ok Cons]) (simp_all add: complete_row_def unlock_def)
  then have d2: "stranded (jobs ?d2) \<subseteq> stranded (jobs d)"
  proof (cases "j_parent_job_id row")
    case (Some p)
    have "stranded (jobs (snd (resolveParent now p (post_child_done now p ?m (roll_up_tokens now ?c p ?d1)))))
            \<subseteq> stranded (jobs (roll_up_tokens now ?c p ?d1)) - {p}"
      using stranded_resolveParent [of now p "post_child_done now p ?m (roll_up_tokens now ?c p ?d1)"]
      by simp
    with Some \<open>stranded (jobs ?d1) \<subseteq> _\<close> stranded_roll_up_tokens [of now ?c p ?d1]
    show ?thesis by auto
  qed simp
  have "terminal (j_status row)"
    using Cons by (auto simp: updated_jobs_def updated_def complete_row_def)
  then have del: "stranded (jobs (delete_jobs (\<lambda>x. j_id x = j_id row) ?d2)) \<subseteq> stranded (jobs ?d2)"
    by (intro stranded_delete_held [OF ok Cons _ _ e1 e2]) (simp_all add: complete_row_def unlock_def)
  have "snd (completeJob now i tok res d) =
      (if j_remove_on_complete ?c then delete_jobs (\<lambda>x. j_id x = j_id ?c) ?d2 else ?d2)"
    using Cons by (simp add: completeJob_def Let_def)
  then show ?thesis
    using d2 order_trans [OF del d2] by simp
qed

text \<open>A failure whose policy is \<open>fail_parent\<close> closes the parent as well, and nobody then resolves
  the grandparent; these are the only parents that a failure can strand.\<close>

definition abandoned :: "int \<Rightarrow> string \<Rightarrow> db \<Rightarrow> int set" where
  "abandoned i tok d =
     {g. \<exists>c \<in> set (jobs d). \<exists>q \<in> set (jobs d). holds i tok c \<and> j_on_child_fail c = FailParent \<and>
           is_child (j_id q) c \<and> j_status q = WaitingChildren \<and> is_child g q}"

lemma stranded_failParent:
  "stranded (jobs (snd (failParent now p c err d))) \<subseteq>
     stranded (jobs d) - {p} \<union> {g. \<exists>q \<in> set (jobs d). j_id q = p \<and> j_status q = WaitingChildren \<and> is_child g q}"
proof -
  let ?P = "\<lambda>r. j_id r = p \<and> j_status r = WaitingChildren"
  have "stranded (jobs (update_jobs ?P (fail_parent_row now c err) d)) \<subseteq>
      stranded (jobs d) \<union> closed_by ?P (fail_parent_row now c err) (jobs d)"
    by (rule stranded_update) (simp add: fail_parent_row_def)
  moreover have "p \<notin> stranded (jobs (update_jobs ?P (fail_parent_row now c err) d))"
  proof
    assume "p \<in> stranded (jobs (update_jobs ?P (fail_parent_row now c err) d))"
    then obtain r' where r': "r' \<in> set (jobs (update_jobs ?P (fail_parent_row now c err) d))"
      "j_id r' = p" "j_status r' = WaitingChildren"
      by (rule strandedE)
    from r'(1) obtain r where "r' = (if ?P r then fail_parent_row now c err r else r)"
      by (auto elim: in_update_whereE)
    with r'(2,3) show False
      by (cases "?P r") (simp_all add: fail_parent_row_def)
  qed
  moreover have "closed_by ?P (fail_parent_row now c err) (jobs d) \<subseteq>
      {g. \<exists>q \<in> set (jobs d). j_id q = p \<and> j_status q = WaitingChildren \<and> is_child g q}"
    by (auto simp: closed_by_def)
  ultimately show ?thesis
    unfolding failParent_def snd_one_row by blast
qed

lemma stranded_removeChildDependency:
  assumes "\<And>r. r \<in> set (jobs d) \<Longrightarrow> j_id r = i \<Longrightarrow> terminal (j_status r)"
  shows "stranded (jobs (removeChildDependency now i d)) \<subseteq> stranded (jobs d)"
proof -
  let ?f = "\<lambda>r. r\<lparr>j_parent_job_id := None, j_updated_at := now\<rparr>"
  have "closed_by (\<lambda>r. j_id r = i) ?f (jobs d) = {}"
    using assms by (auto simp: closed_by_def)
  moreover have "stranded (jobs (update_jobs (\<lambda>r. j_id r = i) ?f d)) \<subseteq>
      stranded (jobs d) \<union> closed_by (\<lambda>r. j_id r = i) ?f (jobs d)"
    by (rule stranded_update) simp
  ultimately show ?thesis by (simp add: removeChildDependency_def)
qed

lemma stranded_fail_parent_hook:
  assumes "\<And>r. r \<in> set (jobs d) \<Longrightarrow> j_id r = j_id c \<Longrightarrow> terminal (j_status r)"
  shows "stranded (jobs (fail_parent_hook now st err c p d)) \<subseteq>
    (if j_on_child_fail c = FailParent
     then stranded (jobs d) - {p} \<union> {g. \<exists>q \<in> set (jobs d). j_id q = p \<and> j_status q = WaitingChildren \<and> is_child g q}
     else stranded (jobs d) - {p})"
proof -
  let ?m = "child_done (j_id c) (j_name c) None (if st = FDead then ODead else OFailed) (Some err)"
  let ?d1 = "post_child_done now p ?m d"
  show ?thesis
  proof (cases "j_on_child_fail c")
    case FailParent
    then show ?thesis
      using stranded_failParent [of now p "j_id c" err ?d1]
      by (simp add: fail_parent_hook_def Let_def)
  next
    case RemoveDep
    have "stranded (jobs (removeChildDependency now (j_id c) ?d1)) \<subseteq> stranded (jobs ?d1)"
      by (rule stranded_removeChildDependency) (use assms in simp)
    moreover have "stranded (jobs (snd (resolveParent now p (removeChildDependency now (j_id c) ?d1))))
        \<subseteq> stranded (jobs (removeChildDependency now (j_id c) ?d1)) - {p}"
      by (rule stranded_resolveParent)
    ultimately have "stranded (jobs (snd (resolveParent now p (removeChildDependency now (j_id c) ?d1))))
        \<subseteq> stranded (jobs d) - {p}"
      by auto
    with RemoveDep show ?thesis
      by (simp add: fail_parent_hook_def Let_def)
  qed (use stranded_resolveParent [of now p ?d1] in \<open>simp_all add: fail_parent_hook_def Let_def\<close>)
qed

lemma stranded_failJob:
  assumes ok: "table_ok d"
  shows "stranded (jobs (snd (failJob now i tok err st b d))) \<subseteq> stranded (jobs d) \<union> abandoned i tok d"
proof (cases "updated_jobs (holds i tok) (fail_row now st err (orElse b 0)) d")
  case Nil
  then show ?thesis by (simp add: failJob_def Let_def)
next
  case (Cons row rest)
  let ?f = "fail_row now st err (orElse b 0)"
  let ?d1 = "update_jobs (holds i tok) ?f d"
  let ?c = "rowToMinionJob row"
  have f: "j_id (?f r) = j_id r" "j_parent_job_id (?f r) = j_parent_job_id r"
    "j_status (?f r) = status_of st" "j_on_child_fail (?f r) = j_on_child_fail r" for r
    by (simp_all add: fail_row_def unlock_def)
  have e1: "evolves advance d ?d1"
    by (rule evolves_update_jobs, rule row_evolvesI)
       (cases st; auto simp: row_defs holds_def intro: advance.intros)+
  have nw: "status_of st \<noteq> WaitingChildren"
    by (cases st) simp_all
  have row: "j_status row = status_of st"
    using Cons f(3) by (auto simp: updated_jobs_def updated_def)
  have d1: "stranded (jobs ?d1) \<subseteq> stranded (jobs d) \<union> set_option (j_parent_job_id row)"
    by (rule stranded_close_held [OF ok Cons f(1,2)]) (simp add: f(3) nw)
  show ?thesis
  proof (cases "st = FDelayed")
    case True
    then have "stranded (jobs ?d1) \<subseteq> stranded (jobs d)"
      by (intro stranded_keep_open) (simp add: fail_row_def unlock_def)
    with True Cons show ?thesis
      by (auto simp: failJob_def Let_def split: option.split)
  next
    case False
    then have cl: "terminal (status_of st)" by (cases st) simp_all
    let ?d2 = "case j_parent_job_id ?c of Some p \<Rightarrow> fail_parent_hook now st err ?c p ?d1 | None \<Rightarrow> ?d1"
    have e2: "evolves advance ?d1 ?d2"
      by (simp add: evolves_fail_parent_hook split: option.split)
    have "stranded (jobs (delete_jobs (\<lambda>x. j_id x = j_id row) ?d2)) \<subseteq> stranded (jobs ?d2)"
      by (rule stranded_delete_held [OF ok Cons f(1) _ e1 e2]) (simp add: row cl)
    moreover have d2: "stranded (jobs ?d2) \<subseteq> stranded (jobs d) \<union> abandoned i tok d"
    proof (cases "j_parent_job_id row")
      case None
      with d1 show ?thesis by auto
    next
      case (Some p)
      have closed: "terminal (j_status x)" if "x \<in> set (jobs ?d1)" "j_id x = j_id ?c" for x
        using held_after [OF ok Cons f(1) that(1)] that(2) row cl by simp
      obtain r where r: "r \<in> set (jobs d)" "holds i tok r" "row = ?f r"
        using ok Cons by (rule held_row) blast
      have "{g. \<exists>q \<in> set (jobs ?d1). j_id q = p \<and> j_status q = WaitingChildren \<and> is_child g q}
          \<subseteq> abandoned i tok d" if fp: "j_on_child_fail ?c = FailParent"
      proof
        fix g assume "g \<in> {g. \<exists>q \<in> set (jobs ?d1). j_id q = p \<and> j_status q = WaitingChildren \<and> is_child g q}"
        then obtain q where q: "q \<in> set (jobs ?d1)" "j_id q = p" "j_status q = WaitingChildren" "is_child g q"
          by blast
        from q(1) obtain x where x: "x \<in> set (jobs d)" "q = (if holds i tok x then ?f x else x)"
          by (auto elim: in_update_whereE)
        with q(3) f(3) nw have "q = x" by (simp split: if_splits)
        with x(1) q have "q \<in> set (jobs d)" by simp
        moreover have "is_child (j_id q) r" "j_on_child_fail r = FailParent"
          using Some r(3) f fp q(2) by (simp_all add: is_child_def)
        ultimately show "g \<in> abandoned i tok d"
          using r(1,2) q(3,4) unfolding abandoned_def by blast
      qed
      moreover have "stranded (jobs ?d1) - {p} \<subseteq> stranded (jobs d)"
        using d1 Some by auto
      moreover note stranded_fail_parent_hook [of ?d1 ?c now st err p, OF closed]
      ultimately have "stranded (jobs (fail_parent_hook now st err ?c p ?d1)) \<subseteq>
          stranded (jobs d) \<union> abandoned i tok d"
        by (cases "j_on_child_fail ?c = FailParent"; simp; blast)
      with Some show ?thesis by simp
    qed
    moreover have "snd (failJob now i tok err st b d) =
        (if j_remove_on_fail ?c then delete_jobs (\<lambda>x. j_id x = j_id row) ?d2 else ?d2)"
      using Cons False by (simp add: failJob_def Let_def split: option.split)
    ultimately show ?thesis
      using order_trans [OF _ d2] by simp
  qed
qed

section \<open>Operations that keep rows open, or resolve what they close\<close>

lemma stranded_claim:
  assumes ok: "table_ok d"
  shows "stranded (jobs (snd (claim now tok dur q names d))) \<subseteq> stranded (jobs d)"
proof (cases "first_min claim_before (filter (claimable q names) (jobs d))")
  case None
  then show ?thesis by (simp add: claim_snd)
next
  case (Some r)
  have "stranded (jobs (update_jobs (\<lambda>x. j_id x = j_id r) (claim_row now tok dur) d)) \<subseteq> stranded (jobs d)"
    by (rule stranded_keep_open) (simp add: claim_row_def)
  with Some show ?thesis by (simp add: claim_snd)
qed

lemma stranded_cancelJob: "stranded (jobs (snd (cancelJob now i d))) \<subseteq> stranded (jobs d)"
proof -
  let ?P = "\<lambda>r. j_id r \<in> set (cancel_ids i d) \<and> open_job r"
  have "stranded (jobs (resolve_parents now (parent_ids (updated_jobs ?P (cancel_row now) d))
      (notify_parents now OCancelled ''cancelled'' (updated_jobs ?P (cancel_row now) d)
        (update_jobs ?P (cancel_row now) d)))) \<subseteq> stranded (jobs d)"
    by (rule stranded_close_and_resolve [OF _ _ _ refl]) (simp_all add: cancel_row_def unlock_def)
  then show ?thesis
    by (simp add: cancelJob_def Let_def)
qed

lemma stranded_dead_letter_sweep:
  "stranded (jobs (snd (dead_letter_sweep P err now d))) \<subseteq> stranded (jobs d)"
  unfolding dead_letter_sweep_def Let_def snd_conv
  by (rule stranded_close_and_resolve [OF _ _ _ refl]) (simp_all add: timeout_row_def unlock_def)

lemma stranded_handleTimeouts: "stranded (jobs (snd (handleTimeouts now d))) \<subseteq> stranded (jobs d)"
  by (simp add: handleTimeouts_def stranded_dead_letter_sweep)

lemma stranded_handleWallClockTimeouts:
  "stranded (jobs (snd (handleWallClockTimeouts now dur d))) \<subseteq> stranded (jobs d)"
  by (simp add: handleWallClockTimeouts_def stranded_dead_letter_sweep)

lemma stranded_retryJob: "stranded (jobs (snd (retryJob now i d))) \<subseteq> stranded (jobs d)"
  unfolding retryJob_def snd_one_row by (rule stranded_keep_open) (simp add: retry_row_def unlock_def)

lemma stranded_pauseJob: "stranded (jobs (snd (pauseJob now i d))) \<subseteq> stranded (jobs d)"
  unfolding pauseJob_def snd_one_row by (rule stranded_keep_open) (simp add: set_status_def unlock_def)

lemma stranded_resumeJob: "stranded (jobs (snd (resumeJob now i d))) \<subseteq> stranded (jobs d)"
  unfolding resumeJob_def snd_one_row by (rule stranded_keep_open) (simp add: set_status_def unlock_def)

lemma stranded_promoteDelayed: "stranded (jobs (snd (promoteDelayed now d))) \<subseteq> stranded (jobs d)"
  unfolding promoteDelayed_def Let_def snd_conv
  by (rule stranded_keep_open) (simp add: set_status_def unlock_def)

lemma stranded_releaseLeaseFullJob:
  "stranded (jobs (snd (releaseLeaseFullJob now i tok err bo d))) \<subseteq> stranded (jobs d)"
  unfolding releaseLeaseFullJob_def snd_one_row
  by (rule stranded_keep_open) (simp add: release_row_def unlock_def)

lemma stranded_updateProgress:
  "stranded (jobs (snd (updateProgress now i tok pr d))) \<subseteq> stranded (jobs d)"
  unfolding updateProgress_def snd_fenced by (rule stranded_keep_open) simp

lemma stranded_renewLock: "stranded (jobs (snd (renewLock now i tok dur d))) \<subseteq> stranded (jobs d)"
  unfolding renewLock_def snd_fenced by (rule stranded_keep_open) simp

lemma stranded_updateTokens:
  "stranded (jobs (snd (updateTokens now i tok ti to tc d))) \<subseteq> stranded (jobs d)"
  unfolding updateTokens_def snd_fenced by (rule stranded_keep_open) (simp add: add_tokens_def)

lemma stranded_log_line: "stranded (jobs (log_line now i tok msg d)) \<subseteq> stranded (jobs d)"
  unfolding log_line_def by (rule stranded_keep_open) simp

lemma stranded_quiet_release: "stranded (jobs (quiet_release now i tok d)) \<subseteq> stranded (jobs d)"
  unfolding quiet_release_def by (rule stranded_keep_open) (simp add: unlock_def)

lemma stranded_readInbox: "stranded (jobs (snd (readInbox now i tok d))) \<subseteq> stranded (jobs d)"
  by (simp add: readInbox_def Let_def)

lemma stranded_sendMessage: "stranded (jobs (snd (sendMessage now i m sd d))) \<subseteq> stranded (jobs d)"
  by (simp add: sendMessage_jobs)

lemma stranded_removeJob:
  assumes ok: "table_ok d"
  shows "stranded (jobs (snd (removeJob i d))) \<subseteq> stranded (jobs d)"
  unfolding removeJob_def Let_def snd_conv by (rule stranded_delete [OF ok]) simp

lemma stranded_prune:
  assumes ok: "table_ok d" and sts: "\<forall>s \<in> set (orElse sts prune_default). terminal s"
  shows "stranded (jobs (snd (prune clock cutoff sts dry d))) \<subseteq> stranded (jobs d)"
proof -
  let ?P = "\<lambda>r. j_status r \<in> set (orElse sts prune_default) \<and>
    j_updated_at r < orElse cutoff (clock - 30 * 86400000)"
  have "stranded (jobs (delete_jobs ?P d)) \<subseteq> stranded (jobs d)"
    by (rule stranded_delete [OF ok]) (use sts in blast)
  then show ?thesis by (simp add: prune_def Let_def)
qed

section \<open>Submission\<close>

text \<open>A new child opens its parent's join, so parking the parent strands nobody.\<close>

lemma stranded_insert_park:
  assumes ins: "jobs d2 = jobs d @ [r]" and st: "j_status r \<in> {Waiting, Delayed}"
    and par: "\<And>p. nonzero parent = Some p \<Longrightarrow> is_child p r"
  shows "stranded (jobs (park_parent now parent d2)) \<subseteq> stranded (jobs d)"
proof -
  have r: "r \<in> set (jobs d2)" "\<not> terminal (j_status r)" "j_status r \<noteq> WaitingChildren"
    using ins st by auto
  have s2: "stranded (jobs d2) \<subseteq> stranded (jobs d)"
    using r(3) by (auto simp: stranded_iff ins)
  show ?thesis
  proof (cases "nonzero parent")
    case None
    with s2 show ?thesis by (simp add: park_parent_def)
  next
    case (Some p)
    let ?P = "\<lambda>x. j_id x = p \<and> j_status x \<in> {Waiting, Active, Delayed}"
    let ?d3 = "update_jobs ?P (set_status WaitingChildren now) d2"
    have "stranded (jobs ?d3) \<subseteq> stranded (jobs d2)"
    proof
      fix s assume s: "s \<in> stranded (jobs ?d3)"
      have child: "is_child s c \<Longrightarrow> terminal (j_status c)" if c: "c \<in> set (jobs d2)" for c
      proof -
        have "(if ?P c then set_status WaitingChildren now c else c) \<in> set (jobs ?d3)"
          using c by (auto simp: update_where_def)
        note D = strandedD [OF s this]
        show "is_child s c \<Longrightarrow> terminal (j_status c)"
        proof (cases "?P c")
          case True
          have "is_child s (set_status WaitingChildren now c) = is_child s c"
            by (simp add: set_status_def is_child_def)
          with D True show "is_child s c \<Longrightarrow> terminal (j_status c)"
            by (simp add: set_status_def)
        next
          case False
          with D show "is_child s c \<Longrightarrow> terminal (j_status c)" by (simp only: if_False)
        qed
      qed
      have "s \<noteq> p"
        using child [OF r(1)] r(2) par [OF Some] by blast
      obtain x' where x': "x' \<in> set (jobs ?d3)" "j_id x' = s" "j_status x' = WaitingChildren"
        using s by (rule strandedE)
      from x'(1) obtain x where x: "x \<in> set (jobs d2)"
        "x' = (if ?P x then set_status WaitingChildren now x else x)"
        by (auto elim: in_update_whereE)
      have "\<not> ?P x"
        using x(2) x'(2) \<open>s \<noteq> p\<close> by (cases "?P x") (simp_all add: set_status_def)
      then have "x' = x" using x(2) by (simp only: if_False)
      with x'(2,3) have "j_id x = s" "j_status x = WaitingChildren" by simp_all
      with x(1) show "s \<in> stranded (jobs d2)"
        unfolding stranded_iff using child by blast
    qed
    with s2 Some show ?thesis by (simp add: park_parent_def)
  qed
qed

lemma stranded_idempotent_hit:
  assumes "idempotent_hit key d = Inr d1"
  shows "stranded (jobs d1) \<subseteq> stranded (jobs d)"
proof -
  have "stranded (jobs (update_jobs (\<lambda>x. j_id x = i) (\<lambda>x. x\<lparr>j_idempotency_key := None\<rparr>) d)) \<subseteq> stranded (jobs d)" for i
    by (rule stranded_keep_open) simp
  moreover have "d1 = d \<or>
      (\<exists>i. d1 = update_jobs (\<lambda>x. j_id x = i) (\<lambda>x. x\<lparr>j_idempotency_key := None\<rparr>) d)"
    using assms by (auto simp: idempotent_hit_def split: option.splits if_splits)
  ultimately show ?thesis by blast
qed

lemma stranded_add_tx:
  assumes res: "add_tx clock now nm data opts d = Inr (r, d')"
  shows "stranded (jobs d') \<subseteq> stranded (jobs d)"
proof (cases "idempotent_hit (o_idempotency_key opts) d")
  case (Inl x)
  with res show ?thesis by (simp add: add_tx_def)
next
  case (Inr d1)
  have "stranded (jobs d') \<subseteq> stranded (jobs d1)"
  proof (cases "backpressure_hit nm data (o_queue opts) (o_maxWaiting opts) d1")
    case (Some b)
    with Inr res show ?thesis by (simp add: add_tx_def)
  next
    case None
    obtain depth where par: "check_parent (o_parent_job_id opts)
        (orElse (o_max_spawn_depth opts) DEFAULT_MAX_SPAWN_DEPTH) d1 = Inr depth"
      using Inr None res by (auto simp: add_tx_def split: sum.splits)
    let ?row = "new_row clock now (next_job_id d1) nm data opts depth"
    obtain x b d2 where ins: "insert_job ?row d1 = Inr (x, b, d2)"
      using Inr None par res by (auto simp: add_tx_def split: sum.splits)
    show ?thesis
    proof (cases b)
      case True
      have "d' = park_parent now (o_parent_job_id opts) d2"
        using Inr None par res ins True by (simp add: add_tx_def)
      moreover have "jobs d2 = jobs d1 @ [?row]"
        using insert_job_Inr(3) [of ?row d1 x d2] ins True by simp
      then have "stranded (jobs (park_parent now (o_parent_job_id opts) d2)) \<subseteq> stranded (jobs d1)"
        by (rule stranded_insert_park)
           (auto simp: new_row_def is_child_def nonzero_def split: option.splits if_splits)
      ultimately show ?thesis by simp
    next
      case False
      then have "d' = d2" "d2 = d1"
        using Inr None par res ins insert_job_False [of ?row d1 x d2] by (simp_all add: add_tx_def)
      then show ?thesis by simp
    qed
  qed
  with stranded_idempotent_hit [OF Inr] show ?thesis by simp
qed

lemma stranded_add:
  "add cap clock now name data opts trusted d = Inr (r, d') \<Longrightarrow> stranded (jobs d') \<subseteq> stranded (jobs d)"
  by (elim add_InrE) (rule stranded_add_tx)

lemma replayJob_Inr:
  assumes "replayJob cap clock now i ov d = Inr (r, d')"
  shows "d' = d \<or> (\<exists>nm dt opts a. add cap clock now nm dt opts False d = Inr (a, d'))"
  using assms unfolding replayJob_def by (auto split: option.splits if_splits sum.splits)

lemma stranded_replayJob:
  assumes "replayJob cap clock now i ov d = Inr (r, d')"
  shows "stranded (jobs d') \<subseteq> stranded (jobs d)"
  using replayJob_Inr [OF assms]
proof (elim disjE exE)
  fix nm dt opts a assume "add cap clock now nm dt opts False d = Inr (a, d')"
  then show ?thesis by (rule stranded_add)
qed simp

section \<open>The operations that keep the join\<close>

text \<open>
  Every operation of the queue but five: \<open>handleStalled\<close> when it dead-letters, \<open>failJob\<close> of a
  child whose policy \<open>fail_parent\<close> closes a parent that is itself a child, \<open>failParent\<close> alone,
  \<open>removeChildDependency\<close> alone, the worker's fall-back cancellation, and a \<open>prune\<close> asked to
  delete open rows.
\<close>

inductive join_step :: "db \<Rightarrow> db \<Rightarrow> bool" where
  j_add: "add cap clock now name data opts trusted d = Inr (r, d') \<Longrightarrow> join_step d d'"
| j_replay: "replayJob cap clock now i ov d = Inr (r, d') \<Longrightarrow> join_step d d'"
| j_claim: "claim now tok dur q names d = (r, d') \<Longrightarrow> join_step d d'"
| j_complete: "completeJob now i tok res d = (r, d') \<Longrightarrow> join_step d d'"
| j_fail: "failJob now i tok err st b d = (r, d') \<Longrightarrow> abandoned i tok d = {} \<Longrightarrow> join_step d d'"
| j_release: "releaseLeaseFullJob now i tok err bo d = (r, d') \<Longrightarrow> join_step d d'"
| j_cancel: "cancelJob now i d = (r, d') \<Longrightarrow> join_step d d'"
| j_retry: "retryJob now i d = (r, d') \<Longrightarrow> join_step d d'"
| j_pause: "pauseJob now i d = (r, d') \<Longrightarrow> join_step d d'"
| j_resume: "resumeJob now i d = (r, d') \<Longrightarrow> join_step d d'"
| j_remove: "removeJob i d = (ok, d') \<Longrightarrow> join_step d d'"
| j_prune: "prune clock cutoff sts dry d = (n, d') \<Longrightarrow>
    \<forall>s \<in> set (orElse sts prune_default). terminal s \<Longrightarrow> join_step d d'"
| j_timeouts: "handleTimeouts now d = (rows, d') \<Longrightarrow> join_step d d'"
| j_wall_clock: "handleWallClockTimeouts now dur d = (rows, d') \<Longrightarrow> join_step d d'"
| j_promote: "promoteDelayed now d = (rows, d') \<Longrightarrow> join_step d d'"
| j_progress: "updateProgress now i tok pr d = (ok, d') \<Longrightarrow> join_step d d'"
| j_renew: "renewLock now i tok dur d = (ok, d') \<Longrightarrow> join_step d d'"
| j_tokens: "updateTokens now i tok ti to tc d = (ok, d') \<Longrightarrow> join_step d d'"
| j_send: "sendMessage now i payload sender d = (m, d') \<Longrightarrow> join_step d d'"
| j_read: "readInbox now i tok d = (ms, d') \<Longrightarrow> join_step d d'"
| j_resolve: "resolveParent now p d = (r, d') \<Longrightarrow> join_step d d'"
| j_log: "d' = log_line now i tok msg d \<Longrightarrow> join_step d d'"
| j_quiet_release: "d' = quiet_release now i tok d \<Longrightarrow> join_step d d'"

lemma join_step_queue_step: "join_step d d' \<Longrightarrow> queue_step d d'"
  by (induction rule: join_step.induct) (auto intro: queue_step.intros op_step.intros)

lemmas stranded_plain =
  stranded_cancelJob stranded_handleTimeouts stranded_handleWallClockTimeouts stranded_retryJob
  stranded_pauseJob stranded_resumeJob stranded_promoteDelayed stranded_releaseLeaseFullJob
  stranded_updateProgress stranded_renewLock stranded_updateTokens stranded_sendMessage
  stranded_readInbox

lemma stranded_resolve: "stranded (jobs (snd (resolveParent now p d))) \<subseteq> stranded (jobs d)"
  using stranded_resolveParent [of now p d] by blast

lemma join_step_stranded:
  assumes "join_step d d'" and ok: "table_ok d"
  shows "stranded (jobs d') \<subseteq> stranded (jobs d)"
  using assms(1)
proof cases
  case (j_add cap clock now name data opts trusted r)
  then show ?thesis by (rule stranded_add)
next
  case (j_replay cap clock now i ov r)
  then show ?thesis by (rule stranded_replayJob)
next
  case (j_claim now tok dur q names r)
  then show ?thesis using stranded_claim [OF ok, of now tok dur q names] by simp
next
  case (j_complete now i tok res r)
  then show ?thesis using stranded_completeJob [OF ok, of now i tok res] by simp
next
  case (j_fail now i tok err st b r)
  then show ?thesis using stranded_failJob [OF ok, of now i tok err st b] by simp
next
  case (j_remove i k)
  then show ?thesis using stranded_removeJob [OF ok, of i] by simp
next
  case (j_prune clock cutoff sts dry n)
  then show ?thesis using stranded_prune [OF ok, of sts clock cutoff dry] by simp
next
  case j_log
  then show ?thesis by (simp add: stranded_log_line)
next
  case j_quiet_release
  then show ?thesis by (simp add: stranded_quiet_release)
qed (drule sndI, simp only: stranded_plain stranded_resolve)+

definition join_ok :: "db \<Rightarrow> bool" where
  "join_ok d \<longleftrightarrow> queue_ok d \<and> stranded (jobs d) = {}"

interpretation joins: invariant_system "\<lambda>d. \<exists>v. d = empty_db v" join_step join_ok
proof unfold_locales
  fix d :: db assume "\<exists>v. d = empty_db v"
  then obtain v where v: "d = empty_db v" ..
  have "jobs (empty_db v) = []" by (simp add: empty_db_def)
  with v show "join_ok d"
    by (simp add: join_ok_def empty_db_ok stranded_def)
next
  fix d d' assume step: "join_step d d'" and ok: "join_ok d"
  then have "queue_ok d'" "table_ok d"
    using system_step_ok [OF s_queue [OF join_step_queue_step]] by (auto simp: join_ok_def queue_ok_def)
  then show "join_ok d'"
    using join_step_stranded [OF step] ok by (auto simp: join_ok_def)
qed

end
