(* ===== verification/Minion_Locks.thy ===== *)
theory Minion_Locks
  imports Minion_Join
begin

text \<open>
  The lock tokens.  \<open>held t\<close> is the set of (job, token) pairs for which the table \<open>t\<close> has an
  active row: the calls a worker may make with that token.  Only \<open>claim\<close> adds a pair, and only
  with the token the claimer passed, so a worker whose lock was taken away (by a stall sweep, a
  timeout, a cancellation, a pause) never gets it back, and every fenced call it still makes is
  a no-op.
\<close>

section \<open>Held locks\<close>

definition held :: "minion_job list \<Rightarrow> (int \<times> string) set" where
  "held t = {(j_id r, tok) | r tok. r \<in> set t \<and> j_status r = Active \<and> j_lock_token r = Some tok}"

lemma held_iff: "(i, tok) \<in> held t \<longleftrightarrow> (\<exists>r \<in> set t. holds i tok r)"
  by (auto simp: held_def holds_def)

definition lock_kept :: "minion_job \<Rightarrow> minion_job \<Rightarrow> bool" where
  "lock_kept r r' \<longleftrightarrow> j_status r' = Active \<longrightarrow>
     j_status r = Active \<and> j_id r' = j_id r \<and> j_lock_token r' = j_lock_token r"

lemma held_rows:
  assumes "\<And>r'. r' \<in> set t' \<Longrightarrow> \<exists>r \<in> set t. lock_kept r r'"
  shows "held t' \<subseteq> held t"
proof
  fix x assume "x \<in> held t'"
  then obtain r' tok where r': "r' \<in> set t'" "x = (j_id r', tok)" "j_status r' = Active"
    "j_lock_token r' = Some tok"
    by (auto simp: held_def)
  with assms obtain r where "r \<in> set t" "lock_kept r r'" by blast
  with r' show "x \<in> held t"
    unfolding held_def lock_kept_def by force
qed

lemma lock_kept_refl [simp]: "lock_kept r r"
  by (simp add: lock_kept_def)

lemma held_update:
  assumes "\<And>r. P r \<Longrightarrow> lock_kept r (f r)"
  shows "held (jobs (update_jobs P f d)) \<subseteq> held (jobs d)"
proof (rule held_rows)
  fix r' assume "r' \<in> set (jobs (update_jobs P f d))"
  then obtain r where "r \<in> set (jobs d)" "r' = (if P r then f r else r)"
    by (auto elim: in_update_whereE)
  then show "\<exists>r \<in> set (jobs d). lock_kept r r'"
    using assms by (intro bexI [of _ r]) simp_all
qed

lemma held_delete: "held (jobs (delete_jobs P d)) \<subseteq> held (jobs d)"
proof (rule held_rows)
  fix r' assume "r' \<in> set (jobs (delete_jobs P d))"
  then obtain r where "r \<in> set (jobs d)" "r' = r \<or> r' = r\<lparr>j_parent_job_id := None\<rparr>"
    by (rule in_delete_jobsE)
  then show "\<exists>r \<in> set (jobs d). lock_kept r r'"
    by (intro bexI [of _ r]) (auto simp: lock_kept_def)
qed

lemma held_resolveParent: "held (jobs (snd (resolveParent now p d))) \<subseteq> held (jobs d)"
  unfolding jobs_resolveParent by (rule held_update) (simp add: lock_kept_def set_status_def)

lemma held_resolve_parents: "held (jobs (resolve_parents now ps d)) \<subseteq> held (jobs d)"
  unfolding resolve_parents_def
proof (induction ps arbitrary: d)
  case (Cons p ps)
  have "held (jobs (snd (resolveParent now p d))) \<subseteq> held (jobs d)"
    by (rule held_resolveParent)
  with Cons [of "snd (resolveParent now p d)"] show ?case by simp
qed simp

section \<open>Each operation\<close>

lemma held_sweep:
  assumes "\<And>r. P r \<Longrightarrow> lock_kept r (f r)"
  shows "held (jobs (resolve_parents now ps (notify_parents now oc err rows (update_jobs P f d)))) \<subseteq> held (jobs d)"
proof -
  have "held (jobs (resolve_parents now ps (notify_parents now oc err rows (update_jobs P f d))))
      \<subseteq> held (jobs (notify_parents now oc err rows (update_jobs P f d)))"
    by (rule held_resolve_parents)
  also have "\<dots> \<subseteq> held (jobs d)"
    using held_update [of P f d, OF assms] by simp
  finally show ?thesis .
qed

lemma held_cancelJob: "held (jobs (snd (cancelJob now i d))) \<subseteq> held (jobs d)"
proof -
  let ?P = "\<lambda>r. j_id r \<in> set (cancel_ids i d) \<and> open_job r"
  have "held (jobs (resolve_parents now (parent_ids (updated_jobs ?P (cancel_row now) d))
      (notify_parents now OCancelled ''cancelled'' (updated_jobs ?P (cancel_row now) d)
        (update_jobs ?P (cancel_row now) d)))) \<subseteq> held (jobs d)"
    by (rule held_sweep) (simp add: cancel_row_def lock_kept_def)
  then show ?thesis
    by (simp add: cancelJob_def Let_def)
qed

lemma held_dead_letter_sweep: "held (jobs (snd (dead_letter_sweep P err now d))) \<subseteq> held (jobs d)"
  unfolding dead_letter_sweep_def Let_def snd_conv
  by (rule held_sweep) (simp add: timeout_row_def lock_kept_def)

lemma held_handleTimeouts: "held (jobs (snd (handleTimeouts now d))) \<subseteq> held (jobs d)"
  by (simp add: handleTimeouts_def held_dead_letter_sweep)

lemma held_handleWallClockTimeouts:
  "held (jobs (snd (handleWallClockTimeouts now dur d))) \<subseteq> held (jobs d)"
  by (simp add: handleWallClockTimeouts_def held_dead_letter_sweep)

lemma held_handleStalled: "held (jobs (snd (handleStalled now d))) \<subseteq> held (jobs d)"
  unfolding handleStalled_def Let_def snd_conv
  by (rule held_update)
     (simp add: stall_row_def stall_requeue_row_def stall_dead_row_def lock_kept_def)

lemma held_retryJob: "held (jobs (snd (retryJob now i d))) \<subseteq> held (jobs d)"
  unfolding retryJob_def snd_one_row by (rule held_update) (simp add: retry_row_def lock_kept_def)

lemma held_pauseJob: "held (jobs (snd (pauseJob now i d))) \<subseteq> held (jobs d)"
  unfolding pauseJob_def snd_one_row by (rule held_update) (simp add: set_status_def lock_kept_def)

lemma held_resumeJob: "held (jobs (snd (resumeJob now i d))) \<subseteq> held (jobs d)"
  unfolding resumeJob_def snd_one_row by (rule held_update) (simp add: set_status_def lock_kept_def)

lemma held_promoteDelayed: "held (jobs (snd (promoteDelayed now d))) \<subseteq> held (jobs d)"
  unfolding promoteDelayed_def Let_def snd_conv
  by (rule held_update) (simp add: set_status_def lock_kept_def)

lemma held_releaseLeaseFullJob:
  "held (jobs (snd (releaseLeaseFullJob now i tok err bo d))) \<subseteq> held (jobs d)"
  unfolding releaseLeaseFullJob_def snd_one_row
  by (rule held_update) (simp add: release_row_def lock_kept_def)

lemma held_updateProgress: "held (jobs (snd (updateProgress now i tok pr d))) \<subseteq> held (jobs d)"
  unfolding updateProgress_def snd_fenced by (rule held_update) (simp add: lock_kept_def)

lemma held_renewLock: "held (jobs (snd (renewLock now i tok dur d))) \<subseteq> held (jobs d)"
  unfolding renewLock_def snd_fenced by (rule held_update) (simp add: lock_kept_def)

lemma held_updateTokens: "held (jobs (snd (updateTokens now i tok ti to tc d))) \<subseteq> held (jobs d)"
  unfolding updateTokens_def snd_fenced
  by (rule held_update) (simp add: add_tokens_def lock_kept_def)

lemma held_log_line: "held (jobs (log_line now i tok msg d)) \<subseteq> held (jobs d)"
  unfolding log_line_def by (rule held_update) (simp add: lock_kept_def)

lemma held_quiet_release: "held (jobs (quiet_release now i tok d)) \<subseteq> held (jobs d)"
proof -
  have "held (jobs (update_jobs P (\<lambda>r. (unlock r)\<lparr>j_updated_at := now\<rparr>) d)) \<subseteq> held (jobs d)" for P
  proof
    fix x assume "x \<in> held (jobs (update_jobs P (\<lambda>r. (unlock r)\<lparr>j_updated_at := now\<rparr>) d))"
    then obtain r' tok where r': "r' \<in> set (jobs (update_jobs P (\<lambda>r. (unlock r)\<lparr>j_updated_at := now\<rparr>) d))"
      "x = (j_id r', tok)" "j_status r' = Active" "j_lock_token r' = Some tok"
      by (auto simp: held_def)
    from r'(1) obtain r where "r \<in> set (jobs d)" "r' = (if P r then (unlock r)\<lparr>j_updated_at := now\<rparr> else r)"
      by (auto elim: in_update_whereE)
    with r'(2-4) show "x \<in> held (jobs d)"
      by (cases "P r") (auto simp: held_def unlock_def)
  qed
  then show ?thesis by (simp add: quiet_release_def)
qed

lemma held_quiet_force_cancel: "held (jobs (quiet_force_cancel now i d)) \<subseteq> held (jobs d)"
  unfolding quiet_force_cancel_def by (rule held_update) (simp add: lock_kept_def)

lemma held_quiet_defer: "held (jobs (quiet_defer now i tok d)) \<subseteq> held (jobs d)"
  unfolding quiet_defer_def by (rule held_update) (simp add: lock_kept_def)

lemma held_failParent: "held (jobs (snd (failParent now p c err d))) \<subseteq> held (jobs d)"
  unfolding failParent_def snd_one_row
  by (rule held_update) (simp add: fail_parent_row_def lock_kept_def)

lemma held_removeChildDependency: "held (jobs (removeChildDependency now i d)) \<subseteq> held (jobs d)"
  unfolding removeChildDependency_def by (rule held_update) (simp add: lock_kept_def)

lemma held_roll_up_tokens: "held (jobs (roll_up_tokens now c p d)) \<subseteq> held (jobs d)"
proof -
  have "held (jobs (update_jobs P (add_tokens now a b e) d)) \<subseteq> held (jobs d)" for P a b e
    by (rule held_update) (simp add: add_tokens_def lock_kept_def)
  then show ?thesis by (simp add: roll_up_tokens_def)
qed

lemma held_if_deleted:
  "held (jobs e) \<subseteq> H \<Longrightarrow> held (jobs (if b then delete_jobs P e else e)) \<subseteq> H"
  using held_delete [of P e] by auto

lemma held_completeJob: "held (jobs (snd (completeJob now i tok res d))) \<subseteq> held (jobs d)"
proof (cases "updated_jobs (holds i tok) (complete_row now res) d")
  case Nil
  then show ?thesis by (simp add: completeJob_def Let_def)
next
  case (Cons row rest)
  let ?d1 = "update_jobs (holds i tok) (complete_row now res) d"
  let ?c = "rowToMinionJob row"
  let ?m = "child_done (j_id ?c) (j_name ?c) res OComplete None"
  let ?d2 = "case j_parent_job_id ?c of None \<Rightarrow> ?d1
    | Some p \<Rightarrow> snd (resolveParent now p (post_child_done now p ?m (roll_up_tokens now ?c p ?d1)))"
  have d1: "held (jobs ?d1) \<subseteq> held (jobs d)"
    by (rule held_update) (simp add: complete_row_def lock_kept_def)
  have "held (jobs ?d2) \<subseteq> held (jobs d)"
  proof (cases "j_parent_job_id ?c")
    case (Some p)
    have "held (jobs (snd (resolveParent now p (post_child_done now p ?m (roll_up_tokens now ?c p ?d1)))))
        \<subseteq> held (jobs (post_child_done now p ?m (roll_up_tokens now ?c p ?d1)))"
      by (rule held_resolveParent)
    also have "\<dots> \<subseteq> held (jobs ?d1)"
      unfolding jobs_post_child_done by (rule held_roll_up_tokens)
    finally show ?thesis using Some d1 by auto
  qed (use d1 in simp)
  then show ?thesis
    using Cons held_if_deleted by (simp add: completeJob_def Let_def)
qed

lemma held_fail_parent_hook: "held (jobs (fail_parent_hook now st err c p d)) \<subseteq> held (jobs d)"
proof (cases "j_on_child_fail c")
  case RemoveDep
  let ?m = "child_done (j_id c) (j_name c) None (if st = FDead then ODead else OFailed) (Some err)"
  let ?d1 = "removeChildDependency now (j_id c) (post_child_done now p ?m d)"
  have "held (jobs (snd (resolveParent now p ?d1))) \<subseteq> held (jobs ?d1)"
    by (rule held_resolveParent)
  also have "\<dots> \<subseteq> held (jobs (post_child_done now p ?m d))"
    by (rule held_removeChildDependency)
  finally show ?thesis
    using RemoveDep by (simp add: fail_parent_hook_def Let_def)
next
  case FailParent
  let ?m = "child_done (j_id c) (j_name c) None (if st = FDead then ODead else OFailed) (Some err)"
  show ?thesis
    using FailParent held_failParent [of now p "j_id c" err "post_child_done now p ?m d"]
    by (simp add: fail_parent_hook_def Let_def)
next
  case Ignore
  let ?m = "child_done (j_id c) (j_name c) None (if st = FDead then ODead else OFailed) (Some err)"
  show ?thesis
    using Ignore held_resolveParent [of now p "post_child_done now p ?m d"]
    by (simp add: fail_parent_hook_def Let_def)
next
  case Continue
  let ?m = "child_done (j_id c) (j_name c) None (if st = FDead then ODead else OFailed) (Some err)"
  show ?thesis
    using Continue held_resolveParent [of now p "post_child_done now p ?m d"]
    by (simp add: fail_parent_hook_def Let_def)
qed

lemma held_failJob: "held (jobs (snd (failJob now i tok err st b d))) \<subseteq> held (jobs d)"
proof (cases "updated_jobs (holds i tok) (fail_row now st err (orElse b 0)) d")
  case Nil
  then show ?thesis by (simp add: failJob_def Let_def)
next
  case (Cons row rest)
  let ?d1 = "update_jobs (holds i tok) (fail_row now st err (orElse b 0)) d"
  let ?c = "rowToMinionJob row"
  let ?d2 = "case j_parent_job_id ?c of
      Some p \<Rightarrow> if st \<noteq> FDelayed then fail_parent_hook now st err ?c p ?d1 else ?d1 | None \<Rightarrow> ?d1"
  have d1: "held (jobs ?d1) \<subseteq> held (jobs d)"
    by (rule held_update) (cases st; simp add: fail_row_def lock_kept_def)
  have "held (jobs ?d2) \<subseteq> held (jobs d)"
  proof (cases "j_parent_job_id ?c")
    case (Some p)
    with d1 held_fail_parent_hook [of now st err ?c p ?d1] show ?thesis by auto
  qed (use d1 in simp)
  then show ?thesis
    using Cons held_if_deleted by (simp add: failJob_def Let_def)
qed

lemma held_idempotent_hit:
  assumes "idempotent_hit key d = Inr d1"
  shows "held (jobs d1) \<subseteq> held (jobs d)"
proof -
  have "held (jobs (update_jobs (\<lambda>x. j_id x = i) (\<lambda>x. x\<lparr>j_idempotency_key := None\<rparr>) d)) \<subseteq> held (jobs d)" for i
    by (rule held_update) (simp add: lock_kept_def)
  moreover have "d1 = d \<or>
      (\<exists>i. d1 = update_jobs (\<lambda>x. j_id x = i) (\<lambda>x. x\<lparr>j_idempotency_key := None\<rparr>) d)"
    using assms by (auto simp: idempotent_hit_def split: option.splits if_splits)
  ultimately show ?thesis by blast
qed

lemma held_park_parent: "held (jobs (park_parent now parent d)) \<subseteq> held (jobs d)"
proof -
  have "held (jobs (update_jobs P (set_status WaitingChildren now) d)) \<subseteq> held (jobs d)" for P
    by (rule held_update) (simp add: set_status_def lock_kept_def)
  then show ?thesis by (simp add: park_parent_def split: option.split)
qed

lemma held_add_tx:
  assumes res: "add_tx clock now nm data opts d = Inr (r, d')"
  shows "held (jobs d') \<subseteq> held (jobs d)"
proof (cases "idempotent_hit (o_idempotency_key opts) d")
  case (Inl x)
  with res show ?thesis by (simp add: add_tx_def)
next
  case (Inr d1)
  have "held (jobs d') \<subseteq> held (jobs d1)"
  proof (cases "backpressure_hit nm data (o_queue opts) (o_maxWaiting opts) d1")
    case (Some b)
    with Inr res show ?thesis by (simp add: add_tx_def)
  next
    case None
    obtain depth where par: "check_parent (o_parent_job_id opts)
        (orElse (o_max_spawn_depth opts) DEFAULT_MAX_SPAWN_DEPTH) d1 = Inr depth"
      using Inr None res by (auto simp: add_tx_def split: sum.splits)
    let ?row = "new_row clock now (next_job_id d1) nm data opts depth"
    obtain x b d2 where ins: "insert_job ?row d1 = Inr (x, b, d2)"
      using Inr None par res by (auto simp: add_tx_def split: sum.splits)
    show ?thesis
    proof (cases b)
      case True
      have "d' = park_parent now (o_parent_job_id opts) d2"
        using Inr None par res ins True by (simp add: add_tx_def)
      moreover have "jobs d2 = jobs d1 @ [?row]"
        using insert_job_Inr(3) [of ?row d1 x d2] ins True by simp
      moreover have "j_status ?row \<noteq> Active"
        by (simp add: new_row_def)
      then have "held (jobs d1 @ [?row]) = held (jobs d1)"
        by (auto simp: held_def)
      ultimately show ?thesis
        using held_park_parent [of now "o_parent_job_id opts" d2] by simp
    next
      case False
      then have "d' = d2" "d2 = d1"
        using Inr None par res ins insert_job_False [of ?row d1 x d2] by (simp_all add: add_tx_def)
      then show ?thesis by simp
    qed
  qed
  with held_idempotent_hit [OF Inr] show ?thesis by simp
qed

lemma held_add:
  "add cap clock now name data opts trusted d = Inr (r, d') \<Longrightarrow> held (jobs d') \<subseteq> held (jobs d)"
  by (elim add_InrE) (rule held_add_tx)

lemma held_replayJob:
  assumes "replayJob cap clock now i ov d = Inr (r, d')"
  shows "held (jobs d') \<subseteq> held (jobs d)"
  using replayJob_Inr [OF assms]
proof (elim disjE exE)
  fix nm dt opts a assume "add cap clock now nm dt opts False d = Inr (a, d')"
  then show ?thesis by (rule held_add)
qed simp

lemma held_claim: "held (jobs (snd (claim now tok dur q names d))) \<subseteq> held (jobs d) \<union> UNIV \<times> {tok}"
proof -
  have "held (jobs (update_jobs P (claim_row now tok dur) d)) \<subseteq> held (jobs d) \<union> UNIV \<times> {tok}" for P
  proof
    fix x assume "x \<in> held (jobs (update_jobs P (claim_row now tok dur) d))"
    then obtain r' t where r': "r' \<in> set (jobs (update_jobs P (claim_row now tok dur) d))"
      "x = (j_id r', t)" "j_status r' = Active" "j_lock_token r' = Some t"
      by (auto simp: held_def)
    from r'(1) obtain r where "r \<in> set (jobs d)" "r' = (if P r then claim_row now tok dur r else r)"
      by (auto elim: in_update_whereE)
    with r'(2-4) show "x \<in> held (jobs d) \<union> UNIV \<times> {tok}"
      by (cases "P r") (auto simp: held_def claim_row_def)
  qed
  then show ?thesis
    by (simp add: claim_snd split: option.split)
qed

lemmas held_plain =
  held_cancelJob held_handleTimeouts held_handleWallClockTimeouts held_handleStalled held_retryJob
  held_pauseJob held_resumeJob held_promoteDelayed held_releaseLeaseFullJob held_updateProgress
  held_renewLock held_updateTokens held_failParent held_completeJob held_failJob
  held_resolveParent

lemma held_op_step:
  assumes "op_step d d'"
  shows "held (jobs d') \<subseteq> held (jobs d)"
  using assms
proof cases
  case (q_add cap clock now name data opts trusted r)
  then show ?thesis by (rule held_add)
next
  case (q_replay cap clock now i ov r)
  then show ?thesis by (rule held_replayJob)
next
  case (q_remove i k)
  then have "d' = snd (removeJob i d)" by simp
  then show ?thesis by (simp add: removeJob_def Let_def held_delete)
next
  case (q_prune clock cutoff sts dry n)
  then have "d' = snd (prune clock cutoff sts dry d)" by simp
  then show ?thesis by (simp add: prune_def Let_def held_delete)
next
  case (q_send now i payload sender m)
  then have "d' = snd (sendMessage now i payload sender d)" by simp
  then show ?thesis by (simp add: sendMessage_jobs)
next
  case (q_read now i tok ms)
  then have "d' = snd (readInbox now i tok d)" by simp
  then show ?thesis by (simp add: readInbox_def Let_def)
next
  case q_detach
  then show ?thesis by (simp add: held_removeChildDependency)
next
  case q_log
  then show ?thesis by (simp add: held_log_line)
next
  case q_quiet_release
  then show ?thesis by (simp add: held_quiet_release)
next
  case q_quiet_cancel
  then show ?thesis by (simp add: held_quiet_force_cancel)
qed (drule sndI, simp only: held_plain)+

section \<open>A lost lock stays lost\<close>

text \<open>The steps of everyone else: any operation, and any claim with another token.\<close>

inductive others_step :: "string \<Rightarrow> db \<Rightarrow> db \<Rightarrow> bool" for tok :: string where
  o_op: "op_step d d' \<Longrightarrow> others_step tok d d'"
| o_defer: "d' = quiet_defer now i tok' d \<Longrightarrow> others_step tok d d'"
| o_claim: "claim now tok' dur q names d = (r, d') \<Longrightarrow> tok' \<noteq> tok \<Longrightarrow> others_step tok d d'"

lemma others_step_held:
  assumes "others_step tok d d'" "(i, tok) \<notin> held (jobs d)"
  shows "(i, tok) \<notin> held (jobs d')"
  using assms(1)
proof cases
  case o_op
  from held_op_step [OF this] assms(2) show ?thesis by blast
next
  case (o_defer now j tok')
  with held_quiet_defer [of now j tok' d] assms(2) show ?thesis by blast
next
  case (o_claim now tok' dur q names r)
  with held_claim [of now tok' dur q names d] assms(2) show ?thesis by auto
qed

interpretation lost_lock: invariant_system "\<lambda>d. (i, tok) \<notin> held (jobs d)" "others_step tok"
    "\<lambda>d. (i, tok) \<notin> held (jobs d)" for i tok
  by unfold_locales (simp_all add: others_step_held)

text \<open>Without the lock every fenced call returns nothing and changes nothing.\<close>

lemma fenced_noop:
  assumes "(i, tok) \<notin> held (jobs d)"
  shows "updated_jobs (holds i tok) f d = []" "update_jobs (holds i tok) f d = d"
    "\<not> list_ex (holds i tok) (jobs d)"
proof -
  have no: "\<forall>r \<in> set (jobs d). \<not> holds i tok r"
    using assms by (simp add: held_iff)
  then show "updated_jobs (holds i tok) f d = []" "\<not> list_ex (holds i tok) (jobs d)"
    by (simp_all add: updated_jobs_def updated_def filter_empty_conv list_ex_iff)
  have "update_where (holds i tok) f (jobs d) = jobs d"
    unfolding update_where_def using no by (intro map_idI) simp
  then show "update_jobs (holds i tok) f d = d"
    by (simp add: update_jobs_def)
qed

end
