(* ===== verification/Minion_Guarantees.thy ===== *)
theory Minion_Guarantees
  imports Minion_Locks
begin

text \<open>
  The guarantees of the job queue: theorems about every reachable database and about each
  operation, over the invariants of theories Minion_Invariants, Minion_Join and Minion_Locks.
  A theorem with hypotheses is followed by an instance at a concrete database.
\<close>

section \<open>Concrete databases\<close>

definition sample :: "int \<Rightarrow> job_status \<Rightarrow> minion_job" where
  "sample i st = (new_row 0 0 i ''sync'' (JObj []) no_opts 0)\<lparr>j_status := st\<rparr>"

definition added :: "job_opts \<Rightarrow> db \<Rightarrow> db" where
  "added opts d =
     (case add (\<lambda>_. CapOk) 0 0 ''sync'' None opts False d of Inr (r, d') \<Rightarrow> d' | Inl e \<Rightarrow> d)"

definition child_of :: "int \<Rightarrow> job_opts" where
  "child_of p = no_opts\<lparr>o_parent_job_id := Some p\<rparr>"

definition claimed :: "db \<Rightarrow> db" where
  "claimed d = snd (claim 5 ''t'' 30000 ''default'' [''sync''] d)"

definition one_job :: db where "one_job = added no_opts (empty_db 7)"
definition one_active :: db where "one_active = claimed one_job"
definition parent_child :: db where "parent_child = added (child_of 1) one_active"
definition child_active :: db where "child_active = claimed parent_child"

lemma added_steps: "queue_step\<^sup>*\<^sup>* d (added opts d)"
proof (cases "add (\<lambda>_. CapOk) 0 0 ''sync'' None opts False d")
  case (Inr x)
  then have "queue_step d (added opts d)"
    by (cases x) (auto simp: added_def intro: q_op q_add)
  then show ?thesis ..
qed (simp add: added_def)

lemma claimed_steps: "queue_step\<^sup>*\<^sup>* d (claimed d)"
  unfolding claimed_def by (rule r_into_rtranclp, rule q_claim, rule surjective_pairing)

lemma queue_steps_system_steps: "queue_step\<^sup>*\<^sup>* d e \<Longrightarrow> system_step\<^sup>*\<^sup>* d e"
  using mono_rtranclp [of queue_step system_step] s_queue by blast

lemma sample_steps:
  "queue_step\<^sup>*\<^sup>* (empty_db 7) one_job" "queue_step\<^sup>*\<^sup>* (empty_db 7) one_active"
  "queue_step\<^sup>*\<^sup>* (empty_db 7) parent_child" "queue_step\<^sup>*\<^sup>* (empty_db 7) child_active"
proof -
  show 1: "queue_step\<^sup>*\<^sup>* (empty_db 7) one_job"
    unfolding one_job_def by (rule added_steps)
  show 2: "queue_step\<^sup>*\<^sup>* (empty_db 7) one_active"
    unfolding one_active_def by (rule rtranclp_trans [OF 1 claimed_steps])
  show 3: "queue_step\<^sup>*\<^sup>* (empty_db 7) parent_child"
    unfolding parent_child_def by (rule rtranclp_trans [OF 2 added_steps])
  show 4: "queue_step\<^sup>*\<^sup>* (empty_db 7) child_active"
    unfolding child_active_def by (rule rtranclp_trans [OF 3 claimed_steps])
qed

lemma queue_steps_reachable: "queue_step\<^sup>*\<^sup>* (empty_db v) d \<Longrightarrow> reachable_db d"
  unfolding reachable_db_def using queue_steps_system_steps by blast

lemmas sample_reachable = sample_steps [THEN queue_steps_reachable]

lemma sample_rows:
  "map (\<lambda>r. (j_id r, j_status r)) (jobs one_job) = [(1, Waiting)]"
  "map (\<lambda>r. (j_id r, j_status r)) (jobs one_active) = [(1, Active)]"
  "map (\<lambda>r. (j_id r, j_status r)) (jobs parent_child) = [(1, WaitingChildren), (2, Waiting)]"
  "map (\<lambda>r. (j_id r, j_status r)) (jobs child_active) = [(1, WaitingChildren), (2, Active)]"
  by code_simp+

section \<open>The table\<close>



text \<open>C9: in every reachable database the ids are distinct and were all handed out by the sequence,
  a parent link leads to an existing row with a smaller id and a depth one less (so the family
  relation is a forest), and an idempotency key names at most one row.\<close>

theorem table_structure:
  assumes "reachable_db d"
  shows "distinct (map j_id (jobs d)) \<and> (\<forall>r \<in> set (jobs d). 1 \<le> j_id r \<and> j_id r < next_job_id d) \<and>
    (\<forall>r \<in> set (jobs d). \<forall>p. j_parent_job_id r = Some p \<longrightarrow>
       (\<exists>q \<in> set (jobs d). j_id q = p \<and> j_depth r = j_depth q + 1 \<and> p < j_id r)) \<and>
    (\<forall>r \<in> set (jobs d). \<forall>r' \<in> set (jobs d). j_idempotency_key r \<noteq> None \<longrightarrow>
       j_idempotency_key r' = j_idempotency_key r \<longrightarrow> r = r')"
proof -
  have ok: "table_ok d"
    using reachable_ok [OF assms] by (simp add: queue_ok_def)
  have "r = r'" if "r \<in> set (jobs d)" "r' \<in> set (jobs d)" "j_idempotency_key r \<noteq> None"
    "j_idempotency_key r' = j_idempotency_key r" for r r'
  proof -
    note rs = that
    obtain k where "j_idempotency_key r = Some k" using rs(3) by blast
    then have "j_id r = j_id r'"
      using keys_okD [of "jobs d" r r' k] ok rs by (simp add: table_ok_def)
    then show ?thesis by (rule distinct_idD [OF ok rs(1,2)])
  qed
  then show ?thesis
    using ok unfolding table_ok_def lineage_ok_def by blast
qed

theorem table_structure_witness:
  "reachable_db parent_child \<and> distinct (map j_id (jobs parent_child))"
  using table_structure [OF sample_reachable(3)] sample_reachable(3) by blast

section \<open>The life cycle\<close>

lemma step_row:
  assumes "queue_step d d'" and ok: "table_ok d"
    and r: "r \<in> set (jobs d)" "r' \<in> set (jobs d')" "j_id r' = j_id r"
  shows "row_evolves advance_or_reopen r r'"
proof -
  have "follows advance_or_reopen d d'"
    using assms(1) ok by (rule queue_step_follows)
  with r(2) consider s where "s \<in> set (jobs d)" "row_evolves advance_or_reopen s r'" | "fresh_row d r'"
    unfolding follows_def by blast
  then show ?thesis
  proof cases
    case 1
    have "s = r"
      by (rule distinct_idD [OF ok 1(1) r(1)]) (use row_evolvesD(1) [OF 1(2)] r(3) in simp)
    with 1 show ?thesis by simp
  next
    case 2
    then have "j_id r = next_job_id d" using r(3) by (simp add: fresh_row_def)
    moreover have "j_id r < next_job_id d" using ok r(1) by (simp add: table_ok_def)
    ultimately show ?thesis by simp
  qed
qed



text \<open>A completed or cancelled job keeps its status for as long as its row exists, along any run
  of operations; only a failed or dead job can be opened again (by a retry).\<close>

theorem settled_forever:
  assumes "reachable_db d" "queue_step\<^sup>*\<^sup>* d d'" "r \<in> set (jobs d)" "r' \<in> set (jobs d')"
    and "j_id r' = j_id r" "j_status r \<in> {Completed, Cancelled}"
  shows "j_status r' = j_status r"
proof -
  have ok: "queue_ok d" by (rule reachable_ok [OF assms(1)])
  then have lt: "j_id r < next_job_id d"
    using assms(3) by (simp add: queue_ok_def table_ok_def)
  obtain s where s: "s \<in> set (jobs d)" "row_evolves advance_or_reopen s r'"
    using run_row [OF assms(2) ok assms(4)] lt assms(5) by auto
  have "s = r"
    by (rule distinct_idD [OF _ s(1) assms(3)])
       (use ok row_evolvesD(1) [OF s(2)] assms(5) in \<open>simp_all add: queue_ok_def\<close>)
  with s(2) assms(6) show ?thesis
    using settled_absorbing by (simp add: row_evolves_def)
qed

theorem settled_forever_witness:
  "j_status (hd (jobs (snd (retryJob 9 1 (snd (cancelJob 8 1 one_active)))))) = Cancelled"
proof -
  let ?d = "snd (cancelJob 8 1 one_active)" and ?e = "snd (retryJob 9 1 (snd (cancelJob 8 1 one_active)))"
  have "queue_step one_active ?d"
    by (rule q_op, rule q_cancel, rule surjective_pairing)
  moreover have "queue_step ?d ?e"
    by (rule q_op, rule q_retry, rule surjective_pairing)
  ultimately have "reachable_db ?d" "queue_step\<^sup>*\<^sup>* ?d ?e"
    using queue_steps_reachable [OF rtranclp.rtrancl_into_rtrancl [OF sample_steps(2)]] by auto
  moreover have "jobs ?d \<noteq> []" "jobs ?e \<noteq> []" "j_id (hd (jobs ?e)) = j_id (hd (jobs ?d))"
    "j_status (hd (jobs ?d)) = Cancelled"
    by code_simp+
  ultimately show ?thesis
    using settled_forever [of ?d ?e "hd (jobs ?d)" "hd (jobs ?e)"] by simp
qed

section \<open>Parents and children\<close>

text \<open>C2: along any run of the operations that keep the join (all of them but a stall sweep, a
  failure that closes a parent which is itself a child, and the three bare statements), no
  parent is ever left in \<open>waiting-children\<close> without an open child to wait for.\<close>

theorem no_stranded_parent:
  assumes "join_step\<^sup>*\<^sup>* (empty_db v) d" "r \<in> set (jobs d)" "j_status r = WaitingChildren"
  shows "\<exists>c \<in> set (jobs d). is_child (j_id r) c \<and> \<not> terminal (j_status c)"
proof -
  have "join_ok d"
    using joins.reachable_inv [OF _ assms(1)] by blast
  then have "j_id r \<notin> stranded (jobs d)"
    by (simp add: join_ok_def)
  with assms(2,3) show ?thesis
    by (auto simp: stranded_iff)
qed

theorem no_stranded_parent_witness:
  "\<exists>c \<in> set (jobs child_active). is_child 1 c \<and> \<not> terminal (j_status c)"
proof -
  have a: "join_step\<^sup>*\<^sup>* d (added opts d)" for d opts
  proof (cases "add (\<lambda>_. CapOk) 0 0 ''sync'' None opts False d")
    case (Inr x)
    then have "join_step d (added opts d)"
      by (cases x) (auto simp: added_def intro: j_add)
    then show ?thesis ..
  qed (simp add: added_def)
  have c: "join_step\<^sup>*\<^sup>* d (claimed d)" for d
    unfolding claimed_def by (rule r_into_rtranclp, rule j_claim, rule surjective_pairing)
  have "join_step\<^sup>*\<^sup>* (empty_db 7) child_active"
    unfolding child_active_def parent_child_def one_active_def one_job_def
    by (blast intro: rtranclp_trans a c)
  moreover have "jobs child_active \<noteq> []" "j_id (hd (jobs child_active)) = 1"
    "j_status (hd (jobs child_active)) = WaitingChildren"
    by code_simp+
  ultimately show ?thesis
    using no_stranded_parent [of 7 child_active "hd (jobs child_active)"] by simp
qed

text \<open>The stall sweep strands parents.  There is a reachable database with no stranded parent in
  which \<open>handleStalled\<close> dead-letters a child and leaves its parent waiting for nobody, with no
  \<open>child_done\<close> message in the parent's inbox.\<close>

theorem handleStalled_strands_parent:
  "\<exists>d now. reachable_db d \<and> stranded (jobs d) = {} \<and>
     stranded (jobs (snd (handleStalled now d))) \<noteq> {} \<and> inbox (snd (handleStalled now d)) = []"
proof -
  let ?o = "(child_of 1)\<lparr>o_max_stalled := Some 1\<rparr>"
  let ?d = "claimed (added ?o one_active)"
  have "queue_step\<^sup>*\<^sup>* (empty_db 7) ?d"
    using rtranclp_trans [OF sample_steps(2) rtranclp_trans [OF added_steps claimed_steps]] .
  then have "reachable_db ?d" by (rule queue_steps_reachable)
  moreover have "stranded (jobs ?d) = {}" by code_simp
  moreover have "stranded (jobs (snd (handleStalled 99999 ?d))) = {1}"
    "inbox (snd (handleStalled 99999 ?d)) = []"
    by code_simp+
  ultimately show ?thesis by blast
qed

text \<open>A failure two levels down strands the grandparent: with the default policy
  \<open>fail_parent\<close> the failing grandchild fails its parent, and the root, whose only child is now
  failed, stays in \<open>waiting-children\<close> with an empty inbox.\<close>

theorem fail_parent_strands_grandparent:
  "\<exists>d. reachable_db d \<and> stranded (jobs d) = {} \<and>
     stranded (jobs (snd (failJob 9 3 ''t'' ''boom'' FDead None d))) = {1}"
proof -
  let ?d = "claimed (added (child_of 2) child_active)"
  have "queue_step\<^sup>*\<^sup>* (empty_db 7) ?d"
    using rtranclp_trans [OF sample_steps(4) rtranclp_trans [OF added_steps claimed_steps]] .
  then have "reachable_db ?d" by (rule queue_steps_reachable)
  moreover have "stranded (jobs ?d) = {}"
    "stranded (jobs (snd (failJob 9 3 ''t'' ''boom'' FDead None ?d))) = {1}"
    by code_simp+
  ultimately show ?thesis by blast
qed

section \<open>Locks\<close>

text \<open>C3: a worker that lost the lock of a job never gets it back: whatever everybody else does
  afterwards (any operation, any claim with another token), all of its fenced calls, complete,
  fail, release, renew, progress, token count, log and inbox, return nothing and change nothing.\<close>

theorem lost_lock_fenced:
  assumes "(i, tok) \<notin> held (jobs d)" "(others_step tok)\<^sup>*\<^sup>* d d'"
  shows "completeJob now i tok res d' = (None, d') \<and> failJob now i tok err st bo d' = (None, d') \<and>
    releaseLeaseFullJob now i tok err wait d' = (None, d') \<and> renewLock now i tok dur d' = (False, d') \<and>
    updateProgress now i tok pr d' = (False, d') \<and> updateTokens now i tok ti to tc d' = (False, d') \<and>
    log_line now i tok msg d' = d' \<and> readInbox now i tok d' = ([], d') \<and>
    readChildCompletions i tok since d' = []"
proof -
  have "(i, tok) \<notin> held (jobs d')"
    using lost_lock.steps_inv [OF assms(2,1)] .
  note N = fenced_noop [OF this]
  show ?thesis
    using N(3)
    by (simp add: completeJob_def failJob_def releaseLeaseFullJob_def renewLock_def updateProgress_def
        updateTokens_def log_line_def readInbox_def readChildCompletions_def one_row_def fenced_def N(1,2))
qed

theorem lost_lock_fenced_witness:
  "completeJob 50 1 ''t'' None (snd (claim 45 ''u'' 30000 ''default'' [''sync''] (snd (handleStalled 40000 one_active))))
     = (None, snd (claim 45 ''u'' 30000 ''default'' [''sync''] (snd (handleStalled 40000 one_active))))"
proof -
  let ?d = "snd (handleStalled 40000 one_active)" and ?e = "snd (claim 45 ''u'' 30000 ''default'' [''sync''] (snd (handleStalled 40000 one_active)))"
  have "list_all (\<lambda>r. \<not> holds 1 ''t'' r) (jobs ?d)" by code_simp
  then have "(1, ''t'') \<notin> held (jobs ?d)"
    by (simp add: held_iff list_all_iff)
  moreover have "others_step ''t'' ?d ?e"
    by (rule o_claim, rule surjective_pairing) simp
  ultimately show ?thesis
    using lost_lock_fenced [OF _ r_into_rtranclp, of 1 "''t''" ?d ?e] by simp
qed

end
