(* ===== verification/Rate_Leases.thy ===== *)
theory Rate_Leases
  imports Minion_Guarantees
begin

text \<open>
  The lease-based rate limiter (\<open>src/core/minions/rate-leases.ts\<close>) on the table
  \<open>subagent_rate_leases\<close>, the field \<open>leases\<close> of the database.  \<open>acquireLease\<close> is one
  transaction under an advisory lock of its key, so it is one atomic step; an exception (the
  owner's foreign key) is the value \<open>None\<close>.  The lock key only has to be a 64-bit integer that
  PostgreSQL accepts, which \<open>hashKey_range\<close> shows.
\<close>

section \<open>The lock key\<close>

definition FNV64_OFFSET :: "64 word" where "FNV64_OFFSET = 0xcbf29ce484222325"
definition FNV64_PRIME :: "64 word" where "FNV64_PRIME = 0x100000001b3"

definition hashKey :: "string \<Rightarrow> 64 word" where
  "hashKey key =
     fold (\<lambda>c h. (h XOR of_nat (of_char c)) * FNV64_PRIME) key FNV64_OFFSET AND (0x8000000000000000 - 1)"

section \<open>The operations\<close>

definition DEFAULT_TTL_MS :: int where "DEFAULT_TTL_MS = 120000"

record lease_result =
  acquired :: bool
  lease_id :: "int option"
  active_count :: int
  max_concurrent :: int

definition held_leases :: "string \<Rightarrow> db \<Rightarrow> int" where
  "held_leases key d = int (length (filter (\<lambda>l. l_key l = key) (leases d)))"

definition prune_stale :: "int \<Rightarrow> string \<Rightarrow> db \<Rightarrow> db" where
  "prune_stale now key d =
     d\<lparr>leases := delete_where (\<lambda>l. l_key l = key \<and> l_expires_at l \<le> now) (leases d)\<rparr>"

definition acquireLease ::
  "int \<Rightarrow> string \<Rightarrow> int \<Rightarrow> int \<Rightarrow> int option \<Rightarrow> db \<Rightarrow> (lease_result \<times> db) option" where
  "acquireLease now key owner maxConcurrent ttl d =
     (let d1 = prune_stale now key d;
          activeCount = held_leases key d1
      in if activeCount \<ge> maxConcurrent
         then Some (\<lparr>acquired = False, lease_id = None, active_count = activeCount,
                     max_concurrent = maxConcurrent\<rparr>, d1)
         else if find_job owner d1 = None then None
         else (let l = \<lparr>l_id = next_lease_id d1, l_key = key, l_owner_job_id = owner,
                        l_expires_at = now + orElse ttl DEFAULT_TTL_MS\<rparr>
               in Some (\<lparr>acquired = True, lease_id = Some (l_id l), active_count = activeCount + 1,
                         max_concurrent = maxConcurrent\<rparr>,
                        d1\<lparr>leases := leases d1 @ [l], next_lease_id := next_lease_id d1 + 1\<rparr>)))"

definition renewLease :: "int \<Rightarrow> int \<Rightarrow> int \<Rightarrow> db \<Rightarrow> bool \<times> db" where
  "renewLease now lease ttl d =
     (list_ex (\<lambda>l. l_id l = lease) (leases d),
      d\<lparr>leases := update_where (\<lambda>l. l_id l = lease) (\<lambda>l. l\<lparr>l_expires_at := now + ttl\<rparr>) (leases d)\<rparr>)"

definition releaseLease :: "int \<Rightarrow> db \<Rightarrow> db" where
  "releaseLease lease d = d\<lparr>leases := delete_where (\<lambda>l. l_id l = lease) (leases d)\<rparr>"

text \<open>\<open>renewLeaseWithBackoff\<close>: \<open>blip n\<close> says that the \<open>n\<close>-th attempt throws; the time of an
  attempt is the start plus the delays before it.\<close>

definition RENEW_DELAYS :: "int list" where "RENEW_DELAYS = [0, 250, 500, 1000]"

fun renew_attempts :: "int list \<Rightarrow> bool list \<Rightarrow> int \<Rightarrow> int \<Rightarrow> int \<Rightarrow> db \<Rightarrow> bool \<times> db" where
  "renew_attempts [] blips now lease ttl d = (False, d)"
| "renew_attempts (w # ws) (True # bs) now lease ttl d = renew_attempts ws bs (now + w) lease ttl d"
| "renew_attempts (w # ws) blips now lease ttl d = renewLease (now + w) lease ttl d"

definition renewLeaseWithBackoff :: "bool list \<Rightarrow> int \<Rightarrow> int \<Rightarrow> int option \<Rightarrow> db \<Rightarrow> bool \<times> db" where
  "renewLeaseWithBackoff blips now lease ttl =
     renew_attempts RENEW_DELAYS blips now lease (orElse ttl DEFAULT_TTL_MS)"

section \<open>What each operation does to the leases of a key\<close>

lemma count_delete: "length (filter P (delete_where Q t)) \<le> length (filter P t)"
  by (induction t) auto

lemma held_prune: "held_leases k (prune_stale now key d) \<le> held_leases k d"
  unfolding held_leases_def prune_stale_def by (simp add: count_delete)

lemma held_release: "held_leases k (releaseLease lease d) \<le> held_leases k d"
  by (simp add: held_leases_def releaseLease_def count_delete)

lemma held_renew: "held_leases k (snd (renewLease now lease ttl d)) = held_leases k d"
proof -
  have "length (filter (\<lambda>l. l_key l = k) (update_where (\<lambda>l. l_id l = lease)
      (\<lambda>l. l\<lparr>l_expires_at := e\<rparr>) t)) = length (filter (\<lambda>l. l_key l = k) t)" for t :: "rate_lease list" and e
    by (induction t) simp_all
  then show ?thesis by (simp add: held_leases_def renewLease_def)
qed

lemma held_renew_attempts: "held_leases k (snd (renew_attempts ws bs now lease ttl d)) = held_leases k d"
  by (induction ws bs now lease ttl d rule: renew_attempts.induct) (simp_all add: held_renew)

lemma held_acquire:
  assumes "acquireLease now key owner m ttl d = Some (r, d')"
  shows "held_leases k d' \<le> max (held_leases k d) (if k = key \<and> acquired r then m else 0)"
proof -
  have ge: "held_leases k (prune_stale now key d) \<le> held_leases k d" "0 \<le> held_leases k d"
    using held_prune by (simp_all add: held_leases_def)
  show ?thesis
  proof (cases "held_leases key (prune_stale now key d) \<ge> m")
    case True
    with assms have "d' = prune_stale now key d" "\<not> acquired r"
      by (auto simp: acquireLease_def Let_def)
    with ge show ?thesis by simp
  next
    case False
    let ?p = "prune_stale now key d"
    let ?l = "\<lparr>l_id = next_lease_id ?p, l_key = key, l_owner_job_id = owner,
                l_expires_at = now + orElse ttl DEFAULT_TTL_MS\<rparr>"
    have d': "d' = ?p\<lparr>leases := leases ?p @ [?l], next_lease_id := next_lease_id ?p + 1\<rparr>"
      and "acquired r"
      using assms False by (auto simp: acquireLease_def Let_def split: if_splits)
    have "held_leases k d' = held_leases k (prune_stale now key d) + (if k = key then 1 else 0)"
      by (simp add: d' held_leases_def)
    with False ge \<open>acquired r\<close> show ?thesis by auto
  qed
qed

section \<open>The limiter as a transition system\<close>

text \<open>Any interleaving of the operations, of any owners, with the one limit \<open>cap key\<close> per key; the
  rows of deleted jobs go away by the cascade.\<close>

inductive lease_step :: "(string \<Rightarrow> int) \<Rightarrow> db \<Rightarrow> db \<Rightarrow> bool" for cap where
  acquire: "acquireLease now key owner (cap key) ttl d = Some (r, d') \<Longrightarrow> lease_step cap d d'"
| renew: "renewLease now lease ttl d = (b, d') \<Longrightarrow> lease_step cap d d'"
| renew_backoff: "renewLeaseWithBackoff blips now lease ttl d = (b, d') \<Longrightarrow> lease_step cap d d'"
| release: "d' = releaseLease lease d \<Longrightarrow> lease_step cap d d'"
| cascade: "d' = delete_jobs P d \<Longrightarrow> lease_step cap d d'"
| others: "leases d' = leases d \<Longrightarrow> lease_step cap d d'"

definition within_caps :: "(string \<Rightarrow> int) \<Rightarrow> db \<Rightarrow> bool" where
  "within_caps cap d \<longleftrightarrow> (\<forall>k. held_leases k d \<le> max 0 (cap k))"

interpretation limiter: invariant_system "\<lambda>d. leases d = []" "lease_step cap" "within_caps cap" for cap
proof unfold_locales
  fix d :: db assume "leases d = []"
  then show "within_caps cap d" by (simp add: within_caps_def held_leases_def)
next
  fix d d' assume step: "lease_step cap d d'" and ok: "within_caps cap d"
  have "held_leases k d' \<le> max 0 (cap k)" for k
    using step
  proof cases
    case (acquire now key owner ttl r)
    have "held_leases k d' \<le> max (held_leases k d) (if k = key \<and> acquired r then cap key else 0)"
      by (rule held_acquire [OF acquire])
    moreover have "held_leases k d \<le> max 0 (cap k)" using ok by (simp add: within_caps_def)
    ultimately show ?thesis by (auto split: if_splits)
  next
    case (renew now lease ttl b)
    with held_renew [of k now lease ttl d] ok show ?thesis by (simp add: within_caps_def)
  next
    case (renew_backoff blips now lease ttl b)
    with held_renew_attempts [of k RENEW_DELAYS blips now lease "orElse ttl DEFAULT_TTL_MS" d] ok
    show ?thesis by (simp add: within_caps_def renewLeaseWithBackoff_def)
  next
    case (release lease)
    with held_release [of k lease d] ok show ?thesis
      by (auto simp: within_caps_def intro: order_trans)
  next
    case (cascade P)
    have "held_leases k (delete_jobs P d) \<le> held_leases k d"
      by (simp add: held_leases_def delete_jobs_def Let_def count_delete)
    with cascade ok show ?thesis by (auto simp: within_caps_def intro: order_trans)
  next
    case others
    with ok show ?thesis by (simp add: within_caps_def held_leases_def)
  qed
  then show "within_caps cap d'" by (simp add: within_caps_def)
qed

section \<open>Properties\<close>

lemma hashKey_range: "uint (hashKey key) < 2 ^ 63"
proof -
  have "0x8000000000000000 - 1 = (mask 63 :: 64 word)"
    by (simp add: mask_eq_exp_minus_1)
  then have "hashKey key = take_bit 63 (hashKey key)"
    by (simp add: hashKey_def take_bit_eq_mask)
  then show ?thesis
    by (metis take_bit_int_less_exp unsigned_take_bit_eq)
qed

definition live_leases :: "int \<Rightarrow> string \<Rightarrow> db \<Rightarrow> int" where
  "live_leases now key d = int (length (filter (\<lambda>l. l_key l = key \<and> l_expires_at l > now) (leases d)))"

text \<open>C25: the limiter never over-admits: along any interleaving of acquisitions, renewals (also of
  leases that have already expired), releases, deletions of owner jobs and other statements, at
  any time at most \<open>cap key\<close> unexpired leases of a key exist, when all acquisitions of a key use
  its cap.\<close>

theorem leases_never_exceed_cap:
  assumes "leases d0 = []" "(lease_step cap)\<^sup>*\<^sup>* d0 d"
  shows "live_leases now key d \<le> max 0 (cap key)"
proof -
  have "held_leases key d \<le> max 0 (cap key)"
    using limiter.reachable_inv [OF assms] by (simp add: within_caps_def)
  moreover have "length (filter (\<lambda>l. l_key l = key \<and> l_expires_at l > now) t) \<le>
      length (filter (\<lambda>l. l_key l = key) t)" for t
    by (induction t) auto
  then have "live_leases now key d \<le> held_leases key d"
    by (simp add: live_leases_def held_leases_def)
  ultimately show ?thesis by simp
qed

text \<open>Crash recovery is free: when every lease of a key has expired, whoever held it and without
  any release, an acquisition for an existing job under a positive cap succeeds, gets a fresh
  lease that is live for the whole time to live, and all the stale rows of the key are gone.\<close>

theorem expired_leases_free_capacity:
  assumes "\<forall>l \<in> set (leases d). l_key l = key \<longrightarrow> l_expires_at l \<le> now" "0 < m" "find_job owner d \<noteq> None"
  shows "\<exists>r d'. acquireLease now key owner m ttl d = Some (r, d') \<and> acquired r \<and> active_count r = 1 \<and>
    filter (\<lambda>l. l_key l = key) (leases d') =
      [\<lparr>l_id = next_lease_id d, l_key = key, l_owner_job_id = owner, l_expires_at = now + orElse ttl DEFAULT_TTL_MS\<rparr>]"
proof -
  have "filter (\<lambda>l. l_key l = key) (leases (prune_stale now key d)) = []"
    using assms(1) by (auto simp: prune_stale_def delete_where_def filter_empty_conv)
  moreover have "next_lease_id (prune_stale now key d) = next_lease_id d" "jobs (prune_stale now key d) = jobs d"
    by (simp_all add: prune_stale_def)
  ultimately show ?thesis
    using assms(2,3) by (simp add: acquireLease_def Let_def held_leases_def find_job_def)
qed

definition two_leases :: db where
  "two_leases = snd (the (acquireLease 3 ''k'' 1 2 None (snd (the (acquireLease 0 ''k'' 1 2 None one_job)))))"

theorem leases_never_exceed_cap_witness:
  "live_leases 4 ''k'' two_leases \<le> 2 \<and> live_leases 4 ''k'' two_leases = 2"
proof -
  let ?d1 = "snd (the (acquireLease 0 ''k'' 1 2 None one_job))"
  have step: "lease_step (\<lambda>_. 2) d (snd (the x))" if x: "acquireLease t ''k'' 1 2 None d = x" "x \<noteq> None" for t d x
    using x acquire [of t "''k''" 1 "\<lambda>_. 2" None d "fst (the x)" "snd (the x)"] by auto
  have "lease_step (\<lambda>_. 2) one_job ?d1"
    by (rule step [OF refl]) code_simp
  moreover have "lease_step (\<lambda>_. 2) ?d1 two_leases"
    unfolding two_leases_def by (rule step [OF refl]) code_simp
  ultimately have "(lease_step (\<lambda>_. 2))\<^sup>*\<^sup>* one_job two_leases" by simp
  moreover have "leases one_job = []" "live_leases 4 ''k'' two_leases = 2" by code_simp+
  ultimately show ?thesis
    using leases_never_exceed_cap [of one_job "\<lambda>_. 2" two_leases 4 "''k''"] by simp
qed

theorem expired_leases_free_capacity_witness:
  "\<exists>r d'. acquireLease 999999 ''k'' 1 2 None two_leases = Some (r, d') \<and> acquired r \<and> active_count r = 1"
proof -
  have "list_all (\<lambda>l. l_expires_at l \<le> 999999) (leases two_leases)" "find_job 1 two_leases \<noteq> None"
    by code_simp+
  then show ?thesis
    using expired_leases_free_capacity [of two_leases "''k''" 999999 2 1 None] by (auto simp: list_all_iff)
qed

end
