(* ===== verification/Lock_Renewal.thy ===== *)
theory Lock_Renewal
  imports Minion_Sched
begin

text \<open>
  One tick of the worker's lock-renewal timer (\<open>src/core/minions/lock-renewal-tick.ts\<close>) and the
  resolution of its knobs.  The injected dependencies are values: what the race between
  \<open>renewLock\<close> and its time-out came to (\<open>attempt\<close>), the clock, the three readings of the
  cancellation flag (at entry, after the call, after the reconnection), and whether the engine
  can reconnect.  The audit calls are returned as a list.
\<close>

section \<open>Knobs\<close>

record renewal_knobs =
  maxFailuresForAudit :: int
  callTimeoutMs :: int
  safetyMarginMs :: int

definition is_digit :: "char \<Rightarrow> bool" where
  "is_digit c \<longleftrightarrow> 48 \<le> (of_char c :: nat) \<and> (of_char c :: nat) \<le> 57"

definition digits_value :: "string \<Rightarrow> int" where
  "digits_value s = foldl (\<lambda>n c. n * 10 + (of_char c - 48)) 0 s"

text \<open>The decimal numbers that \<open>Number\<close> reads as infinity.\<close>

definition DOUBLE_OVERFLOW :: int where "DOUBLE_OVERFLOW = 2 ^ 1024 - 2 ^ 970"

text \<open>\<open>parsePositiveInt\<close> with \<open>warnAndFallback\<close>: the value, and the names warned about so far (a
  name is warned about once).\<close>

definition warnAndFallback :: "string \<Rightarrow> int \<Rightarrow> string list \<Rightarrow> int \<times> string list" where
  "warnAndFallback name fallback warned =
     (fallback, if name \<in> set warned then warned else warned @ [name])"

definition parsePositiveInt :: "string option \<Rightarrow> int \<Rightarrow> string \<Rightarrow> string list \<Rightarrow> int \<times> string list" where
  "parsePositiveInt raw fallback name warned =
     (case raw of
        None \<Rightarrow> (fallback, warned)
      | Some r \<Rightarrow>
          if r = [] then (fallback, warned)
          else (let t = js_trim r; n = digits_value t
                in if t = [] \<or> \<not> list_all is_digit t then warnAndFallback name fallback warned
                   else if n \<ge> DOUBLE_OVERFLOW \<or> n \<le> 0 then warnAndFallback name fallback warned
                   else (n, warned)))"

definition resolveLockRenewalKnobs ::
  "(string \<Rightarrow> string option) \<Rightarrow> int \<Rightarrow> string list \<Rightarrow> renewal_knobs \<times> string list" where
  "resolveLockRenewalKnobs env lockDurationMs warned =
     (let defaultMaxFailures = 3;
          defaultCallTimeout = max 1 (lockDurationMs div 3);
          defaultSafetyMargin = max 1 (lockDurationMs div 6);
          (a, w1) = parsePositiveInt (env ''GBRAIN_LOCK_RENEWAL_MAX_FAILURES'') defaultMaxFailures
                      ''GBRAIN_LOCK_RENEWAL_MAX_FAILURES'' warned;
          (b, w2) = parsePositiveInt (env ''GBRAIN_LOCK_RENEWAL_CALL_TIMEOUT_MS'') defaultCallTimeout
                      ''GBRAIN_LOCK_RENEWAL_CALL_TIMEOUT_MS'' w1;
          (c, w3) = parsePositiveInt (env ''GBRAIN_LOCK_RENEWAL_SAFETY_MARGIN_MS'') defaultSafetyMargin
                      ''GBRAIN_LOCK_RENEWAL_SAFETY_MARGIN_MS'' w2
      in (\<lparr>maxFailuresForAudit = a, callTimeoutMs = b, safetyMarginMs = c\<rparr>, w3))"

section \<open>The tick\<close>

datatype attempt = Renewed bool | Threw

datatype tick_result = TickOk | TickCancelled | TickLockLost | TickShouldAbort

datatype renewal_audit = LogFailure int | LogSuccessAfterFailure int | LogGaveUp int

record renewal_state =
  lockDurationMs :: int
  knobs :: renewal_knobs
  lastSuccessfulRenewalAt :: int
  consecutiveFailures :: int

record tick_env =
  cancelled_entry :: bool
  attempt_of :: attempt
  cancelled_after :: bool
  now_of :: int
  can_reconnect :: bool
  cancelled_reconnect :: bool

definition runLockRenewalTick ::
  "tick_env \<Rightarrow> renewal_state \<Rightarrow> tick_result \<times> renewal_state \<times> renewal_audit list" where
  "runLockRenewalTick e s =
     (if cancelled_entry e then (TickCancelled, s, [])
      else case attempt_of e of
        Threw \<Rightarrow>
          if cancelled_after e then (TickCancelled, s, [])
          else
            (let s1 = s\<lparr>consecutiveFailures := consecutiveFailures s + 1\<rparr>;
                 n = consecutiveFailures s1;
                 sinceLastSuccess = now_of e - lastSuccessfulRenewalAt s1;
                 deadline = lockDurationMs s1 - safetyMarginMs (knobs s1)
             in if sinceLastSuccess \<ge> deadline then (TickShouldAbort, s1, [LogFailure n, LogGaveUp n])
                else if can_reconnect e \<and> cancelled_reconnect e then (TickCancelled, s1, [LogFailure n])
                else (TickOk, s1, [LogFailure n]))
      | Renewed ok \<Rightarrow>
          if cancelled_after e then (TickCancelled, s, [])
          else if \<not> ok then (TickLockLost, s, [])
          else (TickOk,
                s\<lparr>consecutiveFailures := 0, lastSuccessfulRenewalAt := now_of e\<rparr>,
                if consecutiveFailures s > 0 then [LogSuccessAfterFailure (consecutiveFailures s)] else []))"

text \<open>The timer of the worker: it ticks until a tick is not \<open>ok\<close> (worker.ts then clears the interval
  and, but for \<open>cancelled\<close>, aborts the handler).\<close>

fun run_ticks :: "tick_env list \<Rightarrow> renewal_state \<Rightarrow> tick_result \<times> renewal_state" where
  "run_ticks [] s = (TickOk, s)"
| "run_ticks (e # es) s =
     (case runLockRenewalTick e s of
        (TickOk, s', _) \<Rightarrow> run_ticks es s'
      | (r, s', _) \<Rightarrow> (r, s'))"

section \<open>Properties\<close>

lemma parsePositiveInt_pos: "0 < fallback \<Longrightarrow> 0 < fst (parsePositiveInt raw fallback name warned)"
  by (auto simp: parsePositiveInt_def warnAndFallback_def Let_def split: option.split)

text \<open>Whatever the environment holds, the three knobs are positive, a variable that is unset or empty
  gives the default without a warning, and no name is warned about twice.\<close>

theorem knobs_positive:
  assumes "distinct warned"
  shows "0 < maxFailuresForAudit (fst (resolveLockRenewalKnobs env dur warned)) \<and>
    0 < callTimeoutMs (fst (resolveLockRenewalKnobs env dur warned)) \<and>
    0 < safetyMarginMs (fst (resolveLockRenewalKnobs env dur warned)) \<and>
    distinct (snd (resolveLockRenewalKnobs env dur warned)) \<and>
    ((\<forall>n. env n \<in> {None, Some []}) \<longrightarrow> resolveLockRenewalKnobs env dur warned =
       (\<lparr>maxFailuresForAudit = 3, callTimeoutMs = max 1 (dur div 3), safetyMarginMs = max 1 (dur div 6)\<rparr>, warned))"
proof -
  have d: "distinct w \<Longrightarrow> distinct (snd (parsePositiveInt r f n w))" for r f n w
    by (auto simp: parsePositiveInt_def warnAndFallback_def Let_def split: option.split)
  have u: "r \<in> {None, Some []} \<Longrightarrow> parsePositiveInt r f n w = (f, w)" for r f n w
    by (auto simp: parsePositiveInt_def)
  have p: "0 < f \<Longrightarrow> 0 < fst (parsePositiveInt r f n w)" for r f n w
    by (rule parsePositiveInt_pos)
  show ?thesis
    using assms by (simp add: resolveLockRenewalKnobs_def Let_def split_beta d p u)
qed

theorem knobs_positive_witness:
  "safetyMarginMs (fst (resolveLockRenewalKnobs (\<lambda>n. Some ''-5'') 30000 [])) > 0"
  using knobs_positive [of "[]" "\<lambda>n. Some ''-5''" 30000] by simp

lemma tick_ok_cases:
  assumes "runLockRenewalTick e s = (TickOk, s', a)"
  shows "(attempt_of e = Renewed True \<and> lastSuccessfulRenewalAt s' = now_of e \<and> consecutiveFailures s' = 0) \<or>
    (attempt_of e = Threw \<and> lastSuccessfulRenewalAt s' = lastSuccessfulRenewalAt s \<and>
     consecutiveFailures s' = consecutiveFailures s + 1 \<and>
     now_of e - lastSuccessfulRenewalAt s < lockDurationMs s - safetyMarginMs (knobs s))"
    and "lockDurationMs s' = lockDurationMs s" "knobs s' = knobs s"
  using assms by (auto simp: runLockRenewalTick_def Let_def split: attempt.splits if_splits)

text \<open>The trailing run of failed attempts.\<close>

definition trailing_failures :: "tick_env list \<Rightarrow> nat" where
  "trailing_failures es = length (takeWhile (\<lambda>e. attempt_of e = Threw) (rev es))"

lemma run_ticks_snoc:
  "run_ticks (es @ [e]) s = (case run_ticks es s of
     (TickOk, s') \<Rightarrow> (case runLockRenewalTick e s' of (r, s2, _) \<Rightarrow> (r, s2)) | (r, s') \<Rightarrow> (r, s'))"
  by (induction es arbitrary: s) (auto split: prod.splits tick_result.splits)


definition start_state :: renewal_state where
  "start_state = \<lparr>lockDurationMs = 30000, knobs = fst (resolveLockRenewalKnobs (\<lambda>_. None) 30000 []),
     lastSuccessfulRenewalAt = 0, consecutiveFailures = 0\<rparr>"

definition tick_at :: "int \<Rightarrow> attempt \<Rightarrow> tick_env" where
  "tick_at t a = \<lparr>cancelled_entry = False, attempt_of = a, cancelled_after = False, now_of = t,
     can_reconnect = True, cancelled_reconnect = False\<rparr>"


text \<open>A tick gives up exactly when the renewal threw, nobody cancelled, and the deadline has
  passed; a lost token is reported as such with no audit event; a cancelled tick audits at most
  the failed call.\<close>

theorem tick_outcomes:
  "(fst (runLockRenewalTick e s) = TickShouldAbort \<longleftrightarrow>
      \<not> cancelled_entry e \<and> \<not> cancelled_after e \<and> attempt_of e = Threw \<and>
      now_of e - lastSuccessfulRenewalAt s \<ge> lockDurationMs s - safetyMarginMs (knobs s)) \<and>
   (fst (runLockRenewalTick e s) = TickLockLost \<longleftrightarrow>
      \<not> cancelled_entry e \<and> \<not> cancelled_after e \<and> attempt_of e = Renewed False) \<and>
   (fst (runLockRenewalTick e s) = TickLockLost \<longrightarrow> snd (snd (runLockRenewalTick e s)) = []) \<and>
   (fst (runLockRenewalTick e s) = TickCancelled \<longrightarrow>
      set (snd (snd (runLockRenewalTick e s))) \<subseteq> {LogFailure (consecutiveFailures s + 1)})"
  by (auto simp: runLockRenewalTick_def Let_def split: attempt.splits)

theorem tick_outcomes_witness:
  "fst (runLockRenewalTick (tick_at 25000 Threw) start_state) = TickShouldAbort"
proof -
  have "attempt_of (tick_at 25000 Threw) = Threw \<and> \<not> cancelled_entry (tick_at 25000 Threw) \<and>
      \<not> cancelled_after (tick_at 25000 Threw) \<and>
      now_of (tick_at 25000 Threw) - lastSuccessfulRenewalAt start_state \<ge>
        lockDurationMs start_state - safetyMarginMs (knobs start_state)"
    by code_simp
  then show ?thesis
    using tick_outcomes [of "tick_at 25000 Threw" start_state] by blast
qed

end
