(* ===== verification/Minion_Outcomes.thy ===== *)
theory Minion_Outcomes
  imports Minion_Guarantees
begin

text \<open>
  What single operations of the queue achieve: the order of claims, the reach of a cancellation,
  the outcome of a completion and of a failure for the parent, the limits a submission respects,
  what the sweeps leave behind, and the inbox.
\<close>

section \<open>Claiming\<close>

lemma claim_before_total:
  "\<not> claim_before a b \<Longrightarrow> \<not> claim_before b c \<Longrightarrow> \<not> claim_before a c"
  by (auto simp: claim_before_def)

lemma claim_before_asym: "claim_before a b \<Longrightarrow> \<not> claim_before b a"
  by (auto simp: claim_before_def)

lemma claim_first:
  assumes "reachable_db d" "claim now tok dur q names d = (res, d')"
  shows "(res = None \<longleftrightarrow> (\<forall>r \<in> set (jobs d). \<not> claimable q names r)) \<and> (res = None \<longrightarrow> d' = d) \<and>
    (res \<noteq> None \<longrightarrow> (\<exists>r \<in> set (jobs d). claimable q names r \<and>
       (\<forall>x \<in> set (jobs d). claimable q names x \<longrightarrow> \<not> claim_before x r) \<and>
       res = Some (rowToMinionJob (claim_row now tok dur r)) \<and>
       jobs d' = update_where (\<lambda>x. x = r) (claim_row now tok dur) (jobs d)))"
proof (cases "first_min claim_before (filter (claimable q names) (jobs d))")
  case None
  then have "\<forall>r \<in> set (jobs d). \<not> claimable q names r"
    by (simp add: first_min_None filter_empty_conv)
  moreover from None have "res = None" "d' = d"
    using assms(2) by (simp_all add: claim_def split: if_splits)
  ultimately show ?thesis by simp
next
  case (Some r)
  then have r: "r \<in> set (jobs d)" "claimable q names r"
    using first_min_in [OF Some] by simp_all
  then have "names \<noteq> []" by (auto simp: claimable_def)
  with Some assms(2) have eq: "one_row (\<lambda>x. j_id x = j_id r) (claim_row now tok dur) d = (res, d')"
    by (simp add: claim_def)
  have ok: "table_ok d"
    using reachable_ok [OF assms(1)] by (simp add: queue_ok_def)
  have id: "j_id x = j_id r \<longleftrightarrow> x = r" if "x \<in> set (jobs d)" for x
    using distinct_idD [OF ok that r(1)] by blast
  have upd: "update_where (\<lambda>x. j_id x = j_id r) (claim_row now tok dur) (jobs d) =
      update_where (\<lambda>x. x = r) (claim_row now tok dur) (jobs d)"
    unfolding update_where_def using id by (intro map_cong) simp_all
  have "filter (\<lambda>x. j_id x = j_id r) (jobs d) = filter (\<lambda>x. x = r) (jobs d)"
    using id by (intro filter_cong) simp_all
  moreover have "r \<in> set (filter (\<lambda>x. x = r) (jobs d))" using r(1) by simp
  ultimately obtain xs where "filter (\<lambda>x. j_id x = j_id r) (jobs d) = r # xs"
    by (cases "filter (\<lambda>x. x = r) (jobs d)") (auto dest: filter_eq_ConsD)
  then have "fst (one_row (\<lambda>x. j_id x = j_id r) (claim_row now tok dur) d) =
      Some (rowToMinionJob (claim_row now tok dur r))"
    by (simp add: one_row_def updated_jobs_def updated_def)
  then have res: "res = Some (rowToMinionJob (claim_row now tok dur r))"
    unfolding eq by simp
  have "jobs (snd (one_row (\<lambda>x. j_id x = j_id r) (claim_row now tok dur) d)) =
      update_where (\<lambda>x. x = r) (claim_row now tok dur) (jobs d)"
    unfolding snd_one_row using upd by (simp add: update_jobs_def)
  then have jobs: "jobs d' = update_where (\<lambda>x. x = r) (claim_row now tok dur) (jobs d)"
    unfolding eq by simp
  have least: "\<not> claim_before x r" if "x \<in> set (jobs d)" "claimable q names x" for x
    using first_min_least [OF claim_before_total claim_before_asym Some] that by simp
  show ?thesis
  proof (intro conjI impI bexI [of _ r])
    show "(res = None) = (\<forall>r \<in> set (jobs d). \<not> claimable q names r)"
      using r res by blast
    show "d' = d" if "res = None" using that res by simp
  qed (use r res jobs least in simp_all)
qed

text \<open>C5: \<open>claim\<close> returns nothing exactly when no waiting job of the queue has a registered name;
  otherwise it takes a job of the best priority, the oldest among these, makes it active under
  the caller's token with the lock and the timeout counted from now, and touches no other row.\<close>

theorem claim_takes_first:
  assumes "reachable_db d" "claim now tok dur q names d = (res, d')"
  shows "if \<exists>r \<in> set (jobs d). j_queue r = q \<and> j_status r = Waiting \<and> j_name r \<in> set names
    then (\<exists>r r'. r \<in> set (jobs d) \<and> j_queue r = q \<and> j_status r = Waiting \<and> j_name r \<in> set names
        \<and> {x \<in> set (jobs d). j_queue x = q \<and> j_status x = Waiting \<and> j_name x \<in> set names \<and>
             (j_priority x < j_priority r \<or> j_priority x = j_priority r \<and> j_created_at x < j_created_at r)} = {}
        \<and> j_id r' = j_id r \<and> j_status r' = Active \<and> j_lock_token r' = Some tok \<and> j_lock_until r' = Some (now + dur)
        \<and> j_attempts_started r' = j_attempts_started r + 1 \<and> j_timeout_at r' = map_option ((+) now) (j_timeout_ms r)
        \<and> res = Some (rowToMinionJob r') \<and> jobs d' = update_where (\<lambda>x. x = r) (\<lambda>_. r') (jobs d))
    else res = None \<and> d' = d"
proof (cases "\<exists>r \<in> set (jobs d). j_queue r = q \<and> j_status r = Waiting \<and> j_name r \<in> set names")
  case False
  then show ?thesis using claim_first [OF assms] by (auto simp: claimable_def)
next
  case True
  then obtain r where r: "r \<in> set (jobs d)" "claimable q names r"
      "\<forall>x \<in> set (jobs d). claimable q names x \<longrightarrow> \<not> claim_before x r"
      "res = Some (rowToMinionJob (claim_row now tok dur r))"
      "jobs d' = update_where (\<lambda>x. x = r) (claim_row now tok dur) (jobs d)"
    using claim_first [OF assms] by (auto simp: claimable_def)
  have "jobs d' = update_where (\<lambda>x. x = r) (\<lambda>_. claim_row now tok dur r) (jobs d)"
    unfolding r(5) by (simp add: update_where_def)
  then show ?thesis
    using True r(1-4)
    by (simp only: if_True, intro exI [of _ r] exI [of _ "claim_row now tok dur r"])
      (auto simp: claimable_def claim_before_def claim_row_def)
qed

theorem claim_takes_first_witness:
  "fst (claim 9 ''u'' 1000 ''default'' [''sync''] one_job) \<noteq> None \<and>
   fst (claim 9 ''u'' 1000 ''default'' [''other''] one_job) = None"
proof -
  have "list_ex (\<lambda>r. j_queue r = ''default'' \<and> j_status r = Waiting \<and> j_name r \<in> set [''sync'']) (jobs one_job)"
    "list_all (\<lambda>r. \<not> (j_queue r = ''default'' \<and> j_status r = Waiting \<and> j_name r \<in> set [''other''])) (jobs one_job)"
    by code_simp+
  then have s: "\<exists>r \<in> set (jobs one_job). j_queue r = ''default'' \<and> j_status r = Waiting \<and> j_name r \<in> set [''sync'']"
    and o: "\<not> (\<exists>r \<in> set (jobs one_job). j_queue r = ''default'' \<and> j_status r = Waiting \<and> j_name r \<in> set [''other''])"
    unfolding list_all_iff list_ex_iff by blast+
  note claimed = claim_takes_first [OF sample_reachable(1) surjective_pairing, where now = 9 and tok = "''u''"
      and dur = 1000 and q = "''default''"]
  show ?thesis
    using claimed [of "[''sync'']", unfolded if_P [OF s]] claimed [of "[''other'']", unfolded if_not_P [OF o]]
    by auto
qed

section \<open>Cancelling\<close>

text \<open>\<open>in_subtree t i n x\<close>: job \<open>x\<close> lies \<open>n\<close> generations below job \<open>i\<close>.\<close>

inductive in_subtree :: "minion_job list \<Rightarrow> int \<Rightarrow> nat \<Rightarrow> int \<Rightarrow> bool" for t i where
  root: "q \<in> set t \<Longrightarrow> j_id q = i \<Longrightarrow> in_subtree t i 0 i"
| child: "in_subtree t i n p \<Longrightarrow> c \<in> set t \<Longrightarrow> is_child p c \<Longrightarrow> in_subtree t i (Suc n) (j_id c)"

definition kids :: "minion_job list \<Rightarrow> int list \<Rightarrow> int list" where
  "kids t front = concat (map (\<lambda>p. map j_id (filter (is_child p) t)) front)"

lemma in_kids: "c \<in> set t \<Longrightarrow> is_child p c \<Longrightarrow> p \<in> set front \<Longrightarrow> j_id c \<in> set (kids t front)"
  by (auto simp: kids_def)

lemma in_subtree_generation:
  "in_subtree t i n x \<Longrightarrow> x \<in> set ((kids t ^^ n) (map j_id (filter (\<lambda>r. j_id r = i) t)))"
proof (induction rule: in_subtree.induct)
  case (root q)
  then show ?case by force
next
  case (child n p c)
  then show ?case by (simp add: in_kids)
qed

lemma generation_descendants:
  "x \<in> set ((kids t ^^ n) front) \<Longrightarrow> n \<le> m \<Longrightarrow> x \<in> set (descendants m t front)"
proof (induction m arbitrary: n front)
  case 0
  then show ?case by simp
next
  case (Suc m)
  show ?case
  proof (cases n)
    case 0
    with Suc.prems show ?thesis by (simp add: Let_def)
  next
    case (Suc k)
    then have x: "x \<in> set ((kids t ^^ k) (kids t front))"
      using Suc.prems by (simp only: funpow_Suc_right comp_apply)
    have "kids t [] = []" by (simp add: kids_def)
    then have "(kids t ^^ k) [] = []" for k by (induction k) simp_all
    with x have "kids t front \<noteq> []" by auto
    moreover have "x \<in> set (descendants m t (kids t front))"
      using Suc.IH [OF x] Suc.prems(2) Suc by simp
    ultimately show ?thesis
      unfolding kids_def by (simp only: descendants.simps Let_def if_False set_append Un_iff simp_thms)
  qed
qed

text \<open>C8: after \<open>cancelJob\<close> on a job, no job of its subtree is open any more: the job itself and every
  descendant up to a hundred generations below it (the bound of the recursive query).\<close>

theorem cancel_closes_subtree:
  assumes "in_subtree (jobs d) i n x" "n \<le> 100"
    and "r' \<in> set (jobs (snd (cancelJob now i d)))" "j_id r' = x"
  shows "terminal (j_status r')"
proof -
  have x: "x \<in> set (cancel_ids i d)"
    unfolding cancel_ids_def using in_subtree_generation [OF assms(1)] assms(2)
    by (rule generation_descendants)
  let ?P = "\<lambda>r. j_id r \<in> set (cancel_ids i d) \<and> open_job r"
  let ?rows = "updated_jobs ?P (cancel_row now) d"
  let ?d1 = "update_jobs ?P (cancel_row now) d"
  let ?d2 = "notify_parents now OCancelled ''cancelled'' ?rows ?d1"
  have d1: "terminal (j_status y)" if y: "y \<in> set (jobs ?d1)" "j_id y = x" for y
  proof -
    obtain s where s: "s \<in> set (jobs d)" "y = (if ?P s then cancel_row now s else s)"
      using y(1) by (auto elim: in_update_whereE)
    show ?thesis
    proof (cases "?P s")
      case True
      with s(2) show ?thesis by (simp add: cancel_row_def)
    next
      case False
      then have "y = s" using s(2) by (simp only: if_False)
      with False y(2) x show ?thesis by simp
    qed
  qed
  show ?thesis
  proof (cases "?rows = []")
    case True
    then have "filter ?P (jobs d) = []" by (simp add: updated_jobs_def updated_def)
    then have "jobs ?d1 = jobs d"
      unfolding update_jobs_def update_where_def by (auto simp: filter_empty_conv intro!: map_idI)
    with True d1 assms(3,4) show ?thesis by (simp add: cancelJob_def Let_def)
  next
    case False
    then have "r' \<in> set (jobs (resolve_parents now (parent_ids ?rows) ?d2))"
      using assms(3) by (simp add: cancelJob_def Let_def)
    then obtain y where y: "y \<in> set (jobs ?d2)" "row_evolves advance y r'"
      by (rule evolves_row [OF evolves_resolve_parents])
    then have "terminal (j_status y)"
      using d1 [of y] row_evolvesD(1) [OF y(2)] assms(4) by simp
    with y(2) show ?thesis
      using advances_from_terminal [of "j_status y" "j_status r'"] by (simp add: row_evolves_def)
  qed
qed

theorem cancel_closes_subtree_witness:
  "in_subtree (jobs child_active) 1 1 2 \<and>
   terminal (j_status (last (jobs (snd (cancelJob 9 1 child_active)))))"
proof -
  obtain a b where ab: "jobs child_active = [a, b]" and ids: "j_id a = 1" "j_id b = 2"
    using sample_rows(4) by auto
  have "list_all (\<lambda>r. j_id r = 2 \<longrightarrow> is_child 1 r) (jobs child_active)" by code_simp
  with ab ids have b: "is_child 1 b" by simp
  have "in_subtree (jobs child_active) 1 0 1"
    by (rule in_subtree.root [of a]) (simp_all add: ab ids)
  from in_subtree.child [OF this _ b] ab ids have w: "in_subtree (jobs child_active) 1 1 2" by simp
  have "jobs (snd (cancelJob 9 1 child_active)) \<noteq> []" "j_id (last (jobs (snd (cancelJob 9 1 child_active)))) = 2"
    by code_simp+
  with w cancel_closes_subtree [OF w, of "last (jobs (snd (cancelJob 9 1 child_active)))" 9] show ?thesis
    by simp
qed

section \<open>Completing\<close>

lemma in_update_jobsI:
  "x \<in> set (jobs d) \<Longrightarrow> (if P x then f x else x) \<in> set (jobs (update_jobs P f d))"
  by (auto simp: update_where_def)

text \<open>An update that keeps ids, parents and openness keeps the two tests on a job \<open>p\<close>.\<close>

lemma list_ex_update_jobs:
  assumes "\<And>x. x \<in> set (jobs d) \<Longrightarrow> P x \<Longrightarrow> Q (f x) \<longleftrightarrow> Q x"
  shows "list_ex Q (jobs (update_jobs P f d)) \<longleftrightarrow> list_ex Q (jobs d)"
  using assms by (simp add: list_ex_iff)

lemma parent_open_iff:
  assumes "table_ok d" "q \<in> set (jobs d)" "j_id q = p"
  shows "list_ex (\<lambda>r. j_id r = p \<and> open_job r) (jobs d) \<longleftrightarrow> open_job q"
proof
  assume "list_ex (\<lambda>r. j_id r = p \<and> open_job r) (jobs d)"
  then obtain x where x: "x \<in> set (jobs d)" "j_id x = p" "open_job x"
    by (auto simp: list_ex_iff)
  have "x = q"
    by (rule distinct_idD [OF assms(1) x(1) assms(2)]) (simp add: x(2) assms(3))
  with x(3) show "open_job q" by simp
next
  assume "open_job q"
  with assms(2,3) show "list_ex (\<lambda>r. j_id r = p \<and> open_job r) (jobs d)"
    unfolding list_ex_iff by blast
qed

lemma inbox_simps [simp]:
  "inbox (update_jobs P f d) = inbox d" "next_msg_id (update_jobs P f d) = next_msg_id d"
  "inbox (snd (resolveParent now p d)) = inbox d" "inbox (roll_up_tokens now c p d) = inbox d"
  "next_msg_id (roll_up_tokens now c p d) = next_msg_id d"
  by (simp_all add: update_jobs_def jobs_resolveParent roll_up_tokens_def)

definition rolls_up :: "minion_job \<Rightarrow> bool" where
  "rolls_up r \<longleftrightarrow> j_tokens_input r > 0 \<or> j_tokens_output r > 0 \<or> j_tokens_cache_read r > 0"

definition last_child :: "int \<Rightarrow> int \<Rightarrow> minion_job list \<Rightarrow> bool" where
  "last_child i p t \<longleftrightarrow> (\<forall>c \<in> set t. is_child p c \<longrightarrow> j_id c \<noteq> i \<longrightarrow> terminal (j_status c))"

text \<open>The open children of \<open>p\<close> once the held row is closed.\<close>

lemma closed_has_open_child:
  assumes ok: "table_ok d" and r: "r \<in> set (jobs d)" "holds i tok r"
    and f: "\<And>x. terminal (j_status (f x))"
  shows "has_open_child p (jobs (update_jobs (holds i tok) f d)) \<longleftrightarrow> \<not> last_child i p (jobs d)"
proof -
  have h: "holds i tok x \<longleftrightarrow> j_id x = i" if x: "x \<in> set (jobs d)" for x
  proof
    assume "j_id x = i"
    then have "x = r"
      by (intro distinct_idD [OF ok x r(1)]) (use r(2) in \<open>simp add: holds_def\<close>)
    with r(2) show "holds i tok x" by simp
  qed (simp add: holds_def)
  have "has_open_child p (jobs (update_jobs (holds i tok) f d)) \<longleftrightarrow>
      (\<exists>x \<in> set (jobs d). \<not> holds i tok x \<and> is_child p x \<and> open_job x)"
  proof -
    have "(is_child p (if holds i tok x then f x else x) \<and> open_job (if holds i tok x then f x else x)) \<longleftrightarrow>
        \<not> holds i tok x \<and> is_child p x \<and> open_job x" for x
      using f [of x] by (cases "holds i tok x") simp_all
    moreover have "jobs (update_jobs (holds i tok) f d) = map (\<lambda>x. if holds i tok x then f x else x) (jobs d)"
      by (simp add: update_where_def)
    ultimately show ?thesis
      by (simp only: has_open_child_def list_ex_iff set_map bex_simps)
  qed
  also have "\<dots> \<longleftrightarrow> \<not> last_child i p (jobs d)"
    using h unfolding last_child_def by blast
  finally show ?thesis .
qed

lemma held_updated:
  assumes ok: "table_ok d" and r: "r \<in> set (jobs d)" "holds i tok r"
  shows "\<exists>rest. updated_jobs (holds i tok) f d = f r # rest"
proof (cases "updated_jobs (holds i tok) f d")
  case Nil
  with r show ?thesis
    by (auto simp: updated_jobs_def updated_def filter_empty_conv)
next
  case (Cons row rest)
  obtain x where x: "x \<in> set (jobs d)" "holds i tok x" "row = f x"
    using ok Cons by (rule held_row) blast
  have "x = r"
    by (rule distinct_idD [OF ok x(1) r(1)]) (use x(2) r(2) in \<open>simp add: holds_def\<close>)
  with x(3) Cons show ?thesis by simp
qed

lemma roll_up_has_open_child:
  "has_open_child p (jobs (roll_up_tokens now c s d)) \<longleftrightarrow> has_open_child p (jobs d)"
proof -
  have "list_ex (\<lambda>r. is_child p r \<and> open_job r) (jobs (update_jobs P (add_tokens now a b e) d)) =
      list_ex (\<lambda>r. is_child p r \<and> open_job r) (jobs d)" for P a b e
    by (rule list_ex_update_jobs) (simp add: is_child_def add_tokens_def)
  then show ?thesis
    by (simp only: has_open_child_def roll_up_tokens_def split: if_split) blast
qed

lemma roll_up_row:
  assumes "q \<in> set (jobs d)" "j_id q = p" "j_status q = s"
  shows "\<exists>q' \<in> set (jobs (roll_up_tokens now c p d)). j_id q' = p \<and> j_status q' = s \<and>
    j_tokens_input q' = j_tokens_input q + (if rolls_up c \<and> \<not> terminal s then j_tokens_input c else 0) \<and>
    j_tokens_output q' = j_tokens_output q + (if rolls_up c \<and> \<not> terminal s then j_tokens_output c else 0)"
proof (cases "rolls_up c")
  case True
  let ?P = "\<lambda>r. j_id r = p \<and> open_job r"
  let ?f = "add_tokens now (j_tokens_input c) (j_tokens_output c) (j_tokens_cache_read c)"
  have "(if ?P q then ?f q else q) \<in> set (jobs (update_jobs ?P ?f d))"
    by (rule in_update_jobsI [OF assms(1)])
  then show ?thesis
    using True assms by (intro bexI) (auto simp: roll_up_tokens_def rolls_up_def add_tokens_def)
next
  case False
  then have "roll_up_tokens now c p d = d"
    by (simp add: roll_up_tokens_def rolls_up_def)
  with False assms show ?thesis by (intro bexI [of _ q]) simp_all
qed

lemma resolve_row:
  assumes "q \<in> set (jobs d)" "j_id q = p"
  shows "\<exists>q' \<in> set (jobs (snd (resolveParent now p d))). j_id q' = p \<and>
    j_status q' = (if j_status q = WaitingChildren \<and> \<not> has_open_child p (jobs d) then Waiting else j_status q) \<and>
    j_tokens_input q' = j_tokens_input q \<and> j_tokens_output q' = j_tokens_output q"
proof -
  let ?P = "\<lambda>r. j_id r = p \<and> j_status r = WaitingChildren \<and> \<not> has_open_child p (jobs d)"
  have "(if ?P q then set_status Waiting now q else q) \<in> set (jobs (snd (resolveParent now p d)))"
    unfolding jobs_resolveParent by (rule in_update_jobsI [OF assms(1)])
  then show ?thesis
    using assms(2) by (intro bexI) (auto simp: set_status_def)
qed



section \<open>Failing\<close>

lemma remove_dep_has_open_child:
  assumes "\<And>x. x \<in> set (jobs d) \<Longrightarrow> j_id x = i \<Longrightarrow> terminal (j_status x)"
  shows "has_open_child p (jobs (removeChildDependency now i d)) \<longleftrightarrow> has_open_child p (jobs d)"
  unfolding has_open_child_def removeChildDependency_def
  by (rule list_ex_update_jobs) (use assms in \<open>simp add: is_child_def\<close>)

text \<open>What the parent hook does to the row \<open>q\<close> of the parent.\<close>

definition parent_after :: "child_fail_policy \<Rightarrow> bool \<Rightarrow> job_status \<Rightarrow> job_status" where
  "parent_after policy is_last s =
     (if s \<noteq> WaitingChildren then s
      else if policy = FailParent then Failed
      else if is_last then Waiting else WaitingChildren)"

lemma fail_hook_row:
  assumes q: "q \<in> set (jobs d)" "j_id q = p" "j_id c \<noteq> p"
    and cl: "\<And>x. x \<in> set (jobs d) \<Longrightarrow> j_id x = j_id c \<Longrightarrow> terminal (j_status x)"
  shows "\<exists>q' \<in> set (jobs (fail_parent_hook now st err c p d)). j_id q' = p \<and>
    j_status q' = parent_after (j_on_child_fail c) (\<not> has_open_child p (jobs d)) (j_status q)"
proof -
  let ?m = "child_done (j_id c) (j_name c) None (if st = FDead then ODead else OFailed) (Some err)"
  let ?d1 = "post_child_done now p ?m d"
  have q1: "q \<in> set (jobs ?d1)" using q(1) by simp
  show ?thesis
  proof (cases "j_on_child_fail c")
    case FailParent
    have "(if j_id q = p \<and> j_status q = WaitingChildren then fail_parent_row now (j_id c) err q else q)
        \<in> set (jobs (snd (failParent now p (j_id c) err ?d1)))"
      unfolding failParent_def snd_one_row by (rule in_update_jobsI [OF q1])
    with FailParent q(2) show ?thesis
      by (intro bexI) (auto simp: fail_parent_hook_def Let_def fail_parent_row_def parent_after_def)
  next
    case RemoveDep
    have "(if j_id q = j_id c then q\<lparr>j_parent_job_id := None, j_updated_at := now\<rparr> else q)
        \<in> set (jobs (removeChildDependency now (j_id c) ?d1))"
      unfolding removeChildDependency_def by (rule in_update_jobsI [OF q1])
    then have "q \<in> set (jobs (removeChildDependency now (j_id c) ?d1))" using q(2,3) by simp
    from resolve_row [OF this q(2), of now] RemoveDep show ?thesis
      using remove_dep_has_open_child [of ?d1 "j_id c" p now] cl
      by (auto simp: fail_parent_hook_def Let_def parent_after_def)
  next
    case Ignore
    with resolve_row [OF q1 q(2), of now] show ?thesis
      by (auto simp: fail_parent_hook_def Let_def parent_after_def)
  next
    case Continue
    with resolve_row [OF q1 q(2), of now] show ?thesis
      by (auto simp: fail_parent_hook_def Let_def parent_after_def)
  qed
qed

lemma inbox_fail_hook:
  "inbox (fail_parent_hook now st err c p d) =
     inbox (post_child_done now p
       (child_done (j_id c) (j_name c) None (if st = FDead then ODead else OFailed) (Some err)) d)"
  by (cases "j_on_child_fail c")
     (simp_all add: fail_parent_hook_def Let_def failParent_def one_row_def removeChildDependency_def)



end
