(* ===== verification/Minion_Limits.thy ===== *)
theory Minion_Limits
  imports Minion_Outcomes
begin

text \<open>
  What a submission respects (idempotency keys, spawn depth, the cap on children, back-pressure,
  protected names), what the sweeps leave behind, and the inbox.
\<close>

section \<open>Submission, step by step\<close>

text \<open>The three ways a submission succeeds: the key hit, the back-pressure hit, the insertion.\<close>

lemma add_tx_cases:
  assumes "add_tx clock now nm data opts d = Inr (r, d')"
  obtains (key) x where "idempotent_hit (o_idempotency_key opts) d = Inl x" "r = x" "d' = d"
  | (pressure) d1 where "idempotent_hit (o_idempotency_key opts) d = Inr d1"
      "backpressure_hit nm data (o_queue opts) (o_maxWaiting opts) d1 = Some r" "d' = d1"
  | (clash) d1 depth x where "idempotent_hit (o_idempotency_key opts) d = Inr d1"
      "insert_job (new_row clock now (next_job_id d1) nm data opts depth) d1 = Inr (x, False, d1)"
      "r = rowToMinionJob x" "d' = d1"
  | (inserted) d1 depth d2 where "idempotent_hit (o_idempotency_key opts) d = Inr d1"
      "backpressure_hit nm data (o_queue opts) (o_maxWaiting opts) d1 = None"
      "check_parent (o_parent_job_id opts) (orElse (o_max_spawn_depth opts) DEFAULT_MAX_SPAWN_DEPTH) d1 = Inr depth"
      "insert_job (new_row clock now (next_job_id d1) nm data opts depth) d1 =
         Inr (new_row clock now (next_job_id d1) nm data opts depth, True, d2)"
      "jobs d2 = jobs d1 @ [new_row clock now (next_job_id d1) nm data opts depth]"
      "next_job_id d2 = next_job_id d1 + 1"
      "r = rowToMinionJob (new_row clock now (next_job_id d1) nm data opts depth)"
      "d' = park_parent now (o_parent_job_id opts) d2"
proof (cases "idempotent_hit (o_idempotency_key opts) d")
  case (Inl x)
  with assms show ?thesis by (intro key [of x]) (simp_all add: add_tx_def)
next
  case (Inr d1)
  show ?thesis
  proof (cases "backpressure_hit nm data (o_queue opts) (o_maxWaiting opts) d1")
    case (Some b)
    with Inr assms show ?thesis by (intro pressure [of d1]) (simp_all add: add_tx_def)
  next
    case None
    obtain depth where par: "check_parent (o_parent_job_id opts)
        (orElse (o_max_spawn_depth opts) DEFAULT_MAX_SPAWN_DEPTH) d1 = Inr depth"
      using Inr None assms by (auto simp: add_tx_def split: sum.splits)
    let ?row = "new_row clock now (next_job_id d1) nm data opts depth"
    obtain x b d2 where ins: "insert_job ?row d1 = Inr (x, b, d2)"
      using Inr None par assms by (auto simp: add_tx_def split: sum.splits)
    show ?thesis
    proof (cases b)
      case True
      then have ins': "insert_job ?row d1 = Inr (x, True, d2)" using ins by simp
      note I = insert_job_Inr [OF ins']
      have ins2: "insert_job ?row d1 = Inr (?row, True, d2)" using ins' by (simp only: I(1))
      have "r = rowToMinionJob ?row" "d' = park_parent now (o_parent_job_id opts) d2"
        using Inr None par ins2 assms by (simp_all add: add_tx_def)
      moreover have "jobs d2 = jobs d1 @ [?row]" "next_job_id d2 = next_job_id d1 + 1"
        unfolding I(3) by simp_all
      ultimately show ?thesis
        by (intro inserted [OF Inr None par ins2])
    next
      case False
      then have "d2 = d1"
        using ins insert_job_False [of ?row d1 x d2] by simp
      then have ins2: "insert_job ?row d1 = Inr (x, False, d1)" using ins False by simp
      have "r = rowToMinionJob x" "d' = d1"
        using Inr None par ins2 assms by (simp_all add: add_tx_def)
      then show ?thesis by (rule clash [OF Inr ins2])
    qed
  qed
qed

lemma find_key:
  assumes "table_ok d" "x \<in> set (jobs d)" "j_idempotency_key x = Some k"
  shows "List.find (\<lambda>r. j_idempotency_key r = Some k) (jobs d) = Some x"
proof (cases "List.find (\<lambda>r. j_idempotency_key r = Some k) (jobs d)")
  case None
  with assms(2,3) show ?thesis by (auto simp: find_None_iff)
next
  case (Some y)
  then have y: "y \<in> set (jobs d)" "j_idempotency_key y = Some k"
    by (auto simp: find_Some_iff)
  have "j_id y = j_id x"
    using keys_okD [of "jobs d" y x k] assms y by (simp add: table_ok_def)
  then have "y = x" by (rule distinct_idD [OF assms(1) y(1) assms(2)])
  with Some show ?thesis by simp
qed

lemma idempotent_hit_Inl:
  "idempotent_hit (Some k) d = Inl r \<Longrightarrow>
   \<exists>x \<in> set (jobs d). j_idempotency_key x = Some k \<and> j_status x \<notin> {Dead, Cancelled} \<and> r = rowToMinionJob x"
  by (auto simp: idempotent_hit_def nonempty_def find_Some_iff split: option.splits if_splits)

lemma idempotent_hit_live:
  assumes "table_ok d" "x \<in> set (jobs d)" "j_idempotency_key x = Some k" "k \<noteq> []"
    and "j_status x \<notin> {Dead, Cancelled}"
  shows "idempotent_hit (Some k) d = Inl (rowToMinionJob x)"
  using find_key [OF assms(1-3)] assms(4,5) by (simp add: idempotent_hit_def nonempty_def)

text \<open>When the fast path does not return, no row carries the key any more.\<close>

lemma idempotent_hit_Inr:
  assumes ok: "table_ok d" and hit: "idempotent_hit (Some k) d = Inr d1" and k: "k \<noteq> []"
  shows "\<forall>x \<in> set (jobs d1). j_idempotency_key x \<noteq> Some k"
proof (cases "List.find (\<lambda>r. j_idempotency_key r = Some k) (jobs d)")
  case None
  with hit k have "d1 = d" by (simp add: idempotent_hit_def nonempty_def)
  with None show ?thesis by (simp add: find_None_iff)
next
  case (Some r)
  then have r: "r \<in> set (jobs d)" "j_idempotency_key r = Some k"
    by (auto simp: find_Some_iff)
  have d1: "d1 = update_jobs (\<lambda>x. j_id x = j_id r) (\<lambda>x. x\<lparr>j_idempotency_key := None\<rparr>) d"
    using hit k Some by (simp add: idempotent_hit_def nonempty_def split: if_splits)
  show ?thesis
  proof
    fix y assume "y \<in> set (jobs d1)"
    then obtain x where x: "x \<in> set (jobs d)"
      "y = (if j_id x = j_id r then x\<lparr>j_idempotency_key := None\<rparr> else x)"
      unfolding d1 by (auto elim: in_update_whereE)
    show "j_idempotency_key y \<noteq> Some k"
    proof (cases "j_id x = j_id r")
      case False
      have "j_idempotency_key x \<noteq> Some k"
        using keys_okD [of "jobs d" x r k] ok x(1) r False by (auto simp: table_ok_def)
      with x(2) False show ?thesis by simp
    qed (simp add: x(2))
  qed
qed

lemma insert_clash:
  assumes "insert_job r d = Inr (x, False, d1)" "j_idempotency_key r = Some k"
  shows "\<exists>y \<in> set (jobs d). j_idempotency_key y = Some k"
  using assms by (auto simp: insert_job_def Let_def find_Some_iff split: option.splits if_splits)

lemma in_park_parentI:
  assumes "x \<in> set (jobs d)"
  shows "x \<in> set (jobs (park_parent now parent d)) \<or> set_status WaitingChildren now x \<in> set (jobs (park_parent now parent d))"
  using assms by (auto simp: park_parent_def update_where_def split: option.split)

section \<open>Idempotency\<close>

lemma keyed_add_leaves_row:
  assumes ok: "table_ok d" and k: "o_idempotency_key opts = Some k" "k \<noteq> []" "o_maxWaiting opts = None"
    and run: "add_tx clock now nm data opts d = Inr (r, d')"
  shows "\<exists>x \<in> set (jobs d'). j_idempotency_key x = Some k \<and> j_status x \<notin> {Dead, Cancelled} \<and> j_id x = j_id r"
  using run
proof (cases rule: add_tx_cases)
  case (key x)
  with idempotent_hit_Inl [of k d x] k show ?thesis by auto
next
  case (pressure d1)
  with k show ?thesis by (simp add: backpressure_hit_def)
next
  case (clash d1 depth x)
  have "\<forall>x \<in> set (jobs d1). j_idempotency_key x \<noteq> Some k"
    using idempotent_hit_Inr [OF ok _ k(2)] clash(1) k(1) by simp
  moreover have "\<exists>y \<in> set (jobs d1). j_idempotency_key y = Some k"
    by (rule insert_clash [OF clash(2)]) (simp add: new_row_def k(1))
  ultimately show ?thesis by blast
next
  case (inserted d1 depth d2)
  let ?row = "new_row clock now (next_job_id d1) nm data opts depth"
  have "?row \<in> set (jobs d2)" using inserted(5) by simp
  then have "?row \<in> set (jobs d') \<or> set_status WaitingChildren now ?row \<in> set (jobs d')"
    unfolding inserted(8) by (rule in_park_parentI)
  then show ?thesis
  proof
    assume "?row \<in> set (jobs d')"
    then show ?thesis
      by (rule bexI [rotated]) (simp add: inserted(7) new_row_def k(1))
  next
    assume "set_status WaitingChildren now ?row \<in> set (jobs d')"
    then show ?thesis
      by (rule bexI [rotated]) (simp add: inserted(7) new_row_def k(1) set_status_def)
  qed
qed

definition keyed_add :: "string \<Rightarrow> int \<Rightarrow> db \<Rightarrow> submit_error + minion_job \<times> db" where
  "keyed_add name now = add (\<lambda>_. CapOk) 0 now name None (no_opts\<lparr>o_idempotency_key := Some ''k''\<rparr>) False"

text \<open>Submitting twice under one idempotency key creates one job.  After a successful submission
  with a non-empty key (and no back-pressure limit), a second submission with that key, whatever
  its name, data, options and clock, returns the job of the first and changes nothing.\<close>

theorem add_idempotent:
  assumes re: "reachable_db d" and k: "o_idempotency_key opts = Some k" "k \<noteq> []" "o_maxWaiting opts = None"
    and first: "add cap clock now name data opts tr d = Inr (r, d1)"
    and again: "add cap' clock' now' name' data' opts' tr' d1 = Inr (r2, d2)" "o_idempotency_key opts' = Some k"
  shows "d2 = d1 \<and> j_id r2 = j_id r"
proof -
  have ok: "table_ok d"
    using reachable_ok [OF re] by (simp add: queue_ok_def)
  obtain nm where run: "add_tx clock now nm (orElse data (JObj [])) opts d = Inr (r, d1)"
    using first by (rule add_InrE)
  obtain nm' where run2: "add_tx clock' now' nm' (orElse data' (JObj [])) opts' d1 = Inr (r2, d2)"
    using again(1) by (rule add_InrE)
  obtain x where x: "x \<in> set (jobs d1)" "j_idempotency_key x = Some k"
    "j_status x \<notin> {Dead, Cancelled}" "j_id x = j_id r"
    using keyed_add_leaves_row [OF ok k run] by blast
  have "table_ok d1"
    using follows_add_tx [OF ok run] ok by (simp add: follows_def)
  then have "idempotent_hit (Some k) d1 = Inl (rowToMinionJob x)"
    using x k(2) by (intro idempotent_hit_live)
  with run2 again(2) have "r2 = rowToMinionJob x" "d2 = d1"
    by (simp_all add: add_tx_def)
  with x(4) show ?thesis by simp
qed

theorem add_idempotent_witness:
  "snd (projr (keyed_add ''lint'' 5 (snd (projr (keyed_add ''sync'' 0 (empty_db 7)))))) =
     snd (projr (keyed_add ''sync'' 0 (empty_db 7)))"
proof -
  let ?a = "projr (keyed_add ''sync'' 0 (empty_db 7))"
  let ?b = "projr (keyed_add ''lint'' 5 (snd ?a))"
  have "keyed_add ''sync'' 0 (empty_db 7) = Inr ?a" "keyed_add ''lint'' 5 (snd ?a) = Inr ?b"
    by code_simp+
  then have 1: "keyed_add ''sync'' 0 (empty_db 7) = Inr (fst ?a, snd ?a)"
    "keyed_add ''lint'' 5 (snd ?a) = Inr (fst ?b, snd ?b)"
    by simp_all
  have "reachable_db (empty_db 7)" by (auto simp: reachable_db_def)
  then show ?thesis
    using add_idempotent [of "empty_db 7" "no_opts\<lparr>o_idempotency_key := Some ''k''\<rparr>" "''k''",
        OF _ _ _ _ 1 [unfolded keyed_add_def]]
    by (simp add: no_opts_def keyed_add_def)
qed

section \<open>Depth and number of children\<close>

lemma idempotent_hit_counts:
  assumes "idempotent_hit key d = Inr d1"
  shows "live_children p d1 = live_children p d \<and> next_job_id d1 = next_job_id d \<and>
    (\<forall>q1 \<in> set (jobs d1). \<exists>q \<in> set (jobs d). j_id q1 = j_id q \<and> j_depth q1 = j_depth q \<and> j_max_children q1 = j_max_children q)"
proof -
  have "d1 = d \<or> (\<exists>i. d1 = update_jobs (\<lambda>x. j_id x = i) (\<lambda>x. x\<lparr>j_idempotency_key := None\<rparr>) d)"
    using assms by (auto simp: idempotent_hit_def split: option.splits if_splits)
  then show ?thesis
  proof
    assume "\<exists>i. d1 = update_jobs (\<lambda>x. j_id x = i) (\<lambda>x. x\<lparr>j_idempotency_key := None\<rparr>) d"
    then obtain i where d1: "d1 = update_jobs (\<lambda>x. j_id x = i) (\<lambda>x. x\<lparr>j_idempotency_key := None\<rparr>) d" ..
    have "length (filter (\<lambda>r. is_child p r \<and> open_job r) (update_where (\<lambda>x. j_id x = i) (\<lambda>x. x\<lparr>j_idempotency_key := None\<rparr>) t)) =
        length (filter (\<lambda>r. is_child p r \<and> open_job r) t)" for t
      by (induction t) (simp_all add: is_child_def)
    then show ?thesis by (auto simp: d1 live_children_def)
  qed auto
qed

lemma backpressure_hit_row:
  "backpressure_hit nm data q w d = Some r \<Longrightarrow> \<exists>x \<in> set (jobs d). j_id r = j_id x"
  by (auto simp: backpressure_hit_def Let_def dest!: first_min_in split: option.splits if_splits)

lemma old_row:
  assumes "table_ok d" "idempotent_hit key d = Inr d1" "x \<in> set (jobs d1)"
  shows "j_id x < next_job_id d"
proof -
  have "evolves advance d d1" by (rule evolves_idempotent_hit [OF assms(2)])
  then have "table_ok d1" "next_job_id d1 = next_job_id d"
    using evolves_table_ok [OF _ assms(1)] by (auto simp: evolves_def)
  with assms(3) show ?thesis by (auto simp: table_ok_def)
qed

text \<open>A submission that creates a child stays within the limits: the parent exists, the child is
  one level deeper than it and within the spawn limit, and the parent had fewer open children
  than its cap.\<close>

theorem add_respects_limits:
  assumes re: "reachable_db d" and run: "add cap clock now name data opts tr d = Inr (r, d')"
    and new: "j_id r = next_job_id d" and par: "o_parent_job_id opts = Some p" "p \<noteq> 0"
  shows "\<exists>q \<in> set (jobs d). j_id q = p \<and> j_depth r = j_depth q + 1 \<and>
    j_depth r \<le> orElse (o_max_spawn_depth opts) DEFAULT_MAX_SPAWN_DEPTH \<and>
    (\<forall>cap. j_max_children q = Some cap \<longrightarrow> live_children p d < cap)"
proof -
  have ok: "table_ok d"
    using reachable_ok [OF re] by (simp add: queue_ok_def)
  obtain nm where "add_tx clock now nm (orElse data (JObj [])) opts d = Inr (r, d')"
    using run by (rule add_InrE)
  then show ?thesis
  proof (cases rule: add_tx_cases)
    case (inserted d1 depth d2)
    obtain q1 where q1: "q1 \<in> set (jobs d1)" "j_id q1 = p" "depth = j_depth q1 + 1"
      "depth \<le> orElse (o_max_spawn_depth opts) DEFAULT_MAX_SPAWN_DEPTH"
      "\<And>cap. j_max_children q1 = Some cap \<Longrightarrow> live_children p d1 < cap"
      using check_parent_Inr [OF inserted(3) par] by blast
    note H = idempotent_hit_counts [OF inserted(1), of p]
    from H q1(1) obtain q where "q \<in> set (jobs d)" "j_id q1 = j_id q" "j_depth q1 = j_depth q"
      "j_max_children q1 = j_max_children q" by blast
    moreover have "j_depth r = depth"
      by (simp add: inserted(7) new_row_def)
    ultimately show ?thesis
      using q1 H by (intro bexI [of _ q]) simp_all
  next
    case (key x)
    then obtain k where "o_idempotency_key opts = Some k"
      by (cases "o_idempotency_key opts") (simp_all add: idempotent_hit_def nonempty_def)
    with key(1) obtain y where "y \<in> set (jobs d)" "x = rowToMinionJob y"
      using idempotent_hit_Inl [of k d x] by auto
    with key new ok show ?thesis by (auto simp: table_ok_def)
  next
    case (pressure d1)
    then obtain x where "x \<in> set (jobs d1)" "j_id r = j_id x"
      using backpressure_hit_row by blast
    with old_row [OF ok pressure(1), of x] new show ?thesis by simp
  next
    case (clash d1 depth x)
    have "x \<in> set (jobs d1)"
      using clash(2) by (auto simp: insert_job_def Let_def find_Some_iff split: option.splits if_splits)
    with old_row [OF ok clash(1), of x] new clash(3) show ?thesis by simp
  qed
qed

theorem add_respects_limits_witness:
  "\<exists>q \<in> set (jobs one_active). j_id q = 1 \<and> j_depth q = 0"
proof -
  let ?a = "projr (add (\<lambda>_. CapOk) 0 0 ''sync'' None (child_of 1) False one_active)"
  have "add (\<lambda>_. CapOk) 0 0 ''sync'' None (child_of 1) False one_active = Inr ?a"
    "j_id (fst ?a) = next_job_id one_active" "o_parent_job_id (child_of 1) = Some 1" "j_depth (fst ?a) = 1"
    by code_simp+
  then show ?thesis
    using add_respects_limits [OF sample_reachable(2), of "\<lambda>_. CapOk" 0 0 "''sync''" None "child_of 1" False "fst ?a" "snd ?a" 1]
    by auto
qed

section \<open>Back-pressure\<close>

definition waiting_in_scope :: "string \<Rightarrow> string \<Rightarrow> string option \<Rightarrow> db \<Rightarrow> nat" where
  "waiting_in_scope name q src d = length (filter (in_bp_scope name q src) (jobs d))"

lemma length_filter_update_where:
  assumes "\<And>x. P x \<Longrightarrow> Q (f x) \<Longrightarrow> Q x"
  shows "length (filter Q (update_where P f t)) \<le> length (filter Q t)"
  using assms by (induction t) auto

lemma waiting_update:
  assumes "\<And>x. j_status (f x) = Waiting \<Longrightarrow> j_status x = Waiting"
    "\<And>x. j_name (f x) = j_name x" "\<And>x. j_queue (f x) = j_queue x" "\<And>x. j_data (f x) = j_data x"
  shows "waiting_in_scope name q src (update_jobs P f d) \<le> waiting_in_scope name q src d"
  unfolding waiting_in_scope_def
  using assms by (auto simp: in_bp_scope_def intro!: length_filter_update_where)

text \<open>C22: submission back-pressure: with \<open>maxWaiting = w\<close> a submission never makes the number of
  waiting jobs of its scope (its name, its queue and, when its data names a source, that source)
  larger than \<open>max 1 w\<close>; at or above the limit it inserts nothing and returns a waiting job.\<close>

theorem backpressure_bound:
  assumes run: "add cap clock now name data opts tr d = Inr (r, d')"
    and w: "o_maxWaiting opts = Some w"
    and scope: "q = orElse (o_queue opts) ''default''" "src = bp_source (orElse data (JObj []))" "nm = js_trim name"
  shows "int (waiting_in_scope nm q src d') \<le> max (int (waiting_in_scope nm q src d)) (max 1 w) \<and>
    (int (waiting_in_scope nm q src d) \<ge> max 1 w \<longrightarrow> next_job_id d' = next_job_id d)"
proof -
  obtain nm' where nm': "check_name name tr = Inr nm'"
    and tx: "add_tx clock now nm' (orElse data (JObj [])) opts d = Inr (r, d')"
    using run by (rule add_InrE)
  have "nm' = nm"
    using nm' scope(3) by (auto simp: check_name_def Let_def split: if_splits)
  have key: "waiting_in_scope nm q src (update_jobs (\<lambda>x. j_id x = i) (\<lambda>x. x\<lparr>j_idempotency_key := None\<rparr>) d)
      = waiting_in_scope nm q src d" for i
  proof -
    have "length (filter (in_bp_scope nm q src) (update_where (\<lambda>x. j_id x = i) (\<lambda>x. x\<lparr>j_idempotency_key := None\<rparr>) t))
        = length (filter (in_bp_scope nm q src) t)" for t
      by (induction t) (simp_all add: in_bp_scope_def)
    then show ?thesis by (simp add: waiting_in_scope_def)
  qed
  have hit: "waiting_in_scope nm q src d1 = waiting_in_scope nm q src d \<and> next_job_id d1 = next_job_id d"
    if h: "idempotent_hit (o_idempotency_key opts) d = Inr d1" for d1
  proof -
    have "d1 = d \<or> (\<exists>i. d1 = update_jobs (\<lambda>x. j_id x = i) (\<lambda>x. x\<lparr>j_idempotency_key := None\<rparr>) d)"
      using h by (auto simp: idempotent_hit_def split: option.splits if_splits)
    then show ?thesis using key by auto
  qed
  from tx show ?thesis
  proof (cases rule: add_tx_cases)
    case (inserted d1 depth d2)
    let ?row = "new_row clock now (next_job_id d1) nm' (orElse data (JObj [])) opts depth"
    have "\<not> int (waiting_in_scope nm q src d1) \<ge> max 1 w"
      using inserted(2) \<open>nm' = nm\<close> w scope(1,2)
      by (auto simp: backpressure_hit_def Let_def waiting_in_scope_def first_min_None split: if_splits)
    moreover have "waiting_in_scope nm q src d2 \<le> waiting_in_scope nm q src d1 + 1"
      using inserted(5) by (simp add: waiting_in_scope_def)
    moreover have "waiting_in_scope nm q src (update_jobs P (set_status WaitingChildren now) d2)
        \<le> waiting_in_scope nm q src d2" for P
      by (rule waiting_update) (simp_all add: set_status_def)
    then have "waiting_in_scope nm q src d' \<le> waiting_in_scope nm q src d2"
      unfolding inserted(8) by (simp add: park_parent_def split: option.split)
    ultimately show ?thesis using hit [OF inserted(1)] by linarith
  qed (use hit in auto)
qed

theorem backpressure_bound_witness:
  "let o1 = no_opts\<lparr>o_maxWaiting := Some 1\<rparr>; a = projr (add (\<lambda>_. CapOk) 0 3 '' sync'' None o1 False one_job)
   in next_job_id (snd a) = next_job_id one_job \<and> j_id (fst a) = 1"
proof -
  let ?o = "no_opts\<lparr>o_maxWaiting := Some 1\<rparr>"
  let ?a = "projr (add (\<lambda>_. CapOk) 0 3 '' sync'' None ?o False one_job)"
  have 1: "add (\<lambda>_. CapOk) 0 3 '' sync'' None ?o False one_job = Inr (fst ?a, snd ?a)" by code_simp
  have "waiting_in_scope (js_trim '' sync'') ''default'' (bp_source (orElse None (JObj []))) one_job = 1"
    "j_id (fst ?a) = 1"
    by code_simp+
  then show ?thesis
    using backpressure_bound [OF 1, of 1 "''default''"] by (simp add: no_opts_def orElse_def)
qed

section \<open>Protected names\<close>

lemma added_eq: "add (\<lambda>_. CapOk) 0 0 ''sync'' None opts False d = Inr (r, d') \<Longrightarrow> added opts d = d'"
  by (simp add: added_def)

text \<open>An untrusted submission never creates a job with a protected name: every protected row of
  the database after it was there before, under the same id.\<close>

theorem untrusted_never_protected:
  assumes re: "reachable_db d" and run: "add cap clock now name data opts False d = Inr (r, d')"
    and r': "r' \<in> set (jobs d')" "isProtectedJobName (j_name r')"
  shows "\<exists>x \<in> set (jobs d). j_id x = j_id r' \<and> j_name x = j_name r'"
proof -
  have ok: "table_ok d"
    using reachable_ok [OF re] by (simp add: queue_ok_def)
  obtain nm where nm: "check_name name False = Inr nm"
    and tx: "add_tx clock now nm (orElse data (JObj [])) opts d = Inr (r, d')"
    using run by (rule add_InrE)
  have free: "\<not> isProtectedJobName nm"
    using nm by (auto simp: check_name_def Let_def split: if_splits)
  have origin: "\<exists>x \<in> set (jobs e). j_id x = j_id y \<and> j_name x = j_name y"
    if ev: "evolves advance e e'" "y \<in> set (jobs e')" for e e' y
  proof -
    obtain x where "x \<in> set (jobs e)" "row_evolves advance x y"
      using evolves_row [OF ev] .
    then show ?thesis by (intro bexI [of _ x]) (simp_all add: row_evolves_def same_identity_def)
  qed
  from tx show ?thesis
  proof (cases rule: add_tx_cases)
    case (key x)
    with r' show ?thesis by blast
  next
    case (pressure d1)
    with origin [OF evolves_idempotent_hit] r'(1) show ?thesis by simp
  next
    case (clash d1 depth x)
    with origin [OF evolves_idempotent_hit] r'(1) show ?thesis by simp
  next
    case (inserted d1 depth d2)
    obtain y where y: "y \<in> set (jobs d2)" "j_id y = j_id r'" "j_name y = j_name r'"
      using origin [OF evolves_park_parent] r'(1) unfolding inserted(8) by blast
    have "y \<in> set (jobs d1)"
      using y(1,3) r'(2) free inserted(5) by (auto simp: new_row_def)
    with origin [OF evolves_idempotent_hit [OF inserted(1)]] y(2,3) show ?thesis by metis
  qed
qed

theorem untrusted_never_protected_witness:
  "\<exists>x \<in> set (jobs (snd (projr (add (\<lambda>_. CapOk) 0 0 ''shell'' None no_opts True (empty_db 7))))). j_name x = ''shell''"
proof -
  let ?d = "snd (projr (add (\<lambda>_. CapOk) 0 0 ''shell'' None no_opts True (empty_db 7)))"
  let ?a = "add (\<lambda>_. CapOk) 0 1 ''sync'' None no_opts False ?d"
  have 1: "add (\<lambda>_. CapOk) 0 0 ''shell'' None no_opts True (empty_db 7) =
      Inr (fst (projr (add (\<lambda>_. CapOk) 0 0 ''shell'' None no_opts True (empty_db 7))), ?d)"
    by code_simp
  have 2: "?a = Inr (fst (projr ?a), snd (projr ?a))"
    and 3: "jobs (snd (projr ?a)) \<noteq> [] \<and> isProtectedJobName (j_name (hd (jobs (snd (projr ?a)))))
       \<and> j_name (hd (jobs (snd (projr ?a)))) = ''shell''"
    by code_simp+
  have "queue_step (empty_db 7) ?d" by (rule q_op, rule q_add, rule 1)
  then have "reachable_db ?d" by (blast intro: queue_steps_reachable)
  then show ?thesis
    using untrusted_never_protected [OF _ 2, of "hd (jobs (snd (projr ?a)))"] 3 by fastforce
qed

section \<open>The sweeps\<close>

lemma active_after_resolve:
  "r' \<in> set (jobs (resolve_parents now ps d)) \<Longrightarrow> j_status r' = Active \<Longrightarrow> r' \<in> set (jobs d)"
  unfolding resolve_parents_def
proof (induction ps arbitrary: d)
  case Nil
  then show ?case by simp
next
  case (Cons p ps)
  then have "r' \<in> set (jobs (snd (resolveParent now p d)))" by simp
  then obtain r where r: "r \<in> set (jobs d)" "r' = (if j_id r = p \<and> j_status r = WaitingChildren \<and>
      \<not> has_open_child p (jobs d) then set_status Waiting now r else r)"
    unfolding jobs_resolveParent by (auto elim: in_update_whereE)
  show ?case
  proof (cases "j_id r = p \<and> j_status r = WaitingChildren \<and> \<not> has_open_child p (jobs d)")
    case True
    with r(2) have "r' = set_status Waiting now r" by (simp only: if_True simp_thms)
    with Cons.prems(2) show ?thesis by (simp add: set_status_def)
  next
    case False
    with r(2) have "r' = r" by (simp only: if_False)
    with r(1) show ?thesis by simp
  qed
qed

lemma active_after_sweep:
  assumes "r' \<in> set (jobs (snd (dead_letter_sweep P err now d)))" "j_status r' = Active"
  shows "r' \<in> set (jobs d) \<and> \<not> P r'"
proof -
  have "r' \<in> set (jobs (update_jobs P (timeout_row err now) d))"
    using active_after_resolve assms by (fastforce simp: dead_letter_sweep_def Let_def)
  then obtain r where r: "r \<in> set (jobs d)" "r' = (if P r then timeout_row err now r else r)"
    by (auto elim: in_update_whereE)
  with assms(2) have "\<not> P r"
    by (auto simp: timeout_row_def)
  with r show ?thesis by simp
qed

text \<open>The two deadline sweeps are complete and spare the healthy: after them no active job is past
  its timeout with a live lock (respectively past its wall-clock limit), and a job that is still
  active was active before and is unchanged.\<close>

theorem deadline_sweeps_complete:
  "(\<forall>r \<in> set (jobs (snd (handleTimeouts now d))). \<not> timed_out now r) \<and>
   (\<forall>r \<in> set (jobs (snd (handleWallClockTimeouts now dur d))). \<not> wall_clock_exceeded now dur r) \<and>
   (\<forall>r \<in> set (jobs (snd (handleTimeouts now d))) \<union> set (jobs (snd (handleWallClockTimeouts now dur d))).
      j_status r = Active \<longrightarrow> r \<in> set (jobs d))"
proof (intro conjI ballI impI)
  fix r assume r: "r \<in> set (jobs (snd (handleTimeouts now d)))"
  show "\<not> timed_out now r"
    using active_after_sweep [OF r [unfolded handleTimeouts_def]] by (auto simp: timed_out_def)
next
  fix r assume r: "r \<in> set (jobs (snd (handleWallClockTimeouts now dur d)))"
  show "\<not> wall_clock_exceeded now dur r"
    using active_after_sweep [OF r [unfolded handleWallClockTimeouts_def]]
    by (auto simp: wall_clock_exceeded_def)
next
  fix r assume "r \<in> set (jobs (snd (handleTimeouts now d))) \<union> set (jobs (snd (handleWallClockTimeouts now dur d)))"
    and "j_status r = Active"
  then show "r \<in> set (jobs d)"
    unfolding handleTimeouts_def handleWallClockTimeouts_def using active_after_sweep by blast
qed

theorem deadline_sweeps_complete_witness:
  "jobs one_active \<noteq> [] \<and> \<not> wall_clock_exceeded 900000 30000 (hd (jobs (snd (handleWallClockTimeouts 900000 30000 one_active))))"
proof -
  have "jobs one_active \<noteq> []" "jobs (snd (handleWallClockTimeouts 900000 30000 one_active)) \<noteq> []"
    by code_simp+
  then show ?thesis
    using deadline_sweeps_complete [of 900000 one_active 30000] by simp
qed

text \<open>After the stall sweep no active job has an expired lock; after it, a job that was stalled is
  waiting with one more stall on its counter when the counter stays below its limit, and dead
  with an attempt used up otherwise; every other row is unchanged.\<close>

theorem stall_sweep_complete:
  "(\<forall>r \<in> set (jobs (snd (handleStalled now d))). \<not> stalled now r) \<and>
   jobs (snd (handleStalled now d)) = map (\<lambda>r. if \<not> stalled now r then r
     else if j_stalled_counter r + 1 < j_max_stalled r
     then r\<lparr>j_status := Waiting, j_stalled_counter := j_stalled_counter r + 1, j_lock_token := None,
            j_lock_until := None, j_updated_at := now\<rparr>
     else r\<lparr>j_status := Dead, j_stalled_counter := j_stalled_counter r + 1,
            j_attempts_made := j_attempts_made r + 1, j_error_text := Some ''max stalled count exceeded'',
            j_lock_token := None, j_lock_until := None, j_finished_at := Some now, j_updated_at := now\<rparr>)
     (jobs d)"
proof
  have "\<not> stalled now (stall_row now r)" for r
    by (simp add: stalled_def stall_row_def stall_requeue_row_def stall_dead_row_def)
  then show "\<forall>r \<in> set (jobs (snd (handleStalled now d))). \<not> stalled now r"
    by (auto simp: handleStalled_def Let_def update_where_def)
qed (auto simp: handleStalled_def Let_def update_where_def stall_row_def stall_requeue_row_def
       stall_dead_row_def unlock_def)

theorem stall_sweep_complete_witness:
  "\<not> stalled 99999 (hd (jobs (snd (handleStalled 99999 one_active))))"
proof -
  have "jobs (snd (handleStalled 99999 one_active)) \<noteq> []" by code_simp
  then show ?thesis
    using stall_sweep_complete [of 99999 one_active] hd_in_set by blast
qed

section \<open>The inbox\<close>

text \<open>Inbox messages are delivered at most once: what one \<open>readInbox\<close> returns, no later one
  returns again, and without the lock nothing is returned.\<close>

theorem inbox_read_once:
  assumes "readInbox now i tok d = (ms, d')"
  shows "fst (readInbox now' i tok' d') = [] \<or> (ms = [] \<and> (i, tok) \<notin> held (jobs d))"
proof (cases "list_ex (holds i tok) (jobs d)")
  case True
  let ?f = "\<lambda>m :: inbox_message. m\<lparr>m_read_at := Some now\<rparr>" and ?P = "\<lambda>m. m_job_id m = i \<and> m_read_at m = None"
  have "inbox d' = update_where ?P ?f (inbox d)"
    using assms True by (auto simp: readInbox_def Let_def)
  moreover have "filter ?P (update_where ?P ?f t) = []" for t
    by (induction t) auto
  ultimately show ?thesis
    by (auto simp: readInbox_def Let_def updated_def)
next
  case False
  then show ?thesis
    using assms by (auto simp: readInbox_def held_iff list_ex_iff)
qed

theorem inbox_read_once_witness:
  "let d = snd (sendMessage 6 1 (JStr ''hi'') ''admin'' one_active)
   in length (fst (readInbox 7 1 ''t'' d)) = 1 \<and> fst (readInbox 8 1 ''t'' (snd (readInbox 7 1 ''t'' d))) = []"
proof -
  let ?d = "snd (sendMessage 6 1 (JStr ''hi'') ''admin'' one_active)"
  have 1: "length (fst (readInbox 7 1 ''t'' ?d)) = 1" by code_simp
  then show ?thesis
    using inbox_read_once [OF surjective_pairing, of 8 1 "''t''" 7 "''t''" ?d] by auto
qed

text \<open>Who may write to a job's inbox: a message is stored exactly when the job exists, is open, and
  the sender is \<open>admin\<close>, the id of its parent, or, for a job without a parent, the text
  \<open>null\<close> (which the comment of the method does not mention).\<close>

theorem sendMessage_accepts:
  assumes "getJob i d = Some job"
  shows "fst (sendMessage now i m sender d) \<noteq> None \<longleftrightarrow>
    \<not> terminal (j_status job) \<and>
    (sender = ''admin'' \<or> (\<exists>p. j_parent_job_id job = Some p \<and> sender = int_text p) \<or>
     (j_parent_job_id job = None \<and> sender = ''null''))"
  using assms by (auto simp: sendMessage_def insert_message_def Let_def split: option.splits)

theorem sendMessage_accepts_witness:
  "fst (sendMessage 6 1 (JStr ''hi'') ''null'' one_active) \<noteq> None"
proof -
  have g: "getJob 1 one_active = Some (the (getJob 1 one_active))"
    "\<not> terminal (j_status (the (getJob 1 one_active)))" "j_parent_job_id (the (getJob 1 one_active)) = None"
    by code_simp+
  then show ?thesis
    using sendMessage_accepts [OF g(1), of 6 "JStr ''hi''" "''null''"] by simp
qed

end
