(* ===== verification/Minion_Attachments.thy ===== *)
theory Minion_Attachments
  imports Minion_Limits
begin

text \<open>
  Attachments: \<open>validateAttachment\<close> (\<open>src/core/minions/attachments.ts\<close>) and the attachment
  methods of \<open>MinionQueue\<close>.  The two regular expressions are deterministic matchers (each
  repetition is over a class that excludes the character after it).  \<open>sha256\<close> of node:crypto
  is an argument.  Bytes are characters.
\<close>

section \<open>Base64\<close>

definition b64_val :: "char \<Rightarrow> nat option" where
  "b64_val ch =
     (let c = of_char ch :: nat
      in if 65 \<le> c \<and> c \<le> 90 then Some (c - 65)
         else if 97 \<le> c \<and> c \<le> 122 then Some (c - 71)
         else if 48 \<le> c \<and> c \<le> 57 then Some (c + 4)
         else if c = 43 then Some 62
         else if c = 47 then Some 63
         else None)"

text \<open>\<open>BASE64_RE\<close>: alphabet characters, then at most two \<open>=\<close>, to the end of the text.\<close>

definition BASE64_RE :: "string \<Rightarrow> bool" where
  "BASE64_RE s = (dropWhile (\<lambda>c. b64_val c \<noteq> None) s \<in> {'''', ''='', ''==''})"

text \<open>\<open>Buffer.from(s, 'base64')\<close> on such texts: padding ends the text, a last single character
  carries no byte.\<close>

fun b64_bytes :: "nat list \<Rightarrow> string" where
  "b64_bytes (a # b # c # d # r) =
     char_of (a * 4 + b div 16) # char_of ((b mod 16) * 16 + c div 4) #
     char_of ((c mod 4) * 64 + d) # b64_bytes r"
| "b64_bytes [a, b, c] = [char_of (a * 4 + b div 16), char_of ((b mod 16) * 16 + c div 4)]"
| "b64_bytes [a, b] = [char_of (a * 4 + b div 16)]"
| "b64_bytes _ = []"

definition buffer_from_base64 :: "string \<Rightarrow> string" where
  "buffer_from_base64 s = b64_bytes (map (the \<circ> b64_val) (takeWhile (\<lambda>c. b64_val c \<noteq> None) s))"

section \<open>Content types\<close>

definition token_char :: "char \<Rightarrow> bool" where
  "token_char c \<longleftrightarrow> c \<in> set ''ABCDEFGHIJKLMNOPQRSTUVWXYZabcdefghijklmnopqrstuvwxyz0123456789!#$&^_.+-''"

text \<open>The parameters \<open>(;\s*T+=V+)*\<close>, one per unit of fuel; the text is fuel enough.\<close>

fun ct_params :: "nat \<Rightarrow> string \<Rightarrow> bool" where
  "ct_params n [] = True"
| "ct_params 0 (c # s) = False"
| "ct_params (Suc n) (c # s) =
     (c = CHR '';'' \<and>
      (let s1 = dropWhile js_space s;
           key = takeWhile token_char s1; s2 = dropWhile token_char s1
       in key \<noteq> [] \<and> s2 \<noteq> [] \<and> hd s2 = CHR ''='' \<and>
          (let s3 = tl s2;
               v = takeWhile (\<lambda>x. token_char x \<or> x = CHR 0x22) s3
           in v \<noteq> [] \<and> ct_params n (dropWhile (\<lambda>x. token_char x \<or> x = CHR 0x22) s3))))"

definition CONTENT_TYPE_RE :: "string \<Rightarrow> bool" where
  "CONTENT_TYPE_RE s =
     (let s1 = dropWhile token_char s
      in takeWhile token_char s \<noteq> [] \<and> s1 \<noteq> [] \<and> hd s1 = CHR ''/'' \<and>
         takeWhile token_char (tl s1) \<noteq> [] \<and>
         ct_params (length s) (dropWhile token_char (tl s1)))"

section \<open>Validation\<close>

record attachment_input =
  i_filename :: string
  i_content_type :: string
  i_content_base64 :: "string option"

record normalized_attachment =
  n_filename :: string
  n_content_type :: string
  n_bytes :: string
  n_size_bytes :: nat
  n_sha256 :: string

datatype attachment_error =
    FilenameRequired | FilenameInvalid | ContentTypeMalformed | ContentEmpty | ContentInvalidBase64
  | ContentEmptyAfterDecode | TooLarge nat int | DuplicateFilename

definition DEFAULT_MAX_ATTACHMENT_BYTES :: int where "DEFAULT_MAX_ATTACHMENT_BYTES = 5 * 1024 * 1024"

fun has_dotdot :: "string \<Rightarrow> bool" where
  "has_dotdot (a # b # s) = ((a = CHR ''.'' \<and> b = CHR ''.'') \<or> has_dotdot (b # s))"
| "has_dotdot _ = False"

definition unsafe_filename :: "string \<Rightarrow> bool" where
  "unsafe_filename f \<longleftrightarrow>
     CHR ''/'' \<in> set f \<or> CHR 0x5C \<in> set f \<or> has_dotdot f \<or> CHR 0x00 \<in> set f"

definition validateAttachment ::
  "(string \<Rightarrow> string) \<Rightarrow> attachment_input \<Rightarrow> int \<Rightarrow> string list \<Rightarrow> attachment_error + normalized_attachment" where
  "validateAttachment sha256 inp maxBytes existing =
     (let f = i_filename inp
      in if f = [] \<or> js_trim f = [] then Inl FilenameRequired
         else if unsafe_filename f then Inl FilenameInvalid
         else if i_content_type inp = [] \<or> \<not> CONTENT_TYPE_RE (i_content_type inp) then Inl ContentTypeMalformed
         else (case i_content_base64 inp of
                 None \<Rightarrow> Inl ContentEmpty
               | Some b \<Rightarrow>
                   if b = [] then Inl ContentEmpty
                   else if \<not> BASE64_RE b then Inl ContentInvalidBase64
                   else (let bytes = buffer_from_base64 b
                         in if bytes = [] then Inl ContentEmptyAfterDecode
                            else if int (length bytes) > maxBytes then Inl (TooLarge (length bytes) maxBytes)
                            else if f \<in> set existing then Inl DuplicateFilename
                            else Inr \<lparr>n_filename = f, n_content_type = i_content_type inp, n_bytes = bytes,
                                      n_size_bytes = length bytes, n_sha256 = sha256 bytes\<rparr>)))"

section \<open>The queue's attachment methods\<close>

datatype attach_error =
  AttachSchemaTooOld int | JobNotFound int | InvalidAttachment attachment_error

definition job_attachments :: "int \<Rightarrow> db \<Rightarrow> attachment list" where
  "job_attachments i d = filter (\<lambda>a. a_job_id a = i) (attachments d)"

definition addAttachment ::
  "(string \<Rightarrow> string) \<Rightarrow> int \<Rightarrow> int \<Rightarrow> int \<Rightarrow> attachment_input \<Rightarrow> db \<Rightarrow> attach_error + attachment \<times> db" where
  "addAttachment sha256 maxBytes now i inp d =
     (case ensureSchema d of
        Some _ \<Rightarrow> Inl (AttachSchemaTooOld (schema_version d))
      | None \<Rightarrow>
          if find_job i d = None then Inl (JobNotFound i)
          else (case validateAttachment sha256 inp maxBytes (map a_filename (job_attachments i d)) of
                  Inl e \<Rightarrow> Inl (InvalidAttachment e)
                | Inr n \<Rightarrow>
                    (let a = \<lparr>a_id = next_att_id d, a_job_id = i, a_filename = n_filename n,
                              a_content_type = n_content_type n, a_content = n_bytes n,
                              a_size_bytes = n_size_bytes n, a_sha256 = n_sha256 n, a_created_at = now\<rparr>
                     in Inr (a, d\<lparr>attachments := attachments d @ [a], next_att_id := next_att_id d + 1\<rparr>))))"

definition listAttachments :: "int \<Rightarrow> db \<Rightarrow> attachment list" where
  "listAttachments i d =
     sort_key a_created_at (sort_key a_id (job_attachments i d))"

definition getAttachment :: "int \<Rightarrow> string \<Rightarrow> db \<Rightarrow> (attachment \<times> string) option" where
  "getAttachment i f d =
     map_option (\<lambda>a. (a, a_content a))
       (List.find (\<lambda>a. a_job_id a = i \<and> a_filename a = f) (attachments d))"

definition deleteAttachment :: "int \<Rightarrow> string \<Rightarrow> db \<Rightarrow> bool \<times> db" where
  "deleteAttachment i f d =
     (let P = (\<lambda>a. a_job_id a = i \<and> a_filename a = f)
      in (list_ex P (attachments d), d\<lparr>attachments := delete_where P (attachments d)\<rparr>))"

section \<open>Base64 round trip\<close>

text \<open>The encoder of RFC 4648, as the specification of what a client sends.\<close>

definition b64_char :: "nat \<Rightarrow> char" where
  "b64_char n = char_of (if n < 26 then n + 65 else if n < 52 then n + 71
     else if n < 62 then n - 4 else if n = 62 then 43 else 47)"

fun b64_digits :: "nat list \<Rightarrow> nat list" where
  "b64_digits (x # y # z # r) =
     x div 4 # ((x mod 4) * 16 + y div 16) # ((y mod 16) * 4 + z div 64) # z mod 64 # b64_digits r"
| "b64_digits [x, y] = [x div 4, (x mod 4) * 16 + y div 16, (y mod 16) * 4]"
| "b64_digits [x] = [x div 4, (x mod 4) * 16]"
| "b64_digits [] = []"

definition b64_encode :: "string \<Rightarrow> string" where
  "b64_encode s = map b64_char (b64_digits (map of_char s)) @
     (if length s mod 3 = 1 then ''=='' else if length s mod 3 = 2 then ''='' else '''')"

lemma b64_val_char: "n < 64 \<Longrightarrow> b64_val (b64_char n) = Some n"
  by (auto simp: b64_val_def b64_char_def Let_def)

lemma b64_digits_bound: "\<forall>x \<in> set xs. x < 256 \<Longrightarrow> \<forall>y \<in> set (b64_digits xs). y < 64"
proof (induction xs rule: b64_digits.induct)
  case (1 x y z r)
  then have "x div 4 < 64" "(x mod 4) * 16 + y div 16 < 64" "(y mod 16) * 4 + z div 64 < 64" "z mod 64 < 64"
    by auto
  with 1 show ?case by simp
next
  case (2 x y)
  then have "x div 4 < 64" "(x mod 4) * 16 + y div 16 < 64" "(y mod 16) * 4 < 64" by auto
  then show ?case by simp
next
  case (3 x)
  then have "x div 4 < 64" "(x mod 4) * 16 < 64" by auto
  then show ?case by simp
qed simp

lemma b64_bytes_digits: "\<forall>x \<in> set xs. x < 256 \<Longrightarrow> b64_bytes (b64_digits xs) = map char_of xs"
proof (induction xs rule: b64_digits.induct)
  case (1 x y z r)
  then have "(x div 4) * 4 + ((x mod 4) * 16 + y div 16) div 16 = x"
    "((x mod 4) * 16 + y div 16) mod 16 * 16 + ((y mod 16) * 4 + z div 64) div 4 = y"
    "((y mod 16) * 4 + z div 64) mod 4 * 64 + z mod 64 = z"
    by auto
  with 1 show ?case by simp
next
  case (2 x y)
  then have "(x div 4) * 4 + ((x mod 4) * 16 + y div 16) div 16 = x"
    "((x mod 4) * 16 + y div 16) mod 16 * 16 + ((y mod 16) * 4) div 4 = y"
    by auto
  then show ?case by simp
next
  case (3 x)
  then have "(x div 4) * 4 + ((x mod 4) * 16) div 16 = x" by auto
  then show ?case by simp
qed simp

lemma length_digits: "(b64_digits xs = []) = (xs = [])"
  by (induction xs rule: b64_digits.induct) simp_all

lemma b64_encode_scan:
  "takeWhile (\<lambda>c. b64_val c \<noteq> None) (b64_encode s) = map b64_char (b64_digits (map of_char s))"
  "BASE64_RE (b64_encode s)"
proof -
  let ?ds = "map b64_char (b64_digits (map of_char s))"
  let ?pad = "if length s mod 3 = 1 then ''=='' else if length s mod 3 = 2 then ''='' else ''''"
  have "\<forall>x \<in> set (map of_char s). x < (256 :: nat)" by auto
  then have all: "\<forall>c \<in> set ?ds. b64_val c \<noteq> None"
    using b64_digits_bound b64_val_char by fastforce
  have pad: "takeWhile (\<lambda>c. b64_val c \<noteq> None) ?pad = []" "dropWhile (\<lambda>c. b64_val c \<noteq> None) ?pad = ?pad"
    by (simp_all add: b64_val_def)
  show "takeWhile (\<lambda>c. b64_val c \<noteq> None) (b64_encode s) = ?ds"
    unfolding b64_encode_def using all pad(1) by (simp add: takeWhile_append)
  show "BASE64_RE (b64_encode s)"
    unfolding b64_encode_def BASE64_RE_def using all pad(2) by (simp add: dropWhile_append)
qed

lemma buffer_from_b64_encode: "buffer_from_base64 (b64_encode s) = s"
proof -
  have b: "\<forall>x \<in> set (map of_char s). x < (256 :: nat)" by auto
  have "\<forall>n \<in> set (b64_digits (map of_char s)). (the \<circ> b64_val \<circ> b64_char) n = n"
    using b64_digits_bound [OF b] b64_val_char by simp
  then have "map (the \<circ> b64_val) (map b64_char (b64_digits (map of_char s))) = b64_digits (map of_char s)"
    by (simp add: map_idI)
  then show ?thesis
    unfolding buffer_from_base64_def b64_encode_scan(1) using b64_bytes_digits [OF b] by simp
qed

lemma find_append_None: "List.find P xs = None \<Longrightarrow> List.find P (xs @ ys) = List.find P ys"
  by (induction xs) (auto split: if_splits)

text \<open>Uploads round-trip: for every non-empty byte string within the size limit, under a safe new
  filename and a well-formed content type, adding its base64 text to an existing job succeeds, and
  fetching the attachment returns exactly these bytes with their size and hash.\<close>

theorem attachment_roundtrip:
  assumes schema: "ensureSchema d = None" and job: "find_job i d \<noteq> None"
    and f: "js_trim f \<noteq> []" "\<not> unsafe_filename f" "f \<notin> set (map a_filename (job_attachments i d))"
    and ct: "CONTENT_TYPE_RE ct" and bytes: "bytes \<noteq> []" "int (length bytes) \<le> maxBytes"
  shows "\<exists>a d'. addAttachment sha256 maxBytes now i
      \<lparr>i_filename = f, i_content_type = ct, i_content_base64 = Some (b64_encode bytes)\<rparr> d = Inr (a, d') \<and>
    getAttachment i f d' = Some (a, bytes) \<and> a_size_bytes a = length bytes \<and> a_sha256 a = sha256 bytes"
proof -
  have ne: "f \<noteq> []" "ct \<noteq> []" "b64_encode bytes \<noteq> []"
    using f(1) ct bytes(1) by (auto simp: js_trim_def CONTENT_TYPE_RE_def Let_def b64_encode_def length_digits)
  let ?inp = "\<lparr>i_filename = f, i_content_type = ct, i_content_base64 = Some (b64_encode bytes)\<rparr>"
  have v: "validateAttachment sha256 ?inp maxBytes (map a_filename (job_attachments i d)) =
      Inr \<lparr>n_filename = f, n_content_type = ct, n_bytes = bytes, n_size_bytes = length bytes, n_sha256 = sha256 bytes\<rparr>"
    using ne f ct bytes by (simp add: validateAttachment_def Let_def b64_encode_scan(2) buffer_from_b64_encode)
  have "List.find (\<lambda>a. a_job_id a = i \<and> a_filename a = f) (attachments d) = None"
    using f(3) by (auto simp: find_None_iff job_attachments_def)
  then have "List.find (\<lambda>a. a_job_id a = i \<and> a_filename a = f) (attachments d @ [x]) = Some x"
    if "a_job_id x = i" "a_filename x = f" for x
    using that by (simp add: find_append_None)
  then show ?thesis
    using schema job v by (simp add: addAttachment_def Let_def getAttachment_def)
qed

theorem attachment_roundtrip_witness:
  "\<exists>a d'. addAttachment (\<lambda>b. ''h'') 5242880 9 1
      \<lparr>i_filename = ''a.txt'', i_content_type = ''text/plain; charset=utf-8'', i_content_base64 = Some (b64_encode ''hello'')\<rparr>
      one_job = Inr (a, d') \<and> getAttachment 1 ''a.txt'' d' = Some (a, ''hello'')"
proof -
  have h: "ensureSchema one_job = None" "find_job 1 one_job \<noteq> None" "js_trim ''a.txt'' \<noteq> []"
    "\<not> unsafe_filename ''a.txt''" "CONTENT_TYPE_RE ''text/plain; charset=utf-8''"
    by code_simp+
  have "list_all (\<lambda>x. x \<noteq> ''a.txt'') (map a_filename (job_attachments 1 one_job))"
    by code_simp
  then have nm: "''a.txt'' \<notin> set (map a_filename (job_attachments 1 one_job))"
    unfolding list_all_iff by blast
  show ?thesis
    using attachment_roundtrip [OF h(1-4) nm h(5), of "''hello''" 5242880 "\<lambda>b. ''h''" 9] by auto
qed

section \<open>What the table holds\<close>

lemma accepted_attachment_safe:
  assumes "validateAttachment sha256 inp maxBytes existing = Inr n"
  shows "n_filename n = i_filename inp \<and> js_trim (n_filename n) \<noteq> [] \<and> \<not> unsafe_filename (n_filename n) \<and>
    n_filename n \<notin> set existing \<and> 1 \<le> length (n_bytes n) \<and> int (length (n_bytes n)) \<le> maxBytes \<and>
    n_size_bytes n = length (n_bytes n) \<and> n_sha256 n = sha256 (n_bytes n)"
  using assms by (auto simp: validateAttachment_def Let_def Suc_le_eq split: if_splits option.splits)

definition stored_ok :: "(string \<Rightarrow> string) \<Rightarrow> int \<Rightarrow> attachment \<Rightarrow> bool" where
  "stored_ok sha256 maxBytes a \<longleftrightarrow> js_trim (a_filename a) \<noteq> [] \<and> \<not> unsafe_filename (a_filename a)
     \<and> 1 \<le> length (a_content a) \<and> int (length (a_content a)) \<le> maxBytes
     \<and> a_size_bytes a = length (a_content a) \<and> a_sha256 a = sha256 (a_content a)"

definition attachments_ok :: "(string \<Rightarrow> string) \<Rightarrow> int \<Rightarrow> db \<Rightarrow> bool" where
  "attachments_ok sha256 maxBytes d \<longleftrightarrow>
     distinct (map (\<lambda>a. (a_job_id a, a_filename a)) (attachments d))
     \<and> (\<forall>a \<in> set (attachments d). stored_ok sha256 maxBytes a)"

inductive attach_step :: "(string \<Rightarrow> string) \<Rightarrow> int \<Rightarrow> db \<Rightarrow> db \<Rightarrow> bool" for sha256 maxBytes where
  attach: "addAttachment sha256 maxBytes now i inp d = Inr (a, d') \<Longrightarrow> attach_step sha256 maxBytes d d'"
| detach: "deleteAttachment i f d = (b, d') \<Longrightarrow> attach_step sha256 maxBytes d d'"
| cascade: "d' = delete_jobs P d \<Longrightarrow> attach_step sha256 maxBytes d d'"
| others: "attachments d' = attachments d \<Longrightarrow> attach_step sha256 maxBytes d d'"

lemma distinct_map_delete_where: "distinct (map f t) \<Longrightarrow> distinct (map f (delete_where P t))"
  by (induction t) auto

interpretation attachment_store:
  invariant_system "\<lambda>d. attachments d = []" "attach_step sha256 maxBytes" "attachments_ok sha256 maxBytes"
  for sha256 maxBytes
proof unfold_locales
  fix d :: db assume "attachments d = []"
  then show "attachments_ok sha256 maxBytes d" by (simp add: attachments_ok_def)
next
  fix d d' assume "attach_step sha256 maxBytes d d'" and ok: "attachments_ok sha256 maxBytes d"
  then show "attachments_ok sha256 maxBytes d'"
  proof cases
    case (attach now i inp a)
    then obtain n where v: "validateAttachment sha256 inp maxBytes (map a_filename (job_attachments i d)) = Inr n"
      and d': "attachments d' = attachments d @ [a]"
      and a: "a_job_id a = i" "a_filename a = n_filename n" "a_content a = n_bytes n"
        "a_size_bytes a = n_size_bytes n" "a_sha256 a = n_sha256 n"
      by (auto simp: addAttachment_def Let_def split: option.splits if_splits sum.splits)
    note safe = accepted_attachment_safe [OF v]
    then have "stored_ok sha256 maxBytes a" by (auto simp: stored_ok_def a)
    moreover have "n_filename n \<notin> set (map a_filename (job_attachments i d))" using safe by blast
    ultimately show ?thesis
      using ok by (auto simp: attachments_ok_def d' a job_attachments_def)
  next
    case (detach i f b)
    then have "d' = snd (deleteAttachment i f d)" by simp
    with ok show ?thesis
      by (simp add: attachments_ok_def deleteAttachment_def Let_def distinct_map_delete_where)
  next
    case (cascade P)
    with ok show ?thesis
      by (simp add: attachments_ok_def delete_jobs_def Let_def distinct_map_delete_where)
  next
    case others
    with ok show ?thesis by (simp add: attachments_ok_def)
  qed
qed

text \<open>Whatever is uploaded, deleted or removed with its job, every stored attachment has a leaf
  filename (no separator, no \<open>..\<close>, no null byte, not blank), between one byte and the limit of
  content, its true size and hash, and no job has two attachments of one filename.\<close>

theorem stored_attachments_valid:
  assumes "attachments d0 = []" "(attach_step sha256 maxBytes)\<^sup>*\<^sup>* d0 d"
  shows "distinct (map (\<lambda>a. (a_job_id a, a_filename a)) (attachments d))
    \<and> (\<forall>a \<in> set (attachments d). js_trim (a_filename a) \<noteq> [] \<and> \<not> unsafe_filename (a_filename a)
        \<and> 1 \<le> length (a_content a) \<and> int (length (a_content a)) \<le> maxBytes
        \<and> a_size_bytes a = length (a_content a) \<and> a_sha256 a = sha256 (a_content a))"
  using attachment_store.reachable_inv [OF assms] by (simp add: attachments_ok_def stored_ok_def)

definition hello_input :: attachment_input where
  "hello_input = \<lparr>i_filename = ''b'', i_content_type = ''text/plain'', i_content_base64 = Some ''aGk=''\<rparr>"

definition hello_db :: db where
  "hello_db = snd (projr (addAttachment (\<lambda>b. ''h'') 10 9 1 hello_input one_job))"

theorem stored_attachments_valid_witness:
  "a_content (hd (attachments hello_db)) = ''hi'' \<and> a_size_bytes (hd (attachments hello_db)) = 2
   \<and> addAttachment (\<lambda>b. ''h'') 10 9 1 hello_input hello_db = Inl (InvalidAttachment DuplicateFilename)"
proof -
  let ?r = "addAttachment (\<lambda>b. ''h'') 10 9 1 hello_input one_job"
  have r: "?r = Inr (projr ?r)" and e: "attachments one_job = []"
    and c: "a_content (hd (attachments hello_db)) = ''hi''" "hd (attachments hello_db) \<in> set (attachments hello_db)"
    and dup: "addAttachment (\<lambda>b. ''h'') 10 9 1 hello_input hello_db = Inl (InvalidAttachment DuplicateFilename)"
    by code_simp+
  have "?r = Inr (fst (projr ?r), hello_db)"
    using r by (simp add: hello_db_def)
  then have "attach_step (\<lambda>b. ''h'') 10 one_job hello_db"
    by (rule attach)
  then show ?thesis
    using stored_attachments_valid [OF e r_into_rtranclp] c dup by fastforce
qed

end
