(* ===== verification/Minion_Worker.thy ===== *)
theory Minion_Worker
  imports Minion_Limits
begin

text \<open>
  The worker (\<open>src/core/minions/worker.ts\<close>): the settlement of one job (\<open>executeJob\<close>), over the
  interface of the queue it calls (locale \<open>job_store\<close>, interpreted on the queue's model), the
  quiet-hours branch, and the claim step of the poll loop with its concurrency limit.

  The handler is user code: its outcome is an argument, a returned value or a thrown error.  A
  call of the queue can throw (a lost connection): that is an argument too, and then the call
  has no effect.  \<open>Math.random()\<close> values are arguments.  A retry delay is rounded down to a
  millisecond.
\<close>

section \<open>Outcomes\<close>

datatype handler_error = LeaseFull string | Unrecoverable string | OtherError string

fun err_text :: "handler_error \<Rightarrow> string" where
  "err_text (LeaseFull s) = s"
| "err_text (Unrecoverable s) = s"
| "err_text (OtherError s) = s"

datatype handler_outcome = Returned json | Threw handler_error

datatype call = Works | ConnError | OtherFailure

datatype exec_result =
    ExecCompleted | CompletionDropped | NoHandler
  | InfraReleased | LeaseReleased int | LeaseDropped
  | RecordedFailure fail_status int | FailureDropped | LeftForStallSweep | Rejected

definition INFRASTRUCTURE_ABORT_REASONS :: "string list" where
  "INFRASTRUCTURE_ABORT_REASONS = [''lock-renewal-failed'', ''lock-lost'']"

text \<open>\<open>result != null ? (typeof result === 'object' ? result : {value: result}) : undefined\<close>.\<close>

fun result_value :: "json \<Rightarrow> json option" where
  "result_value JNull = None"
| "result_value (JObj ms) = Some (JObj ms)"
| "result_value (JArr xs) = Some (JArr xs)"
| "result_value j = Some (JObj [(''value'', j)])"

section \<open>Settling a job\<close>

type_synonym 's job_op = "'s \<Rightarrow> minion_job option \<times> 's"

text \<open>What a failing run asks for: the status and the back-off of \<open>failJob\<close>.\<close>

definition failure_status :: "handler_error \<Rightarrow> minion_job \<Rightarrow> fail_status" where
  "failure_status err job =
     (if (case err of Unrecoverable _ \<Rightarrow> True | _ \<Rightarrow> False) \<or> j_attempts_made job + 1 \<ge> j_max_attempts job
      then FDead else FDelayed)"

definition failure_backoff :: "rat \<Rightarrow> fail_status \<Rightarrow> minion_job \<Rightarrow> int" where
  "failure_backoff rnd st job =
     (if st = FDelayed
      then \<lfloor>calculateBackoff rnd (j_backoff_type job) (j_backoff_delay job) (j_backoff_jitter job)
              (j_attempts_made job + 1)\<rfloor>
      else 0)"

definition error_text :: "string option \<Rightarrow> handler_error \<Rightarrow> string" where
  "error_text abort err = (case abort of Some r \<Rightarrow> ''aborted: '' @ r | None \<Rightarrow> err_text err)"

text \<open>Recording the failure, with the one retry after a retryable connection error.\<close>

definition record_failure ::
  "(string \<Rightarrow> fail_status \<Rightarrow> int \<Rightarrow> 's job_op) \<Rightarrow> call \<Rightarrow> call \<Rightarrow> string \<Rightarrow> fail_status \<Rightarrow> int \<Rightarrow> 's \<Rightarrow> exec_result \<times> 's" where
  "record_failure fail call1 call2 msg st backoff s =
     (let settled = (case fail msg st backoff s of
                       (None, s') \<Rightarrow> (FailureDropped, s')
                     | (Some _, s') \<Rightarrow> (RecordedFailure st backoff, s'))
      in case call1 of
           Works \<Rightarrow> settled
         | OtherFailure \<Rightarrow> (Rejected, s)
         | ConnError \<Rightarrow> (if call2 = Works then settled else (LeftForStallSweep, s)))"

text \<open>The catch block of \<open>executeJob\<close>.\<close>

definition settle_error ::
  "(string \<Rightarrow> fail_status \<Rightarrow> int \<Rightarrow> 's job_op) \<Rightarrow> (string \<Rightarrow> int \<Rightarrow> 's job_op) \<Rightarrow> minion_job \<Rightarrow>
   string option \<Rightarrow> handler_error \<Rightarrow> rat \<Rightarrow> call \<Rightarrow> call \<Rightarrow> 's \<Rightarrow> exec_result \<times> 's" where
  "settle_error fail release job abort err rnd call1 call2 s =
     (let errorText = error_text abort err
      in if abort \<noteq> None \<and> the abort \<in> set INFRASTRUCTURE_ABORT_REASONS then (InfraReleased, s)
         else case err of
           LeaseFull _ \<Rightarrow>
             (let wait = 1000 + \<lfloor>rnd * 2000\<rfloor>
              in if call1 \<noteq> Works then (Rejected, s)
                 else case release errorText wait s of
                   (None, s') \<Rightarrow> (LeaseDropped, s')
                 | (Some _, s') \<Rightarrow> (LeaseReleased wait, s'))
         | _ \<Rightarrow>
             (let st = failure_status err job
              in record_failure fail call1 call2 errorText st (failure_backoff rnd st job) s))"

text \<open>\<open>executeJob\<close> over the calls it makes.  \<open>completion = Some e\<close>: completeJob itself throws.\<close>

definition settle ::
  "(json option \<Rightarrow> 's job_op) \<Rightarrow> (string \<Rightarrow> fail_status \<Rightarrow> int \<Rightarrow> 's job_op) \<Rightarrow> (string \<Rightarrow> int \<Rightarrow> 's job_op) \<Rightarrow>
   bool \<Rightarrow> minion_job \<Rightarrow> handler_outcome \<Rightarrow> handler_error option \<Rightarrow> string option \<Rightarrow> rat \<Rightarrow> call \<Rightarrow> call \<Rightarrow> 's
   \<Rightarrow> exec_result \<times> 's" where
  "settle finish fail release has_handler job outcome completion abort rnd call1 call2 s =
     (if \<not> has_handler
      then (if call1 \<noteq> Works then (Rejected, s)
            else (NoHandler, snd (fail (''No handler for job type '' @ [CHR 0x27] @ j_name job @ [CHR 0x27]) FDead 0 s)))
      else case outcome of
        Threw err \<Rightarrow> settle_error fail release job abort err rnd call1 call2 s
      | Returned v \<Rightarrow>
          (case completion of
             Some e \<Rightarrow> settle_error fail release job abort e rnd call1 call2 s
           | None \<Rightarrow> (case finish (result_value v) s of
                        (None, s') \<Rightarrow> (CompletionDropped, s')
                      | (Some _, s') \<Rightarrow> (ExecCompleted, s'))))"

text \<open>The same on the database.\<close>

definition executeJob ::
  "int \<Rightarrow> minion_job \<Rightarrow> string \<Rightarrow> bool \<Rightarrow> handler_outcome \<Rightarrow> handler_error option \<Rightarrow> string option \<Rightarrow> rat \<Rightarrow>
   call \<Rightarrow> call \<Rightarrow> db \<Rightarrow> exec_result \<times> db" where
  "executeJob now job tok has_handler outcome completion abort rnd call1 call2 =
     settle (completeJob now (j_id job) tok)
       (\<lambda>msg st b. failJob now (j_id job) tok msg st (Some b))
       (releaseLeaseFullJob now (j_id job) tok)
       has_handler job outcome completion abort rnd call1 call2"

section \<open>The interface to the queue\<close>

text \<open>
  What the worker relies on: each of the three calls does nothing without the lock, and with the
  lock succeeds and gives the lock up.
\<close>

definition settled :: "('s \<Rightarrow> bool) \<Rightarrow> exec_result \<times> 's \<Rightarrow> bool" where
  "settled locked x \<longleftrightarrow> fst x \<notin> {CompletionDropped, FailureDropped, LeaseDropped} \<and>
     (fst x \<notin> {InfraReleased, LeftForStallSweep, Rejected} \<longrightarrow> \<not> locked (snd x))"

locale job_store =
  fixes locked :: "'s \<Rightarrow> bool"
    and finish :: "json option \<Rightarrow> 's job_op"
    and fail :: "string \<Rightarrow> fail_status \<Rightarrow> int \<Rightarrow> 's job_op"
    and release :: "string \<Rightarrow> int \<Rightarrow> 's job_op"
    and good :: "'s \<Rightarrow> bool"
  assumes complete_fenced: "\<not> locked s \<Longrightarrow> finish v s = (None, s)"
    and fail_fenced: "\<not> locked s \<Longrightarrow> fail msg st b s = (None, s)"
    and release_fenced: "\<not> locked s \<Longrightarrow> release msg b s = (None, s)"
    and complete_works: "good s \<Longrightarrow> locked s \<Longrightarrow> fst (finish v s) \<noteq> None \<and> \<not> locked (snd (finish v s))"
    and fail_works: "good s \<Longrightarrow> locked s \<Longrightarrow> fst (fail msg st b s) \<noteq> None \<and> \<not> locked (snd (fail msg st b s))"
    and release_works: "good s \<Longrightarrow> locked s \<Longrightarrow> fst (release msg b s) \<noteq> None \<and> \<not> locked (snd (release msg b s))"
begin

lemma unlocked_settle:
  assumes "\<not> locked s"
  shows "snd (settle finish fail release h job res cthrow abort rnd c1 c2 s) = s"
  using assms
  by (simp add: settle_def settle_error_def record_failure_def Let_def complete_fenced fail_fenced
      release_fenced split: handler_outcome.split handler_error.split option.split call.split)

lemma finishE:
  assumes "good s" "locked s"
  obtains j s' where "finish v s = (Some j, s')" "\<not> locked s'"
  using complete_works [OF assms, of v] by (cases "finish v s") auto

lemma failE:
  assumes "good s" "locked s"
  obtains j s' where "fail msg st b s = (Some j, s')" "\<not> locked s'"
  using fail_works [OF assms, of msg st b] by (cases "fail msg st b s") auto

lemma releaseE:
  assumes "good s" "locked s"
  obtains j s' where "release msg b s = (Some j, s')" "\<not> locked s'"
  using release_works [OF assms, of msg b] by (cases "release msg b s") auto

lemma record_failure_settled:
  assumes "good s" "locked s"
  shows "settled locked (record_failure fail c1 c2 msg st b s)"
proof -
  obtain j s' where "fail msg st b s = (Some j, s')" "\<not> locked s'"
    using assms by (rule failE)
  then show ?thesis
    by (cases c1; cases c2) (simp_all add: record_failure_def settled_def Let_def)
qed

lemma settle_error_settled:
  assumes "good s" "locked s"
  shows "settled locked (settle_error fail release job abort err rnd c1 c2 s)"
proof (cases "abort \<noteq> None \<and> the abort \<in> set INFRASTRUCTURE_ABORT_REASONS")
  case True
  then show ?thesis by (simp add: settle_error_def Let_def settled_def)
next
  case False
  note no_infra = False
  show ?thesis
  proof (cases err)
    case (LeaseFull x)
    obtain j s' where "release (error_text abort err) (1000 + \<lfloor>rnd * 2000\<rfloor>) s = (Some j, s')" "\<not> locked s'"
      using assms by (rule releaseE)
    with no_infra LeaseFull show ?thesis
      by (simp only: settle_error_def Let_def if_False handler_error.case option.case prod.case)
         (simp add: settled_def)
  next
    case (Unrecoverable x)
    with no_infra record_failure_settled [OF assms] show ?thesis
      by (simp only: settle_error_def Let_def if_False handler_error.case)
  next
    case (OtherError x)
    with no_infra record_failure_settled [OF assms] show ?thesis
      by (simp only: settle_error_def Let_def if_False handler_error.case)
  qed
qed

lemma settle_settled:
  assumes "good s" "locked s"
  shows "settled locked (settle finish fail release h job res cthrow abort rnd c1 c2 s)"
proof (cases h)
  case False
  obtain j s' where "fail (''No handler for job type '' @ [CHR 0x27] @ j_name job @ [CHR 0x27]) FDead 0 s = (Some j, s')"
    "\<not> locked s'"
    using assms by (rule failE)
  with False show ?thesis
    by (cases c1) (simp_all add: settle_def settled_def)
next
  case True
  note h = True
  show ?thesis
  proof (cases res)
    case (Threw err)
    with h settle_error_settled [OF assms] show ?thesis by (simp add: settle_def)
  next
    case (Returned v)
    obtain j s' where "finish (result_value v) s = (Some j, s')" "\<not> locked s'"
      using assms by (rule finishE)
    with h Returned settle_error_settled [OF assms] show ?thesis
      by (cases cthrow) (simp_all add: settle_def settled_def)
  qed
qed

end

section \<open>The queue provides the interface\<close>

lemma fst_completeJob: "(i, tok) \<in> held (jobs d) \<Longrightarrow> fst (completeJob now i tok res d) \<noteq> None"
  by (cases "updated_jobs (holds i tok) (complete_row now res) d")
     (auto simp: completeJob_def Let_def held_iff updated_jobs_def updated_def filter_empty_conv)

lemma fst_failJob: "(i, tok) \<in> held (jobs d) \<Longrightarrow> fst (failJob now i tok err st b d) \<noteq> None"
  by (cases "updated_jobs (holds i tok) (fail_row now st err (orElse b 0)) d")
     (auto simp: failJob_def Let_def held_iff updated_jobs_def updated_def filter_empty_conv)

lemma fst_release: "(i, tok) \<in> held (jobs d) \<Longrightarrow> fst (releaseLeaseFullJob now i tok err b d) \<noteq> None"
  by (cases "updated_jobs (holds i tok) (release_row now err b) d")
     (auto simp: releaseLeaseFullJob_def one_row_def held_iff updated_jobs_def updated_def filter_empty_conv)

text \<open>After the update of the held row nobody holds the lock.\<close>

lemma held_gone:
  assumes "\<And>r. j_status (f r) \<noteq> Active"
  shows "(i, tok) \<notin> held (jobs (update_jobs (holds i tok) f d))"
proof
  assume "(i, tok) \<in> held (jobs (update_jobs (holds i tok) f d))"
  then obtain r' where r': "r' \<in> set (jobs (update_jobs (holds i tok) f d))" "holds i tok r'"
    unfolding held_iff by blast
  from r'(1) obtain r where r: "r' = (if holds i tok r then f r else r)"
    by (auto elim: in_update_whereE)
  show False
  proof (cases "holds i tok r")
    case True
    with r r'(2) assms [of r] show False by (simp add: holds_def)
  next
    case False
    with r r'(2) show False by simp
  qed
qed

lemma held_after_completeJob: "(i, tok) \<notin> held (jobs (snd (completeJob now i tok res d)))"
proof (cases "updated_jobs (holds i tok) (complete_row now res) d")
  case Nil
  then have "filter (holds i tok) (jobs d) = []"
    by (simp add: updated_jobs_def updated_def)
  with Nil show ?thesis
    by (auto simp: completeJob_def Let_def held_iff filter_empty_conv)
next
  case (Cons row rest)
  let ?d1 = "update_jobs (holds i tok) (complete_row now res) d"
  let ?c = "rowToMinionJob row"
  let ?m = "child_done (j_id ?c) (j_name ?c) res OComplete None"
  let ?d2 = "case j_parent_job_id ?c of None \<Rightarrow> ?d1
    | Some p \<Rightarrow> snd (resolveParent now p (post_child_done now p ?m (roll_up_tokens now ?c p ?d1)))"
  have d1: "(i, tok) \<notin> held (jobs ?d1)"
    by (rule held_gone) (simp add: complete_row_def)
  have "held (jobs ?d2) \<subseteq> held (jobs ?d1)"
  proof (cases "j_parent_job_id ?c")
    case (Some p)
    have "held (jobs (snd (resolveParent now p (post_child_done now p ?m (roll_up_tokens now ?c p ?d1)))))
        \<subseteq> held (jobs (post_child_done now p ?m (roll_up_tokens now ?c p ?d1)))"
      by (rule held_resolveParent)
    also have "\<dots> \<subseteq> held (jobs ?d1)"
      unfolding jobs_post_child_done by (rule held_roll_up_tokens)
    finally show ?thesis using Some by simp
  qed simp
  with d1 have d2: "(i, tok) \<notin> held (jobs ?d2)" by blast
  have "snd (completeJob now i tok res d) =
      (if j_remove_on_complete ?c then delete_jobs (\<lambda>r. j_id r = j_id ?c) ?d2 else ?d2)"
    using Cons by (simp add: completeJob_def Let_def)
  with d2 held_delete [of "\<lambda>r. j_id r = j_id ?c" ?d2] show ?thesis by auto
qed

lemma held_after_failJob: "(i, tok) \<notin> held (jobs (snd (failJob now i tok err st b d)))"
proof (cases "updated_jobs (holds i tok) (fail_row now st err (orElse b 0)) d")
  case Nil
  then have "filter (holds i tok) (jobs d) = []"
    by (simp add: updated_jobs_def updated_def)
  with Nil show ?thesis
    by (auto simp: failJob_def Let_def held_iff filter_empty_conv)
next
  case (Cons row rest)
  let ?d1 = "update_jobs (holds i tok) (fail_row now st err (orElse b 0)) d"
  let ?c = "rowToMinionJob row"
  let ?d2 = "case j_parent_job_id ?c of
      Some p \<Rightarrow> if st \<noteq> FDelayed then fail_parent_hook now st err ?c p ?d1 else ?d1 | None \<Rightarrow> ?d1"
  have "(i, tok) \<notin> held (jobs ?d1)"
    by (rule held_gone) (cases st; simp add: fail_row_def)
  moreover have "held (jobs ?d2) \<subseteq> held (jobs ?d1)"
  proof (cases "j_parent_job_id ?c")
    case (Some p)
    with held_fail_parent_hook [of now st err ?c p ?d1] show ?thesis by simp
  qed simp
  ultimately have d2: "(i, tok) \<notin> held (jobs ?d2)" by blast
  have "snd (failJob now i tok err st b d) =
      (if st \<noteq> FDelayed \<and> j_remove_on_fail ?c then delete_jobs (\<lambda>r. j_id r = j_id ?c) ?d2 else ?d2)"
    using Cons by (simp add: failJob_def Let_def)
  with d2 held_delete [of "\<lambda>r. j_id r = j_id ?c" ?d2] show ?thesis by auto
qed

lemma held_after_release: "(i, tok) \<notin> held (jobs (snd (releaseLeaseFullJob now i tok err b d)))"
  unfolding releaseLeaseFullJob_def snd_one_row by (rule held_gone) (simp add: release_row_def)

interpretation worker_store: job_store "\<lambda>d. (i, tok) \<in> held (jobs d)" "completeJob now i tok"
    "\<lambda>msg st b. failJob now i tok msg st (Some b)" "releaseLeaseFullJob now i tok" "\<lambda>d. True"
  for i tok now
proof unfold_locales
  fix s :: db assume no: "(i, tok) \<notin> held (jobs s)"
  note N = fenced_noop [OF no]
  show "completeJob now i tok v s = (None, s)" for v
    by (simp add: completeJob_def N)
  show "failJob now i tok msg st (Some b) s = (None, s)" for msg st b
    by (simp add: failJob_def N)
  show "releaseLeaseFullJob now i tok msg b s = (None, s)" for msg b
    by (simp add: releaseLeaseFullJob_def one_row_def N)
qed (simp_all add: fst_completeJob fst_failJob fst_release held_after_completeJob held_after_failJob
       held_after_release del: not_None_eq)

section \<open>Properties of a settlement\<close>


definition active_job :: minion_job where
  "active_job = rowToMinionJob (hd (jobs one_active))"


text \<open>The retry policy.  When the handler of a held job throws an ordinary error, without an
  infrastructure abort and with the queue reachable: the job is dead if the error is
  unrecoverable or this was its last attempt; otherwise its row is delayed with one more attempt
  made, still below its limit, and due after the back-off.  A lease that was full delays the row
  for one to three seconds and uses no attempt.\<close>

theorem retry_policy:
  assumes re: "reachable_db d" and r: "r \<in> set (jobs d)" "holds (j_id r) tok r"
    and keep: "\<not> j_remove_on_fail r" and abort: "abort = None \<or> the abort \<notin> set INFRASTRUCTURE_ABORT_REASONS"
    and rnd: "0 \<le> rnd" "rnd < 1"
  shows "\<exists>r' \<in> set (jobs (snd (executeJob now (rowToMinionJob r) tok True (Threw err) None abort rnd Works c2 d))).
     j_id r' = j_id r \<and>
     (case err of
        LeaseFull _ \<Rightarrow> j_status r' = Delayed \<and> j_attempts_made r' = j_attempts_made r \<and>
          (\<exists>w. j_delay_until r' = Some (now + w) \<and> 1000 \<le> w \<and> w < 3000)
      | Unrecoverable _ \<Rightarrow> j_status r' = Dead
      | OtherError _ \<Rightarrow>
          if j_attempts_made r + 1 \<ge> j_max_attempts r then j_status r' = Dead
          else j_status r' = Delayed \<and> j_attempts_made r' = j_attempts_made r + 1 \<and>
            j_attempts_made r' < j_max_attempts r' \<and>
            j_delay_until r' = Some (now + failure_backoff rnd FDelayed (rowToMinionJob r)))"
proof -
  have ok: "table_ok d"
    using reachable_ok [OF re] by (simp add: queue_ok_def)
  let ?job = "rowToMinionJob r" and ?i = "j_id r"
  let ?d' = "snd (executeJob now ?job tok True (Threw err) None abort rnd Works c2 d)"
  have no_infra: "\<not> (abort \<noteq> None \<and> the abort \<in> set INFRASTRUCTURE_ABORT_REASONS)" using abort by blast
  let ?e = "error_text abort err"
  show ?thesis
  proof (cases "\<exists>x. err = LeaseFull x")
    case True
    then obtain x where err: "err = LeaseFull x" ..
    let ?w = "1000 + \<lfloor>rnd * 2000\<rfloor>"
    have w: "1000 \<le> ?w" "?w < 3000"
      using rnd by (auto simp: floor_less_iff)
    have "?d' = snd (releaseLeaseFullJob now ?i tok ?e ?w d)"
      using no_infra err by (auto simp: executeJob_def settle_def settle_error_def Let_def split: option.split prod.split)
    then have "?d' = update_jobs (holds ?i tok) (release_row now ?e ?w) d"
      by (simp add: releaseLeaseFullJob_def)
    moreover have "(if holds ?i tok r then release_row now ?e ?w r else r)
        \<in> set (jobs (update_jobs (holds ?i tok) (release_row now ?e ?w) d))"
      by (rule in_update_jobsI [OF r(1)])
    ultimately show ?thesis
      using r(2) w err by (intro bexI [of _ "release_row now ?e ?w r"]) (auto simp: release_row_def unlock_def)
  next
    case False
    let ?st = "failure_status err ?job"
    let ?b = "failure_backoff rnd ?st ?job"
    let ?f = "fail_row now ?st ?e ?b"
    let ?d1 = "update_jobs (holds ?i tok) ?f d"
    have d': "?d' = snd (failJob now ?i tok ?e ?st (Some ?b) d)"
      using no_infra False
      by (cases err) (auto simp: executeJob_def settle_def settle_error_def record_failure_def Let_def split: option.split prod.split)
    obtain rest where upd: "updated_jobs (holds ?i tok) ?f d = ?f r # rest"
      using held_updated [OF ok r] by blast
    have "(if holds ?i tok r then ?f r else r) \<in> set (jobs ?d1)"
      by (rule in_update_jobsI [OF r(1)])
    then have fr: "?f r \<in> set (jobs ?d1)" using r(2) by simp
    have keep': "\<not> j_remove_on_fail (rowToMinionJob (?f r))"
      using keep by (simp add: fail_row_def unlock_def)
    show ?thesis
    proof (cases "?st = FDelayed")
      case True
      then obtain x where err: "err = OtherError x" and lt: "\<not> j_attempts_made r + 1 \<ge> j_max_attempts r"
        using False by (cases err) (auto simp: failure_status_def split: if_splits)
      have "?d' = ?d1"
        unfolding d' using upd True by (auto simp: failJob_def Let_def orElse_def split: option.split)
      with fr True err lt show ?thesis
        by (intro bexI [of _ "?f r"]) (simp_all add: fail_row_def unlock_def)
    next
      case False2: False
      then have dead: "?st = FDead" by (simp add: failure_status_def split: if_splits)
      have "evolves advance ?d1 ?d'"
        unfolding d' using upd keep' False2
        by (auto simp: failJob_def Let_def orElse_def evolves_fail_parent_hook split: option.split)
      then obtain r' where r': "r' \<in> set (jobs ?d')" "row_evolves advance (?f r) r'"
        using evolves_row_forward fr by blast
      have "j_status (?f r) = Dead" "j_id (?f r) = ?i"
        using dead by (simp_all add: fail_row_def unlock_def)
      then have "j_status r' = Dead" "j_id r' = ?i"
        using r'(2) advances_from_terminal [of Dead "j_status r'"] row_evolvesD(1) [OF r'(2)]
        by (simp_all add: row_evolves_def)
      moreover have "case err of OtherError _ \<Rightarrow> j_attempts_made r + 1 \<ge> j_max_attempts r | _ \<Rightarrow> True"
        using dead by (auto simp: failure_status_def split: handler_error.splits if_splits)
      ultimately show ?thesis
        using r'(1) False by (intro bexI [of _ r']) (auto split: handler_error.splits)
    qed
  qed
qed

theorem retry_policy_witness:
  "\<exists>r' \<in> set (jobs (snd (executeJob 9 (rowToMinionJob (hd (jobs one_active))) ''t'' True (Threw (OtherError ''x'')) None None 0 Works Works one_active))).
     j_id r' = 1 \<and> j_status r' = Delayed \<and> j_attempts_made r' = 1"
proof -
  have "holds 1 ''t'' (hd (jobs one_active)) \<and> jobs one_active \<noteq> [] \<and> j_id (hd (jobs one_active)) = 1 \<and>
      \<not> j_remove_on_fail (hd (jobs one_active)) \<and> j_attempts_made (hd (jobs one_active)) = 0 \<and> j_max_attempts (hd (jobs one_active)) = 3"
    by code_simp
  then show ?thesis
    using retry_policy [OF sample_reachable(2), of "hd (jobs one_active)" "''t''" None 0 9 "OtherError ''x''" Works]
    by auto
qed

text \<open>The retry delay stays within the jitter band around the exponential (or fixed) base.\<close>

theorem retry_backoff_bounds:
  assumes "0 \<le> delay0" "0 \<le> jitter" "jitter \<le> 1" "0 \<le> rnd" "rnd < 1"
  shows "(1 - jitter) * backoff_base bt delay0 n \<le> calculateBackoff rnd bt delay0 jitter n \<and>
    calculateBackoff rnd bt delay0 jitter n \<le> (1 + jitter) * backoff_base bt delay0 n \<and>
    0 \<le> calculateBackoff rnd bt delay0 jitter n"
  using calculateBackoff_bounds [of delay0 jitter rnd bt n] assms
  by (simp add: calculateBackoff_def Let_def)

theorem retry_backoff_bounds_witness:
  "calculateBackoff (1 / 2) Exponential 1000 (1 / 5) 3 \<le> 4800"
  using retry_backoff_bounds [of 1000 "1 / 5" "1 / 2" Exponential 3] by (simp add: backoff_base_def)

text \<open>The quiet-hours gate holds a job back exactly when its configuration is valid, its time zone
  is known, and the local hour lies in the cyclic interval from \<open>start\<close> to \<open>end\<close>, across
  midnight or not; everything else lets the job run.\<close>

theorem quiet_hours_gate:
  "evaluateQuietHours tz_hour cfg now \<noteq> Allow \<longleftrightarrow>
     (\<exists>c s e tz n. cfg = Some c \<and> quiet_window c = Some (s, e, tz) \<and> tz_hour tz now = Some n \<and>
        (n mod 24 - s) mod 24 < (e - s) mod 24)"
proof -
  have "in_quiet_window s e (n mod 24) \<longleftrightarrow> (n mod 24 - s) mod 24 < (e - s) mod 24"
    if "quiet_window c = Some (s, e, tz)" for c s e tz n
    using quiet_window_range [OF that] by (intro in_quiet_window_cyclic) auto
  then show ?thesis
    by (auto simp: evaluateQuietHours_def localHour_def split: option.splits)
qed

end
