(* ===== verification/Worker_Loop.thy ===== *)
theory Worker_Loop
  imports Minion_Worker "HOL-Library.Sublist"
begin

text \<open>
  The process side of \<open>MinionWorker\<close> (\<open>src/core/minions/worker.ts\<close>): the map of jobs in
  flight with their abort controllers, the claim step of the poll loop, the end of a run, the
  grace eviction, graceful shutdown, the RSS watchdog and the self-health check.

  \<open>in_flight\<close> is the Map keyed by job id; \<open>runs\<close> are the handler promises that have not
  settled, which the worker has no variable for: an evicted handler keeps running.  Messages on
  the console are not modelled; the events that matter (\<open>unhealthy\<close>, the soft warning) are.
\<close>

section \<open>State\<close>

record flight =
  f_job :: int
  f_token :: string
  f_abort :: "string option"

record worker =
  running :: bool
  in_flight :: "flight list"
  runs :: "(int \<times> string) list"
  jobsCompleted :: nat
  shutdown_reason :: "string option"
  gracefulShutdownFired :: bool
  rssWatchdogTriggered :: bool
  peakRssMb :: int
  softWarnFired :: bool

definition new_worker :: worker where
  "new_worker = \<lparr>running = True, in_flight = [], runs = [], jobsCompleted = 0, shutdown_reason = None,
     gracefulShutdownFired = False, rssWatchdogTriggered = False, peakRssMb = 0, softWarnFired = False\<rparr>"

text \<open>The Map operations: \<open>set\<close> replaces the entry of a key, \<open>delete\<close> drops it.\<close>

definition flights_delete :: "int \<Rightarrow> flight list \<Rightarrow> flight list" where
  "flights_delete i fs = filter (\<lambda>f. f_job f \<noteq> i) fs"

definition flights_set :: "flight \<Rightarrow> flight list \<Rightarrow> flight list" where
  "flights_set f fs =
     (if list_ex (\<lambda>g. f_job g = f_job f) fs then map (\<lambda>g. if f_job g = f_job f then f else g) fs
      else fs @ [f])"

definition find_flight :: "int \<Rightarrow> flight list \<Rightarrow> flight option" where
  "find_flight i fs = List.find (\<lambda>f. f_job f = i) fs"

text \<open>\<open>AbortController.abort\<close>: only the first reason counts.\<close>

definition abort_flight :: "string \<Rightarrow> flight \<Rightarrow> flight" where
  "abort_flight reason f = (if f_abort f = None then f\<lparr>f_abort := Some reason\<rparr> else f)"

section \<open>Shutdown and the RSS watchdog\<close>

definition gracefulShutdown :: "string \<Rightarrow> worker \<Rightarrow> worker" where
  "gracefulShutdown reason w =
     (if gracefulShutdownFired w then w
      else w\<lparr>gracefulShutdownFired := True,
             shutdown_reason := (if shutdown_reason w = None then Some reason else shutdown_reason w),
             in_flight := map (abort_flight reason) (in_flight w),
             running := False\<rparr>)"

text \<open>The SIGTERM handler aborts only the shared signal.\<close>

definition signal_shutdown :: "worker \<Rightarrow> worker" where
  "signal_shutdown w =
     w\<lparr>running := False,
       shutdown_reason := (if shutdown_reason w = None then Some ''shutdown'' else shutdown_reason w)\<rparr>"

text \<open>\<open>rss\<close> is the reading in bytes, None when it throws.\<close>

definition checkMemoryLimit :: "int \<Rightarrow> int option \<Rightarrow> worker \<Rightarrow> bool \<times> worker" where
  "checkMemoryLimit maxRssMb rss w =
     (if maxRssMb \<le> 0 \<or> \<not> running w \<or> gracefulShutdownFired w then (False, w)
      else case rss of
        None \<Rightarrow> (False, w)
      | Some bytes \<Rightarrow>
          (let rssMb = (bytes + 524288) div 1048576;
               w1 = w\<lparr>peakRssMb := max (peakRssMb w) rssMb\<rparr>;
               softLine = maxRssMb * 4 div 5
           in if rssMb < maxRssMb
              then if rssMb \<ge> softLine \<and> \<not> softWarnFired w then (True, w1\<lparr>softWarnFired := True\<rparr>)
                   else if rssMb < softLine then (False, w1\<lparr>softWarnFired := False\<rparr>)
                   else (False, w1)
              else (False, gracefulShutdown ''watchdog'' (w1\<lparr>rssWatchdogTriggered := True\<rparr>))))"

section \<open>Runs\<close>

definition launchJob :: "minion_job \<Rightarrow> string \<Rightarrow> worker \<Rightarrow> worker" where
  "launchJob job tok w =
     w\<lparr>in_flight := flights_set \<lparr>f_job = j_id job, f_token = tok, f_abort = None\<rparr> (in_flight w),
       runs := runs w @ [(j_id job, tok)]\<rparr>"

text \<open>The abort of one run, by the renewal tick or the timeout timer; it reaches the controller of
  that run, which is the entry of the map only if the entry is still its own.\<close>

definition abort_run :: "int \<Rightarrow> string \<Rightarrow> string \<Rightarrow> worker \<Rightarrow> worker" where
  "abort_run i tok reason w =
     w\<lparr>in_flight := map (\<lambda>f. if f_job f = i \<and> f_token f = tok then abort_flight reason f else f) (in_flight w)\<rparr>"

text \<open>The \<open>finally\<close> of a run: it deletes by job id.\<close>

definition run_finally :: "int \<Rightarrow> string \<Rightarrow> int \<Rightarrow> int option \<Rightarrow> worker \<Rightarrow> worker" where
  "run_finally i tok maxRssMb rss w =
     snd (checkMemoryLimit maxRssMb rss
       (w\<lparr>in_flight := flights_delete i (in_flight w),
          runs := removeAll (i, tok) (runs w),
          jobsCompleted := jobsCompleted w + 1\<rparr>))"

text \<open>The grace timer, thirty seconds after an abort with its reason.\<close>

definition grace_evict :: "int \<Rightarrow> int \<Rightarrow> string \<Rightarrow> string \<Rightarrow> worker \<times> db \<Rightarrow> worker \<times> db" where
  "grace_evict now i tok reason wd =
     (case wd of (w, d) \<Rightarrow>
        if find_flight i (in_flight w) = None then (w, d)
        else (w\<lparr>in_flight := flights_delete i (in_flight w)\<rparr>,
              if reason \<in> set INFRASTRUCTURE_ABORT_REASONS then d
              else snd (failJob now i tok ''handler ignored abort signal (force-evicted)'' FDead None d)))"

section \<open>The poll loop\<close>

definition handleQuietHoursDefer :: "int \<Rightarrow> minion_job \<Rightarrow> string \<Rightarrow> quiet_verdict \<Rightarrow> bool \<Rightarrow> db \<Rightarrow> db" where
  "handleQuietHoursDefer now job tok verdict cancel_throws d =
     (if verdict = Skip
      then (let d1 = quiet_release now (j_id job) tok d
            in if cancel_throws then quiet_force_cancel now (j_id job) d1
               else snd (cancelJob now (j_id job) d1))
      else quiet_defer now (j_id job) tok d)"

record loop_opts =
  queue_name :: string
  concurrency :: nat
  lockDuration :: int
  handler_names :: "string list"

text \<open>How the two statements of an iteration can go: they answer, the connection is lost before
  the statement took effect, it is lost after it committed (the answer never arrives), or another
  error is thrown.\<close>

datatype db_call = Answers | ConnLost | CommittedButLost | Fails

definition after_call :: "db_call \<Rightarrow> (db \<Rightarrow> 'a \<times> db) \<Rightarrow> db \<Rightarrow> db" where
  "after_call c f d = (if c = Answers \<or> c = CommittedButLost then snd (f d) else d)"

text \<open>One iteration of \<open>while (this.running)\<close>; waiting and reconnecting are not modelled.  A failing
  promotion is logged; a lost connection in the claim ends the iteration; any other error of the
  claim ends the loop (\<open>Inl\<close>).\<close>

definition poll ::
  "(string \<Rightarrow> int \<Rightarrow> int option) \<Rightarrow> loop_opts \<Rightarrow> int \<Rightarrow> string \<Rightarrow> db_call \<Rightarrow> db_call \<Rightarrow> bool \<Rightarrow> worker \<times> db
   \<Rightarrow> db + worker \<times> db" where
  "poll tz_hour opts now tok promotion claiming cancel_throws wd =
     (case wd of (w, d) \<Rightarrow>
        if \<not> running w then Inr (w, d)
        else
          (let d1 = after_call promotion (promoteDelayed now) d
           in if length (in_flight w) < concurrency opts
              then (let go = claim now tok (lockDuration opts) (queue_name opts) (handler_names opts)
                    in case claiming of
                         Fails \<Rightarrow> Inl d1
                       | ConnLost \<Rightarrow> Inr (w, d1)
                       | CommittedButLost \<Rightarrow> Inr (w, snd (go d1))
                       | Answers \<Rightarrow>
                           (case go d1 of
                              (None, d2) \<Rightarrow> Inr (w, d2)
                            | (Some job, d2) \<Rightarrow>
                                (let verdict = evaluateQuietHours tz_hour (j_quiet_hours job) now
                                 in if verdict \<noteq> Allow
                                    then Inr (w, handleQuietHoursDefer now job tok verdict cancel_throws d2)
                                    else Inr (launchJob job tok w, d2))))
              else Inr (w, d1)))"

text \<open>The detection timer: stalls first, then the two deadlines; each sweep has its own catch.\<close>

definition detection_tick ::
  "int \<Rightarrow> int \<Rightarrow> int \<Rightarrow> db_call \<Rightarrow> db_call \<Rightarrow> db_call \<Rightarrow> loop_opts \<Rightarrow> db \<Rightarrow> db" where
  "detection_tick t1 t2 t3 c1 c2 c3 opts d =
     after_call c3 (handleWallClockTimeouts t3 (lockDuration opts))
       (after_call c2 (handleTimeouts t2) (after_call c1 (handleStalled t1) d))"

section \<open>The self-health check\<close>

datatype unhealthy = DbDead int | Stalled nat int

record health =
  consecutiveDbFailures :: int
  lastKnownCompleted :: nat
  lastCompletionTime :: int
  stallWarningSince :: "int option"
  healthExited :: bool

record health_opts =
  dbFailExitAfter :: int
  stallWarnAfterMs :: int
  stallExitAfterMs :: int
  isSupervisedChild :: bool

text \<open>\<open>waiting\<close> is the count of claimable waiting jobs, None when the query throws; \<open>probe_ok\<close> the
  outcome of the database probe.  A time stamp of zero would read as no warning, like in the
  code; clocks are positive.\<close>

definition runHealthCheck ::
  "health_opts \<Rightarrow> bool \<Rightarrow> nat option \<Rightarrow> int \<Rightarrow> worker \<Rightarrow> health \<Rightarrow> unhealthy option \<times> health" where
  "runHealthCheck opts probe_ok waiting now w h =
     (if \<not> running w \<or> healthExited h then (None, h)
      else if \<not> probe_ok
      then (let n = consecutiveDbFailures h + 1; h1 = h\<lparr>consecutiveDbFailures := n\<rparr>
            in if n \<ge> dbFailExitAfter opts then (Some (DbDead n), h1\<lparr>healthExited := True\<rparr>)
               else (None, h1))
      else
        (let h1 = h\<lparr>consecutiveDbFailures := 0\<rparr>
         in if isSupervisedChild opts then (None, h1)
            else
              (let h2 = (if jobsCompleted w > lastKnownCompleted h1
                         then h1\<lparr>lastKnownCompleted := jobsCompleted w, lastCompletionTime := now,
                                 stallWarningSince := None\<rparr>
                         else h1);
                   idleMs = now - lastCompletionTime h2
               in if idleMs > stallWarnAfterMs opts \<and> in_flight w = []
                  then (case waiting of
                          None \<Rightarrow> (None, h2)
                        | Some n \<Rightarrow>
                            if n > 0
                            then if stallWarningSince h2 = None then (None, h2\<lparr>stallWarningSince := Some now\<rparr>)
                                 else if idleMs > stallExitAfterMs opts
                                 then (Some (Stalled n ((idleMs + 30000) div 60000)), h2\<lparr>healthExited := True\<rparr>)
                                 else (None, h2)
                            else (None, h2\<lparr>stallWarningSince := None\<rparr>))
                  else (None, h2\<lparr>stallWarningSince := None\<rparr>))))"


text \<open>The count the stall check reads: the waiting jobs of the worker's queue it has a handler for.\<close>

definition claimable_waiting :: "loop_opts \<Rightarrow> db \<Rightarrow> nat" where
  "claimable_waiting opts d =
     (if handler_names opts = [] then 0
      else length (filter (\<lambda>j. j_status j = Waiting \<and> j_queue j = queue_name opts
                               \<and> j_name j \<in> set (handler_names opts)) (jobs d)))"

text \<open>One tick of the health timer: what it observes.  The timer fires until it has emitted.\<close>

record health_tick =
  t_probe :: bool
  t_waiting :: "nat option"
  t_now :: int
  t_worker :: worker

definition new_health :: "int \<Rightarrow> worker \<Rightarrow> health" where
  "new_health now w = \<lparr>consecutiveDbFailures = 0, lastKnownCompleted = jobsCompleted w,
     lastCompletionTime = now, stallWarningSince = None, healthExited = False\<rparr>"

definition health_step :: "health_opts \<Rightarrow> health_tick \<Rightarrow> health \<Rightarrow> unhealthy option \<times> health" where
  "health_step opts t h = runHealthCheck opts (t_probe t) (t_waiting t) (t_now t) (t_worker t) h"

fun health_run :: "health_opts \<Rightarrow> health_tick list \<Rightarrow> health \<Rightarrow> unhealthy list \<times> health" where
  "health_run opts [] h = ([], h)"
| "health_run opts (t # ts) h =
     (case health_step opts t h of (e, h1) \<Rightarrow>
        (case health_run opts ts h1 of (es, h2) \<Rightarrow> (case e of None \<Rightarrow> (es, h2) | Some x \<Rightarrow> (x # es, h2))))"

section \<open>Facts about the health check\<close>

lemma health_exited: "healthExited h \<Longrightarrow> health_step opts t h = (None, h)"
  by (simp add: health_step_def runHealthCheck_def)

lemma health_run_exited: "healthExited h \<Longrightarrow> health_run opts ts h = ([], h)"
  by (induction ts) (simp_all add: health_exited)

lemma health_emits_once: "health_step opts t h = (Some e, h') \<Longrightarrow> healthExited h'"
  by (auto simp: health_step_def runHealthCheck_def Let_def split: if_splits option.splits)

lemma health_run_short: "length (fst (health_run opts ts h)) \<le> 1"
proof (induction ts arbitrary: h)
  case Nil
  then show ?case by simp
next
  case (Cons t ts)
  obtain e h1 where s: "health_step opts t h = (e, h1)"
    by fastforce
  show ?case
  proof (cases e)
    case None
    then show ?thesis using Cons.IH [of h1] s by (simp split: prod.splits)
  next
    case (Some x)
    then have "healthExited h1" using s health_emits_once by blast
    then show ?thesis using s Some by (simp add: health_run_exited)
  qed
qed

lemma health_probe_failed:
  assumes "running (t_worker t)" "\<not> healthExited h" "\<not> t_probe t"
  shows "health_step opts t h =
    (if consecutiveDbFailures h + 1 \<ge> dbFailExitAfter opts
     then (Some (DbDead (consecutiveDbFailures h + 1)),
           h\<lparr>consecutiveDbFailures := consecutiveDbFailures h + 1, healthExited := True\<rparr>)
     else (None, h\<lparr>consecutiveDbFailures := consecutiveDbFailures h + 1\<rparr>))"
  using assms by (simp add: health_step_def runHealthCheck_def Let_def)

lemma health_probe_succeeded:
  assumes "running (t_worker t)" "\<not> healthExited h" "t_probe t" "isSupervisedChild opts"
  shows "health_step opts t h = (None, h\<lparr>consecutiveDbFailures := 0\<rparr>)"
  using assms by (simp add: health_step_def runHealthCheck_def Let_def)

lemma sublist_replicate_True:
  "0 < k \<Longrightarrow> sublist (replicate k False) (True # ps) \<longleftrightarrow> sublist (replicate k False) ps"
  by (cases k) (simp_all add: sublist_Cons_right)

lemma prefix_replicate_mono: "m \<le> n \<Longrightarrow> prefix (replicate n a) ps \<Longrightarrow> prefix (replicate m a) ps"
  by (metis le_add_diff_inverse prefix_order.trans prefixI replicate_add)

lemma health_dead_from:
  assumes "isSupervisedChild opts" "dbFailExitAfter opts = int k" "0 < k"
    and "\<forall>t \<in> set ts. running (t_worker t)"
    and "\<not> healthExited h" "consecutiveDbFailures h = int m" "m < k"
  shows "fst (health_run opts ts h) \<noteq> [] \<longleftrightarrow>
     prefix (replicate (k - m) False) (map t_probe ts) \<or> sublist (replicate k False) (map t_probe ts)"
  using assms(4-7)
proof (induction ts arbitrary: h m)
  case Nil
  then show ?case using assms(3) by simp
next
  case (Cons t ts)
  have r: "running (t_worker t)" "\<forall>t \<in> set ts. running (t_worker t)" using Cons.prems(1) by simp_all
  show ?case
  proof (cases "t_probe t")
    case True
    have "fst (health_run opts (t # ts) h) = fst (health_run opts ts (h\<lparr>consecutiveDbFailures := 0\<rparr>))"
      using health_probe_succeeded [OF r(1) Cons.prems(2) True assms(1)] by (simp split: prod.splits)
    moreover have "fst (health_run opts ts (h\<lparr>consecutiveDbFailures := 0\<rparr>)) \<noteq> [] \<longleftrightarrow>
        prefix (replicate k False) (map t_probe ts) \<or> sublist (replicate k False) (map t_probe ts)"
      using Cons.IH [OF r(2), of "h\<lparr>consecutiveDbFailures := 0\<rparr>" 0] Cons.prems(2) assms(3) by simp
    moreover have "\<not> prefix (replicate (k - m) False) (True # map t_probe ts)"
      using Cons.prems(4) by (cases "k - m") simp_all
    ultimately show ?thesis
      using True assms(3)
      by (auto simp: sublist_replicate_True simp del: health_run.simps dest: prefix_imp_sublist)
  next
    case False
    note s = health_probe_failed [OF r(1) Cons.prems(2) False, of opts]
    show ?thesis
    proof (cases "k = Suc m")
      case True
      then have "fst (health_run opts (t # ts) h) \<noteq> []"
        using s assms(2) Cons.prems(3) by (simp add: health_run_exited)
      then show ?thesis using True False by simp
    next
      case k: False
      let ?h = "h\<lparr>consecutiveDbFailures := int (Suc m)\<rparr>"
      have lt: "Suc m < k" using k Cons.prems(4) by simp
      then obtain j where j: "k - m = Suc j" "k - Suc m = j" by (cases "k - m") auto
      have "health_step opts t h = (None, ?h)"
        using s assms(2) Cons.prems(3) lt by simp
      then have e: "fst (health_run opts (t # ts) h) = fst (health_run opts ts ?h)"
        by (simp split: prod.splits)
      have ih: "fst (health_run opts ts ?h) \<noteq> [] \<longleftrightarrow>
          prefix (replicate j False) (map t_probe ts) \<or> sublist (replicate k False) (map t_probe ts)"
        using Cons.IH [OF r(2), of ?h "Suc m"] Cons.prems(2) lt j(2) by simp
      have "prefix (replicate (k - 1) False) ps \<Longrightarrow> prefix (replicate j False) ps" for ps
        using j(2) by (intro prefix_replicate_mono [of j "k - 1"]) simp_all
      then show ?thesis
        using e ih j(1) False assms(3)
        by (cases k) (auto simp: sublist_Cons_right)
    qed
  qed
qed


text \<open>What the stall warning remembers: a tick at which the worker was idle with claimable work.\<close>

definition idle_tick :: "health_tick \<Rightarrow> bool" where
  "idle_tick t \<longleftrightarrow> t_probe t \<and> in_flight (t_worker t) = [] \<and> (\<exists>n > 0. t_waiting t = Some n)"

definition warned_in :: "health_opts \<Rightarrow> health_tick list \<Rightarrow> health \<Rightarrow> bool" where
  "warned_in opts ts h \<longleftrightarrow> (\<forall>s. stallWarningSince h = Some s \<longrightarrow>
     (\<exists>t \<in> set ts. idle_tick t \<and> t_now t = s \<and> s - lastCompletionTime h > stallWarnAfterMs opts))"

lemma warned_in_None: "stallWarningSince h = None \<Longrightarrow> warned_in opts ts h"
  by (simp add: warned_in_def)

lemma warned_in_same:
  "warned_in opts ts h \<Longrightarrow> stallWarningSince h' = stallWarningSince h \<Longrightarrow>
   lastCompletionTime h' = lastCompletionTime h \<Longrightarrow> warned_in opts (ts @ [t]) h'"
  by (auto simp: warned_in_def)

text \<open>The warning part of one tick: it is dropped, kept as it was, or taken at an idle tick.\<close>

lemma health_step_warning:
  assumes "health_step opts t h = (e, h')"
  obtains "stallWarningSince h' = None"
  | "stallWarningSince h' = stallWarningSince h" "lastCompletionTime h' = lastCompletionTime h"
  | "stallWarningSince h' = Some (t_now t)" "idle_tick t"
    "t_now t - lastCompletionTime h' > stallWarnAfterMs opts"
proof -
  have "stallWarningSince h' = None \<or>
      stallWarningSince h' = stallWarningSince h \<and> lastCompletionTime h' = lastCompletionTime h \<or>
      stallWarningSince h' = Some (t_now t) \<and> idle_tick t \<and>
        t_now t - lastCompletionTime h' > stallWarnAfterMs opts"
    using assms
    by (auto simp: health_step_def runHealthCheck_def Let_def idle_tick_def
        split: if_splits option.splits)
  then show ?thesis using that by blast
qed

lemma warned_in_step:
  assumes "health_step opts t h = (e, h')" "warned_in opts ts h"
  shows "warned_in opts (ts @ [t]) h'"
  using assms(1)
proof (cases rule: health_step_warning)
  case 1
  then show ?thesis by (rule warned_in_None)
next
  case 2
  then show ?thesis using assms(2) warned_in_same by blast
next
  case 3
  then show ?thesis by (auto simp: warned_in_def)
qed

lemma warned_in_run:
  "warned_in opts us h \<Longrightarrow> warned_in opts (us @ ts) (snd (health_run opts ts h))"
proof (induction ts arbitrary: us h)
  case Nil
  then show ?case by simp
next
  case (Cons t ts)
  obtain e h1 where s: "health_step opts t h = (e, h1)"
    by fastforce
  have "warned_in opts ((us @ [t]) @ ts) (snd (health_run opts ts h1))"
    using warned_in_step [OF s Cons.prems] by (rule Cons.IH)
  then show ?case using s by (cases "health_run opts ts h1") (auto split: option.splits)
qed

lemma stalled_tick:
  assumes "health_step opts t h = (Some (Stalled n mins), h')"
  shows "idle_tick t" "t_waiting t = Some n" "\<not> isSupervisedChild opts"
    "\<exists>s. stallWarningSince h = Some s" "t_now t - lastCompletionTime h > stallExitAfterMs opts"
    "jobsCompleted (t_worker t) \<le> lastKnownCompleted h"
  using assms
  by (auto simp: health_step_def runHealthCheck_def Let_def idle_tick_def
      split: if_splits option.splits)


section \<open>The worker as a transition system\<close>

text \<open>
  What can happen between two moments of one worker process: an iteration of the poll loop, the
  abort of a run, its end, its grace timer, the RSS timer, a signal, \<open>stop\<close>, the detection timer,
  and any step of the queue (by this worker's handlers or by other processes).
\<close>

inductive loop_step ::
  "(string \<Rightarrow> int \<Rightarrow> int option) \<Rightarrow> loop_opts \<Rightarrow> int \<Rightarrow> worker \<times> db \<Rightarrow> worker \<times> db \<Rightarrow> bool"
  for tz_hour opts cap where
  l_poll: "poll tz_hour opts now tok pc cc thr (w, d) = Inr wd \<Longrightarrow> loop_step tz_hour opts cap (w, d) wd"
| l_abort: "loop_step tz_hour opts cap (w, d) (abort_run i tok reason w, d)"
| l_finally: "loop_step tz_hour opts cap (w, d) (run_finally i tok cap rss w, d)"
| l_evict: "loop_step tz_hour opts cap (w, d) (grace_evict now i tok reason (w, d))"
| l_rss: "loop_step tz_hour opts cap (w, d) (snd (checkMemoryLimit cap rss w), d)"
| l_signal: "loop_step tz_hour opts cap (w, d) (signal_shutdown w, d)"
| l_stop: "loop_step tz_hour opts cap (w, d) (w\<lparr>running := False\<rparr>, d)"
| l_detect: "loop_step tz_hour opts cap (w, d) (w, detection_tick t1 t2 t3 c1 c2 c3 opts d)"
| l_queue: "system_step d d' \<Longrightarrow> loop_step tz_hour opts cap (w, d) (w, d')"

definition flights_ok :: "nat \<Rightarrow> worker \<Rightarrow> bool" where
  "flights_ok n w \<longleftrightarrow> length (in_flight w) \<le> n \<and> distinct (map f_job (in_flight w))
     \<and> (\<forall>f \<in> set (in_flight w). (f_job f, f_token f) \<in> set (runs w))"

definition drain_ok :: "int \<Rightarrow> worker \<Rightarrow> bool" where
  "drain_ok cap w \<longleftrightarrow>
     (gracefulShutdownFired w \<longrightarrow> \<not> running w \<and> (\<forall>f \<in> set (in_flight w). f_abort f \<noteq> None))
     \<and> (rssWatchdogTriggered w \<longrightarrow> gracefulShutdownFired w \<and> 0 < cap \<and> cap \<le> peakRssMb w)"

definition worker_ok :: "loop_opts \<Rightarrow> int \<Rightarrow> worker \<times> db \<Rightarrow> bool" where
  "worker_ok opts cap wd \<longleftrightarrow> flights_ok (concurrency opts) (fst wd) \<and> drain_ok cap (fst wd)"

subsection \<open>The map of runs in flight\<close>

lemma abort_flight_key [simp]: "f_job (abort_flight r f) = f_job f" "f_token (abort_flight r f) = f_token f"
  by (simp_all add: abort_flight_def)

lemma abort_flight_aborted [simp]: "\<exists>r'. f_abort (abort_flight r f) = Some r'"
  by (auto simp: abort_flight_def)

lemma abort_flight_idem: "f_abort f \<noteq> None \<Longrightarrow> abort_flight r f = f"
  by (simp add: abort_flight_def)

lemma set_flights_set: "set (flights_set f fs) \<subseteq> insert f (set fs)"
  by (auto simp: flights_set_def)

lemma keys_flights_set:
  "map f_job (flights_set f fs) =
     (if list_ex (\<lambda>g. f_job g = f_job f) fs then map f_job fs else map f_job fs @ [f_job f])"
  by (simp add: flights_set_def)

lemma length_flights_set: "length (flights_set f fs) \<le> Suc (length fs)"
  by (simp add: flights_set_def)

lemma length_flights_delete: "length (flights_delete i fs) \<le> length fs"
  by (simp add: flights_delete_def)

lemma distinct_flights_set:
  "distinct (map f_job fs) \<Longrightarrow> distinct (map f_job (flights_set f fs))"
  unfolding keys_flights_set by (auto simp: list_ex_iff)

lemma distinct_flights_delete:
  "distinct (map f_job fs) \<Longrightarrow> distinct (map f_job (flights_delete i fs))"
  unfolding flights_delete_def by (rule distinct_map_filter)

subsection \<open>What each operation does to a worker\<close>

lemma gracefulShutdown_ok:
  "flights_ok n w \<Longrightarrow> flights_ok n (gracefulShutdown r w)"
  by (simp add: flights_ok_def gracefulShutdown_def comp_def)

lemma gracefulShutdown_drains:
  "drain_ok cap w \<Longrightarrow> rssWatchdogTriggered (gracefulShutdown r w) = rssWatchdogTriggered w
     \<and> gracefulShutdownFired (gracefulShutdown r w) \<and> \<not> running (gracefulShutdown r w)
     \<and> (\<forall>f \<in> set (in_flight (gracefulShutdown r w)). f_abort f \<noteq> None)
     \<and> peakRssMb (gracefulShutdown r w) = peakRssMb w"
  by (auto simp: drain_ok_def gracefulShutdown_def abort_flight_def)

text \<open>The part of a worker that its flights and its drain depend on.\<close>

definition same_flights :: "worker \<Rightarrow> worker \<Rightarrow> bool" where
  "same_flights w w' \<longleftrightarrow> in_flight w' = in_flight w \<and> runs w' = runs w \<and> running w' = running w
     \<and> gracefulShutdownFired w' = gracefulShutdownFired w
     \<and> rssWatchdogTriggered w' = rssWatchdogTriggered w \<and> peakRssMb w \<le> peakRssMb w'"

lemma same_flights_ok:
  "same_flights w w' \<Longrightarrow> flights_ok n w \<Longrightarrow> flights_ok n w'"
  "same_flights w w' \<Longrightarrow> drain_ok cap w \<Longrightarrow> drain_ok cap w'"
  by (auto simp: same_flights_def flights_ok_def drain_ok_def)

text \<open>One check of the memory limit either leaves the flights alone or drains the worker.\<close>

lemma checkMemoryLimit_cases:
  obtains "same_flights w (snd (checkMemoryLimit cap rss w))"
  | w1 where "snd (checkMemoryLimit cap rss w) = gracefulShutdown ''watchdog'' w1"
      "w1 = w\<lparr>peakRssMb := peakRssMb w1, rssWatchdogTriggered := True\<rparr>"
      "0 < cap" "cap \<le> peakRssMb w1" "running w" "\<not> gracefulShutdownFired w"
proof (cases "cap \<le> 0 \<or> \<not> running w \<or> gracefulShutdownFired w \<or> rss = None")
  case True
  then have "same_flights w (snd (checkMemoryLimit cap rss w))"
    by (auto simp: checkMemoryLimit_def same_flights_def)
  then show ?thesis by (rule that(1))
next
  case False
  then obtain b where b: "rss = Some b" "0 < cap" "running w" "\<not> gracefulShutdownFired w"
    by auto
  define mb where "mb = (b + 524288) div 1048576"
  show ?thesis
  proof (cases "mb < cap")
    case True
    then have "same_flights w (snd (checkMemoryLimit cap rss w))"
      using b by (simp add: checkMemoryLimit_def same_flights_def Let_def flip: mb_def)
    then show ?thesis by (rule that(1))
  next
    case False
    let ?w = "w\<lparr>peakRssMb := max (peakRssMb w) mb, rssWatchdogTriggered := True\<rparr>"
    have "snd (checkMemoryLimit cap rss w) = gracefulShutdown ''watchdog'' ?w"
      using b False by (simp add: checkMemoryLimit_def Let_def flip: mb_def)
    then show ?thesis by (rule that(2)) (use b False in simp_all)
  qed
qed

lemma checkMemoryLimit_flights:
  assumes "flights_ok n w"
  shows "flights_ok n (snd (checkMemoryLimit cap rss w))"
proof (cases rule: checkMemoryLimit_cases [of w cap rss])
  case 1
  then show ?thesis using assms by (rule same_flights_ok)
next
  case (2 w1)
  have "flights_ok n (w\<lparr>peakRssMb := peakRssMb w1, rssWatchdogTriggered := True\<rparr>)"
    using assms by (simp add: flights_ok_def)
  then have "flights_ok n w1" using 2(2) by metis
  then show ?thesis using 2(1) gracefulShutdown_ok by simp
qed

lemma checkMemoryLimit_drain:
  assumes "drain_ok cap w"
  shows "drain_ok cap (snd (checkMemoryLimit cap rss w))"
proof (cases rule: checkMemoryLimit_cases [of w cap rss])
  case 1
  then show ?thesis using assms by (rule same_flights_ok)
next
  case (2 w1)
  obtain p where p: "w1 = w\<lparr>peakRssMb := p, rssWatchdogTriggered := True\<rparr>" using 2(2) by blast
  show ?thesis
    using p 2 by (simp add: drain_ok_def gracefulShutdown_def)
qed

lemma launchJob_flights:
  assumes "flights_ok n w" "length (in_flight w) < n"
  shows "flights_ok n (launchJob job tok w)"
proof -
  let ?f = "\<lparr>f_job = j_id job, f_token = tok, f_abort = None\<rparr>"
  have "length (flights_set ?f (in_flight w)) \<le> n"
    using assms(2) length_flights_set [of ?f "in_flight w"] by simp
  moreover have "distinct (map f_job (flights_set ?f (in_flight w)))"
    using assms(1) by (simp add: flights_ok_def distinct_flights_set)
  ultimately show ?thesis
    using assms(1) set_flights_set [of ?f "in_flight w"]
    by (auto simp: flights_ok_def launchJob_def)
qed

lemma run_finally_flights: "flights_ok n w \<Longrightarrow> flights_ok n (run_finally i tok cap rss w)"
  unfolding run_finally_def
  by (rule checkMemoryLimit_flights)
    (auto simp: flights_ok_def distinct_flights_delete intro: order_trans [OF length_flights_delete],
     auto simp: flights_delete_def)

lemma run_finally_drain: "drain_ok cap w \<Longrightarrow> drain_ok cap (run_finally i tok cap rss w)"
  unfolding run_finally_def
  by (rule checkMemoryLimit_drain) (auto simp: drain_ok_def flights_delete_def)

lemma poll_worker:
  assumes "poll tz_hour opts now tok pc cc thr (w, d) = Inr wd"
  obtains "fst wd = w"
  | job where "fst wd = launchJob job tok w" "running w" "length (in_flight w) < concurrency opts"
proof -
  have "fst wd = w \<or>
     (\<exists>job. fst wd = launchJob job tok w \<and> running w \<and> length (in_flight w) < concurrency opts)"
    using assms by (auto simp: poll_def Let_def split: option.splits prod.splits if_splits db_call.splits)
  then show ?thesis using that by blast
qed

lemma grace_evict_worker:
  "fst (grace_evict now i tok r (w, d)) = w \<or>
   fst (grace_evict now i tok r (w, d)) = w\<lparr>in_flight := flights_delete i (in_flight w)\<rparr>"
  by (simp add: grace_evict_def)

lemma evicted_ok:
  "flights_ok n w \<Longrightarrow> flights_ok n (w\<lparr>in_flight := flights_delete i (in_flight w)\<rparr>)"
  "drain_ok cap w \<Longrightarrow> drain_ok cap (w\<lparr>in_flight := flights_delete i (in_flight w)\<rparr>)"
  using distinct_flights_delete [of "in_flight w" i] order_trans [OF length_flights_delete]
  by (auto simp: flights_ok_def drain_ok_def flights_delete_def)

lemma abort_run_keys: "map f_job (in_flight (abort_run i tok r w)) = map f_job (in_flight w)"
  by (simp add: abort_run_def)

lemma abort_run_ok:
  "flights_ok n w \<Longrightarrow> flights_ok n (abort_run i tok r w)"
  "drain_ok cap w \<Longrightarrow> drain_ok cap (abort_run i tok r w)"
  unfolding flights_ok_def drain_ok_def abort_run_keys by (auto simp: abort_run_def)

lemma launchJob_drain: "running w \<Longrightarrow> drain_ok cap w \<Longrightarrow> drain_ok cap (launchJob job tok w)"
  by (auto simp: drain_ok_def launchJob_def)


lemma loop_step_ok:
  assumes "loop_step tz_hour opts cap s t" "worker_ok opts cap s"
  shows "worker_ok opts cap t"
  using assms
proof cases
  case (l_poll now tok pc cc thr w d)
  then show ?thesis using assms(2)
    by (cases rule: poll_worker [OF l_poll(2)])
      (simp_all add: worker_ok_def launchJob_flights launchJob_drain)
next
  case (l_abort w d i tok reason)
  then show ?thesis using assms(2) by (simp add: worker_ok_def abort_run_ok)
next
  case (l_finally w d i tok rss)
  then show ?thesis using assms(2)
    by (simp add: worker_ok_def run_finally_flights run_finally_drain)
next
  case (l_evict w d now i tok reason)
  then show ?thesis using assms(2) grace_evict_worker [of now i tok reason w d]
    by (auto simp: worker_ok_def evicted_ok)
next
  case (l_rss w d rss)
  then show ?thesis using assms(2)
    by (simp add: worker_ok_def checkMemoryLimit_flights checkMemoryLimit_drain)
next
  case (l_signal w d)
  then show ?thesis using assms(2)
    by (simp add: worker_ok_def flights_ok_def drain_ok_def signal_shutdown_def)
next
  case (l_stop w d)
  then show ?thesis using assms(2)
    by (simp add: worker_ok_def flights_ok_def drain_ok_def)
qed (simp_all add: worker_ok_def)

definition fresh_worker :: "worker \<times> db \<Rightarrow> bool" where
  "fresh_worker wd \<longleftrightarrow> fst wd = new_worker"

interpretation worker: invariant_system fresh_worker "loop_step tz_hour opts cap" "worker_ok opts cap"
  for tz_hour opts cap
proof unfold_locales
  show "worker_ok opts cap s" if "fresh_worker s" for s
    using that
    by (simp add: fresh_worker_def worker_ok_def flights_ok_def drain_ok_def new_worker_def)
qed (rule loop_step_ok)

subsection \<open>After the drain\<close>

definition drained :: "flight set \<Rightarrow> worker \<times> db \<Rightarrow> bool" where
  "drained F wd \<longleftrightarrow> gracefulShutdownFired (fst wd) \<and> \<not> running (fst wd)
     \<and> set (in_flight (fst wd)) \<subseteq> F \<and> (\<forall>f \<in> F. f_abort f \<noteq> None)"

lemma abort_run_drained:
  assumes "\<forall>f \<in> set (in_flight w). f_abort f \<noteq> None"
  shows "in_flight (abort_run i tok r w) = in_flight w"
  using assms abort_flight_idem by (auto simp: abort_run_def intro!: map_idI)

lemma drained_step:
  assumes "loop_step tz_hour opts cap s t" "drained F s"
  shows "drained F t"
  using assms
proof cases
  case (l_poll now tok pc cc thr w d)
  then have "t = s" using assms(2) by (simp add: poll_def drained_def)
  then show ?thesis using assms(2) by simp
next
  case (l_abort w d i tok reason)
  then have "in_flight (fst t) = in_flight (fst s)"
    using assms(2) abort_run_drained [of w i tok reason] by (auto simp: drained_def)
  then show ?thesis using l_abort assms(2) by (simp add: drained_def abort_run_def)
next
  case (l_finally w d i tok rss)
  then show ?thesis using assms(2)
    by (auto simp: drained_def run_finally_def checkMemoryLimit_def flights_delete_def)
next
  case (l_evict w d now i tok reason)
  then show ?thesis using assms(2)
    by (auto simp: drained_def grace_evict_def flights_delete_def)
next
  case (l_rss w d rss)
  then show ?thesis using assms(2) by (simp add: drained_def checkMemoryLimit_def)
next
  case (l_signal w d)
  then show ?thesis using assms(2) by (simp add: drained_def signal_shutdown_def)
next
  case (l_stop w d)
  then show ?thesis using assms(2) by (simp add: drained_def)
qed (simp_all add: drained_def)

interpretation drain: invariant_system "drained F" "loop_step tz_hour opts cap" "drained F"
  for F tz_hour opts cap
  by (unfold_locales, assumption) (rule drained_step)


section \<open>The guarantees of the worker process\<close>

text \<open>Two states to evaluate on: a worker with one slot that polls a queue of one waiting job,
  and the same worker after that job lost its lock, was evicted, and was claimed again.\<close>

definition one_slot :: loop_opts where
  "one_slot = \<lparr>queue_name = ''default'', concurrency = 1, lockDuration = 30000, handler_names = [''sync'']\<rparr>"

definition polled :: "worker \<times> db" where
  "polled = projr (poll (\<lambda>_ _. None) one_slot 5 ''t1'' Answers Answers False (new_worker, one_job))"

definition evicted :: "worker \<times> db" where
  "evicted = (case polled of (w, d) \<Rightarrow> grace_evict 30030 1 ''t1'' ''lock-lost'' (abort_run 1 ''t1'' ''lock-lost'' w, d))"

definition repolled :: "worker \<times> db" where
  "repolled = (case evicted of (w, d) \<Rightarrow>
     projr (poll (\<lambda>_ _. None) one_slot 31000 ''t2'' Answers Answers False
       (w, detection_tick 30900 30901 30902 Answers Answers Answers one_slot d)))"

lemma poll_answers:
  "poll tz_hour opts now tok Answers Answers thr wd = Inr (projr (poll tz_hour opts now tok Answers Answers thr wd))"
proof -
  have "poll tz_hour opts now tok Answers Answers thr wd \<noteq> Inl d" for d
    by (auto simp: poll_def Let_def split: option.splits prod.splits if_splits)
  then show ?thesis by (metis sum.collapse(2) sum.disc(2) sum.exhaust)
qed

lemma polled_steps: "(loop_step (\<lambda>_ _. None) one_slot cap)\<^sup>*\<^sup>* (new_worker, one_job) polled"
  unfolding polled_def by (rule r_into_rtranclp, rule l_poll, rule poll_answers)

lemma polled_pair: "(loop_step (\<lambda>_ _. None) one_slot cap)\<^sup>*\<^sup>* (new_worker, one_job) (fst polled, snd polled)"
  by (simp add: polled_steps)

lemma evicted_steps: "(loop_step (\<lambda>_ _. None) one_slot cap)\<^sup>*\<^sup>* (new_worker, one_job) evicted"
proof -
  obtain w d where p: "polled = (w, d)" by fastforce
  have "loop_step (\<lambda>_ _. None) one_slot cap (w, d) (abort_run 1 ''t1'' ''lock-lost'' w, d)"
    by (rule l_abort)
  moreover have "loop_step (\<lambda>_ _. None) one_slot cap (abort_run 1 ''t1'' ''lock-lost'' w, d) evicted"
    unfolding evicted_def p by (simp add: l_evict)
  ultimately show ?thesis
    using polled_steps [of cap] unfolding p by (meson rtranclp.rtrancl_into_rtrancl)
qed

lemma repolled_steps: "(loop_step (\<lambda>_ _. None) one_slot cap)\<^sup>*\<^sup>* (new_worker, one_job) repolled"
proof -
  obtain w d where e: "evicted = (w, d)" by fastforce
  have "loop_step (\<lambda>_ _. None) one_slot cap (w, d) (w, detection_tick 30900 30901 30902 Answers Answers Answers one_slot d)"
    by (rule l_detect)
  moreover have "loop_step (\<lambda>_ _. None) one_slot cap
      (w, detection_tick 30900 30901 30902 Answers Answers Answers one_slot d) repolled"
    unfolding repolled_def e prod.case by (rule l_poll, rule poll_answers)
  ultimately show ?thesis
    using evicted_steps [of cap] unfolding e by (meson rtranclp.rtrancl_into_rtrancl)
qed

lemma polled_worker:
  "fst polled = new_worker\<lparr>in_flight := [\<lparr>f_job = 1, f_token = ''t1'', f_abort = None\<rparr>], runs := [(1, ''t1'')]\<rparr>"
  by code_simp

lemma repolled_worker:
  "fst repolled = new_worker\<lparr>in_flight := [\<lparr>f_job = 1, f_token = ''t2'', f_abort = None\<rparr>],
     runs := [(1, ''t1''), (1, ''t2'')]\<rparr>"
  by code_simp

text \<open>C24: in every state a worker process can reach, whatever the order of polls, aborts, ends of
  runs, grace evictions, memory checks, signals and steps of the queue, the in-flight map has at
  most \<open>concurrency\<close> entries, at most one per job id, and each entry is a run that has not settled.\<close>

theorem worker_capacity:
  assumes "(loop_step tz_hour opts cap)\<^sup>*\<^sup>* (new_worker, d) (w, d')"
  shows "length (in_flight w) \<le> concurrency opts \<and> distinct (map f_job (in_flight w))
    \<and> (\<forall>f \<in> set (in_flight w). (f_job f, f_token f) \<in> set (runs w))"
  using worker.reachable_inv [OF _ assms]
  by (simp add: fresh_worker_def worker_ok_def flights_ok_def)

theorem worker_capacity_witness:
  "length (in_flight (fst polled)) = 1 \<and> length (in_flight (fst polled)) \<le> concurrency one_slot"
  using worker_capacity [OF polled_pair [of 0]] by (simp add: polled_worker)

text \<open>Once a check of the memory limit reads at least the cap in a running worker, the worker
  has drained for good: every run in flight is aborted, the loop is stopped, the drain is
  attributed to the watchdog with a peak of at least the cap, and on every later run of the process
  nothing is launched any more (the in-flight map only shrinks) and the loop never runs again.\<close>

theorem watchdog_drains_for_good:
  assumes "(loop_step tz_hour opts cap)\<^sup>*\<^sup>* (new_worker, d0) (w, d)"
    and "running w" "0 < cap" "cap * 1048576 \<le> rss"
    and "(loop_step tz_hour opts cap)\<^sup>*\<^sup>* (snd (checkMemoryLimit cap (Some rss) w), d) (w', d')"
  shows "\<not> running w' \<and> rssWatchdogTriggered (snd (checkMemoryLimit cap (Some rss) w))
    \<and> cap \<le> peakRssMb (snd (checkMemoryLimit cap (Some rss) w))
    \<and> (\<forall>f \<in> set (in_flight w'). f_abort f \<noteq> None)
    \<and> f_job ` set (in_flight w') \<subseteq> f_job ` set (in_flight w)"
proof -
  let ?w1 = "snd (checkMemoryLimit cap (Some rss) w)"
  have "drain_ok cap w"
    using worker.reachable_inv [OF _ assms(1)] by (simp add: fresh_worker_def worker_ok_def)
  then have idle: "\<not> gracefulShutdownFired w" using assms(2) by (auto simp: drain_ok_def)
  have mb: "cap \<le> (rss + 524288) div 1048576"
    using zdiv_mono1 [of "cap * 1048576" "rss + 524288" 1048576] assms(4) by simp
  have w1: "?w1 = gracefulShutdown ''watchdog''
      (w\<lparr>peakRssMb := max (peakRssMb w) ((rss + 524288) div 1048576), rssWatchdogTriggered := True\<rparr>)"
    using assms(2,3) idle mb by (simp add: checkMemoryLimit_def Let_def)
  have fl: "in_flight ?w1 = map (abort_flight ''watchdog'') (in_flight w)"
    using idle by (simp add: w1 gracefulShutdown_def)
  have "drained (set (in_flight ?w1)) (?w1, d)"
    using idle by (simp add: drained_def w1 gracefulShutdown_def)
  then have "drained (set (in_flight ?w1)) (w', d')"
    using drain.steps_inv [OF assms(5)] by blast
  then have d: "\<not> running w'" "set (in_flight w') \<subseteq> set (in_flight ?w1)"
    "\<forall>f \<in> set (in_flight w'). f_abort f \<noteq> None"
    by (auto simp: drained_def)
  have "f_job ` set (in_flight ?w1) = f_job ` set (in_flight w)"
    by (simp add: fl image_image)
  moreover have "rssWatchdogTriggered ?w1" "cap \<le> peakRssMb ?w1"
    using idle mb by (simp_all add: w1 gracefulShutdown_def)
  ultimately show ?thesis
    using d image_mono [OF d(2), of f_job] by simp
qed

theorem watchdog_drains_for_good_witness:
  "\<not> running (snd (checkMemoryLimit 512 (Some 629145600) (fst polled)))
   \<and> in_flight (snd (checkMemoryLimit 512 (Some 629145600) (fst polled)))
       = [\<lparr>f_job = 1, f_token = ''t1'', f_abort = Some ''watchdog''\<rparr>]"
proof -
  have "\<not> running (snd (checkMemoryLimit 512 (Some 629145600) (fst polled)))"
    using watchdog_drains_for_good [OF polled_pair [of 512] _ _ _ rtranclp.rtrancl_refl, of 629145600]
    by (simp add: polled_worker new_worker_def)
  moreover have "in_flight (snd (checkMemoryLimit 512 (Some 629145600) (fst polled)))
       = [\<lparr>f_job = 1, f_token = ''t1'', f_abort = Some ''watchdog''\<rparr>]"
    by code_simp
  ultimately show ?thesis by blast
qed

text \<open>Under a supervisor, the self-health check of a running worker reports the database dead
  exactly when \<open>dbFailExitAfter\<close> probes in a row have failed somewhere in its history (one good
  probe resets the count), it never reports anything else, and it reports at most once.\<close>

theorem health_db_dead:
  assumes "isSupervisedChild opts" "dbFailExitAfter opts = int k" "0 < k"
    and "\<forall>t \<in> set ts. running (t_worker t)"
  shows "(fst (health_run opts ts (new_health now w)) \<noteq> []
      \<longleftrightarrow> sublist (replicate k False) (map t_probe ts))
    \<and> length (fst (health_run opts ts (new_health now w))) \<le> 1"
proof
  have "fst (health_run opts ts (new_health now w)) \<noteq> [] \<longleftrightarrow>
     prefix (replicate (k - 0) False) (map t_probe ts) \<or> sublist (replicate k False) (map t_probe ts)"
    by (rule health_dead_from [OF assms(1-4)]) (simp_all add: new_health_def assms(3))
  then show "fst (health_run opts ts (new_health now w)) \<noteq> []
      \<longleftrightarrow> sublist (replicate k False) (map t_probe ts)"
    using prefix_imp_sublist [of "replicate k False" "map t_probe ts"] by auto
qed (rule health_run_short)

definition tick_at :: "int \<Rightarrow> bool \<Rightarrow> nat option \<Rightarrow> health_tick" where
  "tick_at now ok n = \<lparr>t_probe = ok, t_waiting = n, t_now = now, t_worker = new_worker\<rparr>"

definition health_defaults :: "bool \<Rightarrow> health_opts" where
  "health_defaults supervised = \<lparr>dbFailExitAfter = 3, stallWarnAfterMs = 300000, stallExitAfterMs = 600000,
     isSupervisedChild = supervised\<rparr>"

theorem health_db_dead_witness:
  "fst (health_run (health_defaults True) (map (\<lambda>ok. tick_at 0 ok None) [False, False, True, False, False, False])
     (new_health 0 new_worker)) \<noteq> []
   \<and> fst (health_run (health_defaults True) (map (\<lambda>ok. tick_at 0 ok None) [False, False, True, False, False])
     (new_health 0 new_worker)) = []"
  using health_db_dead [of "health_defaults True" 3 "map (\<lambda>ok. tick_at 0 ok None) [False, False, True, False, False, False]" 0 new_worker]
    health_db_dead [of "health_defaults True" 3 "map (\<lambda>ok. tick_at 0 ok None) [False, False, True, False, False]" 0 new_worker]
  by (simp add: health_defaults_def tick_at_def new_worker_def numeral_3_eq_3 sublist_Cons_right)

text \<open>Warn first, exit later.  When a tick reports a stall, the worker is unsupervised, nothing
  is in flight, no job has completed since the last completion it noted, claimable jobs wait, it
  has been idle longer than the exit threshold, and an earlier tick, itself idle with claimable
  work and already past the warning threshold, took the warning.\<close>

theorem stall_needs_warning:
  assumes "fst (health_step opts t (snd (health_run opts pre (new_health now w)))) = Some (Stalled n mins)"
  shows "idle_tick t \<and> t_waiting t = Some n \<and> \<not> isSupervisedChild opts
    \<and> t_now t - lastCompletionTime (snd (health_run opts pre (new_health now w))) > stallExitAfterMs opts
    \<and> (\<exists>t0 \<in> set pre. idle_tick t0
         \<and> t_now t0 - lastCompletionTime (snd (health_run opts pre (new_health now w))) > stallWarnAfterMs opts)"
proof -
  let ?h = "snd (health_run opts pre (new_health now w))"
  have s: "health_step opts t ?h = (Some (Stalled n mins), snd (health_step opts t ?h))"
    using assms by (metis prod.collapse)
  note st = stalled_tick [OF s]
  have "warned_in opts ([] @ pre) ?h"
    by (rule warned_in_run) (simp add: warned_in_def new_health_def)
  then show ?thesis
    using st by (auto simp: warned_in_def)
qed

theorem stall_needs_warning_witness:
  "\<exists>t0 \<in> set [tick_at 60000 True (Some 2), tick_at 360000 True (Some 2)].
     idle_tick t0 \<and> t_now t0 > 300000"
proof -
  let ?pre = "[tick_at 60000 True (Some 2), tick_at 360000 True (Some 2)]"
  have "fst (health_step (health_defaults False) (tick_at 660000 True (Some 2))
      (snd (health_run (health_defaults False) ?pre (new_health 0 new_worker)))) = Some (Stalled 2 11)"
    by code_simp
  moreover have "lastCompletionTime (snd (health_run (health_defaults False) ?pre (new_health 0 new_worker))) = 0"
    by code_simp
  ultimately show ?thesis
    using stall_needs_warning by (fastforce simp: health_defaults_def)
qed

text \<open>The end of a stale run frees the slot of a live one.  A worker with one slot loses the
  lock of its job, evicts the handler (which keeps running), claims the requeued job again; when
  the old handler then returns, its \<open>finally\<close> deletes the entry by job id, which is the entry of
  the new run.  The new run is then live but not in flight, so a graceful shutdown aborts nothing.\<close>

theorem stale_finally_hides_live_run:
  "in_flight (fst repolled) = [\<lparr>f_job = 1, f_token = ''t2'', f_abort = None\<rparr>]
   \<and> in_flight (run_finally 1 ''t1'' 0 None (fst repolled)) = []
   \<and> (1, ''t2'') \<in> set (runs (run_finally 1 ''t1'' 0 None (fst repolled)))
   \<and> in_flight (gracefulShutdown ''watchdog'' (run_finally 1 ''t1'' 0 None (fst repolled))) = []
   \<and> (loop_step (\<lambda>_ _. None) one_slot 0)\<^sup>*\<^sup>* (new_worker, one_job) repolled"
proof (intro conjI)
  show "(loop_step (\<lambda>_ _. None) one_slot 0)\<^sup>*\<^sup>* (new_worker, one_job) repolled"
    by (rule repolled_steps)
qed (simp_all add: repolled_worker run_finally_def checkMemoryLimit_def flights_delete_def
  gracefulShutdown_def new_worker_def)

end
