(* ===== verification/Child_Supervisor.thy ===== *)
theory Child_Supervisor
  imports Complex_Main Prelude
begin

text \<open>
  The spawn-and-respawn core of the worker supervisor
  (\<open>src/core/minions/child-worker-supervisor.ts\<close>), with the exit classifier
  (\<open>exit-classification.ts\<close>), the exit code of the RSS watchdog (\<open>worker-exit-codes.ts\<close>), the
  command line of the child (\<open>spawn-helpers.ts\<close>) and the crash back-off (\<open>supervisor.ts\<close>).

  The operating system is an input: a \<open>cycle\<close> says what became of one spawn (it threw, it failed
  later, or the child exited with a code and a signal), when, whether the child was restarted on
  purpose meanwhile, and what the composer's \<open>isStopping\<close> read.  Clocks are milliseconds,
  \<open>Math.random()\<close> is a rational of the cycle.  Sleeping, and the flag \<open>inBackoff\<close> that is
  up during it, are not modelled, nor is the delivery of signals to the child.
\<close>

section \<open>Helpers\<close>

definition WORKER_EXIT_RSS_WATCHDOG :: int where "WORKER_EXIT_RSS_WATCHDOG = 12"

definition HARD_STOP_CRASH_MULTIPLIER :: int where "HARD_STOP_CRASH_MULTIPLIER = 10"

datatype exit_class = Crash | CleanExit

definition classifyWorkerExit :: "int option \<Rightarrow> exit_class" where
  "classifyWorkerExit code = (if code = Some 0 then CleanExit else Crash)"

definition buildSpawnInvocation :: "string \<Rightarrow> string \<Rightarrow> string list \<Rightarrow> string \<times> string list" where
  "buildSpawnInvocation tiniPath cliPath args =
     (if tiniPath \<noteq> [] then (tiniPath, ''--'' # cliPath # args) else (cliPath, args))"

definition js_round :: "rat \<Rightarrow> int" where "js_round x = \<lfloor>x + 1 / 2\<rfloor>"

definition backoff_base_ms :: "int \<Rightarrow> rat" where
  "backoff_base_ms n = min (1000 * 2 ^ nat (max n 0)) 60000"

definition calculateBackoffMs :: "rat \<Rightarrow> int \<Rightarrow> rat" where
  "calculateBackoffMs rnd n = backoff_base_ms n + rnd * backoff_base_ms n * (1 / 10)"

section \<open>State and events\<close>

datatype backoff_reason = BoCleanExit | BoCrash | BoBudgetExceeded | BoRssWatchdog | BoWedgeRestart

datatype warn_reason = CleanRestartBudgetExceeded | RssWatchdogLoop | CrashBudgetDegraded

datatype spawn_phase = SpawnSync | SpawnAsync

datatype child_event =
    WorkerSpawned int bool
  | WorkerSpawnFailed string spawn_phase
  | WorkerExited "int option" "string option" int string int
  | Backoff int int backoff_reason
  | HealthWarn warn_reason int "int option" "int option"

record child_opts =
  tiniPath :: string
  maxCrashes :: int
  hardStopMaxCrashes :: "int option"
  stableRunResetMs :: "int option"
  cleanRestartBudget :: "int option"
  cleanRestartWindowMs :: "int option"
  cleanRestartBudgetBackoffMs :: "int option"
  watchdogLoopBudget :: "int option"
  watchdogLoopWindowMs :: "int option"
  watchdogBackoffMs :: "int option"
  backoffFloorMs :: "int option"

record child_sup =
  crashCount :: int
  lastExitCode :: "int option"
  cleanRestartTimestamps :: "int list"
  watchdogExitTimestamps :: "int list"
  child :: "int option"
  lastStartTime :: int
  intentionalRestart :: bool
  lastWasIntentionalRestart :: bool

definition new_sup :: child_sup where
  "new_sup = \<lparr>crashCount = 0, lastExitCode = None, cleanRestartTimestamps = [],
     watchdogExitTimestamps = [], child = None, lastStartTime = 0, intentionalRestart = False,
     lastWasIntentionalRestart = False\<rparr>"

text \<open>The options with their defaults.\<close>

definition stable_ms :: "child_opts \<Rightarrow> int" where "stable_ms o' = orElse (stableRunResetMs o') 300000"
definition clean_budget :: "child_opts \<Rightarrow> int" where "clean_budget o' = orElse (cleanRestartBudget o') 10"
definition clean_window :: "child_opts \<Rightarrow> int" where "clean_window o' = orElse (cleanRestartWindowMs o') 60000"
definition dog_budget :: "child_opts \<Rightarrow> int" where "dog_budget o' = orElse (watchdogLoopBudget o') 3"
definition dog_window :: "child_opts \<Rightarrow> int" where "dog_window o' = orElse (watchdogLoopWindowMs o') 600000"
definition hard_stop :: "child_opts \<Rightarrow> int" where
  "hard_stop o' = orElse (hardStopMaxCrashes o') (maxCrashes o' * HARD_STOP_CRASH_MULTIPLIER)"

section \<open>One spawn\<close>

definition restartCurrentChild :: "child_sup \<Rightarrow> child_sup" where
  "restartCurrentChild s = (if child s = None then s else s\<lparr>intentionalRestart := True\<rparr>)"

definition settleSpawnFailure :: "bool \<Rightarrow> int \<Rightarrow> child_sup \<Rightarrow> child_event list \<times> child_sup" where
  "settleSpawnFailure stopping now s =
     (let s1 = s\<lparr>child := None, intentionalRestart := False\<rparr>
      in if stopping then ([], s1)
         else (let s2 = s1\<lparr>lastExitCode := None, crashCount := crashCount s1 + 1\<rparr>
               in ([WorkerExited None None (now - lastStartTime s2) ''spawn_failed'' (crashCount s2)], s2)))"

text \<open>The accounting of the exit handler.\<close>

definition classify_exit :: "child_opts \<Rightarrow> int \<Rightarrow> int option \<Rightarrow> child_sup \<Rightarrow> child_sup" where
  "classify_exit o' now code s =
     (if intentionalRestart s then s\<lparr>intentionalRestart := False, lastWasIntentionalRestart := True\<rparr>
      else if code = Some WORKER_EXIT_RSS_WATCHDOG
      then s\<lparr>watchdogExitTimestamps :=
               filter (\<lambda>t. t > now - dog_window o') (watchdogExitTimestamps s @ [now])\<rparr>
      else if classifyWorkerExit code = CleanExit
      then s\<lparr>cleanRestartTimestamps :=
               filter (\<lambda>t. t > now - clean_window o') (cleanRestartTimestamps s @ [now])\<rparr>
      else if now - lastStartTime s > stable_ms o' then s\<lparr>crashCount := 1\<rparr>
      else s\<lparr>crashCount := crashCount s + 1\<rparr>)"

definition likely_cause :: "bool \<Rightarrow> int option \<Rightarrow> string option \<Rightarrow> string" where
  "likely_cause intentional code sig =
     (if intentional then ''wedge_restart''
      else if sig = Some ''SIGKILL'' then ''oom_or_external_kill''
      else if sig = Some ''SIGTERM'' then ''graceful_shutdown''
      else if code = Some WORKER_EXIT_RSS_WATCHDOG then ''rss_watchdog''
      else if code = Some 1 then ''runtime_error''
      else if code = Some 0 then ''clean_exit''
      else ''unknown'')"

definition on_exit ::
  "child_opts \<Rightarrow> bool \<Rightarrow> int \<Rightarrow> int option \<Rightarrow> string option \<Rightarrow> child_sup \<Rightarrow> child_event list \<times> child_sup" where
  "on_exit o' stopping now code sig s =
     (let s1 = s\<lparr>child := None\<rparr>
      in if stopping then ([], s1)
         else (let s2 = classify_exit o' now code (s1\<lparr>lastExitCode := code\<rparr>)
               in ([WorkerExited code sig (now - lastStartTime s2)
                      (likely_cause (lastWasIntentionalRestart s2) code sig) (crashCount s2)], s2)))"

datatype spawn_outcome =
    SpawnThrows string
  | SpawnErrors "int option" string
  | Exits int bool "int option" "string option"

record cycle =
  k_stop_top :: bool
  k_start :: int
  k_outcome :: spawn_outcome
  k_end :: int
  k_stop_exit :: bool
  k_stop_after :: bool
  k_rnd :: rat

definition spawnOnce :: "child_opts \<Rightarrow> cycle \<Rightarrow> child_sup \<Rightarrow> child_event list \<times> child_sup" where
  "spawnOnce o' k s =
     (if k_stop_top k then ([], s)
      else
        (let s1 = s\<lparr>lastStartTime := k_start k\<rparr>; tini = (tiniPath o' \<noteq> [])
         in case k_outcome k of
              SpawnThrows err \<Rightarrow>
                ([WorkerSpawnFailed err SpawnSync], s1\<lparr>crashCount := crashCount s1 + 1, lastExitCode := None\<rparr>)
            | SpawnErrors pid err \<Rightarrow>
                (case settleSpawnFailure (k_stop_exit k) (k_end k) (s1\<lparr>child := Some (orElse pid (- 1))\<rparr>) of
                   (evs, s2) \<Rightarrow>
                     (WorkerSpawned (orElse pid (- 1)) tini # WorkerSpawnFailed err SpawnAsync # evs, s2))
            | Exits pid restarted code sig \<Rightarrow>
                (let s2 = s1\<lparr>child := Some pid\<rparr>;
                     s3 = (if restarted then restartCurrentChild s2 else s2)
                 in case on_exit o' (k_stop_exit k) (k_end k) code sig s3 of
                      (evs, s4) \<Rightarrow> (WorkerSpawned pid tini # evs, s4))))"

section \<open>The back-off and the loop\<close>

definition applyBackoff :: "child_opts \<Rightarrow> rat \<Rightarrow> child_sup \<Rightarrow> child_event list \<times> child_sup" where
  "applyBackoff o' rnd s =
     (if lastWasIntentionalRestart s
      then ([Backoff 0 (crashCount s) BoWedgeRestart], s\<lparr>lastWasIntentionalRestart := False\<rparr>)
      else if lastExitCode s = Some 0
      then (let n = int (length (cleanRestartTimestamps s))
            in if n > clean_budget o'
               then ([HealthWarn CleanRestartBudgetExceeded n (Some (clean_window o')) None,
                      Backoff (orElse (backoffFloorMs o') (orElse (cleanRestartBudgetBackoffMs o') 1000))
                        (crashCount s) BoBudgetExceeded], s)
               else ([Backoff 0 (crashCount s) BoCleanExit], s))
      else if lastExitCode s = Some WORKER_EXIT_RSS_WATCHDOG
      then (let n = int (length (watchdogExitTimestamps s))
            in ((if n > dog_budget o' then [HealthWarn RssWatchdogLoop n (Some (dog_window o')) None] else [])
                @ [Backoff (orElse (backoffFloorMs o') (orElse (watchdogBackoffMs o') 30000))
                     (crashCount s) BoRssWatchdog], s))
      else ([Backoff (case backoffFloorMs o' of Some f \<Rightarrow> f
                      | None \<Rightarrow> js_round (calculateBackoffMs rnd (crashCount s - 1)))
               (crashCount s) BoCrash], s))"

datatype verdict = Continues | Stopped | GaveUp int int

text \<open>The soft budget: announced once per episode.\<close>

definition degraded :: "child_opts \<Rightarrow> bool \<Rightarrow> child_sup \<Rightarrow> child_event list \<times> bool" where
  "degraded o' announced s =
     (if crashCount s \<ge> maxCrashes o'
      then (if announced then [] else [HealthWarn CrashBudgetDegraded (crashCount s) None (Some (maxCrashes o'))], True)
      else ([], False))"

definition run_cycle ::
  "child_opts \<Rightarrow> cycle \<Rightarrow> bool \<times> child_sup \<Rightarrow> child_event list \<times> verdict \<times> bool \<times> child_sup" where
  "run_cycle o' k st =
     (case st of (announced, s) \<Rightarrow>
        if k_stop_top k then ([], Stopped, st)
        else
          (case spawnOnce o' k s of (ev1, s1) \<Rightarrow>
             if k_stop_after k then (ev1, Stopped, announced, s1)
             else if hard_stop o' > 0 \<and> crashCount s1 \<ge> hard_stop o'
             then (ev1, GaveUp (crashCount s1) (hard_stop o'), announced, s1)
             else
               (case degraded o' announced s1 of (ev2, announced') \<Rightarrow>
                  (case applyBackoff o' (k_rnd k) s1 of (ev3, s2) \<Rightarrow>
                     (ev1 @ ev2 @ ev3, Continues, announced', s2)))))"

fun run :: "child_opts \<Rightarrow> cycle list \<Rightarrow> bool \<times> child_sup \<Rightarrow> child_event list \<times> verdict \<times> bool \<times> child_sup" where
  "run o' [] st = ([], Continues, st)"
| "run o' (k # ks) st =
     (case run_cycle o' k st of
        (evs, Continues, st') \<Rightarrow> (case run o' ks st' of (evs', v, st'') \<Rightarrow> (evs @ evs', v, st''))
      | (evs, v, st') \<Rightarrow> (evs, v, st'))"


section \<open>How a cycle counts\<close>

definition quiet :: "cycle \<Rightarrow> bool" where
  "quiet k \<longleftrightarrow> \<not> k_stop_top k \<and> \<not> k_stop_exit k \<and> \<not> k_stop_after k"

text \<open>An exit that is neither clean, nor a watchdog drain, nor on purpose.\<close>

fun crash_outcome :: "spawn_outcome \<Rightarrow> bool" where
  "crash_outcome (SpawnThrows _) = True"
| "crash_outcome (SpawnErrors _ _) = True"
| "crash_outcome (Exits _ restarted code _) =
     (\<not> restarted \<and> code \<noteq> Some WORKER_EXIT_RSS_WATCHDOG \<and> code \<noteq> Some 0)"

definition crashes :: "cycle \<Rightarrow> bool" where
  "crashes k \<longleftrightarrow> crash_outcome (k_outcome k)"

text \<open>A crash after a stable run forgives the crashes before it; a failed spawn never ran.\<close>

definition stable_run :: "child_opts \<Rightarrow> cycle \<Rightarrow> bool" where
  "stable_run o' k \<longleftrightarrow> (case k_outcome k of Exits _ _ _ _ \<Rightarrow> k_end k - k_start k > stable_ms o' | _ \<Rightarrow> False)"

definition next_count :: "child_opts \<Rightarrow> cycle \<Rightarrow> int \<Rightarrow> int" where
  "next_count o' k c = (if \<not> crashes k then c else if stable_run o' k then 1 else c + 1)"

lemma classify_exit_simps [simp]:
  "child (classify_exit o' now code s) = child s"
  "lastExitCode (classify_exit o' now code s) = lastExitCode s"
  "lastStartTime (classify_exit o' now code s) = lastStartTime s"
  "intentionalRestart (classify_exit o' now code s) = False"
  by (simp_all add: classify_exit_def)

lemma spawnOnce_count:
  assumes "quiet k" "\<not> intentionalRestart s"
  shows "crashCount (snd (spawnOnce o' k s)) = next_count o' k (crashCount s)"
    and "\<not> intentionalRestart (snd (spawnOnce o' k s))"
  using assms
  by (cases "k_outcome k";
      simp add: spawnOnce_def quiet_def settleSpawnFailure_def on_exit_def classify_exit_def Let_def
        next_count_def crashes_def stable_run_def restartCurrentChild_def classifyWorkerExit_def)+

lemma applyBackoff_state:
  "crashCount (snd (applyBackoff o' rnd s)) = crashCount s"
  "intentionalRestart (snd (applyBackoff o' rnd s)) = intentionalRestart s"
  "cleanRestartTimestamps (snd (applyBackoff o' rnd s)) = cleanRestartTimestamps s"
  "watchdogExitTimestamps (snd (applyBackoff o' rnd s)) = watchdogExitTimestamps s"
  "\<not> lastWasIntentionalRestart (snd (applyBackoff o' rnd s))"
  by (simp_all add: applyBackoff_def Let_def)

text \<open>A quiet cycle: spawn, then the ceiling, then the announcement and the back-off.\<close>

lemma run_cycle_quiet:
  assumes "quiet k"
  shows "run_cycle o' k (a, s) =
    (let s1 = snd (spawnOnce o' k s); (ev2, a') = degraded o' a s1; (ev3, s2) = applyBackoff o' (k_rnd k) s1
     in if hard_stop o' > 0 \<and> crashCount s1 \<ge> hard_stop o'
        then (fst (spawnOnce o' k s), GaveUp (crashCount s1) (hard_stop o'), a, s1)
        else (fst (spawnOnce o' k s) @ ev2 @ ev3, Continues, a', s2))"
  using assms
  by (cases "spawnOnce o' k s"; cases "degraded o' a (snd (spawnOnce o' k s))")
    (simp add: run_cycle_def quiet_def Let_def split: prod.splits)

lemma run_Cons_give_up:
  "run_cycle o' k st = (evs, GaveUp c h, st') \<Longrightarrow> run o' (k # ks) st = (evs, GaveUp c h, st')"
  by simp

lemma run_Cons_continue:
  "run_cycle o' k st = (evs, Continues, st') \<Longrightarrow>
   run o' (k # ks) st = (evs @ fst (run o' ks st'), snd (run o' ks st'))"
  by (simp split: prod.splits)

lemma quiet_cycle_cases:
  assumes "quiet k" "\<not> intentionalRestart s"
  obtains (ceiling) evs s' where "run_cycle o' k (a, s) = (evs, GaveUp (next_count o' k (crashCount s)) (hard_stop o'), a, s')"
      "hard_stop o' > 0" "next_count o' k (crashCount s) \<ge> hard_stop o'"
  | (goes_on) evs a' s' where "run_cycle o' k (a, s) = (evs, Continues, a', s')"
      "hard_stop o' > 0 \<Longrightarrow> next_count o' k (crashCount s) < hard_stop o'"
      "crashCount s' = next_count o' k (crashCount s)" "\<not> intentionalRestart s'"
proof (cases "hard_stop o' > 0 \<and> next_count o' k (crashCount s) \<ge> hard_stop o'")
  case True
  then show ?thesis
    using ceiling run_cycle_quiet [OF assms(1), of o' a s] spawnOnce_count [OF assms]
    by (simp add: Let_def split: prod.splits)
next
  case False
  let ?s1 = "snd (spawnOnce o' k s)"
  have "run_cycle o' k (a, s) =
      (fst (spawnOnce o' k s) @ fst (degraded o' a ?s1) @ fst (applyBackoff o' (k_rnd k) ?s1), Continues,
       snd (degraded o' a ?s1), snd (applyBackoff o' (k_rnd k) ?s1))"
    using False run_cycle_quiet [OF assms(1), of o' a s] spawnOnce_count [OF assms]
    by (auto simp: Let_def split: prod.splits)
  then show ?thesis
    by (rule goes_on) (use False spawnOnce_count [OF assms, of o'] in \<open>auto simp: applyBackoff_state\<close>)
qed

lemma run_verdict:
  assumes "\<forall>k \<in> set ks. quiet k" "\<forall>k \<in> set ks. \<not> stable_run o' k"
    and "\<not> intentionalRestart s" "crashCount s < hard_stop o' \<or> hard_stop o' \<le> 0"
  shows "fst (snd (run o' ks (a, s))) =
    (if hard_stop o' > 0 \<and> crashCount s + int (length (filter crashes ks)) \<ge> hard_stop o'
     then GaveUp (hard_stop o') (hard_stop o') else Continues)"
  using assms
proof (induction ks arbitrary: a s)
  case Nil
  then show ?case by auto
next
  case (Cons k ks)
  have k: "quiet k" "\<not> stable_run o' k" using Cons.prems(1,2) by simp_all
  then have c: "next_count o' k (crashCount s) = crashCount s + (if crashes k then 1 else 0)"
    by (simp add: next_count_def)
  show ?case
  proof (cases rule: quiet_cycle_cases [OF k(1) Cons.prems(3), of o' a])
    case (1 evs s')
    then have "next_count o' k (crashCount s) = hard_stop o'" "crashes k"
      using c Cons.prems(4) by (auto split: if_splits)
    then show ?thesis
      using 1 c run_Cons_give_up [OF 1(1)] by (simp del: run.simps)
  next
    case (2 evs a' s')
    have "fst (snd (run o' (k # ks) (a, s))) = fst (snd (run o' ks (a', s')))"
      using run_Cons_continue [OF 2(1)] by (simp del: run.simps)
    also have "\<dots> = (if hard_stop o' > 0 \<and> crashCount s' + int (length (filter crashes ks)) \<ge> hard_stop o'
        then GaveUp (hard_stop o') (hard_stop o') else Continues)"
      using Cons.prems(1,2) 2 by (intro Cons.IH) auto
    finally show ?thesis using c 2(3) by (auto simp del: run.simps)
  qed
qed


section \<open>The give-up ceiling\<close>

text \<open>C29: while nobody stops it, the supervisor gives up exactly at the hard ceiling: along any sequence
  of spawns without a stable run, clean exits, watchdog drains and deliberate restarts never count,
  and the run ends with \<open>GaveUp\<close>, at exactly the ceiling, as soon as that many crashes have
  happened; with a ceiling of zero or less it respawns for ever.\<close>

theorem gives_up_at_ceiling:
  assumes "\<forall>k \<in> set ks. quiet k" "\<forall>k \<in> set ks. \<not> stable_run o' k"
  shows "fst (snd (run o' ks (False, new_sup))) =
    (if 0 < hard_stop o' \<and> hard_stop o' \<le> int (length (filter crashes ks))
     then GaveUp (hard_stop o') (hard_stop o') else Continues)"
  using run_verdict [OF assms, of new_sup False] by (auto simp: new_sup_def)

definition plain_opts :: "int \<Rightarrow> child_opts" where
  "plain_opts m = \<lparr>tiniPath = [], maxCrashes = m, hardStopMaxCrashes = None, stableRunResetMs = None,
     cleanRestartBudget = None, cleanRestartWindowMs = None, cleanRestartBudgetBackoffMs = None,
     watchdogLoopBudget = None, watchdogLoopWindowMs = None, watchdogBackoffMs = None, backoffFloorMs = None\<rparr>"

definition exits_at :: "int \<Rightarrow> int \<Rightarrow> cycle" where
  "exits_at t code = \<lparr>k_stop_top = False, k_start = t, k_outcome = Exits 9 False (Some code) None,
     k_end = t + 500, k_stop_exit = False, k_stop_after = False, k_rnd = 0\<rparr>"

theorem gives_up_at_ceiling_witness:
  "fst (snd (run (plain_opts 1) (map (\<lambda>i. exits_at i 1) [0..9]) (False, new_sup))) = GaveUp 10 10
   \<and> fst (snd (run (plain_opts 1) (map (\<lambda>i. exits_at i 1) [0..8] @ [exits_at 9 0, exits_at 10 12]) (False, new_sup))) = Continues"
proof -
  have q: "quiet (exits_at t c)" "\<not> stable_run (plain_opts 1) (exits_at t c)" for t c
    by (simp_all add: quiet_def exits_at_def stable_run_def stable_ms_def plain_opts_def)
  have n: "length (filter crashes (map (\<lambda>i. exits_at i 1) [0..9])) = 10"
    "length (filter crashes (map (\<lambda>i. exits_at i 1) [0..8] @ [exits_at 9 0, exits_at 10 12])) = 9"
    "hard_stop (plain_opts 1) = 10"
    by code_simp+
  show ?thesis
    using gives_up_at_ceiling [of "map (\<lambda>i. exits_at i 1) [0..9]" "plain_opts 1"]
      gives_up_at_ceiling [of "map (\<lambda>i. exits_at i 1) [0..8] @ [exits_at 9 0, exits_at 10 12]" "plain_opts 1"]
    using q n by (auto simp del: run.simps filter.simps list.map upto.simps)
qed

section \<open>The pace of respawns\<close>

lemma backoff_base_bounds: "1000 \<le> backoff_base_ms n" "backoff_base_ms n \<le> 60000"
  by (simp_all add: backoff_base_ms_def one_le_power)

lemma calculateBackoffMs_bounds:
  assumes "0 \<le> rnd" "rnd < 1"
  shows "backoff_base_ms n \<le> calculateBackoffMs rnd n"
    and "calculateBackoffMs rnd n \<le> 11 / 10 * backoff_base_ms n"
proof -
  have b: "0 \<le> backoff_base_ms n" using backoff_base_bounds(1) [of n] by linarith
  show "backoff_base_ms n \<le> calculateBackoffMs rnd n"
    using assms(1) b by (simp add: calculateBackoffMs_def)
  have "rnd * backoff_base_ms n \<le> 1 * backoff_base_ms n"
    using assms(2) b by (intro mult_right_mono) simp_all
  then show "calculateBackoffMs rnd n \<le> 11 / 10 * backoff_base_ms n"
    by (simp add: calculateBackoffMs_def)
qed

lemma js_round_mono: "x \<le> y \<Longrightarrow> js_round x \<le> js_round y"
  unfolding js_round_def by (intro floor_mono) simp

lemma spawnOnce_no_backoff: "Backoff ms c r \<notin> set (fst (spawnOnce o' k s))"
  by (cases "k_outcome k")
    (auto simp: spawnOnce_def settleSpawnFailure_def on_exit_def Let_def split: prod.splits)

lemma degraded_no_backoff: "Backoff ms c r \<notin> set (fst (degraded o' a s))"
  by (simp add: degraded_def)

lemma run_cycle_backoff:
  assumes "Backoff ms c r \<in> set (fst (run_cycle o' k st))"
  obtains s where "Backoff ms c r \<in> set (fst (applyBackoff o' (k_rnd k) s))"
proof -
  obtain a s where st: "st = (a, s)" by fastforce
  have "\<exists>s'. Backoff ms c r \<in> set (fst (applyBackoff o' (k_rnd k) s'))"
    using assms spawnOnce_no_backoff [of ms c r o' k s] degraded_no_backoff [of ms c r o' a "snd (spawnOnce o' k s)"]
    by (auto simp: run_cycle_def st split: if_splits prod.splits) (metis fst_conv)+
  then show ?thesis using that by blast
qed

lemma run_backoff:
  assumes "Backoff ms c r \<in> set (fst (run o' ks st))"
  shows "\<exists>k \<in> set ks. \<exists>s. Backoff ms c r \<in> set (fst (applyBackoff o' (k_rnd k) s))"
  using assms
proof (induction ks arbitrary: st)
  case Nil
  then show ?case by simp
next
  case (Cons k ks)
  obtain evs v st' where c: "run_cycle o' k st = (evs, v, st')" by (metis prod_cases3)
  show ?case
  proof (cases "Backoff ms c r \<in> set evs")
    case True
    then show ?thesis using run_cycle_backoff [of ms c r o' k st] c by auto
  next
    case False
    then have "Backoff ms c r \<in> set (fst (run o' ks st'))"
      using Cons.prems c by (cases v) (auto split: prod.splits)
    then show ?thesis using Cons.IH by auto
  qed
qed

text \<open>Outside tests, the pauses before a respawn follow their contract: after a crash the pause is
  the doubling base (one second up to a minute) plus at most a tenth, after a watchdog drain the
  configured pause (thirty seconds by default), after a clean exit within its budget or a deliberate
  restart none.\<close>

theorem backoff_contract:
  assumes "Backoff ms c r \<in> set (fst (run o' ks st))" "backoffFloorMs o' = None"
    and "\<forall>k \<in> set ks. 0 \<le> k_rnd k \<and> k_rnd k < 1"
  shows "case r of
      BoCrash \<Rightarrow> js_round (backoff_base_ms (c - 1)) \<le> ms \<and> ms \<le> js_round (11 / 10 * backoff_base_ms (c - 1))
                   \<and> 1000 \<le> ms \<and> ms \<le> 66000
    | BoRssWatchdog \<Rightarrow> ms = orElse (watchdogBackoffMs o') 30000
    | BoBudgetExceeded \<Rightarrow> ms = orElse (cleanRestartBudgetBackoffMs o') 1000
    | BoCleanExit \<Rightarrow> ms = 0
    | BoWedgeRestart \<Rightarrow> ms = 0"
proof -
  obtain k s where k: "k \<in> set ks" and b: "Backoff ms c r \<in> set (fst (applyBackoff o' (k_rnd k) s))"
    using run_backoff [OF assms(1)] by blast
  have rnd: "0 \<le> k_rnd k" "k_rnd k < 1" using assms(3) k by auto
  have lo: "js_round (backoff_base_ms n) \<le> js_round (calculateBackoffMs (k_rnd k) n)"
    and hi: "js_round (calculateBackoffMs (k_rnd k) n) \<le> js_round (11 / 10 * backoff_base_ms n)" for n
    using calculateBackoffMs_bounds [OF rnd] by (simp_all add: js_round_mono)
  have "js_round 1000 \<le> js_round (backoff_base_ms n)"
    "js_round (11 / 10 * backoff_base_ms n) \<le> js_round 66000" for n
    using backoff_base_bounds [of n] by (simp_all add: js_round_mono)
  moreover have "js_round 1000 = 1000" "js_round 66000 = 66000"
    by (simp_all add: js_round_def floor_eq_iff)
  ultimately have "1000 \<le> js_round (backoff_base_ms n)" "js_round (11 / 10 * backoff_base_ms n) \<le> 66000" for n
    by metis+
  then have "1000 \<le> js_round (calculateBackoffMs (k_rnd k) n)" "js_round (calculateBackoffMs (k_rnd k) n) \<le> 66000" for n
    using lo [of n] hi [of n] order_trans by blast+
  with lo hi b assms(2) show ?thesis
    by (auto simp: applyBackoff_def Let_def split: if_splits)
qed

theorem backoff_contract_witness:
  "Backoff 2000 2 BoCrash \<in> set (fst (run (plain_opts 5) [exits_at 0 1, exits_at 600 1] (False, new_sup)))
   \<and> js_round (backoff_base_ms (2 - 1)) \<le> 2000"
proof -
  have "list_ex ((=) (Backoff 2000 2 BoCrash)) (fst (run (plain_opts 5) [exits_at 0 1, exits_at 600 1] (False, new_sup)))"
    by code_simp
  then have m: "Backoff 2000 2 BoCrash \<in> set (fst (run (plain_opts 5) [exits_at 0 1, exits_at 600 1] (False, new_sup)))"
    by (auto simp only: list_ex_iff)
  show ?thesis
    using backoff_contract [of 2000 2 BoCrash "plain_opts 5" "[exits_at 0 1, exits_at 600 1]" "(False, new_sup)"] m
    by (simp add: exits_at_def plain_opts_def del: run.simps)
qed


section \<open>The clean-restart budget\<close>

fun clean_outcome :: "spawn_outcome \<Rightarrow> bool" where
  "clean_outcome (Exits _ restarted code _) = (\<not> restarted \<and> code = Some 0)"
| "clean_outcome _ = False"

definition clean_times :: "cycle list \<Rightarrow> int list" where
  "clean_times ks = map k_end (filter (\<lambda>k. clean_outcome (k_outcome k)) ks)"

lemma clean_times_simps [simp]:
  "clean_times [] = []"
  "clean_times (ks @ ks') = clean_times ks @ clean_times ks'"
  "clean_times [k] = (if clean_outcome (k_outcome k) then [k_end k] else [])"
  by (simp_all add: clean_times_def)

text \<open>The recorded time stamps are the clean exits, up to what has left the window.\<close>

definition tracks :: "child_opts \<Rightarrow> cycle list \<Rightarrow> child_sup \<Rightarrow> bool" where
  "tracks o' past s \<longleftrightarrow> \<not> intentionalRestart s
     \<and> (\<forall>c. (\<forall>k \<in> set past. k_end k - clean_window o' \<le> c) \<longrightarrow>
          filter (\<lambda>t. t > c) (cleanRestartTimestamps s) = filter (\<lambda>t. t > c) (clean_times past))"

lemma spawnOnce_clean_times:
  assumes "quiet k" "\<not> intentionalRestart s"
  shows "cleanRestartTimestamps (snd (spawnOnce o' k s)) =
    (if clean_outcome (k_outcome k)
     then filter (\<lambda>t. t > k_end k - clean_window o') (cleanRestartTimestamps s @ [k_end k])
     else cleanRestartTimestamps s)"
  using assms
  by (cases "k_outcome k")
    (simp_all add: spawnOnce_def quiet_def settleSpawnFailure_def on_exit_def classify_exit_def Let_def
      restartCurrentChild_def classifyWorkerExit_def WORKER_EXIT_RSS_WATCHDOG_def)

lemma tracks_spawn:
  assumes "quiet k" "tracks o' past s"
  shows "tracks o' (past @ [k]) (snd (spawnOnce o' k s))"
proof -
  have i: "\<not> intentionalRestart s" using assms(2) by (simp add: tracks_def)
  have "filter (\<lambda>t. t > c) (cleanRestartTimestamps (snd (spawnOnce o' k s))) =
      filter (\<lambda>t. t > c) (clean_times (past @ [k]))"
    if c: "\<forall>x \<in> set (past @ [k]). k_end x - clean_window o' \<le> c" for c
  proof -
    have "k_end k - clean_window o' \<le> c" using c by simp
    note drop = filter_cut [OF this]
    have same: "filter (\<lambda>t. t > c) (cleanRestartTimestamps s) = filter (\<lambda>t. t > c) (clean_times past)"
      using assms(2) c by (simp add: tracks_def)
    show ?thesis
    proof (cases "clean_outcome (k_outcome k)")
      case True
      then show ?thesis
        unfolding spawnOnce_clean_times [OF assms(1) i] if_P [OF True] drop by (simp add: same)
    next
      case False
      then show ?thesis
        unfolding spawnOnce_clean_times [OF assms(1) i] if_not_P [OF False] by (simp add: same)
    qed
  qed
  then show ?thesis
    using spawnOnce_count(2) [OF assms(1) i] by (simp add: tracks_def)
qed

lemma quiet_continues:
  assumes "quiet k" "run_cycle o' k (a, s) = (evs, Continues, a', s')"
  shows "evs = fst (spawnOnce o' k s) @ fst (degraded o' a (snd (spawnOnce o' k s)))
      @ fst (applyBackoff o' (k_rnd k) (snd (spawnOnce o' k s)))"
    and "s' = snd (applyBackoff o' (k_rnd k) (snd (spawnOnce o' k s)))"
  using assms(2) unfolding run_cycle_quiet [OF assms(1)]
  by (auto simp: Let_def split: prod.splits if_splits)

lemma run_continuesE:
  assumes "fst (snd (run o' (k # ks) st)) = Continues"
  obtains evs st' where "run_cycle o' k st = (evs, Continues, st')" "fst (snd (run o' ks st')) = Continues"
    "snd (run o' (k # ks) st) = snd (run o' ks st')"
proof -
  obtain evs v st' where c: "run_cycle o' k st = (evs, v, st')" by (metis prod_cases3)
  have v: "v = Continues" using assms c by (cases v) auto
  show ?thesis
    using that [OF c [unfolded v]] assms run_Cons_continue [OF c [unfolded v], of ks] by (simp del: run.simps)
qed

lemma tracks_run:
  assumes "\<forall>k \<in> set ks. quiet k" "tracks o' past s" "\<not> lastWasIntentionalRestart s"
    and "fst (snd (run o' ks (a, s))) = Continues"
  shows "tracks o' (past @ ks) (snd (snd (snd (run o' ks (a, s)))))
    \<and> \<not> lastWasIntentionalRestart (snd (snd (snd (run o' ks (a, s)))))"
  using assms
proof (induction ks arbitrary: past a s)
  case Nil
  then show ?case by simp
next
  case (Cons k ks)
  have q: "quiet k" using Cons.prems(1) by simp
  obtain evs a' s' where step: "run_cycle o' k (a, s) = (evs, Continues, a', s')"
    and rest: "fst (snd (run o' ks (a', s'))) = Continues"
    and eq: "snd (run o' (k # ks) (a, s)) = snd (run o' ks (a', s'))"
    using run_continuesE [OF Cons.prems(4)] by (metis surj_pair)
  have "tracks o' (past @ [k]) s'" "\<not> lastWasIntentionalRestart s'"
    using tracks_spawn [OF q Cons.prems(2)] quiet_continues(2) [OF q step]
    by (simp_all add: tracks_def applyBackoff_state)
  then have "tracks o' ((past @ [k]) @ ks) (snd (snd (snd (run o' ks (a', s')))))
      \<and> \<not> lastWasIntentionalRestart (snd (snd (snd (run o' ks (a', s')))))"
    using Cons.prems(1) rest by (intro Cons.IH) simp_all
  then show ?case by (simp add: eq del: run.simps)
qed

text \<open>A worker that keeps exiting cleanly cannot make the supervisor spin: when a clean exit is
  answered by an immediate respawn, at most \<open>cleanRestartBudget\<close> clean exits, this one included,
  lie in the sliding window that ends with it; over the budget the pause applies and is announced.\<close>

theorem clean_restarts_within_budget:
  assumes "\<forall>k \<in> set (ks @ [k]). quiet k" "\<forall>x \<in> set ks. k_end x \<le> k_end k"
    and "run o' ks (False, new_sup) = (evs, Continues, a, s)" "clean_outcome (k_outcome k)"
    and "run_cycle o' k (a, s) = (evs', Continues, st')"
  shows "((\<exists>c. Backoff 0 c BoCleanExit \<in> set evs') \<longleftrightarrow>
      int (length (filter (\<lambda>t. t > k_end k - clean_window o') (clean_times (ks @ [k])))) \<le> clean_budget o')
    \<and> ((\<exists>ms c. Backoff ms c BoBudgetExceeded \<in> set evs') \<longleftrightarrow>
      int (length (filter (\<lambda>t. t > k_end k - clean_window o') (clean_times (ks @ [k])))) > clean_budget o')"
proof -
  let ?s1 = "snd (spawnOnce o' k s)" and ?n = "int (length (filter (\<lambda>t. t > k_end k - clean_window o') (clean_times (ks @ [k]))))"
  have q: "quiet k" using assms(1) by simp
  have "tracks o' [] new_sup" "\<not> lastWasIntentionalRestart new_sup" by (simp_all add: tracks_def new_sup_def)
  then have t: "tracks o' ks s" and w: "\<not> lastWasIntentionalRestart s"
    using tracks_run [of ks o' "[]" new_sup False] assms(1,3) by simp_all
  then have i: "\<not> intentionalRestart s" by (simp add: tracks_def)
  note cl = spawnOnce_clean_times [OF q i, of o']
  have "cleanRestartTimestamps ?s1 = filter (\<lambda>t. t > k_end k - clean_window o') (cleanRestartTimestamps ?s1)"
    unfolding cl using assms(4) by simp
  moreover have "filter (\<lambda>t. t > k_end k - clean_window o') (cleanRestartTimestamps ?s1) =
      filter (\<lambda>t. t > k_end k - clean_window o') (clean_times (ks @ [k]))"
    using tracks_spawn [OF q t] assms(2) unfolding tracks_def by auto
  ultimately have n: "int (length (cleanRestartTimestamps ?s1)) = ?n"
    by metis
  have b: "lastExitCode ?s1 = Some 0" "\<not> lastWasIntentionalRestart ?s1"
    using assms(4) q i w
    by (cases "k_outcome k";
        simp add: spawnOnce_def quiet_def on_exit_def classify_exit_def Let_def classifyWorkerExit_def
          WORKER_EXIT_RSS_WATCHDOG_def)+
  obtain a' s' where "st' = (a', s')" by fastforce
  then have evs': "evs' = fst (spawnOnce o' k s) @ fst (degraded o' a ?s1) @ fst (applyBackoff o' (k_rnd k) ?s1)"
    using quiet_continues(1) [OF q] assms(5) by blast
  have bo: "fst (applyBackoff o' (k_rnd k) ?s1) =
      (if ?n > clean_budget o'
       then [HealthWarn CleanRestartBudgetExceeded ?n (Some (clean_window o')) None,
             Backoff (orElse (backoffFloorMs o') (orElse (cleanRestartBudgetBackoffMs o') 1000)) (crashCount ?s1) BoBudgetExceeded]
       else [Backoff 0 (crashCount ?s1) BoCleanExit])"
    using b by (simp add: applyBackoff_def Let_def n)
  show ?thesis
  proof (cases "?n > clean_budget o'")
    case True
    then have "Backoff 0 c BoCleanExit \<notin> set evs'" for c
      using spawnOnce_no_backoff degraded_no_backoff by (simp add: evs' bo)
    then show ?thesis using True by (auto simp: evs' bo)
  next
    case False
    then have "Backoff ms c BoBudgetExceeded \<notin> set evs'" for ms c
      using spawnOnce_no_backoff degraded_no_backoff by (simp add: evs' bo)
    then show ?thesis using False by (auto simp: evs' bo)
  qed
qed

definition idle_exits :: "int list" where "idle_exits = [0, 600, 1200, 1800, 2400, 3000, 3600, 4200, 4800, 5400]"

theorem clean_restarts_within_budget_witness:
  "\<exists>c. Backoff 0 c BoCleanExit \<in> set (fst (run_cycle (plain_opts 5) (exits_at 90000 0)
     (snd (snd (run (plain_opts 5) (map (\<lambda>t. exits_at t 0) idle_exits) (False, new_sup))))))"
proof -
  let ?ks = "map (\<lambda>t. exits_at t 0) idle_exits" and ?k = "exits_at 90000 0"
  let ?r = "run (plain_opts 5) ?ks (False, new_sup)"
  let ?c = "run_cycle (plain_opts 5) ?k (snd (snd ?r))"
  have r: "?r = (fst ?r, Continues, fst (snd (snd ?r)), snd (snd (snd ?r)))"
    and c: "run_cycle (plain_opts 5) ?k (fst (snd (snd ?r)), snd (snd (snd ?r))) = (fst ?c, Continues, snd (snd ?c))"
    and n: "length (filter (\<lambda>t. t > k_end ?k - clean_window (plain_opts 5)) (clean_times (?ks @ [?k]))) = 1"
      "clean_budget (plain_opts 5) = 10"
    by code_simp+
  have "\<forall>k \<in> set (?ks @ [?k]). quiet k" "\<forall>x \<in> set ?ks. k_end x \<le> k_end ?k" "clean_outcome (k_outcome ?k)"
    by (auto simp: quiet_def exits_at_def idle_exits_def)
  then show ?thesis
    using clean_restarts_within_budget [OF _ _ r _ c] n by simp
qed

end
