(* ===== verification/Supervisor_Watchdog.thy ===== *)
theory Supervisor_Watchdog
  imports Child_Supervisor Minion_Guarantees
begin

text \<open>
  The health check of the supervisor and its progress watchdog
  (\<open>src/core/minions/supervisor.ts\<close>): the signals it reads from the queue's table
  (\<open>queryWedgeSignals\<close>, evaluated on the model of the database), the wedge predicate, and the
  bounded escalation that restarts the child.  The reconnection of a dead engine is an outcome of
  the environment; \<open>emit\<close> is the list of warnings.  \<open>escalationInFlight\<close> is up only while
  \<open>escalateWedgedWorker\<close> awaits the restart, when \<open>healthInFlight\<close> already holds every other
  check back, so both are one flag of the environment.
\<close>

section \<open>The signals\<close>

record wedge_signals =
  stalled_count :: nat
  activeHealthy :: nat
  waiting_count :: nat
  waitingClaimable :: nat
  lastCompleted :: "int option"
  lastCompletedClaimable :: "int option"

definition count_rows :: "(minion_job \<Rightarrow> bool) \<Rightarrow> minion_job list \<Rightarrow> nat" where
  "count_rows P t = length (filter P t)"

text \<open>SQL's \<open>max\<close>: null on no rows.\<close>

definition max_of :: "int list \<Rightarrow> int option" where
  "max_of xs = (case xs of [] \<Rightarrow> None | x # ys \<Rightarrow> Some (fold max ys x))"

definition due_or_waiting :: "int \<Rightarrow> minion_job \<Rightarrow> bool" where
  "due_or_waiting now r \<longleftrightarrow>
     j_status r = Waiting \<or>
     (j_status r = Delayed \<and> (case j_delay_until r of None \<Rightarrow> False | Some u \<Rightarrow> u \<le> now))"

definition lock_before :: "int \<Rightarrow> minion_job \<Rightarrow> bool" where
  "lock_before now r \<longleftrightarrow> (case j_lock_until r of None \<Rightarrow> False | Some u \<Rightarrow> u < now)"

definition lock_after :: "int \<Rightarrow> minion_job \<Rightarrow> bool" where
  "lock_after now r \<longleftrightarrow> (case j_lock_until r of None \<Rightarrow> False | Some u \<Rightarrow> u > now)"

definition queryWedgeSignals :: "int \<Rightarrow> string \<Rightarrow> string list \<Rightarrow> db \<Rightarrow> wedge_signals" where
  "queryWedgeSignals now queue handlers d =
     (let t = filter (\<lambda>r. j_queue r = queue) (jobs d);
          claimable = (\<lambda>r. j_name r \<in> set handlers);
          completed = (\<lambda>r. j_status r = Completed)
      in \<lparr>stalled_count = count_rows (\<lambda>r. j_status r = Active \<and> lock_before now r) t,
          activeHealthy = count_rows (\<lambda>r. j_status r = Active \<and> lock_after now r) t,
          waiting_count = count_rows (\<lambda>r. j_status r = Waiting) t,
          waitingClaimable = count_rows (\<lambda>r. due_or_waiting now r \<and> claimable r) t,
          lastCompleted = max_of (map j_updated_at (filter completed t)),
          lastCompletedClaimable =
            max_of (map j_updated_at (filter (\<lambda>r. completed r \<and> claimable r) t))\<rparr>)"

section \<open>The health check\<close>

datatype health_event =
    StalledJobs nat
  | NoRecentCompletions nat int
  | WorkerNotAlive
  | WedgeRestartLoop nat
  | RestartingWedgedWorker nat "int option"
  | DbConnectionDegraded nat
  | DbReconnected
  | ReconnectFailed
  | HealthError

record dog_opts =
  wedgeRestartMinutes :: int
  wedgeRestartChecks :: nat
  wedgeRestartLoopBudget :: nat
  wedgeRestartLoopWindowMs :: int
  startupGraceMs :: int

record dog =
  consecutiveHealthFailures :: nat
  consecutiveWedgedChecks :: nat
  wedgeRestartTimestamps :: "int list"
  wedgeLoopAlerted :: bool
  childStartedAt :: "int option"

definition new_dog :: dog where
  "new_dog = \<lparr>consecutiveHealthFailures = 0, consecutiveWedgedChecks = 0, wedgeRestartTimestamps = [],
     wedgeLoopAlerted = False, childStartedAt = None\<rparr>"

record check_env =
  e_in_flight :: bool
  e_signals :: "wedge_signals option"
  e_now :: int
  e_alive :: bool
  e_backoff :: bool
  e_stopping :: bool
  e_reconnects :: bool

definition minutes_since :: "int \<Rightarrow> int option \<Rightarrow> int option" where
  "minutes_since now t = map_option (\<lambda>u. (now - u + 30000) div 60000) t"

definition wedged :: "dog_opts \<Rightarrow> check_env \<Rightarrow> wedge_signals \<Rightarrow> dog \<Rightarrow> bool" where
  "wedged o' e sig s =
     (let age = (case childStartedAt s of None \<Rightarrow> 0 | Some t \<Rightarrow> e_now e - t);
          stale = (case minutes_since (e_now e) (lastCompletedClaimable sig) of
                     None \<Rightarrow> True | Some m \<Rightarrow> m > wedgeRestartMinutes o')
      in wedgeRestartMinutes o' > 0 \<and> waitingClaimable sig > 0 \<and> activeHealthy sig = 0 \<and> stale
         \<and> e_alive e \<and> \<not> e_backoff e \<and> \<not> e_stopping e \<and> age > startupGraceMs o')"

text \<open>\<open>True\<close>: \<open>restartCurrentChild\<close> is called.\<close>

definition escalateWedgedWorker ::
  "dog_opts \<Rightarrow> int \<Rightarrow> nat \<Rightarrow> int option \<Rightarrow> dog \<Rightarrow> health_event list \<times> bool \<times> dog" where
  "escalateWedgedWorker o' now waiting minutes s =
     (let ts = filter (\<lambda>t. t > now - wedgeRestartLoopWindowMs o') (wedgeRestartTimestamps s);
          s1 = s\<lparr>wedgeRestartTimestamps := ts\<rparr>
      in if length ts \<ge> wedgeRestartLoopBudget o'
         then (if wedgeLoopAlerted s1 then [] else [WedgeRestartLoop (length ts)], False,
               s1\<lparr>wedgeLoopAlerted := True, consecutiveWedgedChecks := 0\<rparr>)
         else ([RestartingWedgedWorker waiting minutes], True,
               s1\<lparr>wedgeLoopAlerted := False, wedgeRestartTimestamps := ts @ [now],
                  consecutiveWedgedChecks := 0\<rparr>))"

definition progress_watchdog ::
  "dog_opts \<Rightarrow> check_env \<Rightarrow> wedge_signals \<Rightarrow> dog \<Rightarrow> health_event list \<times> bool \<times> dog" where
  "progress_watchdog o' e sig s =
     (if wedged o' e sig s
      then (let s1 = s\<lparr>consecutiveWedgedChecks := consecutiveWedgedChecks s + 1\<rparr>
            in if consecutiveWedgedChecks s1 \<ge> wedgeRestartChecks o'
               then escalateWedgedWorker o' (e_now e) (waitingClaimable sig)
                      (minutes_since (e_now e) (lastCompletedClaimable sig)) s1
               else ([], False, s1))
      else ([], False, s\<lparr>consecutiveWedgedChecks := 0\<rparr>))"

definition threshold_warnings :: "check_env \<Rightarrow> wedge_signals \<Rightarrow> health_event list" where
  "threshold_warnings e sig =
     (if stalled_count sig > 10 then [StalledJobs (stalled_count sig)] else [])
     @ (case minutes_since (e_now e) (lastCompleted sig) of
          Some m \<Rightarrow> if waiting_count sig > 0 \<and> m > 30 then [NoRecentCompletions (waiting_count sig) m] else []
        | None \<Rightarrow> [])
     @ (if \<not> e_alive e \<and> \<not> e_stopping e \<and> \<not> e_backoff e then [WorkerNotAlive] else [])"

definition healthCheck :: "dog_opts \<Rightarrow> check_env \<Rightarrow> dog \<Rightarrow> health_event list \<times> bool \<times> dog" where
  "healthCheck o' e s =
     (if e_in_flight e then ([], False, s)
      else case e_signals e of
        Some sig \<Rightarrow>
          (case progress_watchdog o' e sig (s\<lparr>consecutiveHealthFailures := 0\<rparr>) of
             (evs, r, s1) \<Rightarrow> (threshold_warnings e sig @ evs, r, s1))
      | None \<Rightarrow>
          (let n = consecutiveHealthFailures s + 1; s1 = s\<lparr>consecutiveHealthFailures := n\<rparr>
           in if n \<ge> 3
              then (if e_reconnects e
                    then ([DbConnectionDegraded n, DbReconnected], False, s1\<lparr>consecutiveHealthFailures := 0\<rparr>)
                    else ([DbConnectionDegraded n, ReconnectFailed], False, s1))
              else ([HealthError], False, s1)))"

text \<open>The part of \<open>relayChildEvent\<close> that changes the state: a fresh child is judged on its own.\<close>

definition relay_spawned :: "int \<Rightarrow> dog \<Rightarrow> dog" where
  "relay_spawned now s = s\<lparr>childStartedAt := Some now, consecutiveWedgedChecks := 0\<rparr>"

datatype dog_event = Spawned int | Check check_env

fun dog_step :: "dog_opts \<Rightarrow> dog_event \<Rightarrow> dog \<Rightarrow> health_event list \<times> bool \<times> dog" where
  "dog_step o' (Spawned now) s = ([], False, relay_spawned now s)"
| "dog_step o' (Check e) s = healthCheck o' e s"

text \<open>The restarts along a run, and the state after it.\<close>

fun dog_run :: "dog_opts \<Rightarrow> dog_event list \<Rightarrow> dog \<Rightarrow> int list \<times> dog" where
  "dog_run o' [] s = ([], s)"
| "dog_run o' (v # vs) s =
     (case dog_step o' v s of (_, r, s1) \<Rightarrow>
        (case dog_run o' vs s1 of (ts, s2) \<Rightarrow>
           ((case v of Check e \<Rightarrow> if r then [e_now e] else [] | Spawned _ \<Rightarrow> []) @ ts, s2)))"


section \<open>When the watchdog restarts\<close>

lemma fold_max_ge: "(x::int) \<le> fold max ys x \<and> (\<forall>y \<in> set ys. y \<le> fold max ys x)"
proof (induction ys arbitrary: x)
  case Nil
  then show ?case by simp
next
  case (Cons y ys)
  have "max y x \<le> fold max ys (max y x)" "\<forall>z \<in> set ys. z \<le> fold max ys (max y x)"
    using Cons.IH by blast+
  then show ?case by simp
qed

lemma max_of_None [simp]: "max_of xs = None \<longleftrightarrow> xs = []"
  by (simp add: max_of_def split: list.splits)

lemma max_of_ge: "x \<in> set xs \<Longrightarrow> \<exists>m. max_of xs = Some m \<and> x \<le> m"
  using fold_max_ge by (cases xs) (auto simp: max_of_def)

lemma count_rows_pos: "0 < count_rows P t \<longleftrightarrow> (\<exists>r \<in> set t. P r)"
  by (auto simp: count_rows_def length_greater_0_conv filter_empty_conv)

lemma count_rows_zero: "count_rows P t = 0 \<longleftrightarrow> (\<forall>r \<in> set t. \<not> P r)"
  by (simp add: count_rows_def filter_empty_conv)

lemma healthCheck_restart:
  assumes "healthCheck o' e s = (evs, True, s')"
  obtains sig where "e_signals e = Some sig" "wedged o' e sig s" "\<not> e_in_flight e"
    "consecutiveWedgedChecks s + 1 \<ge> wedgeRestartChecks o'"
    "length (filter (\<lambda>t. t > e_now e - wedgeRestartLoopWindowMs o') (wedgeRestartTimestamps s)) < wedgeRestartLoopBudget o'"
    "wedgeRestartTimestamps s' =
       filter (\<lambda>t. t > e_now e - wedgeRestartLoopWindowMs o') (wedgeRestartTimestamps s) @ [e_now e]"
proof -
  have "\<not> e_in_flight e" using assms by (auto simp: healthCheck_def)
  moreover obtain sig where sig: "e_signals e = Some sig"
    using assms by (auto simp: healthCheck_def Let_def split: option.splits if_splits)
  moreover have w: "wedged o' e sig (s\<lparr>consecutiveHealthFailures := 0\<rparr>) = wedged o' e sig s"
    by (simp add: wedged_def)
  ultimately show ?thesis
    using that [OF sig] assms
    by (auto simp: healthCheck_def progress_watchdog_def escalateWedgedWorker_def Let_def w
        split: if_splits prod.splits)
qed

text \<open>The watchdog kills a worker only when it must: if a health check that read its signals from
  a database restarts the child, then some job of the queue that the worker could claim is waiting
  or due, no active job of the queue holds an unexpired lock, every completed job of a claimable
  name finished more than \<open>wedgeRestartMinutes\<close> minutes ago, the child is alive, past its startup
  grace and not being stopped, and enough checks in a row have seen this.\<close>

theorem wedge_restart_justified:
  assumes "healthCheck o' e s = (evs, True, s')" "e_signals e = Some (queryWedgeSignals now q handlers d)"
  shows "(\<exists>r \<in> set (jobs d). j_queue r = q \<and> j_name r \<in> set handlers \<and> due_or_waiting now r)
    \<and> (\<forall>r \<in> set (jobs d). \<not> (j_queue r = q \<and> j_status r = Active \<and> lock_after now r))
    \<and> (\<forall>r \<in> set (jobs d). \<not> (j_queue r = q \<and> j_status r = Completed \<and> j_name r \<in> set handlers
          \<and> (e_now e - j_updated_at r + 30000) div 60000 \<le> wedgeRestartMinutes o'))
    \<and> e_alive e \<and> \<not> e_stopping e \<and> consecutiveWedgedChecks s + 1 \<ge> wedgeRestartChecks o'
    \<and> (\<exists>t. childStartedAt s = Some t \<and> e_now e - t > startupGraceMs o' \<or> startupGraceMs o' < 0)"
proof -
  let ?sig = "queryWedgeSignals now q handlers d"
  have w: "wedged o' e ?sig s" and n: "consecutiveWedgedChecks s + 1 \<ge> wedgeRestartChecks o'"
    using healthCheck_restart [OF assms(1)] assms(2) by auto
  have "0 < waitingClaimable ?sig" "activeHealthy ?sig = 0"
    using w by (simp_all add: wedged_def Let_def)
  then have claim: "\<exists>r \<in> set (jobs d). j_queue r = q \<and> j_name r \<in> set handlers \<and> due_or_waiting now r"
    and live: "\<forall>r \<in> set (jobs d). \<not> (j_queue r = q \<and> j_status r = Active \<and> lock_after now r)"
    by (auto simp: queryWedgeSignals_def Let_def count_rows_pos count_rows_zero)
  have fresh: "\<not> (e_now e - j_updated_at r + 30000) div 60000 \<le> wedgeRestartMinutes o'"
    if r: "r \<in> set (jobs d)" "j_queue r = q" "j_status r = Completed" "j_name r \<in> set handlers" for r
  proof -
    have "j_updated_at r \<in> set (map j_updated_at (filter (\<lambda>r. j_status r = Completed \<and> j_name r \<in> set handlers)
        (filter (\<lambda>r. j_queue r = q) (jobs d))))"
      using r by auto
    then obtain m where m: "lastCompletedClaimable ?sig = Some m" "j_updated_at r \<le> m"
      using max_of_ge by (force simp: queryWedgeSignals_def Let_def)
    have "(e_now e - m + 30000) div 60000 > wedgeRestartMinutes o'"
      using w m(1) by (simp add: wedged_def Let_def minutes_since_def)
    moreover have "(e_now e - m + 30000) div 60000 \<le> (e_now e - j_updated_at r + 30000) div 60000"
      using m(2) by (intro zdiv_mono1) simp_all
    ultimately show ?thesis by linarith
  qed
  have "e_alive e" "\<not> e_stopping e"
    "\<exists>t. childStartedAt s = Some t \<and> e_now e - t > startupGraceMs o' \<or> startupGraceMs o' < 0"
    using w by (auto simp: wedged_def Let_def split: option.splits)
  with claim live fresh n show ?thesis by blast
qed

section \<open>How often it restarts\<close>

fun check_time :: "dog_event \<Rightarrow> int list" where
  "check_time (Check e) = [e_now e]"
| "check_time (Spawned _) = []"

definition check_times :: "dog_event list \<Rightarrow> int list" where
  "check_times vs = concat (map check_time vs)"

lemma check_times_simps [simp]:
  "check_times [] = []" "check_times (v # vs) = check_time v @ check_times vs"
  "check_times (us @ vs) = check_times us @ check_times vs"
  by (simp_all add: check_times_def)

text \<open>The recorded restarts are the restarts, up to what has left the window.\<close>

definition logs :: "dog_opts \<Rightarrow> int list \<Rightarrow> int list \<Rightarrow> dog \<Rightarrow> bool" where
  "logs o' past restarts s \<longleftrightarrow>
     (\<forall>c. (\<forall>t \<in> set past. t - wedgeRestartLoopWindowMs o' \<le> c) \<longrightarrow>
        filter (\<lambda>t. t > c) (wedgeRestartTimestamps s) = filter (\<lambda>t. t > c) restarts)"

lemma healthCheck_log:
  assumes "healthCheck o' e s = (evs, r, s')"
  shows "wedgeRestartTimestamps s' = wedgeRestartTimestamps s \<and> \<not> r \<or>
    wedgeRestartTimestamps s' =
      filter (\<lambda>t. t > e_now e - wedgeRestartLoopWindowMs o') (wedgeRestartTimestamps s) @ (if r then [e_now e] else [])"
  using assms
  by (auto simp: healthCheck_def progress_watchdog_def escalateWedgedWorker_def Let_def
      split: if_splits prod.splits option.splits)

lemma logs_check:
  assumes "logs o' past restarts s" "healthCheck o' e s = (evs, r, s')"
  shows "logs o' (past @ [e_now e]) (restarts @ (if r then [e_now e] else [])) s'"
  unfolding logs_def
proof (intro allI impI)
  fix c assume c: "\<forall>t \<in> set (past @ [e_now e]). t - wedgeRestartLoopWindowMs o' \<le> c"
  then have cut: "e_now e - wedgeRestartLoopWindowMs o' \<le> c" by simp
  have old: "filter (\<lambda>t. t > c) (wedgeRestartTimestamps s) = filter (\<lambda>t. t > c) restarts"
    using assms(1) c by (simp add: logs_def)
  show "filter (\<lambda>t. t > c) (wedgeRestartTimestamps s') =
      filter (\<lambda>t. t > c) (restarts @ (if r then [e_now e] else []))"
    using healthCheck_log [OF assms(2)]
  proof
    assume "wedgeRestartTimestamps s' = wedgeRestartTimestamps s \<and> \<not> r"
    then show ?thesis using old by simp
  next
    assume "wedgeRestartTimestamps s' =
      filter (\<lambda>t. t > e_now e - wedgeRestartLoopWindowMs o') (wedgeRestartTimestamps s) @ (if r then [e_now e] else [])"
    then show ?thesis
      unfolding filter_append by (simp only: filter_append filter_cut [OF cut] old)
  qed
qed

lemma logs_run:
  "logs o' past restarts s \<Longrightarrow>
   logs o' (past @ check_times vs) (restarts @ fst (dog_run o' vs s)) (snd (dog_run o' vs s))"
proof (induction vs arbitrary: past restarts s)
  case Nil
  then show ?case by simp
next
  case (Cons v vs)
  obtain evs r s1 where st: "dog_step o' v s = (evs, r, s1)" by (metis prod_cases3)
  let ?now = "case v of Check e \<Rightarrow> if r then [e_now e] else [] | Spawned _ \<Rightarrow> []"
  have "logs o' (past @ check_time v) (restarts @ ?now) s1"
  proof (cases v)
    case (Spawned t)
    then show ?thesis using st Cons.prems by (auto simp: logs_def relay_spawned_def)
  next
    case (Check e)
    then show ?thesis using st logs_check [OF Cons.prems] by simp
  qed
  from Cons.IH [OF this] show ?case
    using st by (cases "dog_run o' vs s1") simp
qed

text \<open>Restarts are rationed: along any run of spawns and health checks with a clock that does not
  go back, every restart is at most the \<open>wedgeRestartLoopBudget\<close>-th inside the sliding window that
  ends with it.\<close>

theorem wedge_restarts_rationed:
  assumes "dog_run o' vs new_dog = (restarts, s)" "healthCheck o' e s = (evs, True, s')"
    and "\<forall>t \<in> set (check_times vs). t \<le> e_now e"
  shows "length (filter (\<lambda>t. t > e_now e - wedgeRestartLoopWindowMs o') (restarts @ [e_now e]))
    \<le> wedgeRestartLoopBudget o'"
proof -
  have "logs o' [] [] new_dog" by (simp add: logs_def new_dog_def)
  then have "logs o' (check_times vs) restarts s"
    using logs_run [of o' "[]" "[]" new_dog vs] assms(1) by simp
  then have "filter (\<lambda>t. t > e_now e - wedgeRestartLoopWindowMs o') (wedgeRestartTimestamps s) =
      filter (\<lambda>t. t > e_now e - wedgeRestartLoopWindowMs o') restarts"
    using assms(3) by (simp add: logs_def)
  moreover have "length (filter (\<lambda>t. t > e_now e - wedgeRestartLoopWindowMs o') (wedgeRestartTimestamps s))
      < wedgeRestartLoopBudget o'"
    using healthCheck_restart [OF assms(2)] by blast
  moreover have "length (filter P (xs @ [x])) \<le> Suc (length (filter P xs))" for P and xs :: "int list" and x
    by simp
  ultimately show ?thesis by (metis Suc_leI order_trans)
qed


section \<open>A run of the watchdog\<close>

definition dog_defaults :: dog_opts where
  "dog_defaults = \<lparr>wedgeRestartMinutes = 15, wedgeRestartChecks = 3, wedgeRestartLoopBudget = 3,
     wedgeRestartLoopWindowMs = 1800000, startupGraceMs = 120000\<rparr>"

definition check_at :: "int \<Rightarrow> check_env" where
  "check_at t = \<lparr>e_in_flight = False, e_signals = Some (queryWedgeSignals t ''default'' [''sync''] one_job),
     e_now = t, e_alive = True, e_backoff = False, e_stopping = False, e_reconnects = False\<rparr>"

definition wedge_prefix :: "dog_event list" where
  "wedge_prefix = [Spawned 0, Check (check_at 130000), Check (check_at 190000), Check (check_at 250000),
     Spawned 251000, Check (check_at 400000), Check (check_at 460000)]"

lemma wedge_run:
  "healthCheck dog_defaults (check_at 520000) (snd (dog_run dog_defaults wedge_prefix new_dog)) =
     ([RestartingWedgedWorker 1 None], True,
      snd (snd (healthCheck dog_defaults (check_at 520000) (snd (dog_run dog_defaults wedge_prefix new_dog)))))"
  "fst (dog_run dog_defaults wedge_prefix new_dog) = [250000]"
  by code_simp+

theorem wedge_restart_justified_witness:
  "\<exists>r \<in> set (jobs one_job). j_name r = ''sync'' \<and> due_or_waiting 520000 r"
  using wedge_restart_justified [OF wedge_run(1), of 520000 "''default''" "[''sync'']" one_job]
  by (auto simp: check_at_def)

theorem wedge_restarts_rationed_witness:
  "fst (dog_run dog_defaults wedge_prefix new_dog) = [250000] \<and> length [250000, 520000::int] \<le> wedgeRestartLoopBudget dog_defaults"
proof -
  let ?s = "snd (dog_run dog_defaults wedge_prefix new_dog)"
  have "dog_run dog_defaults wedge_prefix new_dog = ([250000], ?s)"
    using wedge_run(2) by (metis prod.collapse)
  moreover have "\<forall>t \<in> set (check_times wedge_prefix). t \<le> e_now (check_at 520000)"
    by (simp add: wedge_prefix_def check_at_def)
  ultimately show ?thesis
    using wedge_restarts_rationed [of dog_defaults wedge_prefix "[250000]", OF _ wedge_run(1)] wedge_run(2)
    by (simp add: check_at_def dog_defaults_def)
qed

end
