(* ===== verification/Db_Lock.thy ===== *)
theory Db_Lock
  imports Prelude "HOL-Library.Sublist"
begin

text \<open>
  The database lock (\<open>src/core/db-lock.ts\<close>) that serializes sync, the maintenance cycle, the
  supervisor and the controller elections: acquisition with a time to live, the heartbeat, the
  release, the automatic takeover of a dead local holder, the reaper, and the operator's
  break-lock statements, on the table \<open>gbrain_cycle_locks\<close>.

  Times are milliseconds of one clock.  The two engines run the same statements; one definition
  stands for both.  The liveness probe \<open>process.kill(pid, 0)\<close> is a function argument, the
  environment override of the steal grace is the parsed number.  A call of \<open>tryAcquireDbLock\<close> is one
  step: its statements are not interleaved with those of other processes.
\<close>

section \<open>Rows and snapshots\<close>

record lock_row =
  k_id :: string
  k_pid :: int
  k_host :: string
  k_acquired :: int
  k_ttl :: int
  k_refreshed :: "int option"

record lock_snapshot =
  s_id :: string
  s_pid :: int
  s_host :: string
  s_acquired :: int
  s_ttl :: int
  s_age_ms :: int
  s_ttl_expired :: bool
  s_last_refreshed :: "int option"
  s_ms_since_last_refresh :: "int option"

definition rowToLockSnapshot :: "lock_row \<Rightarrow> int \<Rightarrow> lock_snapshot" where
  "rowToLockSnapshot r now =
     \<lparr>s_id = k_id r, s_pid = k_pid r, s_host = k_host r, s_acquired = k_acquired r, s_ttl = k_ttl r,
      s_age_ms = now - k_acquired r, s_ttl_expired = (k_ttl r < now), s_last_refreshed = k_refreshed r,
      s_ms_since_last_refresh = map_option (\<lambda>t. now - t) (k_refreshed r)\<rparr>"

text \<open>The modes of the reader: one id, only the stale rows, or all; the last two in order of
  acquisition.\<close>

datatype select_mode = ById string | StaleOnly | AllRows

definition selectLockRows :: "select_mode \<Rightarrow> int \<Rightarrow> lock_row list \<Rightarrow> lock_snapshot list" where
  "selectLockRows mode now t =
     (case mode of
        ById i \<Rightarrow> map (\<lambda>r. rowToLockSnapshot r now) (filter (\<lambda>r. k_id r = i) t)
      | StaleOnly \<Rightarrow> map (\<lambda>r. rowToLockSnapshot r now) (sort_key k_acquired (filter (\<lambda>r. k_ttl r < now) t))
      | AllRows \<Rightarrow> map (\<lambda>r. rowToLockSnapshot r now) (sort_key k_acquired t))"

definition inspectLock :: "string \<Rightarrow> int \<Rightarrow> lock_row list \<Rightarrow> lock_snapshot option" where
  "inspectLock i now t = (case selectLockRows (ById i) now t of [] \<Rightarrow> None | s # _ \<Rightarrow> Some s)"

definition listStaleLocks :: "int \<Rightarrow> lock_row list \<Rightarrow> lock_snapshot list" where
  "listStaleLocks now t = selectLockRows StaleOnly now t"

section \<open>Liveness of a holder\<close>

definition DEFAULT_TTL_MINUTES :: int where "DEFAULT_TTL_MINUTES = 30"
definition HOLDER_TAKEOVER_GRACE_MS :: int where "HOLDER_TAKEOVER_GRACE_MS = 60000"

definition resolveStealGraceSeconds :: "int option \<Rightarrow> int \<Rightarrow> int" where
  "resolveStealGraceSeconds env ttlMinutes =
     (case env of
        Some n \<Rightarrow> if n > 0 then n else max (2 * max 15 (ttlMinutes * 10)) 60
      | None \<Rightarrow> max (2 * max 15 (ttlMinutes * 10)) 60)"

datatype probe = ProbeAlive | ProbeEsrch | ProbeEperm | ProbeOther

datatype liveness = CrossHost | HolderAlive | TooYoung | DeadEligible | UnknownHolder

definition classifyHolderLiveness ::
  "int \<Rightarrow> string \<Rightarrow> int \<Rightarrow> int \<Rightarrow> string \<Rightarrow> (int \<Rightarrow> probe) \<Rightarrow> liveness" where
  "classifyHolderLiveness pid host ageMs graceMs localHost kill =
     (if host \<noteq> localHost then CrossHost
      else case kill pid of
        ProbeAlive \<Rightarrow> HolderAlive
      | ProbeEperm \<Rightarrow> HolderAlive
      | ProbeOther \<Rightarrow> UnknownHolder
      | ProbeEsrch \<Rightarrow> if ageMs < graceMs then TooYoung else DeadEligible)"

definition isHolderDeadLocally :: "int \<Rightarrow> string \<Rightarrow> int \<Rightarrow> string \<Rightarrow> (int \<Rightarrow> probe) \<Rightarrow> bool" where
  "isHolderDeadLocally pid host ageMs localHost kill =
     (classifyHolderLiveness pid host ageMs HOLDER_TAKEOVER_GRACE_MS localHost kill = DeadEligible)"

definition isLockHolderLive :: "int option \<Rightarrow> lock_snapshot \<Rightarrow> int \<Rightarrow> bool" where
  "isLockHolderLive env snap ttlMinutes =
     (if \<not> s_ttl_expired snap then True
      else case s_ms_since_last_refresh snap of
        None \<Rightarrow> False
      | Some ms \<Rightarrow> ms < resolveStealGraceSeconds env ttlMinutes * 1000)"

section \<open>Statements\<close>

definition deleteLockRow :: "string \<Rightarrow> int \<Rightarrow> lock_row list \<Rightarrow> bool \<times> lock_row list" where
  "deleteLockRow i pid t =
     (list_ex (\<lambda>r. k_id r = i \<and> k_pid r = pid) t, delete_where (\<lambda>r. k_id r = i \<and> k_pid r = pid) t)"

definition deleteLockRowIfStale ::
  "string \<Rightarrow> int \<Rightarrow> int \<Rightarrow> int \<Rightarrow> lock_row list \<Rightarrow> int option \<times> lock_row list" where
  "deleteLockRowIfStale i pid maxAgeSeconds now t =
     (let P = (\<lambda>r. k_id r = i \<and> k_pid r = pid \<and>
                   (case k_refreshed r of None \<Rightarrow> False | Some u \<Rightarrow> u < now - maxAgeSeconds * 1000))
      in (case filter P t of [] \<Rightarrow> None | r # _ \<Rightarrow> k_refreshed r, delete_where P t))"

definition deleteLockRowExact :: "string \<Rightarrow> int \<Rightarrow> int \<Rightarrow> lock_row list \<Rightarrow> bool \<times> lock_row list" where
  "deleteLockRowExact i pid acquired t =
     (list_ex (\<lambda>r. k_id r = i \<and> k_pid r = pid \<and> k_acquired r = acquired) t,
      delete_where (\<lambda>r. k_id r = i \<and> k_pid r = pid \<and> k_acquired r = acquired) t)"

definition new_lock :: "string \<Rightarrow> int \<Rightarrow> string \<Rightarrow> int \<Rightarrow> int \<Rightarrow> lock_row" where
  "new_lock i pid host ttlMinutes now =
     \<lparr>k_id = i, k_pid = pid, k_host = host, k_acquired = now, k_ttl = now + ttlMinutes * 60000,
      k_refreshed = Some now\<rparr>"

definition stealable :: "int \<Rightarrow> int \<Rightarrow> lock_row \<Rightarrow> bool" where
  "stealable graceSeconds now r \<longleftrightarrow>
     k_ttl r < now \<and> (case k_refreshed r of None \<Rightarrow> True | Some u \<Rightarrow> u < now - graceSeconds * 1000)"

text \<open>\<open>INSERT .. ON CONFLICT (id) DO UPDATE .. WHERE .. RETURNING id\<close>.\<close>

definition acquireOnce ::
  "int \<Rightarrow> string \<Rightarrow> int \<Rightarrow> string \<Rightarrow> int \<Rightarrow> int \<Rightarrow> lock_row list \<Rightarrow> bool \<times> lock_row list" where
  "acquireOnce graceSeconds i pid host ttlMinutes now t =
     (case List.find (\<lambda>r. k_id r = i) t of
        None \<Rightarrow> (True, t @ [new_lock i pid host ttlMinutes now])
      | Some r \<Rightarrow>
          if stealable graceSeconds now r
          then (True, update_where (\<lambda>r. k_id r = i) (\<lambda>_. new_lock i pid host ttlMinutes now) t)
          else (False, t))"

definition tryAcquireDbLock ::
  "int option \<Rightarrow> (int \<Rightarrow> probe) \<Rightarrow> string \<Rightarrow> int \<Rightarrow> string \<Rightarrow> int \<Rightarrow> int \<Rightarrow> lock_row list \<Rightarrow> bool \<times> lock_row list" where
  "tryAcquireDbLock env kill i pid host ttlMinutes now t =
     (let grace = resolveStealGraceSeconds env ttlMinutes
      in case acquireOnce grace i pid host ttlMinutes now t of
           (True, t1) \<Rightarrow> (True, t1)
         | (False, t1) \<Rightarrow>
             (case inspectLock i now t1 of
                None \<Rightarrow> (False, t1)
              | Some s \<Rightarrow>
                  if \<not> s_ttl_expired s \<and> isHolderDeadLocally (s_pid s) (s_host s) (s_age_ms s) host kill
                  then (case deleteLockRow i (s_pid s) t1 of
                          (True, t2) \<Rightarrow> acquireOnce grace i pid host ttlMinutes now t2
                        | (False, t2) \<Rightarrow> (False, t2))
                  else (False, t1)))"

text \<open>The two methods of a handle.\<close>

definition refresh_lock :: "string \<Rightarrow> int \<Rightarrow> int \<Rightarrow> int \<Rightarrow> lock_row list \<Rightarrow> lock_row list" where
  "refresh_lock i pid ttlMinutes now t =
     update_where (\<lambda>r. k_id r = i \<and> k_pid r = pid)
       (\<lambda>r. r\<lparr>k_ttl := now + ttlMinutes * 60000, k_refreshed := Some now\<rparr>) t"

definition release_lock :: "string \<Rightarrow> int \<Rightarrow> lock_row list \<Rightarrow> lock_row list" where
  "release_lock i pid t = delete_where (\<lambda>r. k_id r = i \<and> k_pid r = pid) t"

text \<open>The two wrappers.  What runs under the lock is a transformer of the table that answers with an
  error or a value; \<open>released\<close> says whether the statement of the release went through (its failure is
  swallowed).  While \<open>withRefreshingLock\<close> works, its timer fires and other processes write: a tick
  whose statement is lost, or one that lands after the timeout, only clears the health flag.\<close>

definition tryWithDbElection ::
  "int option \<Rightarrow> (int \<Rightarrow> probe) \<Rightarrow> string \<Rightarrow> int \<Rightarrow> string \<Rightarrow> int \<Rightarrow> int
   \<Rightarrow> (lock_row list \<Rightarrow> ('e + 'a) \<times> lock_row list) \<Rightarrow> bool \<Rightarrow> lock_row list \<Rightarrow> ('e + 'a option) \<times> lock_row list" where
  "tryWithDbElection env kill i pid host ttlMinutes now f released t =
     (case tryAcquireDbLock env kill i pid host ttlMinutes now t of
        (False, t1) \<Rightarrow> (Inr None, t1)
      | (True, t1) \<Rightarrow>
          (case f t1 of
             (r, t2) \<Rightarrow> (map_sum id Some r, if released then release_lock i pid t2 else t2)))"

datatype refresh_outcome = Refreshed | RefreshLost | RefreshLate

datatype lock_event = Tick int refresh_outcome | Meanwhile "lock_row list \<Rightarrow> lock_row list"

fun work_under_lock ::
  "string \<Rightarrow> int \<Rightarrow> int \<Rightarrow> lock_event list \<Rightarrow> bool \<times> lock_row list \<Rightarrow> bool \<times> lock_row list" where
  "work_under_lock i pid ttlMinutes [] s = s"
| "work_under_lock i pid ttlMinutes (Tick now Refreshed # es) (healthOk, t) =
     work_under_lock i pid ttlMinutes es (True, refresh_lock i pid ttlMinutes now t)"
| "work_under_lock i pid ttlMinutes (Tick now RefreshLost # es) (healthOk, t) =
     work_under_lock i pid ttlMinutes es (False, t)"
| "work_under_lock i pid ttlMinutes (Tick now RefreshLate # es) (healthOk, t) =
     work_under_lock i pid ttlMinutes es (False, refresh_lock i pid ttlMinutes now t)"
| "work_under_lock i pid ttlMinutes (Meanwhile f # es) (healthOk, t) =
     work_under_lock i pid ttlMinutes es (healthOk, f t)"

datatype 'e lock_error = LockUnavailable string | WorkError 'e

definition withRefreshingLock ::
  "int option \<Rightarrow> (int \<Rightarrow> probe) \<Rightarrow> string \<Rightarrow> int \<Rightarrow> string \<Rightarrow> int \<Rightarrow> int
   \<Rightarrow> lock_event list \<Rightarrow> 'e + 'a \<Rightarrow> bool \<Rightarrow> lock_row list
   \<Rightarrow> ('e lock_error + 'a) \<times> bool \<times> lock_row list" where
  "withRefreshingLock env kill i pid host ttlMinutes now es result released t =
     (case tryAcquireDbLock env kill i pid host ttlMinutes now t of
        (False, t1) \<Rightarrow> (Inl (LockUnavailable i), False, t1)
      | (True, t1) \<Rightarrow>
          (case work_under_lock i pid ttlMinutes es (True, t1) of
             (healthOk, t2) \<Rightarrow>
               (map_sum WorkError id result, \<not> healthOk,
                if released then release_lock i pid t2 else t2)))"

definition refreshIntervalMs :: "int \<Rightarrow> int" where
  "refreshIntervalMs ttlMinutes = max 15000 (ttlMinutes * 10000)"

definition buildTenantLockId :: "bool \<Rightarrow> string option option \<Rightarrow> string \<Rightarrow> string" where
  "buildTenantLockId is_postgres database scope =
     (if is_postgres
      then (case database of
              None \<Rightarrow> scope @ '':unknown''
            | Some d \<Rightarrow> scope @ '':'' @
                (case d of None \<Rightarrow> ''unknown'' | Some db \<Rightarrow> if db = [] then ''unknown'' else db))
      else scope @ '':pglite'')"

section \<open>The reaper and the sync lock\<close>

definition isReapableNamespace :: "string \<Rightarrow> bool" where
  "isReapableNamespace i \<longleftrightarrow> i = ''gbrain-cycle'' \<or> prefix ''gbrain-cycle:'' i \<or> prefix ''gbrain-sync:'' i"

fun reap_rows :: "string \<Rightarrow> (int \<Rightarrow> probe) \<Rightarrow> lock_snapshot list \<Rightarrow> lock_row list \<Rightarrow> string list \<times> lock_row list" where
  "reap_rows localHost kill [] t = ([], t)"
| "reap_rows localHost kill (s # ss) t =
     (if \<not> isReapableNamespace (s_id s) \<or> \<not> isHolderDeadLocally (s_pid s) (s_host s) (s_age_ms s) localHost kill
      then reap_rows localHost kill ss t
      else (case deleteLockRowExact (s_id s) (s_pid s) (s_acquired s) t of
              (gone, t1) \<Rightarrow>
                (case reap_rows localHost kill ss t1 of
                   (ids, t2) \<Rightarrow> (if gone then s_id s # ids else ids, t2))))"

definition reapDeadHolderLocks ::
  "string \<Rightarrow> (int \<Rightarrow> probe) \<Rightarrow> int \<Rightarrow> lock_row list \<Rightarrow> string list \<times> lock_row list" where
  "reapDeadHolderLocks localHost kill now t = reap_rows localHost kill (selectLockRows AllRows now t) t"

definition syncLockId :: "string \<Rightarrow> string" where
  "syncLockId source = ''gbrain-sync:'' @ source"

definition liveSyncStatus :: "string \<Rightarrow> int \<Rightarrow> lock_row list \<Rightarrow> (int \<times> string) option" where
  "liveSyncStatus source now t =
     (case inspectLock (syncLockId source) now t of
        Some s \<Rightarrow> if \<not> s_ttl_expired s then Some (s_pid s, s_host s) else None
      | None \<Rightarrow> None)"


section \<open>What the statements do\<close>

lemma find_id_None: "List.find (\<lambda>r. k_id r = i) t = None \<longleftrightarrow> (\<forall>r \<in> set t. k_id r \<noteq> i)"
  by (auto simp: find_None_iff)

lemma find_id_Some:
  assumes "distinct (map k_id t)"
  shows "List.find (\<lambda>r. k_id r = i) t = Some r \<longleftrightarrow> r \<in> set t \<and> k_id r = i"
proof
  assume "List.find (\<lambda>r. k_id r = i) t = Some r"
  then show "r \<in> set t \<and> k_id r = i" by (auto simp: find_Some_iff)
next
  assume r: "r \<in> set t \<and> k_id r = i"
  then obtain r' where r': "List.find (\<lambda>r. k_id r = i) t = Some r'"
    using find_id_None [of i t] by (cases "List.find (\<lambda>r. k_id r = i) t") auto
  then have "r' \<in> set t" "k_id r' = i" by (auto simp: find_Some_iff)
  then have "r' = r" using r distinct_key_unique [OF assms] by blast
  with r' show "List.find (\<lambda>r. k_id r = i) t = Some r" by simp
qed

lemma acquireOnce_False: "acquireOnce g i pid host ttl now t = (False, t') \<Longrightarrow> t' = t"
  by (auto simp: acquireOnce_def split: option.splits if_splits)

lemma acquireOnce_True:
  assumes "acquireOnce g i pid host ttl now t = (True, t')" "distinct (map k_id t)"
  shows "\<forall>r \<in> set t. k_id r = i \<longrightarrow> stealable g now r"
    and "set t' = insert (new_lock i pid host ttl now) {r \<in> set t. k_id r \<noteq> i}"
    and "distinct (map k_id t')"
proof -
  let ?new = "new_lock i pid host ttl now"
  have key: "k_id ?new = i" by (simp add: new_lock_def)
  show "\<forall>r \<in> set t. k_id r = i \<longrightarrow> stealable g now r"
  proof (intro ballI impI)
    fix r assume "r \<in> set t" "k_id r = i"
    then have "List.find (\<lambda>r. k_id r = i) t = Some r" using find_id_Some [OF assms(2)] by blast
    then show "stealable g now r" using assms(1) by (simp add: acquireOnce_def split: if_splits)
  qed
  show "set t' = insert ?new {r \<in> set t. k_id r \<noteq> i}"
  proof (cases "List.find (\<lambda>r. k_id r = i) t")
    case None
    then have "t' = t @ [?new]" "\<forall>r \<in> set t. k_id r \<noteq> i"
      using assms(1) find_id_None [of i t] by (simp_all add: acquireOnce_def)
    then show ?thesis by auto
  next
    case (Some r)
    then have "t' = update_where (\<lambda>r. k_id r = i) (\<lambda>_. ?new) t"
      using assms(1) by (simp add: acquireOnce_def split: if_splits)
    moreover have "r \<in> set t" "k_id r = i" using Some find_id_Some [OF assms(2)] by simp_all
    ultimately show ?thesis by (auto simp: set_update_where)
  qed
  show "distinct (map k_id t')"
  proof (cases "List.find (\<lambda>r. k_id r = i) t")
    case None
    then have "t' = t @ [?new]" "\<forall>r \<in> set t. k_id r \<noteq> i"
      using assms(1) find_id_None [of i t] by (simp_all add: acquireOnce_def)
    then show ?thesis using assms(2) by (auto simp: key)
  next
    case (Some r)
    then have t': "t' = update_where (\<lambda>r. k_id r = i) (\<lambda>_. ?new) t"
      using assms by (auto simp: acquireOnce_def split: if_splits)
    have "map k_id t' = map k_id t"
      unfolding t' by (induction t) (simp_all add: key)
    then show ?thesis using assms(2) by simp
  qed
qed

lemma inspectLock_find: "inspectLock i now t = map_option (\<lambda>r. rowToLockSnapshot r now) (List.find (\<lambda>r. k_id r = i) t)"
  by (induction t) (simp_all add: inspectLock_def selectLockRows_def)

text \<open>A successful acquisition went through the upsert, perhaps after removing the row of a holder
  whose process is gone from this host.\<close>

definition dead_here :: "string \<Rightarrow> (int \<Rightarrow> probe) \<Rightarrow> int \<Rightarrow> lock_row \<Rightarrow> bool" where
  "dead_here host kill now r \<longleftrightarrow> k_host r = host \<and> kill (k_pid r) = ProbeEsrch \<and> now - k_acquired r \<ge> HOLDER_TAKEOVER_GRACE_MS"

lemma isHolderDeadLocally_iff:
  "isHolderDeadLocally (k_pid r) (k_host r) (now - k_acquired r) host kill \<longleftrightarrow> dead_here host kill now r"
  by (auto simp: isHolderDeadLocally_def classifyHolderLiveness_def dead_here_def split: probe.splits)

lemma tryAcquire_cases:
  assumes "tryAcquireDbLock env kill i pid host ttl now t = (ok, t')" "distinct (map k_id t)"
  obtains (busy) "\<not> ok" "t' = t"
  | (upsert) "ok" "acquireOnce (resolveStealGraceSeconds env ttl) i pid host ttl now t = (True, t')"
  | (takeover) r where "ok" "r \<in> set t" "k_id r = i" "\<not> k_ttl r < now" "dead_here host kill now r"
      "acquireOnce (resolveStealGraceSeconds env ttl) i pid host ttl now (delete_where (\<lambda>x. k_id x = i) t) = (True, t')"
proof (cases "acquireOnce (resolveStealGraceSeconds env ttl) i pid host ttl now t")
  case (Pair ok1 t1)
  show ?thesis
  proof (cases ok1)
    case True
    then show ?thesis using upsert assms(1) Pair by (simp add: tryAcquireDbLock_def)
  next
    case False
    then have t1: "t1 = t" using Pair by (auto dest: acquireOnce_False)
    show ?thesis
    proof (cases "List.find (\<lambda>r. k_id r = i) t")
      case None
      then show ?thesis
        using busy assms(1) Pair False t1 by (simp add: tryAcquireDbLock_def inspectLock_find)
    next
      case (Some r)
      then have r: "r \<in> set t" "k_id r = i" using find_id_Some [OF assms(2)] by auto
      show ?thesis
      proof (cases "\<not> k_ttl r < now \<and> dead_here host kill now r")
        case dead: True
        have "\<exists>x \<in> set t. k_id x = i \<and> k_pid x = k_pid r" using r by blast
        moreover have "(\<lambda>x. k_id x = i \<and> k_pid x = k_pid r) x = (k_id x = i)" if "x \<in> set t" for x
          using distinct_key_unique [OF assms(2) that r(1)] r(2) by auto
        then have "delete_where (\<lambda>x. k_id x = i \<and> k_pid x = k_pid r) t = delete_where (\<lambda>x. k_id x = i) t"
          unfolding delete_where_def by (intro filter_cong) auto
        ultimately have del: "deleteLockRow i (k_pid r) t = (True, delete_where (\<lambda>x. k_id x = i) t)"
          by (auto simp: deleteLockRow_def list_ex_iff)
        have "tryAcquireDbLock env kill i pid host ttl now t =
            acquireOnce (resolveStealGraceSeconds env ttl) i pid host ttl now (delete_where (\<lambda>x. k_id x = i) t)"
          using Pair False t1 Some dead del
          by (simp add: tryAcquireDbLock_def Let_def inspectLock_find rowToLockSnapshot_def isHolderDeadLocally_iff)
        moreover have "List.find (\<lambda>r. k_id r = i) (delete_where (\<lambda>x. k_id x = i) t) = None"
          by (simp add: find_id_None)
        ultimately show ?thesis
          using takeover [OF _ r] dead assms(1) by (simp add: acquireOnce_def)
      next
        case alive: False
        then show ?thesis
          using busy assms(1) Pair False t1 Some
          by (auto simp: tryAcquireDbLock_def Let_def inspectLock_find rowToLockSnapshot_def isHolderDeadLocally_iff
              split: if_splits)
      qed
    qed
  qed
qed


section \<open>Processes that follow the protocol\<close>

text \<open>
  The processes that share the table.  A process is its pid, on the host \<open>host_of pid\<close>: that pids
  are different on different hosts is a hypothesis of this system (without it the lock is not
  exclusive, as \<open>pid_collision_breaks_exclusion\<close> shows).  Every lock id has one time to live.  A
  process acquires an id only while it has no handle for it, a crash takes its handles with it,
  and the liveness probe never calls a live process of its own host dead.
\<close>

record handle =
  h_id :: string
  h_pid :: int
  h_last :: int

record lock_sys =
  lock_rows :: "lock_row list"
  handles :: "handle list"
  live_pids :: "int list"
  clock :: int

definition truthful :: "(int \<Rightarrow> string) \<Rightarrow> string \<Rightarrow> int list \<Rightarrow> (int \<Rightarrow> probe) \<Rightarrow> bool" where
  "truthful host_of host pids kill \<longleftrightarrow> (\<forall>p \<in> set pids. host_of p = host \<longrightarrow> kill p \<noteq> ProbeEsrch)"

inductive lock_step :: "(int \<Rightarrow> string) \<Rightarrow> (string \<Rightarrow> int) \<Rightarrow> int option \<Rightarrow> lock_sys \<Rightarrow> lock_sys \<Rightarrow> bool"
  for host_of ttl_of env where
  k_acquire: "pid \<in> set (live_pids s) \<Longrightarrow> \<forall>h \<in> set (handles s). \<not> (h_id h = i \<and> h_pid h = pid) \<Longrightarrow>
     truthful host_of (host_of pid) (live_pids s) kill \<Longrightarrow>
     tryAcquireDbLock env kill i pid (host_of pid) (ttl_of i) (clock s) (lock_rows s) = (ok, t) \<Longrightarrow>
     lock_step host_of ttl_of env s (s\<lparr>lock_rows := t,
       handles := (if ok then [\<lparr>h_id = i, h_pid = pid, h_last = clock s\<rparr>] else []) @ handles s\<rparr>)"
| k_refresh: "h \<in> set (handles s) \<Longrightarrow>
     lock_step host_of ttl_of env s (s\<lparr>
       lock_rows := refresh_lock (h_id h) (h_pid h) (ttl_of (h_id h)) (clock s) (lock_rows s),
       handles := map (\<lambda>g. if g = h \<and> list_ex (\<lambda>r. k_id r = h_id h \<and> k_pid r = h_pid h) (lock_rows s)
                           then g\<lparr>h_last := clock s\<rparr> else g) (handles s)\<rparr>)"
| k_release: "h \<in> set (handles s) \<Longrightarrow>
     lock_step host_of ttl_of env s (s\<lparr>lock_rows := release_lock (h_id h) (h_pid h) (lock_rows s),
       handles := filter (\<lambda>g. \<not> (h_id g = h_id h \<and> h_pid g = h_pid h)) (handles s)\<rparr>)"
| k_crash: "lock_step host_of ttl_of env s (s\<lparr>live_pids := removeAll pid (live_pids s),
       handles := filter (\<lambda>g. h_pid g \<noteq> pid) (handles s)\<rparr>)"
| k_spawn: "lock_step host_of ttl_of env s (s\<lparr>live_pids := pid # live_pids s\<rparr>)"
| k_reap: "truthful host_of host (live_pids s) kill \<Longrightarrow>
     reapDeadHolderLocks host kill (clock s) (lock_rows s) = (ids, t) \<Longrightarrow>
     lock_step host_of ttl_of env s (s\<lparr>lock_rows := t\<rparr>)"
| k_tick: "0 \<le> d \<Longrightarrow> lock_step host_of ttl_of env s (s\<lparr>clock := clock s + d\<rparr>)"

text \<open>A handle is fresh until the time to live of its last acquisition or refresh has run out.\<close>

definition fresh :: "(string \<Rightarrow> int) \<Rightarrow> lock_sys \<Rightarrow> handle \<Rightarrow> bool" where
  "fresh ttl_of s h \<longleftrightarrow> clock s \<le> h_last h + ttl_of (h_id h) * 60000"

definition backs :: "(int \<Rightarrow> string) \<Rightarrow> (string \<Rightarrow> int) \<Rightarrow> handle \<Rightarrow> lock_row \<Rightarrow> bool" where
  "backs host_of ttl_of h r \<longleftrightarrow> k_id r = h_id h \<and> k_pid r = h_pid h \<and> k_ttl r \<ge> h_last h + ttl_of (h_id h) * 60000"

definition lock_ok :: "(int \<Rightarrow> string) \<Rightarrow> (string \<Rightarrow> int) \<Rightarrow> lock_sys \<Rightarrow> bool" where
  "lock_ok host_of ttl_of s \<longleftrightarrow>
     distinct (map k_id (lock_rows s))
     \<and> (\<forall>r \<in> set (lock_rows s). k_host r = host_of (k_pid r))
     \<and> (\<forall>h \<in> set (handles s). h_pid h \<in> set (live_pids s) \<and> h_last h \<le> clock s)
     \<and> (\<forall>h \<in> set (handles s). fresh ttl_of s h \<longrightarrow> (\<exists>r \<in> set (lock_rows s). backs host_of ttl_of h r))"

lemma lock_okI:
  assumes "distinct (map k_id (lock_rows s))" "\<And>r. r \<in> set (lock_rows s) \<Longrightarrow> k_host r = host_of (k_pid r)"
    and "\<And>h. h \<in> set (handles s) \<Longrightarrow> h_pid h \<in> set (live_pids s) \<and> h_last h \<le> clock s"
    and "\<And>h. h \<in> set (handles s) \<Longrightarrow> fresh ttl_of s h \<Longrightarrow> \<exists>r \<in> set (lock_rows s). backs host_of ttl_of h r"
  shows "lock_ok host_of ttl_of s"
  using assms by (simp add: lock_ok_def)

lemma lock_okD:
  assumes "lock_ok host_of ttl_of s"
  shows "distinct (map k_id (lock_rows s))" "\<And>r. r \<in> set (lock_rows s) \<Longrightarrow> k_host r = host_of (k_pid r)"
    and "\<And>h. h \<in> set (handles s) \<Longrightarrow> h_pid h \<in> set (live_pids s) \<and> h_last h \<le> clock s"
    and "\<And>h. h \<in> set (handles s) \<Longrightarrow> fresh ttl_of s h \<Longrightarrow> \<exists>r \<in> set (lock_rows s). backs host_of ttl_of h r"
  using assms by (simp_all add: lock_ok_def)

text \<open>A row that backs a fresh handle can be neither stolen nor reclaimed.\<close>

lemma backed_not_stealable:
  assumes "backs host_of ttl_of h r" "fresh ttl_of s h"
  shows "\<not> k_ttl r < clock s" "\<not> stealable g (clock s) r"
  using assms by (auto simp: backs_def fresh_def stealable_def)

lemma backed_not_dead:
  assumes "lock_ok host_of ttl_of s" "h \<in> set (handles s)" "backs host_of ttl_of h r" "r \<in> set (lock_rows s)"
    and "truthful host_of host (live_pids s) kill"
  shows "\<not> dead_here host kill now r"
  using assms lock_okD(2,3) [OF assms(1)] by (auto simp: dead_here_def truthful_def backs_def)

lemma refresh_lock_rows:
  "set (refresh_lock i pid ttl now t) =
     {r \<in> set t. \<not> (k_id r = i \<and> k_pid r = pid)}
     \<union> (\<lambda>r. r\<lparr>k_ttl := now + ttl * 60000, k_refreshed := Some now\<rparr>) ` {r \<in> set t. k_id r = i \<and> k_pid r = pid}"
  by (simp add: refresh_lock_def set_update_where)

lemma refresh_lock_ids: "map k_id (refresh_lock i pid ttl now t) = map k_id t"
  unfolding refresh_lock_def by (rule map_key_update_where) simp

text \<open>The reaper removes only rows of dead local holders.\<close>

lemma deleteLockRowExact_rows:
  "deleteLockRowExact i pid acq t = (b, t') \<Longrightarrow>
   r \<in> set t \<Longrightarrow> r \<notin> set t' \<Longrightarrow> k_id r = i \<and> k_pid r = pid \<and> k_acquired r = acq"
  "deleteLockRowExact i pid acq t = (b, t') \<Longrightarrow> set t' \<subseteq> set t"
  "deleteLockRowExact i pid acq t = (b, t') \<Longrightarrow> distinct (map k_id t) \<Longrightarrow> distinct (map k_id t')"
  by (auto simp: deleteLockRowExact_def intro: distinct_key_delete_where)

lemma reap_rows_keeps:
  assumes "reap_rows host kill ss t = (ids, t')"
    and "\<And>s r. s \<in> set ss \<Longrightarrow> r \<in> set t \<Longrightarrow> k_id r = s_id s \<Longrightarrow> k_pid r = s_pid s \<Longrightarrow> k_acquired r = s_acquired s \<Longrightarrow>
      isHolderDeadLocally (s_pid s) (s_host s) (s_age_ms s) host kill \<Longrightarrow> P r"
  shows "set t' \<subseteq> set t" "\<And>r. r \<in> set t \<Longrightarrow> \<not> P r \<Longrightarrow> r \<in> set t'"
    and "distinct (map k_id t) \<Longrightarrow> distinct (map k_id t')"
proof -
  have "set t' \<subseteq> set t \<and> (\<forall>r \<in> set t. \<not> P r \<longrightarrow> r \<in> set t') \<and> (distinct (map k_id t) \<longrightarrow> distinct (map k_id t'))"
    using assms
  proof (induction ss arbitrary: t ids t')
    case Nil
    then show ?case by simp
  next
    case (Cons x ss)
    show ?case
    proof (cases "\<not> isReapableNamespace (s_id x) \<or> \<not> isHolderDeadLocally (s_pid x) (s_host x) (s_age_ms x) host kill")
      case True
      then have "reap_rows host kill ss t = (ids, t')" using Cons.prems(1) by simp
      then show ?thesis using Cons.prems(2) by (intro Cons.IH) auto
    next
      case False
      obtain b t1 where d: "deleteLockRowExact (s_id x) (s_pid x) (s_acquired x) t = (b, t1)" by fastforce
      obtain ids2 where rest: "reap_rows host kill ss t1 = (ids2, t')"
        using Cons.prems(1) d False by (auto split: prod.splits)
      note del = deleteLockRowExact_rows [OF d]
      have "set t' \<subseteq> set t1 \<and> (\<forall>r \<in> set t1. \<not> P r \<longrightarrow> r \<in> set t') \<and> (distinct (map k_id t1) \<longrightarrow> distinct (map k_id t'))"
        using rest Cons.prems(2) del(2) by (intro Cons.IH) auto
      moreover have "P r" if "r \<in> set t" "r \<notin> set t1" for r
        using del(1) [OF that] that(1) False Cons.prems(2) [of x r] by auto
      ultimately show ?thesis using del(2,3) by blast
    qed
  qed
  then show "set t' \<subseteq> set t" "\<And>r. r \<in> set t \<Longrightarrow> \<not> P r \<Longrightarrow> r \<in> set t'"
    "distinct (map k_id t) \<Longrightarrow> distinct (map k_id t')" by blast+
qed

lemma reap_keeps:
  assumes "reapDeadHolderLocks host kill now t = (ids, t')" "distinct (map k_id t)"
  shows "set t' \<subseteq> set t" "\<And>r. r \<in> set t \<Longrightarrow> \<not> dead_here host kill now r \<Longrightarrow> r \<in> set t'" "distinct (map k_id t')"
proof -
  have same: "dead_here host kill now r"
    if row: "s \<in> set (selectLockRows AllRows now t)" "r \<in> set t" "k_id r = s_id s"
      "isHolderDeadLocally (s_pid s) (s_host s) (s_age_ms s) host kill" for s r
  proof -
    obtain x where x: "x \<in> set t" "s = rowToLockSnapshot x now"
      using row(1) by (auto simp: selectLockRows_def)
    then have "x = r" using row(2,3) distinct_key_unique [OF assms(2)] by (auto simp: rowToLockSnapshot_def)
    then show ?thesis using row(4) x by (simp add: rowToLockSnapshot_def isHolderDeadLocally_iff)
  qed
  note keeps = reap_rows_keeps [where P = "dead_here host kill now", OF assms(1) [unfolded reapDeadHolderLocks_def]]
  show "set t' \<subseteq> set t" by (rule keeps(1)) (rule same)
  show "r \<in> set t'" if "r \<in> set t" "\<not> dead_here host kill now r" for r
    by (rule keeps(2) [OF _ that]) (rule same)
  show "distinct (map k_id t')" by (rule keeps(3) [OF _ assms(2)]) (rule same)
qed


section \<open>The invariant\<close>

lemma tryAcquire_ok:
  assumes ok: "lock_ok host_of ttl_of s" and tr: "truthful host_of (host_of pid) (live_pids s) kill"
    and run: "tryAcquireDbLock env kill i pid (host_of pid) (ttl_of i) (clock s) (lock_rows s) = (True, t)"
  shows "distinct (map k_id t)"
    and "set t \<subseteq> insert (new_lock i pid (host_of pid) (ttl_of i) (clock s)) (set (lock_rows s))"
    and "new_lock i pid (host_of pid) (ttl_of i) (clock s) \<in> set t"
    and "\<And>r. r \<in> set (lock_rows s) \<Longrightarrow> k_id r \<noteq> i \<Longrightarrow> r \<in> set t"
    and "\<And>h r. h \<in> set (handles s) \<Longrightarrow> fresh ttl_of s h \<Longrightarrow> r \<in> set (lock_rows s) \<Longrightarrow> backs host_of ttl_of h r \<Longrightarrow> k_id r \<noteq> i"
proof -
  let ?new = "new_lock i pid (host_of pid) (ttl_of i) (clock s)" and ?g = "resolveStealGraceSeconds env (ttl_of i)"
  note d = lock_okD(1) [OF ok]
  have "distinct (map k_id t) \<and> set t \<subseteq> insert ?new (set (lock_rows s)) \<and> ?new \<in> set t
     \<and> (\<forall>r \<in> set (lock_rows s). k_id r \<noteq> i \<longrightarrow> r \<in> set t)
     \<and> (\<forall>h \<in> set (handles s). \<forall>r \<in> set (lock_rows s). fresh ttl_of s h \<and> backs host_of ttl_of h r \<longrightarrow> k_id r \<noteq> i)"
  proof (cases rule: tryAcquire_cases [OF run d])
    case 1
    then show ?thesis by simp
  next
    case 2
    note a = acquireOnce_True [OF 2(2) d]
    then show ?thesis using backed_not_stealable(2) by auto
  next
    case (3 x)
    have d': "distinct (map k_id (delete_where (\<lambda>x. k_id x = i) (lock_rows s)))"
      using d by (rule distinct_key_delete_where)
    note a = acquireOnce_True [OF 3(6) d']
    have "k_id r \<noteq> i" if r: "h \<in> set (handles s)" "r \<in> set (lock_rows s)" "fresh ttl_of s h" "backs host_of ttl_of h r" for h r
    proof
      assume "k_id r = i"
      then have "r = x" using distinct_key_unique [OF d r(2) 3(2)] 3(3) by simp
      then show False using backed_not_dead [OF ok r(1) r(4) r(2) tr] 3(5) by blast
    qed
    then show ?thesis using a(2,3) by auto
  qed
  then show "distinct (map k_id t)" "set t \<subseteq> insert ?new (set (lock_rows s))" "?new \<in> set t"
    "\<And>r. r \<in> set (lock_rows s) \<Longrightarrow> k_id r \<noteq> i \<Longrightarrow> r \<in> set t"
    "\<And>h r. h \<in> set (handles s) \<Longrightarrow> fresh ttl_of s h \<Longrightarrow> r \<in> set (lock_rows s) \<Longrightarrow> backs host_of ttl_of h r \<Longrightarrow> k_id r \<noteq> i"
    by blast+
qed

lemma lock_step_ok:
  assumes "lock_step host_of ttl_of env s s'" "lock_ok host_of ttl_of s"
  shows "lock_ok host_of ttl_of s'"
  using assms(1)
proof cases
  note inv = lock_okD [OF assms(2)]
  case (k_acquire pid i kill ok t)
  show ?thesis
  proof (cases ok)
    case False
    then have "t = lock_rows s"
      using tryAcquire_cases [OF k_acquire(5) inv(1)] by blast
    then show ?thesis using False assms(2) k_acquire(1) by (simp add: lock_ok_def fresh_def)
  next
    case True
    note a = tryAcquire_ok [OF assms(2) k_acquire(4), of env i t] 
    have run: "tryAcquireDbLock env kill i pid (host_of pid) (ttl_of i) (clock s) (lock_rows s) = (True, t)"
      using k_acquire(5) True by simp
    note a = a [OF run]
    let ?new = "new_lock i pid (host_of pid) (ttl_of i) (clock s)"
    show ?thesis
    proof (rule lock_okI)
      show "distinct (map k_id (lock_rows s'))" using a(1) k_acquire(1) by simp
      show "k_host r = host_of (k_pid r)" if "r \<in> set (lock_rows s')" for r
        using that a(2) inv(2) k_acquire(1) by (auto simp: new_lock_def)
      show "h_pid h \<in> set (live_pids s') \<and> h_last h \<le> clock s'" if "h \<in> set (handles s')" for h
        using that inv(3) k_acquire(1,2) by (auto split: if_splits)
      fix h assume h: "h \<in> set (handles s')" "fresh ttl_of s' h"
      show "\<exists>r \<in> set (lock_rows s'). backs host_of ttl_of h r"
      proof (cases "h \<in> set (handles s)")
        case True
        moreover have "fresh ttl_of s h" using h(2) k_acquire(1) by (simp add: fresh_def)
        ultimately obtain r where "r \<in> set (lock_rows s)" "backs host_of ttl_of h r" using inv(4) by blast
        then show ?thesis using a(4,5) True \<open>fresh ttl_of s h\<close> k_acquire(1) by auto
      next
        case False
        then have "h = \<lparr>h_id = i, h_pid = pid, h_last = clock s\<rparr>" using h(1) k_acquire(1) True by auto
        then have "backs host_of ttl_of h ?new" by (simp add: backs_def new_lock_def)
        then show ?thesis using a(3) k_acquire(1) by auto
      qed
    qed
  qed
next
  note inv = lock_okD [OF assms(2)]
  case (k_refresh h)
  let ?f = "\<lambda>r. r\<lparr>k_ttl := clock s + ttl_of (h_id h) * 60000, k_refreshed := Some (clock s)\<rparr>"
  let ?P = "\<lambda>r. k_id r = h_id h \<and> k_pid r = h_pid h"
  have rows: "set (lock_rows s') = {r \<in> set (lock_rows s). \<not> ?P r} \<union> ?f ` {r \<in> set (lock_rows s). ?P r}"
    by (simp add: k_refresh(1) refresh_lock_rows)
  have keep: "\<exists>r' \<in> set (lock_rows s'). backs host_of ttl_of g r'"
    if r: "r \<in> set (lock_rows s)" "k_id r = h_id g" "k_pid r = h_pid g" "h_last g \<le> clock s"
      "k_ttl r \<ge> h_last g + ttl_of (h_id g) * 60000 \<or> ?P r" for g r
  proof (cases "?P r")
    case True
    then have "?f r \<in> set (lock_rows s')" "backs host_of ttl_of g (?f r)"
      using r by (auto simp: rows backs_def)
    then show ?thesis by blast
  next
    case False
    then show ?thesis using r by (auto simp: rows backs_def)
  qed
  show ?thesis
  proof (rule lock_okI)
    show "distinct (map k_id (lock_rows s'))" using inv(1) by (simp add: k_refresh(1) refresh_lock_ids)
    show "k_host r = host_of (k_pid r)" if "r \<in> set (lock_rows s')" for r
      using that inv(2) by (auto simp: rows)
    show "h_pid g \<in> set (live_pids s') \<and> h_last g \<le> clock s'" if "g \<in> set (handles s')" for g
      using that inv(3) by (auto simp: k_refresh(1))
    fix g assume g: "g \<in> set (handles s')" "fresh ttl_of s' g"
    then obtain g0 where g0: "g0 \<in> set (handles s)"
      "g = (if g0 = h \<and> list_ex ?P (lock_rows s) then g0\<lparr>h_last := clock s\<rparr> else g0)"
      by (auto simp: k_refresh(1))
    show "\<exists>r \<in> set (lock_rows s'). backs host_of ttl_of g r"
    proof (cases "g0 = h \<and> list_ex ?P (lock_rows s)")
      case True
      then obtain r where "r \<in> set (lock_rows s)" "?P r" by (auto simp: list_ex_iff)
      then show ?thesis using keep [of r g] g0 True by simp
    next
      case False
      have "g = g0" using g0(2) unfolding if_not_P [OF False] .
      moreover have "fresh ttl_of s g" using g(2) by (simp add: fresh_def k_refresh(1))
      ultimately obtain r where "r \<in> set (lock_rows s)" "backs host_of ttl_of g r" using inv(4) g0(1) by blast
      then show ?thesis using keep [of r g] inv(3) [OF g0(1)] \<open>g = g0\<close> by (simp add: backs_def)
    qed
  qed
next
  note inv = lock_okD [OF assms(2)]
  case (k_release h)
  show ?thesis
  proof (rule lock_okI)
    fix g assume g: "g \<in> set (handles s')" "fresh ttl_of s' g"
    then have "g \<in> set (handles s)" "\<not> (h_id g = h_id h \<and> h_pid g = h_pid h)" "fresh ttl_of s g"
      by (auto simp: k_release(1) fresh_def)
    moreover from this obtain r where "r \<in> set (lock_rows s)" "backs host_of ttl_of g r" using inv(4) by blast
    ultimately show "\<exists>r \<in> set (lock_rows s'). backs host_of ttl_of g r"
      by (intro bexI [of _ r]) (auto simp: k_release(1) release_lock_def backs_def)
  qed (use inv in \<open>auto simp: k_release(1) release_lock_def distinct_key_delete_where\<close>)
next
  note inv = lock_okD [OF assms(2)]
  case (k_reap host kill ids t)
  note r = reap_keeps [OF k_reap(3) inv(1)]
  show ?thesis
  proof (rule lock_okI)
    fix h assume h: "h \<in> set (handles s')" "fresh ttl_of s' h"
    then obtain x where x: "x \<in> set (lock_rows s)" "backs host_of ttl_of h x"
      using inv(4) by (auto simp: k_reap(1) fresh_def)
    then have "x \<in> set t" using r(2) backed_not_dead [OF assms(2) _ x(2) x(1) k_reap(2)] h(1) by (auto simp: k_reap(1))
    then show "\<exists>r \<in> set (lock_rows s'). backs host_of ttl_of h r" using x(2) by (auto simp: k_reap(1))
  qed (use r inv in \<open>auto simp: k_reap(1)\<close>)
qed (use assms(2) in \<open>auto simp: lock_ok_def fresh_def\<close>)


definition idle :: "lock_sys \<Rightarrow> bool" where
  "idle s \<longleftrightarrow> lock_rows s = [] \<and> handles s = []"

interpretation db_lock: invariant_system idle "lock_step host_of ttl_of env" "lock_ok host_of ttl_of"
  for host_of ttl_of env
proof unfold_locales
  show "lock_ok host_of ttl_of s" if "idle s" for s
    using that by (simp add: idle_def lock_ok_def)
qed (rule lock_step_ok)

text \<open>A second invariant: a row expires one time to live after its last refresh.\<close>

definition row_shape :: "(string \<Rightarrow> int) \<Rightarrow> lock_row \<Rightarrow> bool" where
  "row_shape ttl_of r \<longleftrightarrow> k_refreshed r = Some (k_ttl r - ttl_of (k_id r) * 60000)"

definition shapes_ok :: "(int \<Rightarrow> string) \<Rightarrow> (string \<Rightarrow> int) \<Rightarrow> lock_sys \<Rightarrow> bool" where
  "shapes_ok host_of ttl_of s \<longleftrightarrow> lock_ok host_of ttl_of s \<and> (\<forall>r \<in> set (lock_rows s). row_shape ttl_of r)"

lemma lock_step_shapes:
  assumes "lock_step host_of ttl_of env s s'" "shapes_ok host_of ttl_of s"
  shows "shapes_ok host_of ttl_of s'"
proof -
  have ok: "lock_ok host_of ttl_of s" "lock_ok host_of ttl_of s'"
    using assms lock_step_ok by (auto simp: shapes_ok_def)
  have "row_shape ttl_of r" if r: "r \<in> set (lock_rows s')" for r
    using assms(1)
  proof cases
    case (k_acquire pid i kill b t)
    have "set t \<subseteq> insert (new_lock i pid (host_of pid) (ttl_of i) (clock s)) (set (lock_rows s))"
    proof (cases b)
      case True
      then show ?thesis using tryAcquire_ok(2) [OF ok(1) k_acquire(4)] k_acquire(5) by simp
    next
      case False
      then have "t = lock_rows s"
        using tryAcquire_cases [OF k_acquire(5) lock_okD(1) [OF ok(1)]] by blast
      then show ?thesis by blast
    qed
    moreover have "row_shape ttl_of (new_lock i pid (host_of pid) (ttl_of i) (clock s))"
      by (simp add: row_shape_def new_lock_def)
    ultimately show ?thesis
      using r assms(2) k_acquire(1) by (auto simp: shapes_ok_def)
  next
    case (k_refresh h)
    then show ?thesis
      using r assms(2) by (auto simp: shapes_ok_def refresh_lock_rows row_shape_def)
  next
    case (k_release h)
    then show ?thesis using r assms(2) by (auto simp: shapes_ok_def release_lock_def)
  next
    case (k_reap host kill ids t)
    then show ?thesis
      using r assms(2) reap_keeps(1) [OF k_reap(3) lock_okD(1) [OF ok(1)]] by (auto simp: shapes_ok_def)
  qed (use r assms(2) in \<open>auto simp: shapes_ok_def\<close>)
  then show ?thesis using ok(2) by (simp add: shapes_ok_def)
qed

interpretation row_shapes: invariant_system idle "lock_step host_of ttl_of env" "shapes_ok host_of ttl_of"
  for host_of ttl_of env
proof unfold_locales
  show "shapes_ok host_of ttl_of s" if "idle s" for s
    using that by (simp add: idle_def shapes_ok_def lock_ok_def)
qed (rule lock_step_shapes)

section \<open>The guarantees of the lock\<close>

text \<open>C31: mutual exclusion: along any run of acquisitions, refreshes, releases, crashes, new processes,
  reaper sweeps and passing time, two handles of one lock id that are both within their time to
  live belong to the same process.\<close>

theorem lock_mutual_exclusion:
  assumes "idle s0" "(lock_step host_of ttl_of env)\<^sup>*\<^sup>* s0 s"
    and "h1 \<in> set (handles s)" "h2 \<in> set (handles s)" "h_id h1 = h_id h2"
    and "fresh ttl_of s h1" "fresh ttl_of s h2"
  shows "h_pid h1 = h_pid h2"
proof -
  note inv = lock_okD [OF db_lock.reachable_inv [OF assms(1,2)]]
  obtain r1 r2 where "r1 \<in> set (lock_rows s)" "backs host_of ttl_of h1 r1"
    "r2 \<in> set (lock_rows s)" "backs host_of ttl_of h2 r2"
    using inv(4) assms(3,4,6,7) by blast
  moreover from this have "r1 = r2"
    using distinct_key_unique [OF inv(1)] assms(5) by (auto simp: backs_def)
  ultimately show ?thesis by (simp add: backs_def)
qed

text \<open>When an acquisition succeeds: exactly when the id has no row, or its row has both run out and
  not been refreshed within the grace, or its row has not run out but its holder is a process of
  this host that is gone and took the lock at least a minute ago.\<close>

theorem lock_acquired_iff:
  assumes "distinct (map k_id t)"
  shows "fst (tryAcquireDbLock env kill i pid host ttl now t) \<longleftrightarrow>
    (\<exists>r \<in> set t. k_id r = i \<and>
        (stealable (resolveStealGraceSeconds env ttl) now r \<or> \<not> k_ttl r < now \<and> dead_here host kill now r))
    \<or> i \<notin> k_id ` set t"
proof (cases "List.find (\<lambda>r. k_id r = i) t")
  case None
  then show ?thesis
    using find_id_None [of i t] by (auto simp: tryAcquireDbLock_def acquireOnce_def)
next
  case (Some r)
  then have r: "r \<in> set t" "k_id r = i" using find_id_Some [OF assms] by auto
  have only: "x = r" if "x \<in> set t" "k_id x = i" for x
    using distinct_key_unique [OF assms that(1) r(1)] that(2) r(2) by simp
  let ?g = "resolveStealGraceSeconds env ttl"
  have "fst (tryAcquireDbLock env kill i pid host ttl now t) \<longleftrightarrow>
      stealable ?g now r \<or> \<not> k_ttl r < now \<and> dead_here host kill now r"
  proof (cases "stealable ?g now r")
    case True
    then show ?thesis using Some by (simp add: tryAcquireDbLock_def acquireOnce_def)
  next
    case False
    have gone: "List.find (\<lambda>x. k_id x = i) (delete_where (\<lambda>x. k_id x = i \<and> k_pid x = k_pid r) t) = None"
      using only by (auto simp: find_id_None)
    have "\<exists>x \<in> set t. k_id x = i \<and> k_pid x = k_pid r" using r by blast
    then show ?thesis
      using False Some gone
      by (auto simp: tryAcquireDbLock_def acquireOnce_def Let_def inspectLock_find rowToLockSnapshot_def
          isHolderDeadLocally_iff deleteLockRow_def list_ex_iff)
  qed
  then show ?thesis using r only by blast
qed

text \<open>The heartbeat grace protects nobody: when every process uses one time to live of at least a
  minute per lock and the grace is not overridden, every row that has run out is also past its
  grace, so it can be stolen at once.\<close>

theorem steal_grace_never_protects:
  assumes "idle s0" "(lock_step host_of ttl_of env)\<^sup>*\<^sup>* s0 s"
    and "r \<in> set (lock_rows s)" "k_ttl r < clock s" "1 \<le> ttl_of (k_id r)"
  shows "stealable (resolveStealGraceSeconds None (ttl_of (k_id r))) (clock s) r"
proof -
  have "row_shape ttl_of r"
    using row_shapes.reachable_inv [OF assms(1,2)] assms(3) by (simp add: shapes_ok_def)
  moreover have "resolveStealGraceSeconds None n * 1000 \<le> n * 60000" if "1 \<le> n" for n
    using that by (simp add: resolveStealGraceSeconds_def)
  ultimately show ?thesis
    using assms(4,5) by (fastforce simp: stealable_def row_shape_def)
qed

section \<open>The wrappers\<close>

lemma release_lock_gone: "k_id r = i \<and> k_pid r = pid \<Longrightarrow> r \<notin> set (release_lock i pid t)"
  by (auto simp: release_lock_def delete_where_def)

lemma tryAcquire_busy:
  "distinct (map k_id t) \<Longrightarrow> tryAcquireDbLock env kill i pid host ttl now t = (False, t') \<Longrightarrow> t' = t"
  by (elim tryAcquire_cases) simp_all

text \<open>The health flag is the outcome of the last tick.\<close>

fun last_tick :: "bool \<Rightarrow> lock_event list \<Rightarrow> bool" where
  "last_tick h [] = h"
| "last_tick h (Tick now out # es) = last_tick (out = Refreshed) es"
| "last_tick h (Meanwhile f # es) = last_tick h es"

lemma work_under_lock_health: "fst (work_under_lock i pid ttl es (h, t)) = last_tick h es"
  by (induction i pid ttl es "(h, t)" arbitrary: h t rule: work_under_lock.induct) simp_all

text \<open>Work under the lock starts only with the lock and cleans up after itself:
  \<open>withRefreshingLock\<close> without the lock fails with \<open>LockUnavailableError\<close> and writes nothing; with it, the
  caller gets the result or the error of the work, whatever the heartbeat did and whoever wrote to
  the table meanwhile, a degraded heartbeat is reported exactly when the last tick failed, and once
  the release went through no row of this lock and this process is left.\<close>

theorem lock_work_wrapped:
  assumes "distinct (map k_id t)"
    and "withRefreshingLock env kill i pid host ttl now es result released t = (out, degraded, t')"
  shows "if fst (tryAcquireDbLock env kill i pid host ttl now t)
    then out = map_sum WorkError id result \<and> degraded = (\<not> last_tick True es)
      \<and> (if released then {r \<in> set t'. k_id r = i \<and> k_pid r = pid} = {} else True)
    else out = Inl (LockUnavailable i) \<and> \<not> degraded \<and> t' = t"
proof (cases "tryAcquireDbLock env kill i pid host ttl now t")
  case (Pair ok t1)
  show ?thesis
  proof (cases ok)
    case True
    obtain h t2 where w: "work_under_lock i pid ttl es (True, t1) = (h, t2)" by fastforce
    then have "h = last_tick True es" using work_under_lock_health [of i pid ttl es True t1] by simp
    then show ?thesis using assms(2) Pair True w release_lock_gone
      by (auto simp: withRefreshingLock_def)
  next
    case False
    then show ?thesis using assms Pair tryAcquire_busy [OF assms(1)] by (simp add: withRefreshingLock_def)
  qed
qed

text \<open>A holder that has lost the lock is not told: its refresh matches no row and returns as usual.\<close>

lemma lost_refresh_is_silent:
  "\<forall>r \<in> set t. k_id r = i \<longrightarrow> k_pid r \<noteq> pid \<Longrightarrow> refresh_lock i pid ttl now t = t"
  unfolding refresh_lock_def by (rule update_where_none) auto

definition taken_over :: "lock_row list" where
  "taken_over = snd (tryAcquireDbLock None (\<lambda>_. ProbeAlive) ''gbrain-sync:x'' 7 ''host-b'' 30 1900000
     (snd (tryAcquireDbLock None (\<lambda>_. ProbeAlive) ''gbrain-sync:x'' 7 ''host-a'' 30 0 [])))"

text \<open>Release and refresh match on the pid alone, so the lock is not exclusive between hosts: process
  7 of one host stalls past its time to live, process 7 of another host takes the lock over, and
  when the first one releases, it deletes the row of the second, which still holds the lock; a
  third process then acquires it.\<close>

theorem pid_collision_breaks_exclusion:
  "map (\<lambda>r. (k_host r, k_ttl r)) taken_over = [(''host-b'', 3700000)]
   \<and> release_lock ''gbrain-sync:x'' 7 taken_over = []
   \<and> fst (tryAcquireDbLock None (\<lambda>_. ProbeAlive) ''gbrain-sync:x'' 9 ''host-c'' 30 1900001
       (release_lock ''gbrain-sync:x'' 7 taken_over))
   \<and> \<not> fst (tryAcquireDbLock None (\<lambda>_. ProbeAlive) ''gbrain-sync:x'' 9 ''host-c'' 30 1900001 taken_over)"
  by code_simp

section \<open>Runs\<close>

definition sys0 :: lock_sys where
  "sys0 = \<lparr>lock_rows = [], handles = [], live_pids = [7, 8], clock = 0\<rparr>"

definition sys1 :: lock_sys where
  "sys1 = \<lparr>lock_rows = [new_lock ''gbrain-cycle'' 7 ''h'' 30 0],
     handles = [\<lparr>h_id = ''gbrain-cycle'', h_pid = 7, h_last = 0\<rparr>], live_pids = [7, 8], clock = 0\<rparr>"

lemma sys1_step: "lock_step (\<lambda>_. ''h'') (\<lambda>_. 30) None sys0 sys1"
proof -
  have r: "tryAcquireDbLock None (\<lambda>_. ProbeAlive) ''gbrain-cycle'' 7 ''h'' 30 0 [] = (True, lock_rows sys1)"
    by code_simp
  show ?thesis
    using k_acquire [of 7 sys0 "''gbrain-cycle''" "\<lambda>_. ''h''" "\<lambda>_. ProbeAlive" None "\<lambda>_. 30" True "lock_rows sys1"] r
    by (simp add: sys0_def sys1_def truthful_def)
qed

definition sys2 :: lock_sys where "sys2 = sys1\<lparr>clock := 2000000\<rparr>"

lemma sys2_step: "lock_step (\<lambda>_. ''h'') (\<lambda>_. 30) None sys1 sys2"
  using k_tick [of 2000000 "\<lambda>_. ''h''" "\<lambda>_. 30" None sys1] by (simp add: sys1_def sys2_def)

lemma sys_runs:
  "(lock_step (\<lambda>_. ''h'') (\<lambda>_. 30) None)\<^sup>*\<^sup>* sys0 sys1" "(lock_step (\<lambda>_. ''h'') (\<lambda>_. 30) None)\<^sup>*\<^sup>* sys0 sys2"
  "idle sys0"
  using sys1_step sys2_step by (auto simp: idle_def sys0_def intro: rtranclp.rtrancl_into_rtrancl)

theorem lock_mutual_exclusion_witness:
  "handles sys1 \<noteq> [] \<and> h_pid (hd (handles sys1)) = 7 \<and> h_pid (hd (handles sys1)) = h_pid (last (handles sys1))"
  using lock_mutual_exclusion [OF sys_runs(3) sys_runs(1), of "hd (handles sys1)" "last (handles sys1)"]
  by (simp add: sys1_def fresh_def)

theorem lock_acquired_iff_witness:
  "fst (tryAcquireDbLock None (\<lambda>_. ProbeEsrch) ''gbrain-cycle'' 8 ''h'' 30 60000 (lock_rows sys1))
   \<and> \<not> fst (tryAcquireDbLock None (\<lambda>_. ProbeEsrch) ''gbrain-cycle'' 8 ''h'' 30 59999 (lock_rows sys1))"
  using lock_acquired_iff [of "lock_rows sys1" None "\<lambda>_. ProbeEsrch" "''gbrain-cycle''" 8 "''h''" 30]
  by (simp add: sys1_def new_lock_def dead_here_def stealable_def HOLDER_TAKEOVER_GRACE_MS_def)

theorem steal_grace_never_protects_witness:
  "stealable (resolveStealGraceSeconds None 30) 2000000 (hd (lock_rows sys2)) \<and> k_ttl (hd (lock_rows sys2)) = 1800000"
  using steal_grace_never_protects [OF sys_runs(3) sys_runs(2), of "hd (lock_rows sys2)"]
  by (simp add: sys2_def sys1_def new_lock_def)

theorem lock_work_wrapped_witness:
  "\<exists>t'. withRefreshingLock None (\<lambda>_. ProbeAlive) ''l'' 1 ''h'' 30 0
      [Tick 300000 Refreshed, Meanwhile (\<lambda>t. t), Tick 600000 RefreshLost] (Inr 7 :: unit + nat) True [] = (Inr 7, True, t')
    \<and> {r \<in> set t'. k_id r = ''l'' \<and> k_pid r = 1} = {}"
proof -
  obtain out deg t' where e: "withRefreshingLock None (\<lambda>_. ProbeAlive) ''l'' 1 ''h'' 30 0
      [Tick 300000 Refreshed, Meanwhile (\<lambda>t. t), Tick 600000 RefreshLost] (Inr 7 :: unit + nat) True [] = (out, deg, t')"
    using prod_cases3 by blast
  have "fst (tryAcquireDbLock None (\<lambda>_. ProbeAlive) ''l'' 1 ''h'' 30 0 [])"
    by (simp add: tryAcquireDbLock_def acquireOnce_def)
  then show ?thesis using lock_work_wrapped [OF _ e] e by simp
qed

end
