(* ===== verification/Text_Match.thy ===== *)
theory Text_Match
  imports Prelude "HOL-Library.Sublist"
begin

text \<open>
  The regular expressions of the components that test an error message: case-insensitive, made of
  literal pieces joined by \<open>.*\<close>, which stays within a line.
\<close>

text \<open>ASCII case folding: the case-insensitive patterns that the components use consist of ASCII
  characters.\<close>

definition to_lower :: "char \<Rightarrow> char" where
  "to_lower c = (let n = of_char c :: nat in if 65 \<le> n \<and> n \<le> 90 then char_of (n + 32) else c)"

text \<open>The text after the first occurrence of a piece, and a pattern \<open>p1.*p2.*p3\<close> as its pieces.\<close>

fun after_piece :: "string \<Rightarrow> string \<Rightarrow> string option" where
  "after_piece p [] = (if p = [] then Some [] else None)"
| "after_piece p (c # cs) = (if prefix p (c # cs) then Some (drop (length p) (c # cs)) else after_piece p cs)"

fun pieces_in :: "string list \<Rightarrow> string \<Rightarrow> bool" where
  "pieces_in [] t = True"
| "pieces_in (p # ps) t = (case after_piece p t of None \<Rightarrow> False | Some t' \<Rightarrow> pieces_in ps t')"

fun lines_of :: "string \<Rightarrow> string list" where
  "lines_of [] = [[]]"
| "lines_of (c # cs) =
     (if c = CHR 0x0A \<or> c = CHR 0x0D then [] # lines_of cs
      else (case lines_of cs of [] \<Rightarrow> [[c]] | l # ls \<Rightarrow> (c # l) # ls))"

definition matches :: "string list \<Rightarrow> string \<Rightarrow> bool" where
  "matches pat text \<longleftrightarrow> list_ex (\<lambda>l. pieces_in pat (map to_lower l)) (lines_of text)"

end
