(* ===== verification/Lease_Controller.thy ===== *)
theory Lease_Controller
  imports Minion_Types Db_Lock Text_Match Complex_Main
begin

text \<open>
  The adaptive lease cap (\<open>src/core/minions/lease-cap-controller.ts\<close>) and the log of refused leases
  it feeds on (\<open>src/core/minions/lease-pressure-audit.ts\<close>).  A tick runs under the election of
  \<open>Db_Lock\<close>; it reads the log and the job table of the queue, decides, and writes the configuration
  key \<open>minions.lease_cap_current\<close>.

  Numbers that JavaScript computes with (rates, utilization, percentiles, caps) are rationals; one
  \<open>now\<close> stands for the clocks of the statements of a tick.  Each of its four queries can fail and is
  then replaced by its default.  The configuration value is the number it parses to, if any.
\<close>

section \<open>The control law\<close>

record window_stats =
  bounce_count :: int
  upstream_429_count :: int
  lease_utilization :: rat
  latency_stable :: bool
  window_ms :: int

record controller_opts =
  initial_cap :: rat
  ramp_up_step :: rat
  ramp_down_step :: rat
  min_floor :: rat
  max_ceiling :: rat
  bounce_rate_starving_threshold :: rat
  upstream_429_threshold_per_min :: rat
  utilization_ramp_threshold :: rat

definition DEFAULT_CONTROLLER_OPTS :: controller_opts where
  "DEFAULT_CONTROLLER_OPTS =
     \<lparr>initial_cap = 32, ramp_up_step = 4, ramp_down_step = 8, min_floor = 4, max_ceiling = 128,
      bounce_rate_starving_threshold = 1, upstream_429_threshold_per_min = 1 / 2,
      utilization_ramp_threshold = 1 / 2\<rparr>"

definition nextLeaseCap :: "rat \<Rightarrow> window_stats \<Rightarrow> controller_opts \<Rightarrow> rat" where
  "nextLeaseCap cur w opts =
     (let windowMin = max (1 / 1000000) (of_int (window_ms w) / 60000);
          bounceRatePerMin = of_int (bounce_count w) / windowMin;
          upstream429PerMin = of_int (upstream_429_count w) / windowMin
      in if upstream429PerMin > upstream_429_threshold_per_min opts \<or> \<not> latency_stable w
         then max (cur - ramp_down_step opts) (min_floor opts)
         else if bounceRatePerMin > bounce_rate_starving_threshold opts
           \<and> upstream429PerMin = 0 \<and> latency_stable w
         then min (cur + ramp_up_step opts) (max_ceiling opts)
         else if bounceRatePerMin = 0 \<and> upstream429PerMin = 0
           \<and> lease_utilization w > utilization_ramp_threshold opts \<and> latency_stable w
         then min (cur + ramp_up_step opts) (max_ceiling opts)
         else cur)"

section \<open>The window\<close>

record pressure_row =
  p_job :: "int option"
  p_lease_key :: string
  p_active :: int
  p_max :: int
  p_bounced_at :: int

definition logLeasePressure :: "bool \<Rightarrow> int \<Rightarrow> int \<Rightarrow> string \<Rightarrow> int \<Rightarrow> int \<Rightarrow> pressure_row list \<Rightarrow> pressure_row list" where
  "logLeasePressure ok now job key active cap plog =
     (if ok then plog @ [\<lparr>p_job = Some job, p_lease_key = key, p_active = active, p_max = cap, p_bounced_at = now\<rparr>]
      else plog)"

definition recent :: "int \<Rightarrow> int \<Rightarrow> pressure_row list \<Rightarrow> pressure_row list" where
  "recent now windowMs plog = filter (\<lambda>r. p_bounced_at r > now - windowMs) plog"

definition countRecentLeasePressure :: "int \<Rightarrow> int \<Rightarrow> pressure_row list \<Rightarrow> int" where
  "countRecentLeasePressure now windowMs plog = int (length (recent now windowMs plog))"

definition readRecentLeasePressure :: "int \<Rightarrow> int \<Rightarrow> nat option \<Rightarrow> pressure_row list \<Rightarrow> pressure_row list" where
  "readRecentLeasePressure now windowMs max_rows plog =
     map (\<lambda>r. r\<lparr>p_job := Some (orElse (p_job r) 0)\<rparr>)
       (take (orElse max_rows 1000) (sort_key (\<lambda>r. - p_bounced_at r) (recent now windowMs plog)))"

text \<open>\<open>ILIKE '%..%'\<close> with a lower-case pattern.\<close>

definition ilike :: "string \<Rightarrow> string \<Rightarrow> bool" where
  "ilike text pat \<longleftrightarrow> sublist pat (map to_lower text)"

definition is_upstream_429 :: "int \<Rightarrow> int \<Rightarrow> minion_job \<Rightarrow> bool" where
  "is_upstream_429 now windowMs r \<longleftrightarrow>
     (case j_finished_at r of None \<Rightarrow> False | Some f \<Rightarrow> f > now - windowMs)
     \<and> (j_status r = Failed \<or> j_status r = Dead)
     \<and> (case j_error_text r of None \<Rightarrow> False | Some e \<Rightarrow> ilike e ''429'' \<or> ilike e ''rate limit'')"

text \<open>\<open>AVG\<close> over the rows whose quotient is not null, and \<open>percentile_cont\<close>.\<close>

definition avg :: "rat list \<Rightarrow> rat" where
  "avg xs = (if xs = [] then 0 else sum_list xs / of_nat (length xs))"

definition utilization :: "pressure_row list \<Rightarrow> rat" where
  "utilization rows = avg (map (\<lambda>r. of_int (p_active r) / of_int (p_max r)) (filter (\<lambda>r. p_max r \<noteq> 0) rows))"

definition percentile_cont :: "rat \<Rightarrow> rat list \<Rightarrow> rat" where
  "percentile_cont p xs =
     (if xs = [] then 0
      else (let s = sort xs; rn = p * of_nat (length s - 1); lo = nat \<lfloor>rn\<rfloor>; hi = nat \<lceil>rn\<rceil>
            in s ! lo + (rn - of_nat lo) * (s ! hi - s ! lo)))"

definition subagent_durations :: "int \<Rightarrow> int \<Rightarrow> minion_job list \<Rightarrow> rat list" where
  "subagent_durations now windowMs js =
     [of_int (f - st) / 1000. r \<leftarrow> js, j_status r = Completed, j_name r = ''subagent'',
        st \<leftarrow> (case j_started_at r of None \<Rightarrow> [] | Some st \<Rightarrow> [st]),
        f \<leftarrow> (case j_finished_at r of None \<Rightarrow> [] | Some f \<Rightarrow> [f]), f > now - windowMs]"

record query_ok =
  q_bounces :: bool
  q_429 :: bool
  q_util :: bool
  q_latency :: bool

definition readControllerWindow ::
  "query_ok \<Rightarrow> int \<Rightarrow> int \<Rightarrow> pressure_row list \<Rightarrow> minion_job list \<Rightarrow> window_stats" where
  "readControllerWindow q now windowMs plog js =
     (let durations = subagent_durations now windowMs js;
          p50 = percentile_cont (1 / 2) durations;
          p95 = percentile_cont (95 / 100) durations
      in \<lparr>bounce_count = (if q_bounces q then countRecentLeasePressure now windowMs plog else 0),
          upstream_429_count = (if q_429 q then int (length (filter (is_upstream_429 now windowMs) js)) else 0),
          lease_utilization = (if q_util q then utilization (recent now windowMs plog) else 0),
          latency_stable = (if q_latency q \<and> length durations \<ge> 3 \<and> p50 > 0 then p95 / p50 < 2 else True),
          window_ms = windowMs\<rparr>)"

section \<open>The tick\<close>

definition readCurrentLeaseCap :: "rat option \<Rightarrow> controller_opts \<Rightarrow> rat" where
  "readCurrentLeaseCap config opts =
     (case config of
        Some n \<Rightarrow> if n \<ge> min_floor opts \<and> n \<le> max_ceiling opts then n else initial_cap opts
      | None \<Rightarrow> initial_cap opts)"

definition writeLeaseCap :: "rat \<Rightarrow> rat option \<Rightarrow> rat option" where
  "writeLeaseCap cap config = Some cap"

record controller_env =
  c_env :: "int option"
  c_kill :: "int \<Rightarrow> probe"
  c_pid :: int
  c_host :: string
  c_query :: query_ok
  c_write_ok :: bool
  c_release_ok :: bool

definition decide :: "controller_env \<Rightarrow> controller_opts \<Rightarrow> int \<Rightarrow> int \<Rightarrow> pressure_row list \<Rightarrow> minion_job list
    \<Rightarrow> rat option \<Rightarrow> unit + (rat \<times> rat \<times> bool) \<times> rat option" where
  "decide e opts windowMs now plog js config =
     (let w = readControllerWindow (c_query e) now windowMs plog js;
          cur = readCurrentLeaseCap config opts;
          nxt = nextLeaseCap cur w opts
      in if nxt \<noteq> cur
         then (if c_write_ok e then Inr ((cur, nxt, True), writeLeaseCap nxt config) else Inl ())
         else Inr ((cur, nxt, False), config))"

definition controllerTick :: "controller_env \<Rightarrow> controller_opts \<Rightarrow> int \<Rightarrow> int \<Rightarrow> pressure_row list \<Rightarrow> minion_job list
    \<Rightarrow> rat option \<Rightarrow> lock_row list \<Rightarrow> (unit + (rat \<times> rat \<times> bool) option) \<times> rat option \<times> lock_row list" where
  "controllerTick e opts windowMs now plog js config locks =
     (case tryWithDbElection (c_env e) (c_kill e) ''minions-lease-cap-controller'' (c_pid e) (c_host e) 2 now
             (\<lambda>t. (decide e opts windowMs now plog js config, t)) (c_release_ok e) locks of
        (Inl x, locks') \<Rightarrow> (Inl x, config, locks')
      | (Inr None, locks') \<Rightarrow> (Inr None, config, locks')
      | (Inr (Some (change, config')), locks') \<Rightarrow> (Inr (Some change), config', locks'))"

section \<open>The control law, by cases\<close>

definition pushback :: "window_stats \<Rightarrow> controller_opts \<Rightarrow> bool" where
  "pushback w opts \<longleftrightarrow> \<not> latency_stable w \<or>
     of_int (upstream_429_count w) > upstream_429_threshold_per_min opts * max (1 / 1000000) (of_int (window_ms w) / 60000)"

definition sane_opts :: "controller_opts \<Rightarrow> bool" where
  "sane_opts opts \<longleftrightarrow> min_floor opts \<le> initial_cap opts \<and> initial_cap opts \<le> max_ceiling opts
     \<and> 0 \<le> ramp_up_step opts \<and> 0 \<le> ramp_down_step opts \<and> 0 \<le> bounce_rate_starving_threshold opts
     \<and> 0 \<le> utilization_ramp_threshold opts"

lemma window_positive: "0 < max (1 / 1000000) (x :: rat)"
  by (simp add: max_def)

lemma nextLeaseCap_bounds:
  assumes "min_floor opts \<le> cur" "cur \<le> max_ceiling opts" "sane_opts opts"
  shows "min_floor opts \<le> nextLeaseCap cur w opts" "nextLeaseCap cur w opts \<le> max_ceiling opts"
  using assms by (auto simp: nextLeaseCap_def Let_def sane_opts_def)

lemma read_bounds:
  assumes "sane_opts opts"
  shows "min_floor opts \<le> readCurrentLeaseCap config opts" "readCurrentLeaseCap config opts \<le> max_ceiling opts"
  using assms by (auto simp: readCurrentLeaseCap_def sane_opts_def split: option.split)

lemma nextLeaseCap_down:
  assumes "sane_opts opts" "nextLeaseCap cur w opts < cur" "cur \<le> max_ceiling opts"
  shows "pushback w opts"
  using assms window_positive
  by (auto simp: nextLeaseCap_def Let_def sane_opts_def pushback_def pos_less_divide_eq min_def split: if_splits)

lemma nextLeaseCap_up:
  assumes "sane_opts opts" "cur < nextLeaseCap cur w opts" "min_floor opts \<le> cur"
  shows "upstream_429_count w = 0" "latency_stable w"
    "bounce_count w \<noteq> 0 \<or> lease_utilization w > utilization_ramp_threshold opts"
  using assms window_positive
  by (auto simp: nextLeaseCap_def Let_def sane_opts_def split: if_splits)

lemma read_after_decide:
  assumes "sane_opts opts" "decide e opts windowMs now plog js config = Inr ((prev, nxt, changed), config')"
  shows "prev = readCurrentLeaseCap config opts" "nxt = readCurrentLeaseCap config' opts"
    "nxt = nextLeaseCap prev (readControllerWindow (c_query e) now windowMs plog js) opts" "changed = (nxt \<noteq> prev)"
proof -
  let ?w = "readControllerWindow (c_query e) now windowMs plog js"
  let ?cur = "readCurrentLeaseCap config opts"
  show "prev = ?cur" "nxt = nextLeaseCap prev ?w opts" "changed = (nxt \<noteq> prev)"
    using assms(2) by (auto simp: decide_def Let_def split: if_splits)
  have "min_floor opts \<le> nextLeaseCap ?cur ?w opts" "nextLeaseCap ?cur ?w opts \<le> max_ceiling opts"
    using nextLeaseCap_bounds read_bounds assms(1) by blast+
  then show "nxt = readCurrentLeaseCap config' opts"
    using assms(2)
    by (auto simp: decide_def Let_def writeLeaseCap_def readCurrentLeaseCap_def [of "Some _"] split: if_splits)
qed

lemma tick_decides:
  assumes "controllerTick e opts windowMs now plog js config locks = (Inr (Some change), config', locks')"
  shows "decide e opts windowMs now plog js config = Inr (change, config')"
proof (cases "tryAcquireDbLock (c_env e) (c_kill e) ''minions-lease-cap-controller'' (c_pid e) (c_host e) 2 now locks")
  case (Pair ok t)
  then show ?thesis
    using assms
    by (cases ok; cases "decide e opts windowMs now plog js config")
      (auto simp: controllerTick_def tryWithDbElection_def split: prod.splits)
qed

lemma tick_without_election:
  "controllerTick e opts windowMs now plog js config locks = (Inr None, config', locks') \<Longrightarrow> config' = config"
  "controllerTick e opts windowMs now plog js config locks = (Inl x, config', locks') \<Longrightarrow> config' = config"
  by (auto simp: controllerTick_def split: prod.splits sum.splits option.splits)

section \<open>The guarantees\<close>

text \<open>What an elected tick does to the cap that every worker reads: it reports the caps before and
  after truly, keeps the cap between its floor and its ceiling whatever was stored before, lowers it
  only when the upstream pushed back in the window, and raises it only when there was no 429 and the
  latency was stable.\<close>

theorem lease_cap_moves:
  assumes "sane_opts opts"
    and "controllerTick e opts windowMs now plog js config locks = (Inr (Some (prev, nxt, changed)), config', locks')"
    and "w = readControllerWindow (c_query e) now windowMs plog js"
  shows "prev = readCurrentLeaseCap config opts \<and> nxt = readCurrentLeaseCap config' opts
    \<and> min_floor opts \<le> nxt \<and> nxt \<le> max_ceiling opts
    \<and> (nxt < prev \<longrightarrow> pushback w opts)
    \<and> (prev < nxt \<longrightarrow> upstream_429_count w = 0 \<and> latency_stable w)"
proof -
  note d = read_after_decide [OF assms(1) tick_decides [OF assms(2)]]
  have b: "min_floor opts \<le> prev" "prev \<le> max_ceiling opts"
    using read_bounds [OF assms(1)] d(1) by simp_all
  have n: "nxt = nextLeaseCap prev w opts" using d(3) assms(3) by simp
  have "pushback w opts" if "nxt < prev" using nextLeaseCap_down [OF assms(1)] that b(2) n by blast
  moreover have "upstream_429_count w = 0 \<and> latency_stable w" if "prev < nxt"
    using nextLeaseCap_up [OF assms(1)] that b(1) n by blast
  ultimately show ?thesis
    using d(1,2) nextLeaseCap_bounds [OF b assms(1), of w] n by auto
qed

text \<open>The slow ramp is dead: a window without a refused lease always reads a utilization of zero, so no
  tick raises the cap in it, although the control law alone would (from 32 to 36 at 90 percent
  utilization).\<close>

theorem slow_ramp_never_fires:
  assumes "sane_opts opts" "q_bounces (c_query e)" "recent now windowMs plog = []"
    and "controllerTick e opts windowMs now plog js config locks = (Inr (Some (prev, nxt, changed)), config', locks')"
  shows "nxt \<le> prev
    \<and> nextLeaseCap 32 \<lparr>bounce_count = 0, upstream_429_count = 0, lease_utilization = 9 / 10,
         latency_stable = True, window_ms = 60000\<rparr> DEFAULT_CONTROLLER_OPTS = 36"
proof -
  let ?w = "readControllerWindow (c_query e) now windowMs plog js"
  note d = read_after_decide [OF assms(1) tick_decides [OF assms(4)]]
  have "bounce_count ?w = 0" "lease_utilization ?w = 0"
    using assms(2,3) by (simp_all add: readControllerWindow_def Let_def countRecentLeasePressure_def utilization_def avg_def)
  then have "\<not> prev < nxt"
    using nextLeaseCap_up(3) [OF assms(1), of prev ?w] read_bounds(1) [OF assms(1)] d(1,3) assms(1)
    by (auto simp: sane_opts_def)
  then show ?thesis by (simp add: nextLeaseCap_def DEFAULT_CONTROLLER_OPTS_def Let_def)
qed

text \<open>With fewer than three samples the latency counts as stable; the comment over the query says the
  opposite.\<close>

lemma too_few_samples_stable:
  "length (subagent_durations now windowMs js) < 3 \<Longrightarrow>
    latency_stable (readControllerWindow q now windowMs plog js)"
  by (simp add: readControllerWindow_def Let_def)

section \<open>Witnesses\<close>

definition env1 :: controller_env where
  "env1 = \<lparr>c_env = None, c_kill = (\<lambda>_. ProbeAlive), c_pid = 1, c_host = ''h'',
     c_query = \<lparr>q_bounces = True, q_429 = True, q_util = True, q_latency = True\<rparr>,
     c_write_ok = True, c_release_ok = True\<rparr>"

definition bounces :: "pressure_row list" where
  "bounces = logLeasePressure True 50 2 ''k'' 32 32 (logLeasePressure True 40 1 ''k'' 32 32 [])"

lemma DEFAULT_sane: "sane_opts DEFAULT_CONTROLLER_OPTS"
  by (simp add: sane_opts_def DEFAULT_CONTROLLER_OPTS_def)

lemma tick_starving:
  "controllerTick env1 DEFAULT_CONTROLLER_OPTS 60000 100 bounces [] None [] = (Inr (Some (32, 36, True)), Some 36, [])"
  by (simp add: controllerTick_def tryWithDbElection_def tryAcquireDbLock_def acquireOnce_def env1_def bounces_def
      decide_def Let_def readControllerWindow_def countRecentLeasePressure_def recent_def logLeasePressure_def
      subagent_durations_def utilization_def avg_def nextLeaseCap_def DEFAULT_CONTROLLER_OPTS_def
      readCurrentLeaseCap_def writeLeaseCap_def release_lock_def new_lock_def)

lemma tick_idle:
  "controllerTick env1 DEFAULT_CONTROLLER_OPTS 60000 200000 bounces [] (Some 36) [] = (Inr (Some (36, 36, False)), Some 36, [])"
  by (simp add: controllerTick_def tryWithDbElection_def tryAcquireDbLock_def acquireOnce_def env1_def bounces_def
      decide_def Let_def readControllerWindow_def countRecentLeasePressure_def recent_def logLeasePressure_def
      subagent_durations_def utilization_def avg_def nextLeaseCap_def DEFAULT_CONTROLLER_OPTS_def
      readCurrentLeaseCap_def writeLeaseCap_def release_lock_def new_lock_def)

theorem lease_cap_moves_witness:
  "upstream_429_count (readControllerWindow (c_query env1) 100 60000 bounces []) = 0 \<and> (4 :: rat) \<le> 36"
  using lease_cap_moves [OF DEFAULT_sane tick_starving refl] by (simp add: DEFAULT_CONTROLLER_OPTS_def)

theorem slow_ramp_never_fires_witness:
  "recent 200000 60000 bounces = [] \<and> snd (snd (controllerTick env1 DEFAULT_CONTROLLER_OPTS 60000 200000 bounces [] (Some 36) [])) = []
    \<and> nextLeaseCap 32 \<lparr>bounce_count = 0, upstream_429_count = 0, lease_utilization = 9 / 10,
         latency_stable = True, window_ms = 60000\<rparr> DEFAULT_CONTROLLER_OPTS = 36"
proof -
  have r: "recent 200000 60000 bounces = []" by (simp add: recent_def bounces_def logLeasePressure_def)
  have q: "q_bounces (c_query env1)" by (simp add: env1_def)
  from slow_ramp_never_fires [OF DEFAULT_sane q r tick_idle] show ?thesis by (simp add: r tick_idle)
qed

end
