(* ===== verification/Retry.thy ===== *)
theory Retry
  imports Text_Match Complex_Main
begin

text \<open>
  The classification of database errors (\<open>src/core/retry-matcher.ts\<close>) and the retry wrapper around
  the bulk writes of both engines (\<open>src/core/retry.ts\<close>).  An error carries what the predicates read:
  its \<open>code\<close>, its \<open>problem\<close> and its message.  The patterns are case-insensitive, and \<open>.*\<close> stays
  within a line.  Delays are rationals, \<open>Math.random\<close> is an argument.
\<close>

section \<open>Errors\<close>

record pg_error =
  e_code :: "string option"
  e_problem :: "string option"
  e_message :: string

definition CONN_PATTERNS :: "string list list" where
  "CONN_PATTERNS =
     [[''password authentication failed''],
      [''connection refused''],
      [''the database system is starting up''],
      [''connection terminated unexpectedly''],
      [''econnreset''],
      [''connection'', ''closed''],
      [''server closed the connection''],
      [''could not connect to server''],
      [''no database connection''],
      [''connection_ended''],
      [''emaxconnsession''],
      [''too many clients already''],
      [''max'', ''client'', ''in session mode''],
      [''remaining connection slots are reserved'']]"

definition isStatementTimeoutError :: "pg_error \<Rightarrow> bool" where
  "isStatementTimeoutError e \<longleftrightarrow>
     e_code e = Some ''57014'' \<or> matches [''statement_timeout''] (e_message e)
     \<or> matches [''canceling statement due to statement timeout''] (e_message e)"

definition isLockTimeoutError :: "pg_error \<Rightarrow> bool" where
  "isLockTimeoutError e \<longleftrightarrow>
     e_code e = Some ''55P03'' \<or> matches [''lock_not_available''] (e_message e)
     \<or> matches [''could not obtain lock''] (e_message e)"

definition isRetryableConnError :: "pg_error \<Rightarrow> bool" where
  "isRetryableConnError e =
     (if isStatementTimeoutError e \<or> isLockTimeoutError e then False
      else if (case e_code e of None \<Rightarrow> False | Some c \<Rightarrow> prefix ''08'' c) then True
      else if e_code e = Some ''CONNECTION_ENDED'' then True
      else if e_code e = Some ''CONNECTION_CLOSED'' then True
      else if e_code e = Some ''53300'' then True
      else if e_problem e = Some ''No database connection'' then True
      else list_ex (\<lambda>p. matches p (e_message e)) CONN_PATTERNS)"

definition isConnectionEndedError :: "pg_error \<Rightarrow> bool" where
  "isConnectionEndedError e \<longleftrightarrow>
     e_code e = Some ''CONNECTION_ENDED'' \<or> matches [''connection_ended''] (e_message e)"

definition isRetryableError :: "pg_error \<Rightarrow> bool" where
  "isRetryableError e \<longleftrightarrow> isRetryableConnError e \<or> isStatementTimeoutError e"

section \<open>Delays\<close>

datatype jitter_mode = JitterNone | JitterFull | JitterDecorrelated

record retry_opts =
  maxRetries :: int
  delayMs :: rat
  delayMaxMs :: rat
  jitter :: jitter_mode

definition default_retry_opts :: retry_opts where
  "default_retry_opts = \<lparr>maxRetries = 1, delayMs = 500, delayMaxMs = 8000, jitter = JitterNone\<rparr>"

definition BULK_RETRY_OPTS :: retry_opts where
  "BULK_RETRY_OPTS = \<lparr>maxRetries = 3, delayMs = 1000, delayMaxMs = 10000, jitter = JitterDecorrelated\<rparr>"

definition computeNextDelay :: "nat \<Rightarrow> rat \<Rightarrow> rat \<Rightarrow> rat \<Rightarrow> jitter_mode \<Rightarrow> rat \<Rightarrow> rat" where
  "computeNextDelay attempt prevDelay base maxDelay mode rng =
     (case mode of
        JitterDecorrelated \<Rightarrow>
          (let lo = base; hi = max base (prevDelay * 3); capped = min hi maxDelay
           in min capped (max lo (of_int \<lfloor>lo + rng * (capped - lo + 1)\<rfloor>)))
      | JitterFull \<Rightarrow> of_int \<lfloor>rng * min (base * 2 ^ attempt) maxDelay\<rfloor>
      | JitterNone \<Rightarrow> min (base * 2 ^ attempt) maxDelay)"

text \<open>The overrides from the environment: unset or empty, not a number, or a number.\<close>

datatype env_number = Unset | NotANumber | Number rat

definition is_integer :: "rat \<Rightarrow> bool" where
  "is_integer r \<longleftrightarrow> of_int \<lfloor>r\<rfloor> = r"

definition override :: "(rat \<Rightarrow> bool) \<Rightarrow> string \<Rightarrow> env_number \<Rightarrow> (string + rat option)" where
  "override ok name v =
     (case v of
        Unset \<Rightarrow> Inr None
      | NotANumber \<Rightarrow> Inl name
      | Number n \<Rightarrow> if is_integer n \<and> ok n then Inr (Some n) else Inl name)"

definition resolveBulkRetryOpts :: "env_number \<Rightarrow> env_number \<Rightarrow> env_number \<Rightarrow> string + retry_opts" where
  "resolveBulkRetryOpts retries base_ms max_ms =
     (case override (\<lambda>n. n \<ge> 0) ''GBRAIN_BULK_MAX_RETRIES'' retries of
        Inl e \<Rightarrow> Inl e
      | Inr r \<Rightarrow>
          (case override (\<lambda>n. n > 0) ''GBRAIN_BULK_RETRY_BASE_MS'' base_ms of
             Inl e \<Rightarrow> Inl e
           | Inr b \<Rightarrow>
               (let d = orElse b (delayMs BULK_RETRY_OPTS)
                in case override (\<lambda>n. n \<ge> d) ''GBRAIN_BULK_RETRY_MAX_MS'' max_ms of
                     Inl e \<Rightarrow> Inl e
                   | Inr m \<Rightarrow>
                       Inr (BULK_RETRY_OPTS\<lparr>maxRetries := orElse (map_option floor r) (maxRetries BULK_RETRY_OPTS),
                              delayMs := d, delayMaxMs := orElse m (delayMaxMs BULK_RETRY_OPTS)\<rparr>))))"

section \<open>The wrapper\<close>

datatype retry_error = RetryAborted | Thrown pg_error | NothingThrown

text \<open>What happens outside, per attempt: the outcome of the wrapped call, whether the signal is aborted
  at the head of the loop, before the reconnect and during the sleep, whether the callbacks throw,
  and the random number.  There is a reconnect hook or not.\<close>

record 'a retry_env =
  x_fn :: "nat \<Rightarrow> pg_error + 'a"
  x_aborted :: "nat \<Rightarrow> bool"
  x_onRetry :: "nat \<Rightarrow> pg_error option"
  x_reconnect :: "(nat \<Rightarrow> pg_error option) option"
  x_aborted_reconnect :: "nat \<Rightarrow> bool"
  x_aborted_sleep :: "nat \<Rightarrow> bool"
  x_rng :: "nat \<Rightarrow> rat"

definition reconnect_step :: "'a retry_env \<Rightarrow> nat \<Rightarrow> retry_error option" where
  "reconnect_step env attempt =
     (case x_reconnect env of
        None \<Rightarrow> None
      | Some f \<Rightarrow> if x_aborted_reconnect env attempt then Some RetryAborted else map_option Thrown (f attempt))"

text \<open>The loop, with the delays it slept.\<close>

function retry_loop ::
  "'a retry_env \<Rightarrow> retry_opts \<Rightarrow> nat \<Rightarrow> rat \<Rightarrow> retry_error \<Rightarrow> (retry_error + 'a) \<times> rat list" where
  "retry_loop env opts attempt prevDelay lastErr =
     (if int attempt > maxRetries opts then (Inl lastErr, [])
      else if x_aborted env attempt then (Inl RetryAborted, [])
      else (case x_fn env attempt of
              Inr v \<Rightarrow> (Inr v, [])
            | Inl err \<Rightarrow>
                if \<not> isRetryableConnError err then (Inl (Thrown err), [])
                else if int attempt \<ge> maxRetries opts then (Inl (Thrown err), [])
                else (case x_onRetry env attempt of
                        Some e \<Rightarrow> (Inl (Thrown e), [])
                      | None \<Rightarrow>
                          (case reconnect_step env attempt of
                             Some e \<Rightarrow> (Inl e, [])
                           | None \<Rightarrow>
                               (let delay = computeNextDelay attempt prevDelay (delayMs opts) (delayMaxMs opts)
                                              (jitter opts) (x_rng env attempt)
                                in if x_aborted_sleep env attempt then (Inl RetryAborted, [])
                                   else (case retry_loop env opts (attempt + 1) delay (Thrown err) of
                                           (r, ds) \<Rightarrow> (r, delay # ds)))))))"
  by pat_completeness auto
termination
  by (relation "measure (\<lambda>(env, opts, attempt, _). nat (maxRetries opts + 1 - int attempt))") auto

declare retry_loop.simps [simp del]

definition withRetry :: "'a retry_env \<Rightarrow> retry_opts \<Rightarrow> (retry_error + 'a) \<times> rat list" where
  "withRetry env opts = retry_loop env opts 0 0 NothingThrown"

section \<open>Classification\<close>

text \<open>Timeouts are never taken for connection errors, whatever else the error says.\<close>

lemma timeouts_not_retryable:
  "isStatementTimeoutError e \<or> isLockTimeoutError e \<Longrightarrow> \<not> isRetryableConnError e"
  by (auto simp: isRetryableConnError_def)

lemma reap_is_retryable:
  "isConnectionEndedError e \<Longrightarrow> \<not> isStatementTimeoutError e \<Longrightarrow> \<not> isLockTimeoutError e \<Longrightarrow> isRetryableConnError e"
  by (auto simp: isConnectionEndedError_def isRetryableConnError_def CONN_PATTERNS_def)

section \<open>The loop\<close>

text \<open>An attempt that is retried, and a world without aborts and throwing callbacks.\<close>

definition transient :: "'a retry_env \<Rightarrow> nat \<Rightarrow> bool" where
  "transient env i = (case x_fn env i of Inr v \<Rightarrow> False | Inl e \<Rightarrow> isRetryableConnError e)"

definition undisturbed :: "'a retry_env \<Rightarrow> bool" where
  "undisturbed env \<longleftrightarrow> (\<forall>i. \<not> x_aborted env i \<and> x_onRetry env i = None \<and> reconnect_step env i = None \<and> \<not> x_aborted_sleep env i)"

lemma find_upt: "a \<le> m \<Longrightarrow> List.find P [a..<Suc m] = (if P a then Some a else List.find P [Suc a..<Suc m])"
  by (simp add: upt_conv_Cons del: upt_Suc)

lemma retry_loop_undisturbed:
  assumes "undisturbed env" "a \<le> m" "maxRetries opts = int m"
  shows "case List.find (\<lambda>i. \<not> transient env i) [a..<Suc m] of
      Some i \<Rightarrow> fst (retry_loop env opts a prev lst) = map_sum Thrown id (x_fn env i)
        \<and> length (snd (retry_loop env opts a prev lst)) = i - a
    | None \<Rightarrow> fst (retry_loop env opts a prev lst) = map_sum Thrown id (x_fn env m)
        \<and> length (snd (retry_loop env opts a prev lst)) = m - a"
  using assms(2)
proof (induction "m - a" arbitrary: a prev lst)
  case 0
  then have "a = m" by simp
  then show ?case using assms(1,3)
    by (auto simp: retry_loop.simps [of env opts m] undisturbed_def transient_def split: sum.split)
next
  case (Suc k)
  show ?case
  proof (cases "transient env a")
    case False
    have "fst (retry_loop env opts a prev lst) = map_sum Thrown id (x_fn env a) \<and> snd (retry_loop env opts a prev lst) = []"
      using False assms(1,3) Suc.prems
      by (auto simp: retry_loop.simps [of env opts a] undisturbed_def transient_def split: sum.split)
    then show ?thesis using False Suc.prems by (simp add: find_upt del: upt_Suc)
  next
    case True
    then obtain e where e: "x_fn env a = Inl e" "isRetryableConnError e"
      by (auto simp: transient_def split: sum.splits)
    have less: "a < m" using Suc.hyps(2) by simp
    let ?d = "computeNextDelay a prev (delayMs opts) (delayMaxMs opts) (jitter opts) (x_rng env a)"
    have step: "retry_loop env opts a prev lst =
        (fst (retry_loop env opts (Suc a) ?d (Thrown e)), ?d # snd (retry_loop env opts (Suc a) ?d (Thrown e)))"
      using e assms(1,3) less
      by (simp add: retry_loop.simps [of env opts a] undisturbed_def Let_def split_beta)
    have "k = m - Suc a" "Suc a \<le> m" using Suc.hyps(2) less by simp_all
    note IH = Suc.hyps(1) [OF this, of ?d "Thrown e"]
    show ?thesis
    proof (cases "List.find (\<lambda>i. \<not> transient env i) [Suc a..<Suc m]")
      case None
      then show ?thesis using IH True less unfolding step by (simp add: find_upt del: upt_Suc)
    next
      case (Some i)
      then have "Suc a \<le> i" by (auto simp: find_Some_iff simp del: upt_Suc)
      then show ?thesis using Some IH True less unfolding step by (simp add: find_upt del: upt_Suc)
    qed
  qed
qed

text \<open>Whatever happens outside, the sleeps follow the jitter: each is between the base and the cap, and
  at most three times the one before; and there is one fewer sleep than attempts.\<close>

fun decorrelated :: "rat \<Rightarrow> rat \<Rightarrow> rat \<Rightarrow> rat list \<Rightarrow> bool" where
  "decorrelated base cap prev [] = True"
| "decorrelated base cap prev (d # ds) =
     (base \<le> d \<and> d \<le> min cap (max base (prev * 3)) \<and> decorrelated base cap d ds)"

lemma computeNextDelay_decorrelated:
  assumes "base \<le> cap"
  shows "base \<le> computeNextDelay i prev base cap JitterDecorrelated r"
    "computeNextDelay i prev base cap JitterDecorrelated r \<le> min cap (max base (prev * 3))"
  using assms by (auto simp: computeNextDelay_def Let_def)

lemma retry_loop_sleeps:
  "snd (retry_loop env opts a prev lst) = [] \<or>
   int a < maxRetries opts \<and>
   (\<exists>d r. d = computeNextDelay a prev (delayMs opts) (delayMaxMs opts) (jitter opts) (x_rng env a)
      \<and> snd (retry_loop env opts a prev lst) = d # snd (retry_loop env opts (Suc a) d r))"
proof -
  note eq = retry_loop.simps [of env opts a prev lst]
  show ?thesis
    by (cases "x_fn env a") (auto simp: eq Let_def split_beta split: option.split)
qed

lemma retry_delays:
  assumes "jitter opts = JitterDecorrelated" "delayMs opts \<le> delayMaxMs opts"
  shows "decorrelated (delayMs opts) (delayMaxMs opts) prev (snd (retry_loop env opts a prev lst))
    \<and> length (snd (retry_loop env opts a prev lst)) \<le> nat (maxRetries opts - int a)"
proof (induction "nat (maxRetries opts - int a)" arbitrary: a prev lst rule: less_induct)
  case less
  show ?case
    using retry_loop_sleeps [of env opts a prev lst]
  proof (elim disjE conjE exE)
    assume "snd (retry_loop env opts a prev lst) = []"
    then show ?thesis by simp
  next
    fix d r
    assume d: "int a < maxRetries opts"
      "d = computeNextDelay a prev (delayMs opts) (delayMaxMs opts) (jitter opts) (x_rng env a)"
      "snd (retry_loop env opts a prev lst) = d # snd (retry_loop env opts (Suc a) d r)"
    have "nat (maxRetries opts - int (Suc a)) < nat (maxRetries opts - int a)" using d(1) by simp
    from less [OF this, of d r] show ?thesis
      using d assms(1) computeNextDelay_decorrelated [OF assms(2)] by auto
  qed
qed

section \<open>The guarantees\<close>

text \<open>C32: what \<open>withRetry\<close> does when nobody interferes: it stops at the first attempt that does not fail
  with a connection error, after exactly that many sleeps, and passes on its value or its error; if
  every allowed attempt fails so, it throws the error of the last one after \<open>maxRetries\<close> sleeps.\<close>

theorem withRetry_outcome:
  assumes "undisturbed env" "0 \<le> maxRetries opts"
  shows "case List.find (\<lambda>i. \<not> transient env i) [0..<Suc (nat (maxRetries opts))] of
      Some i \<Rightarrow> fst (withRetry env opts) = map_sum Thrown id (x_fn env i) \<and> length (snd (withRetry env opts)) = i
    | None \<Rightarrow> fst (withRetry env opts) = map_sum Thrown id (x_fn env (nat (maxRetries opts)))
        \<and> length (snd (withRetry env opts)) = nat (maxRetries opts)"
  using retry_loop_undisturbed [OF assms(1), of 0 "nat (maxRetries opts)" opts 0 NothingThrown] assms(2)
  by (auto simp: withRetry_def simp del: upt_Suc split: option.splits)

lemma decorrelated_sum:
  "decorrelated b cap prev ds \<Longrightarrow> b * of_nat (length ds) \<le> sum_list ds"
proof (induction ds arbitrary: prev)
  case (Cons d ds)
  then have "b \<le> d" "b * of_nat (length ds) \<le> sum_list ds" by auto
  then show ?case by (simp add: distrib_left)
qed simp

text \<open>How long the bulk writes wait for the database to come back: at most three sleeps, each of at
  least one second, thirteen seconds in all, whatever happens in between; and three sleeps can be as
  short as three seconds together.\<close>

theorem bulk_wait:
  "length (snd (withRetry env BULK_RETRY_OPTS)) \<le> 3
   \<and> 1000 * of_nat (length (snd (withRetry env BULK_RETRY_OPTS))) \<le> sum_list (snd (withRetry env BULK_RETRY_OPTS))
   \<and> sum_list (snd (withRetry env BULK_RETRY_OPTS)) \<le> 13000
   \<and> computeNextDelay 0 0 1000 10000 JitterDecorrelated 0 + computeNextDelay 1 1000 1000 10000 JitterDecorrelated 0
      + computeNextDelay 2 1000 1000 10000 JitterDecorrelated 0 = 3000"
proof -
  let ?ds = "snd (withRetry env BULK_RETRY_OPTS)"
  have d: "decorrelated 1000 10000 0 ?ds" "length ?ds \<le> 3"
    using retry_delays [of BULK_RETRY_OPTS 0 env 0 NothingThrown] by (simp_all add: withRetry_def BULK_RETRY_OPTS_def)
  then consider "?ds = []" | x where "?ds = [x]" | x y where "?ds = [x, y]" | x y z where "?ds = [x, y, z]"
    by (cases ?ds rule: remdups_adj.cases; cases "tl (tl ?ds)"; cases "tl (tl (tl ?ds))") auto
  then have "sum_list ?ds \<le> 13000"
    using d(1) by cases (auto simp: max_def split: if_splits)
  then show ?thesis
    using d decorrelated_sum [OF d(1)] by (simp add: computeNextDelay_def Let_def)
qed

text \<open>The cap is only compared with the base when the cap itself is overridden.\<close>

lemma base_above_cap_accepted:
  "resolveBulkRetryOpts Unset (Number 20000) Unset = Inr (BULK_RETRY_OPTS\<lparr>delayMs := 20000\<rparr>)
   \<and> delayMaxMs (BULK_RETRY_OPTS\<lparr>delayMs := 20000\<rparr>) < 20000"
  by (simp add: resolveBulkRetryOpts_def override_def is_integer_def BULK_RETRY_OPTS_def)

section \<open>Witnesses\<close>

definition flaky :: "nat retry_env" where
  "flaky = \<lparr>x_fn = (\<lambda>i. if i < 2 then Inl \<lparr>e_code = Some ''08006'', e_problem = None, e_message = []\<rparr> else Inr 7),
     x_aborted = (\<lambda>_. False), x_onRetry = (\<lambda>_. None), x_reconnect = None,
     x_aborted_reconnect = (\<lambda>_. False), x_aborted_sleep = (\<lambda>_. False), x_rng = (\<lambda>_. 0)\<rparr>"

lemma flaky_undisturbed: "undisturbed flaky"
  by (simp add: undisturbed_def flaky_def reconnect_step_def)

lemma flaky_transient: "transient flaky i \<longleftrightarrow> i < 2"
  by (simp add: transient_def flaky_def isRetryableConnError_def isStatementTimeoutError_def
      isLockTimeoutError_def matches_def)

theorem withRetry_outcome_witness: "fst (withRetry flaky BULK_RETRY_OPTS) = Inr 7 \<and> length (snd (withRetry flaky BULK_RETRY_OPTS)) = 2"
proof -
  have "[0..<4] = [0, 1, 2, 3 :: nat]" by (simp add: upt_rec)
  then show ?thesis
    using withRetry_outcome [OF flaky_undisturbed, of BULK_RETRY_OPTS]
    by (simp add: BULK_RETRY_OPTS_def flaky_transient del: upt_Suc) (simp add: flaky_def)
qed

end
