(* ===== verification/Rate_Limiter.thy ===== *)
theory Rate_Limiter
  imports Prelude Complex_Main
begin

text \<open>
  The token buckets in front of the HTTP transport (\<open>src/mcp/rate-limit.ts\<close>): one bucket per key in
  a map kept in order of last use, pruned by age and cut at a fixed number of keys.  The map is an
  association list in the iteration order of the JavaScript \<open>Map\<close>.  Times are milliseconds of the
  injected clock.  The main results: over any stretch of time a key gets at most one full bucket
  plus what accrues at the nominal rate, and a refused client that waits for the announced
  \<open>Retry-After\<close> is served.
\<close>

section \<open>The code\<close>

record rate_opts =
  limit :: int
  windowMs :: int
  lruCap :: int

record bucket =
  tokens :: int
  lastRefillMs :: int
  lastTouchedMs :: int

type_synonym buckets = "(string \<times> bucket) list"

datatype rate_result = Allowed int | Denied int

definition newRateLimiter :: "rate_opts \<Rightarrow> string + buckets" where
  "newRateLimiter opts =
     (if limit opts \<le> 0 then Inl ''RateLimiter: limit must be > 0''
      else if windowMs opts \<le> 0 then Inl ''RateLimiter: windowMs must be > 0''
      else if lruCap opts \<le> 0 then Inl ''RateLimiter: lruCap must be > 0''
      else Inr [])"

fun prune_buckets :: "rate_opts \<Rightarrow> int \<Rightarrow> buckets \<Rightarrow> buckets" where
  "prune_buckets opts now [] = []"
| "prune_buckets opts now ((k, b) # bs) =
     (if now - lastTouchedMs b > windowMs opts * 2 then prune_buckets opts now bs else (k, b) # bs)"

fun evictIfOver :: "rate_opts \<Rightarrow> buckets \<Rightarrow> buckets" where
  "evictIfOver opts [] = []"
| "evictIfOver opts (e # bs) =
     (if int (length (e # bs)) > lruCap opts then evictIfOver opts bs else e # bs)"

definition refill :: "rate_opts \<Rightarrow> int \<Rightarrow> bucket \<Rightarrow> bucket" where
  "refill opts now b =
     (let elapsed = now - lastRefillMs b;
          refilled = (elapsed * limit opts) div windowMs opts;
          b1 = (if refilled > 0
                then b\<lparr>tokens := min (limit opts) (tokens b + refilled), lastRefillMs := now\<rparr> else b)
      in b1\<lparr>lastTouchedMs := now\<rparr>)"

definition retry_after :: "rate_opts \<Rightarrow> int \<Rightarrow> bucket \<Rightarrow> int" where
  "retry_after opts now b =
     max 1 \<lceil>((of_int (windowMs opts) / of_int (limit opts) - of_int (now - lastRefillMs b)) / 1000 :: rat)\<rceil>"

definition check :: "rate_opts \<Rightarrow> int \<Rightarrow> string \<Rightarrow> buckets \<Rightarrow> rate_result \<times> buckets" where
  "check opts now key bs =
     (let bs1 = prune_buckets opts now bs;
          (b, bs2) = (case map_of bs1 key of
              None \<Rightarrow> (\<lparr>tokens = limit opts, lastRefillMs = now, lastTouchedMs = now\<rparr>, bs1)
            | Some b \<Rightarrow> (refill opts now b, filter (\<lambda>(k, _). k \<noteq> key) bs1))
      in if tokens b > 0
         then (let b' = b\<lparr>tokens := tokens b - 1\<rparr>
               in (Allowed (tokens b'), evictIfOver opts (bs2 @ [(key, b')])))
         else (Denied (retry_after opts now b), evictIfOver opts (bs2 @ [(key, b)])))"

text \<open>\<open>buildDefaultLimiters\<close>; the arguments are the parsed environment values.\<close>

definition envInt :: "int option \<Rightarrow> int \<Rightarrow> int" where
  "envInt v fallback = (case v of Some n \<Rightarrow> if n > 0 then n else fallback | None \<Rightarrow> fallback)"

definition buildDefaultLimiters :: "int option \<Rightarrow> int option \<Rightarrow> int option \<Rightarrow> rate_opts \<times> rate_opts" where
  "buildDefaultLimiters lru ip token =
     (\<lparr>limit = envInt ip 30, windowMs = 60000, lruCap = envInt lru 10000\<rparr>,
      \<lparr>limit = envInt token 60, windowMs = 60000, lruCap = envInt lru 10000\<rparr>)"

section \<open>Runs\<close>

text \<open>A sequence of requests, each a time and a key, and the answers in order.\<close>

fun checks :: "rate_opts \<Rightarrow> (int \<times> string) list \<Rightarrow> buckets \<Rightarrow> rate_result list \<times> buckets" where
  "checks opts [] bs = ([], bs)"
| "checks opts ((now, key) # rs) bs =
     (case check opts now key bs of
        (r, bs1) \<Rightarrow> (case checks opts rs bs1 of (out, bs2) \<Rightarrow> (r # out, bs2)))"

fun is_allowed :: "rate_result \<Rightarrow> bool" where
  "is_allowed (Allowed _) = True"
| "is_allowed (Denied _) = False"

text \<open>How many requests of a key were served.\<close>

definition served :: "rate_opts \<Rightarrow> (int \<times> string) list \<Rightarrow> buckets \<Rightarrow> string \<Rightarrow> nat" where
  "served opts rs bs key =
     length (filter (\<lambda>((_, k), r). k = key \<and> is_allowed r) (zip rs (fst (checks opts rs bs))))"

definition valid_opts :: "rate_opts \<Rightarrow> bool" where
  "valid_opts opts \<longleftrightarrow> limit opts > 0 \<and> windowMs opts > 0 \<and> lruCap opts > 0"

section \<open>The map\<close>

text \<open>Keys are distinct, entries are in order of last use, every stored bucket has room for a token,
  and there are no more keys than the cap.\<close>

definition bucket_ok :: "rate_opts \<Rightarrow> int \<Rightarrow> bucket \<Rightarrow> bool" where
  "bucket_ok opts now b \<longleftrightarrow>
     0 \<le> tokens b \<and> tokens b < limit opts \<and> lastRefillMs b \<le> lastTouchedMs b \<and> lastTouchedMs b \<le> now"

definition buckets_ok :: "rate_opts \<Rightarrow> int \<Rightarrow> buckets \<Rightarrow> bool" where
  "buckets_ok opts now bs \<longleftrightarrow> distinct (map fst bs) \<and> sorted (map (lastTouchedMs \<circ> snd) bs)
     \<and> (\<forall>e \<in> set bs. bucket_ok opts now (snd e)) \<and> int (length bs) \<le> lruCap opts"

lemma prune_suffix: "\<exists>pre. bs = pre @ prune_buckets opts now bs \<and> (\<forall>e \<in> set pre. now - lastTouchedMs (snd e) > windowMs opts * 2)"
proof (induction bs)
  case Nil
  then show ?case by simp
next
  case (Cons e bs)
  obtain k b where e: "e = (k, b)" by fastforce
  show ?case
  proof (cases "now - lastTouchedMs b > windowMs opts * 2")
    case True
    obtain pre where "bs = pre @ prune_buckets opts now bs" "\<forall>e \<in> set pre. now - lastTouchedMs (snd e) > windowMs opts * 2"
      using Cons.IH by blast
    then show ?thesis using True e by (intro exI [of _ "e # pre"]) auto
  next
    case False
    then show ?thesis using e by (intro exI [of _ "[]"]) simp
  qed
qed

lemma evict_suffix: "\<exists>pre. bs = pre @ evictIfOver opts bs"
proof (induction bs)
  case Nil
  then show ?case by simp
next
  case (Cons e bs)
  then obtain pre where pre: "bs = pre @ evictIfOver opts bs" by blast
  show ?case
  proof (cases "int (length (e # bs)) > lruCap opts")
    case True
    then show ?thesis using pre by (intro exI [of _ "e # pre"]) simp
  next
    case False
    then show ?thesis by (intro exI [of _ "[]"]) simp
  qed
qed

lemma evict_length: "0 \<le> lruCap opts \<Longrightarrow> int (length (evictIfOver opts bs)) \<le> lruCap opts"
  by (induction bs) simp_all

lemma evict_id: "int (length bs) \<le> lruCap opts \<Longrightarrow> evictIfOver opts bs = bs"
  by (cases bs) simp_all

lemma sorted_prune_complete:
  "sorted (map (lastTouchedMs \<circ> snd) bs) \<Longrightarrow> e \<in> set (prune_buckets opts now bs) \<Longrightarrow> now - lastTouchedMs (snd e) \<le> windowMs opts * 2"
  by (induction opts now bs rule: prune_buckets.induct) (auto split: if_splits)

lemma buckets_ok_suffix: "buckets_ok opts now (pre @ bs) \<Longrightarrow> buckets_ok opts now bs"
  by (auto simp: buckets_ok_def sorted_append)

lemma buckets_ok_mono: "buckets_ok opts t bs \<Longrightarrow> t \<le> now \<Longrightarrow> buckets_ok opts now bs"
  by (fastforce simp: buckets_ok_def bucket_ok_def)

lemma buckets_ok_prune: "buckets_ok opts now bs \<Longrightarrow> buckets_ok opts now (prune_buckets opts now bs)"
  using prune_suffix [of bs opts now] buckets_ok_suffix by metis

text \<open>What a check stores: the entries of other keys that were not pruned, and the bucket of the key,
  last; it answers \<open>Allowed\<close> exactly when the bucket had a token.\<close>

definition current :: "rate_opts \<Rightarrow> int \<Rightarrow> string \<Rightarrow> buckets \<Rightarrow> bucket" where
  "current opts now key bs =
     (case map_of (prune_buckets opts now bs) key of
        None \<Rightarrow> \<lparr>tokens = limit opts, lastRefillMs = now, lastTouchedMs = now\<rparr>
      | Some b \<Rightarrow> refill opts now b)"

lemma check_shape:
  "check opts now key bs =
     (let b = current opts now key bs; rest = filter (\<lambda>(k, _). k \<noteq> key) (prune_buckets opts now bs)
      in if tokens b > 0
         then (Allowed (tokens b - 1), evictIfOver opts (rest @ [(key, b\<lparr>tokens := tokens b - 1\<rparr>)]))
         else (Denied (retry_after opts now b), evictIfOver opts (rest @ [(key, b)])))"
proof -
  have "filter (\<lambda>(k, _). k \<noteq> key) xs = xs" if "map_of xs key = None" for xs :: buckets
    using that by (auto simp: filter_id_conv map_of_eq_None_iff rev_image_eqI)
  then show ?thesis
    by (simp add: check_def current_def Let_def split: option.split)
qed

lemma refill_ok:
  assumes "valid_opts opts" "bucket_ok opts now b"
  shows "0 \<le> tokens (refill opts now b)" "tokens (refill opts now b) \<le> limit opts"
    "lastRefillMs (refill opts now b) \<le> now" "lastTouchedMs (refill opts now b) = now"
    "tokens b \<le> tokens (refill opts now b)"
  using assms by (auto simp: refill_def Let_def bucket_ok_def valid_opts_def)

lemma current_ok:
  assumes "valid_opts opts" "buckets_ok opts now bs"
  shows "0 \<le> tokens (current opts now key bs)" "tokens (current opts now key bs) \<le> limit opts"
    "lastRefillMs (current opts now key bs) \<le> now" "lastTouchedMs (current opts now key bs) = now"
proof -
  have "bucket_ok opts now b" if "map_of (prune_buckets opts now bs) key = Some b" for b
    using buckets_ok_prune [OF assms(2)] map_of_SomeD [OF that] by (force simp: buckets_ok_def)
  then show "0 \<le> tokens (current opts now key bs)" "tokens (current opts now key bs) \<le> limit opts"
    "lastRefillMs (current opts now key bs) \<le> now" "lastTouchedMs (current opts now key bs) = now"
    using assms(1) refill_ok by (auto simp: current_def valid_opts_def split: option.split)
qed

lemma stored_ok:
  assumes "valid_opts opts" "buckets_ok opts now bs" "bucket_ok opts now b" "lastTouchedMs b = now"
  shows "buckets_ok opts now (evictIfOver opts (filter (\<lambda>(k, _). k \<noteq> key) (prune_buckets opts now bs) @ [(key, b)]))"
proof -
  let ?rest = "filter (\<lambda>(k, _). k \<noteq> key) (prune_buckets opts now bs)"
  have p: "buckets_ok opts now (prune_buckets opts now bs)" using buckets_ok_prune assms(2) .
  have "distinct (map fst (?rest @ [(key, b)]))"
    using p by (auto simp: buckets_ok_def distinct_map_filter split_beta)
  moreover have "sorted (map (lastTouchedMs \<circ> snd) (?rest @ [(key, b)]))"
    using p assms(4) by (auto simp: buckets_ok_def sorted_append sorted_filter bucket_ok_def)
  moreover have "\<forall>e \<in> set (?rest @ [(key, b)]). bucket_ok opts now (snd e)"
    using p assms(3) by (auto simp: buckets_ok_def)
  moreover obtain pre where "?rest @ [(key, b)] = pre @ evictIfOver opts (?rest @ [(key, b)])"
    using evict_suffix by blast
  moreover have "int (length (evictIfOver opts (?rest @ [(key, b)]))) \<le> lruCap opts"
    using assms(1) evict_length by (simp add: valid_opts_def)
  ultimately show ?thesis
    unfolding buckets_ok_def by (metis (no_types, lifting) Un_iff distinct_append map_append set_append sorted_append)
qed

lemma check_ok:
  assumes "valid_opts opts" "buckets_ok opts t bs" "t \<le> now"
  shows "buckets_ok opts now (snd (check opts now key bs))"
proof -
  have bs: "buckets_ok opts now bs" using buckets_ok_mono assms(2,3) .
  note c = current_ok [OF assms(1) bs, of key]
  show ?thesis
  proof (cases "tokens (current opts now key bs) > 0")
    case True
    then have "bucket_ok opts now (current opts now key bs\<lparr>tokens := tokens (current opts now key bs) - 1\<rparr>)"
      using c by (simp add: bucket_ok_def)
    then show ?thesis using stored_ok [OF assms(1) bs] True c by (simp add: check_shape Let_def)
  next
    case False
    then have "bucket_ok opts now (current opts now key bs)"
      using c assms(1) by (simp add: bucket_ok_def valid_opts_def)
    then show ?thesis using stored_ok [OF assms(1) bs] False c by (simp add: check_shape Let_def)
  qed
qed

section \<open>The level of a bucket\<close>

text \<open>What a key could be served at once, in units of \<open>1 / windowMs\<close> tokens: a full bucket when it has
  no entry, else the stored tokens and what has accrued since the last refill.\<close>

definition level :: "rate_opts \<Rightarrow> string \<Rightarrow> int \<Rightarrow> buckets \<Rightarrow> int" where
  "level opts key now bs =
     (case map_of bs key of
        None \<Rightarrow> limit opts * windowMs opts
      | Some b \<Rightarrow> min (limit opts * windowMs opts) (tokens b * windowMs opts + limit opts * (now - lastRefillMs b)))"

lemma map_of_key_in: "map_of bs key = Some b \<Longrightarrow> buckets_ok opts t bs \<Longrightarrow> bucket_ok opts t b"
  by (force simp: buckets_ok_def dest: map_of_SomeD)

lemma level_bounds:
  assumes "valid_opts opts" "buckets_ok opts now bs"
  shows "0 \<le> level opts key now bs" "level opts key now bs \<le> limit opts * windowMs opts"
proof -
  have "0 \<le> tokens b * windowMs opts + limit opts * (now - lastRefillMs b)" if "map_of bs key = Some b" for b
    using map_of_key_in [OF that assms(2)] assms(1)
    by (intro add_nonneg_nonneg mult_nonneg_nonneg) (auto simp: bucket_ok_def valid_opts_def)
  then show "0 \<le> level opts key now bs" "level opts key now bs \<le> limit opts * windowMs opts"
    using assms(1) by (auto simp: level_def valid_opts_def split: option.split)
qed

lemma level_later:
  assumes "valid_opts opts" "t \<le> now"
  shows "level opts key now bs \<le> level opts key t bs + limit opts * (now - t)"
proof (cases "map_of bs key")
  case None
  then show ?thesis using assms by (simp add: level_def valid_opts_def)
next
  case (Some b)
  have "limit opts * (now - lastRefillMs b) = limit opts * (t - lastRefillMs b) + limit opts * (now - t)"
    by (simp add: algebra_simps)
  moreover have "0 \<le> limit opts * (now - t)" using assms by (simp add: valid_opts_def)
  ultimately show ?thesis using Some by (simp add: level_def)
qed

text \<open>Pruning an entry never raises the level: by then the bucket was full again.\<close>

lemma prune_lookup:
  assumes "distinct (map fst bs)"
  shows "map_of (prune_buckets opts now bs) key = map_of bs key
    \<or> map_of (prune_buckets opts now bs) key = None
        \<and> (\<exists>b. map_of bs key = Some b \<and> now - lastTouchedMs b > windowMs opts * 2)"
proof -
  obtain pre where pre: "bs = pre @ prune_buckets opts now bs"
    "\<forall>e \<in> set pre. now - lastTouchedMs (snd e) > windowMs opts * 2"
    using prune_suffix by blast
  have "map_of (pre @ prune_buckets opts now bs) key =
      (case map_of pre key of None \<Rightarrow> map_of (prune_buckets opts now bs) key | Some b \<Rightarrow> Some b)"
    by (simp only: map_of_append map_add_def)
  then have m: "map_of bs key =
      (case map_of pre key of None \<Rightarrow> map_of (prune_buckets opts now bs) key | Some b \<Rightarrow> Some b)"
    unfolding pre(1) [symmetric] .
  show ?thesis
  proof (cases "map_of pre key")
    case None
    then show ?thesis using m by simp
  next
    case (Some b)
    then have "(key, b) \<in> set pre" by (rule map_of_SomeD)
    then have "key \<in> fst ` set pre" "windowMs opts * 2 < now - lastTouchedMs b"
      using pre(2) by force+
    moreover have "map fst bs = map fst pre @ map fst (prune_buckets opts now bs)"
      using arg_cong [OF pre(1), of "map fst"] by (simp only: map_append)
    then have "fst ` set pre \<inter> fst ` set (prune_buckets opts now bs) = {}"
      using assms by simp
    ultimately have "map_of (prune_buckets opts now bs) key = None" "windowMs opts * 2 < now - lastTouchedMs b"
      by (auto simp only: map_of_eq_None_iff)
    moreover have "map_of bs key = Some b" using m Some by simp
    ultimately show ?thesis by blast
  qed
qed

lemma level_prune:
  assumes "valid_opts opts" "buckets_ok opts now bs"
  shows "level opts key now (prune_buckets opts now bs) \<le> level opts key now bs"
proof -
  have "distinct (map fst bs)" using assms(2) by (simp add: buckets_ok_def)
  from prune_lookup [OF this, of opts now key] show ?thesis
proof (elim disjE conjE exE)
  assume "map_of (prune_buckets opts now bs) key = map_of bs key"
  then show ?thesis by (simp add: level_def)
next
  fix b
  assume b: "map_of (prune_buckets opts now bs) key = None" "map_of bs key = Some b"
    "windowMs opts * 2 < now - lastTouchedMs b"
  have ok: "bucket_ok opts now b" using map_of_key_in assms(2) b(2) by blast
  have "limit opts * windowMs opts \<le> limit opts * (now - lastRefillMs b)"
    using ok b(3) assms(1) by (intro mult_left_mono) (auto simp: bucket_ok_def valid_opts_def)
  moreover have "0 \<le> tokens b * windowMs opts"
    using ok assms(1) by (simp add: bucket_ok_def valid_opts_def)
  ultimately show ?thesis using b by (simp add: level_def)
qed
qed

lemma refill_level:
  assumes "valid_opts opts" "bucket_ok opts now b"
  shows "tokens (refill opts now b) * windowMs opts + limit opts * (now - lastRefillMs (refill opts now b))
    \<le> min (limit opts * windowMs opts) (tokens b * windowMs opts + limit opts * (now - lastRefillMs b))"
proof -
  let ?W = "windowMs opts" and ?L = "limit opts"
  let ?r = "((now - lastRefillMs b) * ?L) div ?W"
  have W: "0 < ?W" using assms(1) by (simp add: valid_opts_def)
  have e: "(now - lastRefillMs b) * ?L = ?r * ?W + (now - lastRefillMs b) * ?L mod ?W"
    by (rule div_mult_mod_eq [symmetric])
  have m: "0 \<le> (now - lastRefillMs b) * ?L mod ?W" "(now - lastRefillMs b) * ?L mod ?W < ?W"
    using W by simp_all
  have q: "?r * ?W \<le> (now - lastRefillMs b) * ?L" "(now - lastRefillMs b) * ?L < ?r * ?W + ?W"
    using e m by linarith+
  show ?thesis
  proof (cases "?r > 0")
    case True
    have "min ?L (tokens b + ?r) * ?W \<le> ?L * ?W" "min ?L (tokens b + ?r) * ?W \<le> (tokens b + ?r) * ?W"
      using W by (simp_all add: mult_right_mono)
    moreover have "(tokens b + ?r) * ?W \<le> tokens b * ?W + ?L * (now - lastRefillMs b)"
      using q(1) by (simp add: algebra_simps)
    ultimately show ?thesis using True by (simp add: refill_def Let_def)
  next
    case False
    then have "?r * ?W \<le> 0" using W by (simp add: mult_nonpos_nonneg)
    then have "(now - lastRefillMs b) * ?L < ?W" using q(2) by linarith
    moreover have "(tokens b + 1) * ?W \<le> ?L * ?W"
      using assms(2) W by (intro mult_right_mono) (auto simp: bucket_ok_def)
    ultimately show ?thesis using False by (simp add: refill_def Let_def algebra_simps)
  qed
qed

text \<open>As long as there are no more keys than the cap, nothing is evicted.\<close>

lemma store_lookup:
  fixes b :: bucket
  assumes "buckets_ok opts now bs" "int (card (insert key (fst ` set bs))) \<le> lruCap opts"
  defines "kept \<equiv> filter (\<lambda>(k, _). k \<noteq> key) (prune_buckets opts now bs) @ [(key, b)]"
  shows "evictIfOver opts kept = kept" "fst ` set kept \<subseteq> insert key (fst ` set bs)"
    "map_of kept k = (if k = key then Some b else map_of (prune_buckets opts now bs) k)"
proof -
  obtain pre where pre: "bs = pre @ prune_buckets opts now bs" using prune_suffix by blast
  then have "set (prune_buckets opts now bs) \<subseteq> set bs" by (metis Un_upper2 set_append)
  then show sub: "fst ` set kept \<subseteq> insert key (fst ` set bs)" by (auto simp: kept_def)
  have "distinct (map fst (prune_buckets opts now bs))"
    using buckets_ok_prune [OF assms(1)] by (simp add: buckets_ok_def)
  then have "distinct (map fst kept)"
    by (auto simp: kept_def distinct_map_filter)
  then have "length kept = card (fst ` set kept)"
    using distinct_card [of "map fst kept"] by simp
  also have "\<dots> \<le> card (insert key (fst ` set bs))" using sub by (intro card_mono) simp_all
  finally show "evictIfOver opts kept = kept" using assms(2) by (intro evict_id) simp
  have "map_of (filter (\<lambda>(k, _). k \<noteq> key) xs) k = (if k = key then None else map_of xs k)" for xs :: buckets
    by (induction xs) auto
  then show "map_of kept k = (if k = key then Some b else map_of (prune_buckets opts now bs) k)"
    by (auto simp: kept_def map_add_def split: option.split)
qed

lemma current_level:
  fixes key :: string
  assumes "valid_opts opts" "buckets_ok opts now bs"
  defines "b \<equiv> current opts now key bs"
  shows "tokens b * windowMs opts + limit opts * (now - lastRefillMs b) \<le> level opts key now bs"
proof -
  let ?p = "prune_buckets opts now bs"
  have "tokens b * windowMs opts + limit opts * (now - lastRefillMs b) \<le> level opts key now ?p"
  proof (cases "map_of ?p key")
    case None
    then show ?thesis by (simp add: b_def current_def level_def)
  next
    case (Some x)
    have "bucket_ok opts now x" using map_of_key_in [OF Some] buckets_ok_prune assms(2) by blast
    then show ?thesis using refill_level [OF assms(1)] Some by (simp add: b_def current_def level_def)
  qed
  also have "\<dots> \<le> level opts key now bs" by (rule level_prune [OF assms(1,2)])
  finally show ?thesis .
qed

lemma check_level:
  assumes "valid_opts opts" "buckets_ok opts now bs" "int (card (insert key (fst ` set bs))) \<le> lruCap opts"
  shows "(if k = key \<and> is_allowed (fst (check opts now key bs)) then windowMs opts else 0)
      + level opts k now (snd (check opts now key bs)) \<le> level opts k now bs"
    and "fst ` set (snd (check opts now key bs)) \<subseteq> insert key (fst ` set bs)"
proof -
  let ?b = "current opts now key bs"
  let ?b' = "if tokens ?b > 0 then ?b\<lparr>tokens := tokens ?b - 1\<rparr> else ?b"
  let ?kept = "filter (\<lambda>(k, _). k \<noteq> key) (prune_buckets opts now bs) @ [(key, ?b')]"
  note store = store_lookup [OF assms(2,3), where b = ?b']
  have c: "fst (check opts now key bs) = (if tokens ?b > 0 then Allowed (tokens ?b - 1) else Denied (retry_after opts now ?b))"
    "snd (check opts now key bs) = ?kept"
    using store(1) by (auto simp: check_shape Let_def)
  show "fst ` set (snd (check opts now key bs)) \<subseteq> insert key (fst ` set bs)"
    unfolding c(2) by (rule store(2))
  show "(if k = key \<and> is_allowed (fst (check opts now key bs)) then windowMs opts else 0)
      + level opts k now (snd (check opts now key bs)) \<le> level opts k now bs"
  proof (cases "k = key")
    case True
    have "tokens ?b * windowMs opts + limit opts * (now - lastRefillMs ?b) \<le> level opts key now bs"
      by (rule current_level [OF assms(1,2)])
    then show ?thesis
      unfolding c(2) level_def [of opts k now ?kept] store(3)
      using True by (auto simp: c(1) algebra_simps min_def)
  next
    case False
    then have "level opts k now ?kept = level opts k now (prune_buckets opts now bs)"
      unfolding level_def store(3) using False by simp
    then show ?thesis using False level_prune [OF assms(1,2), of k] by (simp add: c(2))
  qed
qed

lemma served_Cons:
  "served opts ((now, key) # rs) bs k =
     (if k = key \<and> is_allowed (fst (check opts now key bs)) then 1 else 0)
     + served opts rs (snd (check opts now key bs)) k"
  by (auto simp: served_def split: prod.split)

lemma served_level:
  assumes "valid_opts opts"
  shows "sorted (map fst rs) \<Longrightarrow> \<forall>r \<in> set rs. t \<le> fst r \<and> fst r \<le> t1 \<Longrightarrow> t \<le> t1 \<Longrightarrow> buckets_ok opts t bs \<Longrightarrow>
    int (card (fst ` set bs \<union> snd ` set rs)) \<le> lruCap opts \<Longrightarrow>
    int (served opts rs bs k) * windowMs opts \<le> level opts k t bs + limit opts * (t1 - t)"
proof (induction rs arbitrary: bs t)
  case Nil
  then show ?case using level_bounds [OF assms] assms by (simp add: served_def valid_opts_def)
next
  case (Cons r rs)
  obtain now key where r: "r = (now, key)" by fastforce
  have now: "t \<le> now" "now \<le> t1" using Cons.prems(2) r by auto
  let ?bs = "snd (check opts now key bs)"
  have bs: "buckets_ok opts now bs" using buckets_ok_mono Cons.prems(4) now(1) by blast
  have "int (card (insert key (fst ` set bs))) \<le> int (card (fst ` set bs \<union> snd ` set (r # rs)))"
    unfolding of_nat_le_iff by (rule card_mono) (auto simp: r)
  then have cap: "int (card (insert key (fst ` set bs))) \<le> lruCap opts" using Cons.prems(5) by linarith
  note step = check_level(1) [OF assms bs cap, of k] check_level(2) [OF assms bs cap]
  have "int (card (fst ` set ?bs \<union> snd ` set rs)) \<le> int (card (fst ` set bs \<union> snd ` set (r # rs)))"
    unfolding of_nat_le_iff by (rule card_mono) (use step(2) r in auto)
  then have "int (served opts rs ?bs k) * windowMs opts \<le> level opts k now ?bs + limit opts * (t1 - now)"
    using Cons.prems now check_ok [OF assms Cons.prems(4) now(1)] r by (intro Cons.IH) auto
  moreover have "level opts k now bs \<le> level opts k t bs + limit opts * (now - t)"
    by (rule level_later [OF assms now(1)])
  moreover have "limit opts * (t1 - t) = limit opts * (t1 - now) + limit opts * (now - t)"
    by (simp add: algebra_simps)
  ultimately show ?case using step(1) by (auto simp: r served_Cons algebra_simps split: if_splits)
qed

lemma checks_append:
  "snd (checks opts (rs @ rs') bs) = snd (checks opts rs' (snd (checks opts rs bs)))"
  by (induction opts rs bs rule: checks.induct) (auto split: prod.split)

lemma checks_ok:
  assumes "valid_opts opts"
  shows "sorted (map fst rs) \<Longrightarrow> \<forall>r \<in> set rs. t \<le> fst r \<and> fst r \<le> t1 \<Longrightarrow> t \<le> t1 \<Longrightarrow> buckets_ok opts t bs \<Longrightarrow>
    buckets_ok opts t1 (snd (checks opts rs bs))"
proof (induction rs arbitrary: bs t)
  case Nil
  then show ?case using buckets_ok_mono by auto
next
  case (Cons r rs)
  obtain now key where r: "r = (now, key)" by fastforce
  have "buckets_ok opts t1 (snd (checks opts rs (snd (check opts now key bs))))"
    using Cons.prems check_ok [OF assms Cons.prems(4), of now key] r by (intro Cons.IH [of now]) auto
  then show ?case by (simp add: r case_prod_beta)
qed

lemma check_stores:
  obtains b where "snd (check opts now key bs) =
    evictIfOver opts (filter (\<lambda>(k, _). k \<noteq> key) (prune_buckets opts now bs) @ [(key, b)])"
    "fst (check opts now key bs) = Denied r \<Longrightarrow> b = current opts now key bs \<and> tokens b \<le> 0 \<and> r = retry_after opts now b"
  by (cases "tokens (current opts now key bs) > 0") (auto simp: check_shape Let_def)

lemma evict_subset: "set (evictIfOver opts bs) \<subseteq> set bs"
  using evict_suffix [of bs opts] by (metis Un_upper2 set_append)

lemma prune_subset: "set (prune_buckets opts now bs) \<subseteq> set bs"
  using prune_suffix [of bs opts now] by (metis Un_upper2 set_append)

lemma check_entries:
  "e \<in> set (snd (check opts now key bs)) \<Longrightarrow>
    fst e = key \<and> lastTouchedMs (snd e) = lastTouchedMs (current opts now key bs) \<or> e \<in> set (prune_buckets opts now bs)"
  by (auto simp: check_shape Let_def split: if_splits dest!: subsetD [OF evict_subset])

lemma check_keys: "fst ` set (snd (check opts now key bs)) \<subseteq> insert key (fst ` set bs)"
  using check_entries [of _ opts now key bs] prune_subset [of opts now bs] by blast

lemma checks_keys: "fst ` set (snd (checks opts rs bs)) \<subseteq> snd ` set rs \<union> fst ` set bs"
proof (induction rs arbitrary: bs)
  case Nil
  then show ?case by simp
next
  case (Cons r rs)
  obtain now key where r: "r = (now, key)" by fastforce
  have "fst ` set (snd (checks opts (r # rs) bs)) \<subseteq> snd ` set rs \<union> fst ` set (snd (check opts now key bs))"
    using Cons.IH [of "snd (check opts now key bs)"] by (simp add: r case_prod_beta)
  then show ?case using check_keys [of opts now key bs] by (simp add: r) blast
qed

text \<open>The buckets of the other keys are kept or dropped, never written.\<close>

lemma suffix_lookup:
  assumes "distinct (map fst (pre @ ys))"
  shows "map_of ys k \<in> {None, map_of (pre @ ys) k}"
proof (cases "map_of ys k")
  case (Some b)
  then have "k \<in> fst ` set ys" by (force dest: map_of_SomeD)
  then have "map_of pre k = None" using assms by (auto simp: map_of_eq_None_iff)
  then show ?thesis by (simp add: map_add_def)
qed simp

lemma check_lookup:
  assumes "buckets_ok opts now bs" "snd (check opts now key bs) =
    evictIfOver opts (filter (\<lambda>(k, _). k \<noteq> key) (prune_buckets opts now bs) @ [(key, b)])"
  shows "map_of (snd (check opts now key bs)) k \<in> {None, if k = key then Some b else map_of bs k}"
proof -
  let ?kept = "filter (\<lambda>(k, _). k \<noteq> key) (prune_buckets opts now bs) @ [(key, b)]"
  have d: "distinct (map fst (prune_buckets opts now bs))" "distinct (map fst bs)"
    using assms(1) buckets_ok_prune [OF assms(1)] by (simp_all add: buckets_ok_def)
  have "map_of (filter (\<lambda>(k, _). k \<noteq> key) xs) k = (if k = key then None else map_of xs k)" for xs :: buckets
    by (induction xs) auto
  then have "map_of ?kept k \<in> {None, if k = key then Some b else map_of bs k}"
    using prune_lookup [OF d(2), of opts now k] by (auto simp: map_add_def split: option.splits)
  moreover obtain pre where pre: "?kept = pre @ evictIfOver opts ?kept" using evict_suffix by blast
  have "distinct (map fst ?kept)" using d(1) by (auto simp: distinct_map_filter)
  then have "map_of (evictIfOver opts ?kept) k \<in> {None, map_of ?kept k}"
    using suffix_lookup [of pre "evictIfOver opts ?kept" k] unfolding pre [symmetric] by blast
  ultimately show ?thesis unfolding assms(2) by auto
qed

lemma checks_other:
  assumes "valid_opts opts"
  shows "sorted (map fst rs) \<Longrightarrow> \<forall>r \<in> set rs. t \<le> fst r \<Longrightarrow> buckets_ok opts t bs \<Longrightarrow> k \<notin> snd ` set rs \<Longrightarrow>
    map_of (snd (checks opts rs bs)) k \<in> {None, map_of bs k}"
proof (induction rs arbitrary: bs t)
  case Nil
  then show ?case by simp
next
  case (Cons r rs)
  obtain now key where r: "r = (now, key)" by fastforce
  have now: "t \<le> now" using Cons.prems(2) r by simp
  let ?bs = "snd (check opts now key bs)"
  obtain b where b: "?bs = evictIfOver opts (filter (\<lambda>(k, _). k \<noteq> key) (prune_buckets opts now bs) @ [(key, b)])"
    by (rule check_stores)
  have "k \<noteq> key" using Cons.prems(4) r by auto
  then have "map_of ?bs k \<in> {None, map_of bs k}"
    using check_lookup [OF buckets_ok_mono [OF Cons.prems(3) now] b, of k] by simp
  moreover have "map_of (snd (checks opts rs ?bs)) k \<in> {None, map_of ?bs k}"
    using Cons.prems check_ok [OF assms Cons.prems(3) now] r by (intro Cons.IH [of now]) auto
  ultimately show ?case by (auto simp: r case_prod_beta)
qed

lemma empty_ok: "valid_opts opts \<Longrightarrow> buckets_ok opts t []"
  by (simp add: buckets_ok_def valid_opts_def)

lemma start_ok:
  assumes "valid_opts opts" "sorted (map fst rs)" "\<forall>r \<in> set rs. fst r \<le> t"
  shows "buckets_ok opts t (snd (checks opts rs []))"
proof -
  let ?t0 = "Min (insert t (fst ` set rs))"
  show ?thesis
    by (rule checks_ok [OF assms(1,2), of ?t0]) (use assms in \<open>auto intro: empty_ok\<close>)
qed

section \<open>The guarantees\<close>

text \<open>C33: a key is never served more than its limit allows: while the distinct keys fit into the map, in
  any stretch of time, after any history, the requests served for a key are at most one full bucket
  plus the tokens that accrue in that time; dropping idle buckets never helps a client.\<close>

theorem rate_bound:
  assumes "valid_opts opts" "sorted (map fst (history @ rs))"
    and "\<forall>r \<in> set history. fst r \<le> t0" "\<forall>r \<in> set rs. t0 \<le> fst r \<and> fst r \<le> t1" "t0 \<le> t1"
    and "int (card (snd ` set (history @ rs))) \<le> lruCap opts"
  shows "int (served opts rs (snd (checks opts history [])) k) * windowMs opts
    \<le> limit opts * (windowMs opts + (t1 - t0))"
proof -
  let ?bs = "snd (checks opts history [])"
  have bs: "buckets_ok opts t0 ?bs" using assms by (intro start_ok) (auto simp: sorted_append)
  have "int (card (fst ` set ?bs \<union> snd ` set rs)) \<le> int (card (snd ` set (history @ rs)))"
    unfolding of_nat_le_iff by (rule card_mono) (use checks_keys [of opts history "[]"] in auto)
  then have "int (served opts rs ?bs k) * windowMs opts \<le> level opts k t0 ?bs + limit opts * (t1 - t0)"
    using assms bs by (intro served_level) (auto simp: sorted_append)
  moreover have "level opts k t0 ?bs \<le> limit opts * windowMs opts" by (rule level_bounds(2) [OF assms(1) bs])
  ultimately show ?thesis by (simp add: algebra_simps)
qed

lemma wait_long_enough:
  assumes "valid_opts opts" "now' \<ge> now + 1000 * retry_after opts now b" "0 \<le> tokens b"
  shows "0 < tokens (refill opts now' b)"
proof -
  let ?W = "windowMs opts" and ?L = "limit opts" and ?d = "now - lastRefillMs b"
  have L: "0 < ?L" "0 < ?W" using assms(1) by (simp_all add: valid_opts_def)
  let ?x = "(of_int ?W / of_int ?L - of_int ?d) / 1000 :: rat"
  have "?x \<le> of_int (retry_after opts now b)"
    unfolding retry_after_def by (rule order_trans [OF le_of_int_ceiling]) simp
  then have "of_int ?W / of_int ?L \<le> (of_int (?d + 1000 * retry_after opts now b) :: rat)" by simp
  also have "\<dots> \<le> of_int (now' - lastRefillMs b)" unfolding of_int_le_iff using assms(2) by linarith
  finally have "of_int ?W \<le> (of_int ((now' - lastRefillMs b) * ?L) :: rat)"
    using L by (simp add: divide_le_eq)
  then have "?W \<le> (now' - lastRefillMs b) * ?L" unfolding of_int_le_iff .
  then have "0 < (now' - lastRefillMs b) * ?L div ?W" using L by (simp add: pos_imp_zdiv_pos_iff)
  then show ?thesis using assms(3) L by (simp add: refill_def Let_def)
qed

text \<open>\<open>Retry-After\<close> is honest: when a request is refused with a number of seconds, then a client that
  waits that long is served, whatever other clients did in between.\<close>

theorem retry_after_honest:
  assumes "valid_opts opts"
    and "sorted (map fst (history @ (now, key) # others @ [(now', key)]))" "key \<notin> snd ` set others"
    and "fst (check opts now key (snd (checks opts history []))) = Denied r"
    and "now' \<ge> now + 1000 * r"
  shows "is_allowed (fst (check opts now' key (snd (checks opts (history @ (now, key) # others) []))))"
proof -
  let ?bs = "snd (checks opts history [])"
  let ?bs1 = "snd (check opts now key ?bs)"
  let ?bs2 = "snd (checks opts others ?bs1)"
  have times: "sorted (map fst others)" "\<forall>e \<in> set others. now \<le> fst e \<and> fst e \<le> now'" "now \<le> now'"
    using assms(2) by (auto simp: sorted_append)
  have bs: "buckets_ok opts now ?bs" using assms(1,2) by (intro start_ok) (auto simp: sorted_append)
  have bs1: "buckets_ok opts now ?bs1" by (rule check_ok [OF assms(1) bs]) simp
  have bs2: "buckets_ok opts now' ?bs2" by (rule checks_ok [OF assms(1) times bs1])
  obtain b where b: "?bs1 = evictIfOver opts (filter (\<lambda>(k, _). k \<noteq> key) (prune_buckets opts now ?bs) @ [(key, b)])"
      "b = current opts now key ?bs" "r = retry_after opts now b"
    using check_stores [of opts now key ?bs r] assms(4) by metis
  have "map_of ?bs1 key \<in> {None, Some b}" using check_lookup [OF bs b(1), of key] by simp
  moreover have "map_of ?bs2 key \<in> {None, map_of ?bs1 key}"
    using times by (intro checks_other [OF assms(1) _ _ bs1 assms(3)]) auto
  moreover have "distinct (map fst ?bs2)" using bs2 by (simp add: buckets_ok_def)
  then have "map_of (prune_buckets opts now' ?bs2) key \<in> {None, map_of ?bs2 key}"
    using prune_lookup [of ?bs2 opts now' key] by auto
  ultimately consider "map_of (prune_buckets opts now' ?bs2) key = None"
    | "map_of (prune_buckets opts now' ?bs2) key = Some b" by auto
  then have "0 < tokens (current opts now' key ?bs2)"
  proof cases
    case 1
    then show ?thesis using assms(1) by (simp add: current_def valid_opts_def)
  next
    case 2
    have "0 \<le> tokens b" using b(2) current_ok(1) [OF assms(1) bs] by simp
    then show ?thesis using 2 wait_long_enough [OF assms(1)] assms(5) b(3) by (simp add: current_def)
  qed
  then have "is_allowed (fst (check opts now' key ?bs2))" by (simp add: check_shape Let_def)
  then show ?thesis by (simp add: checks_append case_prod_beta)
qed

text \<open>The map itself: at most \<open>lruCap\<close> keys, and after a check no entry older than twice the window, so
  the early exit of the pruning loop misses nothing.\<close>

lemma limiter_bounded:
  assumes "valid_opts opts" "buckets_ok opts t bs" "t \<le> now"
  shows "int (length (snd (check opts now key bs))) \<le> lruCap opts"
    and "e \<in> set (snd (check opts now key bs)) \<Longrightarrow> now - lastTouchedMs (snd e) \<le> windowMs opts * 2"
proof -
  show "int (length (snd (check opts now key bs))) \<le> lruCap opts"
    using check_ok [OF assms] by (simp add: buckets_ok_def)
  assume e: "e \<in> set (snd (check opts now key bs))"
  have bs: "buckets_ok opts now bs" using buckets_ok_mono assms(2,3) .
  have "sorted (map (lastTouchedMs \<circ> snd) bs)" using bs by (simp add: buckets_ok_def)
  then show "now - lastTouchedMs (snd e) \<le> windowMs opts * 2"
    using check_entries [OF e] sorted_prune_complete [of bs e opts now] current_ok(4) [OF assms(1) bs] assms(1)
    by (auto simp: valid_opts_def)
qed

text \<open>The cap on the keys is another matter: whoever can use \<open>lruCap\<close> other keys gets a fresh bucket.\<close>

lemma lru_cap_resets_bucket:
  "map is_allowed (fst (checks \<lparr>limit = 1, windowMs = 60000, lruCap = 2\<rparr>
      [(0, ''a''), (1, ''a''), (2, ''b''), (3, ''c''), (4, ''a'')] [])) = [True, False, True, True, True]"
  by (simp add: check_def refill_def Let_def)

section \<open>Witnesses\<close>

definition opts2 :: rate_opts where "opts2 = \<lparr>limit = 2, windowMs = 1000, lruCap = 3\<rparr>"

theorem rate_bound_witness:
  "int (served opts2 [(100, ''a''), (200, ''a''), (700, ''b'')] (snd (checks opts2 [(0, ''a'')] [])) ''a'') * 1000
    \<le> 2 * (1000 + (700 - 100))"
  using rate_bound [of opts2 "[(0, ''a'')]" "[(100, ''a''), (200, ''a''), (700, ''b'')]" 100 700 "''a''"]
  by (simp add: opts2_def valid_opts_def)

lemma refused:
  "fst (check \<lparr>limit = 1, windowMs = 1000, lruCap = 3\<rparr> 100 ''a''
      (snd (checks \<lparr>limit = 1, windowMs = 1000, lruCap = 3\<rparr> [(0, ''a'')] []))) = Denied 1"
  by (simp add: check_def refill_def retry_after_def Let_def)

theorem retry_after_honest_witness:
  "is_allowed (fst (check \<lparr>limit = 1, windowMs = 1000, lruCap = 3\<rparr> 1100 ''a''
      (snd (checks \<lparr>limit = 1, windowMs = 1000, lruCap = 3\<rparr> ([(0, ''a'')] @ (100, ''a'') # [(500, ''b'')]) []))))"
  by (rule retry_after_honest [OF _ _ _ refused]) (simp_all add: valid_opts_def)

end
