(* ===== verification/Edit_Distance.thy ===== *)
theory Edit_Distance
  imports Prelude "HOL-Library.List_Lexorder" "HOL-Library.Char_ord"
begin

text \<open>
  Edit distance and the nearest-match suggestion for unknown configuration keys
  (\<open>src/core/levenshtein.ts\<close>).  The two row buffers of the loop are the lists before and after a
  pass; a pass overwrites the whole of \<open>curr\<close>, so what the swap leaves in it does not matter.
  The distance is proved to be the least number of single-character edits.
\<close>

section \<open>The code\<close>

definition cell :: "nat \<Rightarrow> nat \<Rightarrow> nat \<Rightarrow> nat" where
  "cell del ins sub =
     (if del < ins then (if del < sub then del else sub) else if ins < sub then ins else sub)"

text \<open>The inner loop, from column \<open>j\<close> on: \<open>left\<close> is \<open>curr[j - 1]\<close>, the row begins at \<open>prev[j - 1]\<close>.\<close>

fun fill_row :: "'a \<Rightarrow> 'a list \<Rightarrow> nat list \<Rightarrow> nat \<Rightarrow> nat list" where
  "fill_row ai (c # cs) (p0 # p1 # ps) left =
     (let v = cell (p1 + 1) (left + 1) (p0 + (if ai = c then 0 else 1))
      in v # fill_row ai cs (p1 # ps) v)"
| "fill_row ai _ _ left = []"

fun fill_rows :: "'a list \<Rightarrow> 'a list \<Rightarrow> nat \<Rightarrow> nat list \<Rightarrow> nat list" where
  "fill_rows [] b i prev = prev"
| "fill_rows (ai # as) b i prev = fill_rows as b (i + 1) (i # fill_row ai b prev i)"

definition editDistance :: "'a list \<Rightarrow> 'a list \<Rightarrow> nat" where
  "editDistance a b =
     (if a = b then 0
      else if a = [] then length b
      else if b = [] then length a
      else (let (long, short) = (if length a < length b then (b, a) else (a, b))
            in last (fill_rows long short 1 [0..<length short + 1])))"

fun nearest_loop :: "string \<Rightarrow> string list \<Rightarrow> string option \<Rightarrow> nat \<Rightarrow> string option \<times> nat" where
  "nearest_loop input [] best bestDist = (best, bestDist)"
| "nearest_loop input (c # cs) best bestDist =
     (let d = editDistance input c
      in if d < bestDist \<or> (d = bestDist \<and> (case best of None \<Rightarrow> False | Some x \<Rightarrow> c < x))
         then nearest_loop input cs (Some c) d
         else nearest_loop input cs best bestDist)"

definition suggestNearest :: "string \<Rightarrow> string list \<Rightarrow> nat \<Rightarrow> string option" where
  "suggestNearest input candidates maxDistance =
     (case nearest_loop input candidates None (maxDistance + 1) of
        (best, bestDist) \<Rightarrow> if bestDist \<le> maxDistance then best else None)"

section \<open>Edits\<close>

text \<open>One insertion, deletion or substitution of a character.\<close>

inductive edit :: "'a list \<Rightarrow> 'a list \<Rightarrow> bool" where
  inserts: "edit (u @ v) (u @ c # v)"
| deletes: "edit (u @ c # v) (u @ v)"
| replaces: "edit (u @ c # v) (u @ d # v)"

definition edits :: "'a list \<Rightarrow> 'a list \<Rightarrow> nat" where
  "edits a b = (LEAST n. (edit ^^ n) a b)"

lemma edit_sym: "edit a b \<Longrightarrow> edit b a"
  by (induction rule: edit.induct) (auto intro: edit.intros)

lemma edit_rev: "edit a b \<Longrightarrow> edit (rev a) (rev b)"
  by (induction rule: edit.induct) (auto intro: edit.intros)

lemma edit_Cons: "edit a b \<Longrightarrow> edit (x # a) (x # b)"
proof (induction rule: edit.induct)
  case (inserts u v c)
  then show ?case using edit.inserts [of "x # u" v c] by simp
next
  case (deletes u c v)
  then show ?case using edit.deletes [of "x # u" c v] by simp
next
  case (replaces u c v d)
  then show ?case using edit.replaces [of "x # u" c v d] by simp
qed

lemma edit_sym_pow: "(edit ^^ n) a b \<Longrightarrow> (edit ^^ n) b a"
proof (induction n arbitrary: b)
  case 0
  then show ?case by simp
next
  case (Suc n)
  then obtain c where "(edit ^^ n) a c" "edit c b" by auto
  then show ?case using Suc.IH edit_sym relpowp_Suc_I2 by metis
qed

lemma edit_map_pow:
  assumes "\<And>a b. edit a b \<Longrightarrow> edit (f a) (f b)"
  shows "(edit ^^ n) a b \<Longrightarrow> (edit ^^ n) (f a) (f b)"
  by (induction n arbitrary: b) (auto intro: assms)

lemma edits_sym: "edits a b = edits b a"
  unfolding edits_def using edit_sym_pow by metis

lemma edits_rev: "edits (rev a) (rev b) = edits a b"
proof -
  have "(edit ^^ n) (rev a) (rev b) \<longleftrightarrow> (edit ^^ n) a b" for n
    using edit_map_pow [of rev n a b] edit_map_pow [of rev n "rev a" "rev b"] edit_rev by auto
  then show ?thesis by (simp add: edits_def)
qed

section \<open>The recursive distance\<close>

fun lev :: "'a list \<Rightarrow> 'a list \<Rightarrow> nat" where
  "lev [] ys = length ys"
| "lev (x # xs) [] = Suc (length xs)"
| "lev (x # xs) (y # ys) =
     min (Suc (lev xs (y # ys))) (min (Suc (lev (x # xs) ys)) (lev xs ys + (if x = y then 0 else 1)))"

lemma lev_Nil2 [simp]: "lev xs [] = length xs"
  by (cases xs) simp_all

lemma lev_reaches: "(edit ^^ lev xs ys) xs ys"
proof (induction xs ys rule: lev.induct)
  case (1 ys)
  show ?case
  proof (induction ys)
    case Nil
    then show ?case by simp
  next
    case (Cons y ys)
    have "edit ys (y # ys)" using edit.inserts [of "[]" ys y] by simp
    then show ?case using Cons by auto
  qed
next
  case (2 x xs)
  have "(edit ^^ length zs) zs []" for zs :: "'a list"
  proof (induction zs)
    case Nil
    then show ?case by simp
  next
    case (Cons z zs)
    have "edit (z # zs) zs" using edit.deletes [of "[]" z zs] by simp
    then show ?case using Cons relpowp_Suc_I2 by fastforce
  qed
  from this [of "x # xs"] show ?case by simp
next
  case (3 x xs y ys)
  have "edit (x # xs) xs" using edit.deletes [of "[]" x xs] by simp
  then have a: "(edit ^^ Suc (lev xs (y # ys))) (x # xs) (y # ys)" using 3(1) by (rule relpowp_Suc_I2)
  have "edit ys (y # ys)" using edit.inserts [of "[]" ys y] by simp
  with 3(2) have b: "(edit ^^ Suc (lev (x # xs) ys)) (x # xs) (y # ys)" by (rule relpowp_Suc_I)
  have c: "(edit ^^ lev xs ys) (x # xs) (x # ys)"
    by (rule edit_map_pow [of "(#) x", OF edit_Cons 3(3)])
  have "edit (x # ys) (y # ys)" using edit.replaces [of "[]" x ys y] by simp
  then have c': "(edit ^^ (lev xs ys + (if x = y then 0 else 1))) (x # xs) (y # ys)"
    using c by (cases "x = y") auto
  have "lev (x # xs) (y # ys) \<in>
      {Suc (lev xs (y # ys)), Suc (lev (x # xs) ys), lev xs ys + (if x = y then 0 else 1)}"
    by (simp add: min_def)
  then consider "lev (x # xs) (y # ys) = Suc (lev xs (y # ys))"
    | "lev (x # xs) (y # ys) = Suc (lev (x # xs) ys)"
    | "lev (x # xs) (y # ys) = lev xs ys + (if x = y then 0 else 1)" by blast
  then show ?case
  proof cases
    case 1
    show ?thesis unfolding 1 by (rule a)
  next
    case 2
    show ?thesis unfolding 2 by (rule b)
  next
    case 3
    show ?thesis unfolding 3 by (rule c')
  qed
qed

lemma lev_insert_right: "lev v (y # ys) \<le> Suc (lev v ys)"
  by (cases v) simp_all

lemma lev_insert_left: "lev (c # v) ys \<le> Suc (lev v ys)"
  by (cases ys) simp_all

lemma lev_delete_left: "lev v ys \<le> Suc (lev (c # v) ys)"
proof (induction ys)
  case Nil
  then show ?case by simp
next
  case (Cons y ys)
  then show ?case using lev_insert_right [of v y ys] by (auto simp: min_def)
qed

lemma lev_replace_left: "lev (c # v) ys \<le> Suc (lev (d # v) ys)"
  by (induction ys) (auto simp: min_def)

lemma lev_Cons_mono:
  assumes "\<And>ys. lev s ys \<le> Suc (lev t ys)"
  shows "lev (x # s) ys \<le> Suc (lev (x # t) ys)"
proof (induction ys)
  case Nil
  then show ?case using assms [of "[]"] by simp
next
  case (Cons y ys)
  then show ?case using assms [of "y # ys"] assms [of ys] by (auto simp: min_def)
qed

lemma lev_append_mono:
  assumes "\<And>ys. lev s ys \<le> Suc (lev t ys)"
  shows "lev (u @ s) ys \<le> Suc (lev (u @ t) ys)"
  using assms by (induction u arbitrary: ys) (auto intro: lev_Cons_mono)

lemma lev_edit: "edit a b \<Longrightarrow> lev a ys \<le> Suc (lev b ys)"
  by (induction rule: edit.induct)
    (auto intro!: lev_append_mono lev_insert_left lev_delete_left lev_replace_left)

lemma lev_self [simp]: "lev xs xs = 0"
  by (induction xs) simp_all

lemma lev_least: "(edit ^^ n) a b \<Longrightarrow> lev a b \<le> n"
proof (induction n arbitrary: a)
  case 0
  then show ?case by simp
next
  case (Suc n)
  then obtain c where "edit a c" "(edit ^^ n) c b" using relpowp_Suc_D2 by metis
  then show ?case using Suc.IH lev_edit [of a c b] by (meson Suc_le_mono order_trans)
qed

lemma edits_lev: "edits a b = lev a b"
  unfolding edits_def by (rule Least_equality) (auto intro: lev_reaches lev_least)

section \<open>The rows\<close>

lemma edits_snoc:
  "edits (p @ [x]) (q @ [y]) =
     cell (Suc (edits p (q @ [y]))) (Suc (edits (p @ [x]) q)) (edits p q + (if x = y then 0 else 1))"
proof -
  have r: "edits u v = lev (rev u) (rev v)" for u v :: "'a list"
    by (simp add: edits_rev flip: edits_lev)
  show ?thesis by (simp add: r cell_def min_def)
qed

lemma edits_Nil: "edits [] q = length q" "edits p [] = length p"
  by (simp_all add: edits_lev)

text \<open>The row of a prefix \<open>p\<close>: its distance to every prefix of \<open>q @ cs\<close> from \<open>q\<close> on.\<close>

fun row :: "'a list \<Rightarrow> 'a list \<Rightarrow> 'a list \<Rightarrow> nat list" where
  "row p q [] = [edits p q]"
| "row p q (c # cs) = edits p q # row p (q @ [c]) cs"

lemma row_ne: "\<exists>ds. row p q cs = edits p q # ds"
  by (cases cs) simp_all

lemma fill_row_row: "fill_row x cs (row p q cs) (edits (p @ [x]) q) = tl (row (p @ [x]) q cs)"
proof (induction cs arbitrary: q)
  case Nil
  then show ?case by simp
next
  case (Cons c cs)
  obtain ds where ds: "row p (q @ [c]) cs = edits p (q @ [c]) # ds" using row_ne by blast
  have "cell (edits p (q @ [c]) + 1) (edits (p @ [x]) q + 1) (edits p q + (if x = c then 0 else 1)) =
      edits (p @ [x]) (q @ [c])"
    by (simp add: edits_snoc)
  moreover obtain es where "row (p @ [x]) (q @ [c]) cs = edits (p @ [x]) (q @ [c]) # es" using row_ne by blast
  ultimately show ?case using Cons.IH [of "q @ [c]"] by (simp add: ds Let_def)
qed

lemma fill_rows_row:
  "i = Suc (length p) \<Longrightarrow> fill_rows as b i (row p [] b) = row (p @ as) [] b"
proof (induction as arbitrary: i p)
  case Nil
  then show ?case by simp
next
  case (Cons x as)
  obtain ds where "row (p @ [x]) [] b = edits (p @ [x]) [] # ds" using row_ne by blast
  then have "i # fill_row x b (row p [] b) i = row (p @ [x]) [] b"
    using fill_row_row [of x b p "[]"] Cons.prems by (simp add: edits_Nil)
  then show ?case using Cons.IH [of "Suc i" "p @ [x]"] Cons.prems by simp
qed

lemma row_first: "row [] q cs = [length q..<length q + length cs + 1]"
proof (induction cs arbitrary: q)
  case Nil
  then show ?case by (simp add: edits_Nil)
next
  case (Cons c cs)
  have "[length q..<length q + length (c # cs) + 1] = length q # [Suc (length q)..<Suc (length q) + length cs + 1]"
    by (subst upt_conv_Cons) simp_all
  then show ?case using Cons [of "q @ [c]"] by (simp add: edits_Nil del: upt_Suc)
qed

lemma row_last: "last (row p q cs) = edits p (q @ cs)"
proof (induction cs arbitrary: q)
  case Nil
  then show ?case by simp
next
  case (Cons c cs)
  then show ?case using row_ne [of p "q @ [c]" cs] by (auto split: if_splits)
qed

text \<open>\<open>editDistance\<close> is the edit distance: the two-row loop, with its shortcuts and its swap of the
  arguments, computes the least number of single-character insertions, deletions and
  substitutions that turn one string into the other.\<close>

theorem editDistance_minimal: "editDistance a b = (LEAST n. (edit ^^ n) a b)"
proof -
  have rows: "last (fill_rows p q 1 [0..<length q + 1]) = edits p q" for p q :: "'a list"
    using fill_rows_row [of 1 "[]" p q] row_first [of "[]" q] row_last [of p "[]" q] by simp
  have "editDistance a b = edits a b"
    using rows [of a b] rows [of b a]
    by (auto simp: editDistance_def Let_def edits_Nil edits_sym [of b a]) (simp add: edits_lev)
  then show ?thesis by (simp add: edits_def)
qed

section \<open>The suggestion\<close>

definition better :: "string \<Rightarrow> string \<Rightarrow> string \<Rightarrow> bool" where
  "better input c c' \<longleftrightarrow> editDistance input c < editDistance input c' \<or>
     (editDistance input c = editDistance input c' \<and> c \<le> c')"

lemma nearest_loop_best:
  assumes "nearest_loop input cs best bd = (r, rd)"
    and "\<forall>x. best = Some x \<longrightarrow> bd = editDistance input x"
  shows "(r = best \<and> rd = bd \<and> (\<forall>c \<in> set cs. editDistance input c \<ge> bd \<and> (\<forall>x. best = Some x \<longrightarrow> better input x c)))
    \<or> (\<exists>c \<in> set cs. r = Some c \<and> rd = editDistance input c \<and> rd \<le> bd
         \<and> (\<forall>c' \<in> set cs. better input c c') \<and> (\<forall>x. best = Some x \<longrightarrow> better input c x) \<and> (best = None \<longrightarrow> rd < bd))"
  using assms
proof (induction cs arbitrary: best bd)
  case Nil
  then show ?case by simp
next
  case (Cons c cs)
  let ?d = "editDistance input c"
  show ?case
  proof (cases "?d < bd \<or> (?d = bd \<and> (case best of None \<Rightarrow> False | Some x \<Rightarrow> c < x))")
    case True
    then have "nearest_loop input cs (Some c) ?d = (r, rd)" using Cons.prems(1) by (simp add: Let_def)
    from Cons.IH [OF this] consider
        "r = Some c" "rd = ?d" "\<forall>c' \<in> set cs. better input c c'"
      | c0 where "c0 \<in> set cs" "r = Some c0" "rd = editDistance input c0" "rd \<le> ?d"
          "\<forall>c' \<in> set cs. better input c0 c'" "better input c0 c"
      by auto
    note cases = this
    have refl: "better input c c" by (simp add: better_def)
    have le: "?d \<le> bd" using True by auto
    have lt: "?d < bd" if "best = None" using True that by simp
    have c_best: "better input c x" if "best = Some x" for x
      using True Cons.prems(2) that by (auto simp: better_def)
    have trans: "better input c0 x" if "better input c0 c" "better input c x" for c0 x
      using that by (auto simp: better_def)
    from cases show ?thesis
    proof cases
      case 1
      then show ?thesis using refl le lt c_best by simp
    next
      case 2
      then show ?thesis using le lt c_best trans by (intro disjI2 bexI [of _ c0]) auto
    qed
  next
    case False
    then have n: "nearest_loop input cs best bd = (r, rd)"
      using Cons.prems(1) unfolding nearest_loop.simps Let_def if_not_P [OF False] by simp
    have ge: "bd \<le> ?d" using False by simp
    have best_c: "better input x c" if "best = Some x" for x
      using False Cons.prems(2) that by (auto simp: better_def)
    have trans: "better input c0 c" if "better input c0 x" "better input x c" for c0 x
      using that by (auto simp: better_def)
    from Cons.IH [OF n Cons.prems(2)] show ?thesis
    proof (elim disjE bexE conjE)
      assume "r = best" "rd = bd"
        "\<forall>c' \<in> set cs. bd \<le> editDistance input c' \<and> (\<forall>x. best = Some x \<longrightarrow> better input x c')"
      then show ?thesis using ge best_c by simp
    next
      fix c0
      assume c0: "c0 \<in> set cs" "r = Some c0" "rd = editDistance input c0" "rd \<le> bd"
        "\<forall>c' \<in> set cs. better input c0 c'" "\<forall>x. best = Some x \<longrightarrow> better input c0 x" "best = None \<longrightarrow> rd < bd"
      have "better input c0 c"
      proof (cases best)
        case None
        then show ?thesis using c0(3,7) ge by (simp add: better_def)
      next
        case (Some x)
        then show ?thesis using c0(6) best_c trans by blast
      qed
      then show ?thesis using c0 by auto
    qed
  qed
qed

text \<open>The suggestion is the nearest candidate: \<open>suggestNearest\<close> returns a candidate exactly when it is
  within the maximal distance and no candidate is nearer, or equally near and lexicographically
  smaller; it returns nothing exactly when every candidate is too far.\<close>

theorem suggestNearest_nearest:
  "(suggestNearest input cs m = Some c \<longleftrightarrow>
      c \<in> set cs \<and> editDistance input c \<le> m \<and>
      {c' \<in> set cs. editDistance input c' < editDistance input c \<or>
         (editDistance input c' = editDistance input c \<and> c' < c)} = {})
   \<and> (suggestNearest input cs m = None \<longleftrightarrow> {c' \<in> set cs. editDistance input c' \<le> m} = {})"
proof -
  obtain r rd where n: "nearest_loop input cs None (m + 1) = (r, rd)" by fastforce
  have worse: "{c' \<in> set cs. editDistance input c' < editDistance input c \<or>
         (editDistance input c' = editDistance input c \<and> c' < c)} = {} \<longleftrightarrow> (\<forall>c' \<in> set cs. better input c c')" for c
    by (auto simp: better_def not_less)
  have unique: "x = y" if "better input x y" "better input y x" for x y
    using that by (auto simp: better_def)
  note n = n [simplified]
  from nearest_loop_best [OF n] consider
      "r = None" "rd = m + 1" "\<forall>c \<in> set cs. editDistance input c \<ge> m + 1"
    | x where "x \<in> set cs" "r = Some x" "rd = editDistance input x" "rd < m + 1" "\<forall>c' \<in> set cs. better input x c'"
    by auto
  then show ?thesis
  proof cases
    case 1
    then show ?thesis unfolding worse by (auto simp: suggestNearest_def n)
  next
    case 2
    then show ?thesis unfolding worse using unique by (auto simp: suggestNearest_def n)
  qed
qed

end
