(* ===== verification/Sync_Gate.thy ===== *)
theory Sync_Gate
  imports Text_Match
begin

text \<open>
  The ledger of files that fail to import and the gate that decides whether a sync may advance its
  bookmark (\<open>src/core/sync-failure-ledger.ts\<close>).  The file of the ledger is the list of its rows,
  one per line; times are the milliseconds of the ISO texts.  A locked read-modify-write is one
  step; that the lock can time out, malformed lines, and the back-fill of rows written by older
  versions are not modelled.
\<close>

section \<open>Error codes\<close>

definition hits :: "string list list \<Rightarrow> string \<Rightarrow> bool" where
  "hits alternatives text \<longleftrightarrow> list_ex (\<lambda>p. matches p text) alternatives"

fun some_tail :: "(string \<Rightarrow> bool) \<Rightarrow> string \<Rightarrow> bool" where
  "some_tail P [] = P []"
| "some_tail P (c # cs) = (P (c # cs) \<or> some_tail P cs)"

definition lower_letter :: "char \<Rightarrow> bool" where
  "lower_letter c \<longleftrightarrow> 97 \<le> (of_char c :: nat) \<and> (of_char c :: nat) \<le> 122"

definition word_char :: "char \<Rightarrow> bool" where
  "word_char c \<longleftrightarrow> lower_letter c \<or> 48 \<le> (of_char c :: nat) \<and> (of_char c :: nat) \<le> 57 \<or> c = CHR ''_''"

fun at_word_start :: "(string \<Rightarrow> bool) \<Rightarrow> bool \<Rightarrow> string \<Rightarrow> bool" where
  "at_word_start P after_word [] = False"
| "at_word_start P after_word (c # cs) =
     (\<not> after_word \<and> P (c # cs) \<or> at_word_start P (word_char c) cs)"

text \<open>\<open>embedding requires [A-Z][A-Z0-9_]+_API_KEY\<close>, \<open>\brate.?limit\<close> and \<open>\b429\b\<close>, in lower case.\<close>

definition api_key_at :: "string \<Rightarrow> bool" where
  "api_key_at t \<longleftrightarrow>
     prefix ''embedding requires '' t \<and>
     (let r = drop (length ''embedding requires '') t
      in (case r of [] \<Rightarrow> False | c # _ \<Rightarrow> lower_letter c)
         \<and> some_tail (prefix ''_api_key'') (drop 2 (takeWhile word_char r)))"

definition rate_limit_at :: "string \<Rightarrow> bool" where
  "rate_limit_at t \<longleftrightarrow>
     prefix ''rate'' t \<and>
     (prefix ''limit'' (drop 4 t) \<or>
      (case drop 4 t of [] \<Rightarrow> False
       | c # r \<Rightarrow> c \<noteq> CHR 0x0A \<and> c \<noteq> CHR 0x0D \<and> prefix ''limit'' r))"

definition http_429_at :: "string \<Rightarrow> bool" where
  "http_429_at t \<longleftrightarrow>
     prefix ''429'' t \<and> (case drop 3 t of [] \<Rightarrow> True | c # _ \<Rightarrow> \<not> word_char c)"

definition classifyErrorCode :: "string \<Rightarrow> string" where
  "classifyErrorCode e =
     (let low = map to_lower e in
      if hits [[''slug'', ''does not match''], [''slug_mismatch'']] e then ''SLUG_MISMATCH''
      else if hits [[''duplicate key value violates unique constraint''], [''db_duplicate_key'']] e
      then ''DB_DUPLICATE_KEY''
      else if hits [[''canceling statement due to statement timeout''], [''statement_timeout'']] e
      then ''STATEMENT_TIMEOUT''
      else if hits [[''yaml parse failed''], [''yaml_parse'']] e then ''YAML_PARSE''
      else if hits [[''yamlexception''], [''duplicated mapping key''], [''yaml_duplicate_key'']] e
      then ''YAML_DUPLICATE_KEY''
      else if hits [[''file is empty or whitespace-only''], [''frontmatter must start with ---''], [''missing_open'']] e
      then ''MISSING_OPEN''
      else if hits [[''no closing --- delimiter''], [''heading at line '', '' found inside frontmatter''], [''missing_close'']] e
      then ''MISSING_CLOSE''
      else if hits [[''frontmatter block is empty''], [''empty_frontmatter'']] e then ''EMPTY_FRONTMATTER''
      else if hits [[''content contains null bytes''], [''null_bytes''], [''null byte'']] e then ''NULL_BYTES''
      else if hits [[''nested double quotes''], [''nested_quotes'']] e then ''NESTED_QUOTES''
      else if hits [[''invalid utf8''], [''invalid utf-8''], [''invalid_utf8'']] e then ''INVALID_UTF8''
      else if hits [[''file too large''], [''content too large''], [''file_too_large'']] e then ''FILE_TOO_LARGE''
      else if hits [[''skipping symlink''], [''symlink''], [''symlink_not_allowed'']] e then ''SYMLINK_NOT_ALLOWED''
      else if hits [[''takes_table_malformed''], [''takes_row_num_collision''], [''takes_fence_unbalanced'']] e
      then ''TAKES_TABLE_MALFORMED''
      else if hits [[''takes_holder_invalid'']] e then ''TAKES_HOLDER_INVALID''
      else if some_tail api_key_at low \<or> hits [[''embedding_no_creds'']] e then ''EMBEDDING_NO_CREDS''
      else if hits [[''anthropic has no embedding model''], [''embedding_no_touchpoint'']] e
      then ''EMBEDDING_NO_TOUCHPOINT''
      else if at_word_start rate_limit_at False low \<or> at_word_start http_429_at False low
        \<or> hits [[''too many requests''], [''rate_limited''], [''ratelimit'']] e
      then ''EMBEDDING_RATE_LIMIT''
      else if hits [[''insufficient_quota''], [''quota exceeded''], [''exceeded'', ''quota''],
          [''credit balance is too low''], [''billing''], [''embedding_quota'']] e
      then ''EMBEDDING_QUOTA''
      else if hits [[''maximum context length''], [''max_tokens''], [''context length''], [''input too long''],
          [''input length exceeds''], [''token exceed''], [''tokens exceed''], [''too many tokens''],
          [''embedding_oversize'']] e
      then ''EMBEDDING_OVERSIZE''
      else if hits [[''page_junk_pattern'']] e then ''PAGE_JUNK_PATTERN''
      else ''UNKNOWN'')"

section \<open>The ledger\<close>

datatype failure_state = FOpen | FAcknowledged | FAutoSkipped

record sync_failure =
  f_source :: string
  f_path :: string
  f_error :: string
  f_code :: string
  f_commit :: string
  f_line :: "int option"
  f_first_seen :: int
  f_ts :: int
  f_attempts :: int
  f_state :: failure_state
  f_resolved_at :: "int option"
  f_acknowledged :: bool
  f_acknowledged_at :: "int option"

definition DEFAULT_SOURCE_ID :: string where "DEFAULT_SOURCE_ID = ''default''"
definition DEFAULT_AUTOSKIP_AFTER :: int where "DEFAULT_AUTOSKIP_AFTER = 3"

definition isSkippablePath :: "string \<Rightarrow> bool" where
  "isSkippablePath path \<longleftrightarrow> \<not> prefix ''<'' path"

text \<open>The environment variable: unset or empty, not a finite number, or its floor.\<close>

datatype autoskip_env = EnvUnset | EnvNaN | EnvFloor int

definition resolveAutoSkipThreshold :: "autoskip_env \<Rightarrow> int" where
  "resolveAutoSkipThreshold v =
     (case v of EnvFloor n \<Rightarrow> if n < 0 then DEFAULT_AUTOSKIP_AFTER else n | _ \<Rightarrow> DEFAULT_AUTOSKIP_AFTER)"

definition ledgerKey :: "string \<Rightarrow> string \<Rightarrow> string" where
  "ledgerKey source path = source @ [CHR 0x00] @ path"

definition row_key :: "sync_failure \<Rightarrow> string" where
  "row_key f = ledgerKey (f_source f) (f_path f)"

definition applyMirror :: "sync_failure \<Rightarrow> sync_failure" where
  "applyMirror f =
     (if f_state f = FAcknowledged
      then f\<lparr>f_acknowledged := True, f_acknowledged_at := Some (orElse (f_resolved_at f) (f_ts f))\<rparr>
      else f\<lparr>f_acknowledged := False, f_acknowledged_at := None\<rparr>)"

definition mergeGroup :: "sync_failure list \<Rightarrow> sync_failure" where
  "mergeGroup rows =
     (let by_ts = sort_key f_ts rows;
          latest = last by_ts;
          st = (if list_ex (\<lambda>r. f_state r = FOpen) rows then FOpen
                else if list_ex (\<lambda>r. f_state r = FAutoSkipped) rows then FAutoSkipped else FAcknowledged);
          distinctCommits = int (length (remdups (map f_commit rows)));
          maxAttempts = fold (\<lambda>r m. max m (f_attempts r)) rows 0
      in applyMirror (latest\<lparr>f_first_seen := fold (\<lambda>r m. min (f_first_seen r) m) by_ts (f_first_seen (hd by_ts)),
           f_state := st, f_attempts := max (max distinctCommits maxAttempts) 1\<rparr>))"

text \<open>\<open>loadSyncFailures\<close>: the rows grouped by key, in the order of the first row of each.\<close>

fun group_rows :: "sync_failure list \<Rightarrow> sync_failure list list" where
  "group_rows [] = []"
| "group_rows (r # rs) =
     (r # filter (\<lambda>x. row_key x = row_key r) rs)
     # filter (\<lambda>g. row_key (hd g) \<noteq> row_key r) (group_rows rs)"

definition loadSyncFailures :: "sync_failure list \<Rightarrow> sync_failure list" where
  "loadSyncFailures file = map (\<lambda>g. case g of [r] \<Rightarrow> r | _ \<Rightarrow> mergeGroup g) (group_rows file)"

definition unacknowledgedSyncFailures :: "sync_failure list \<Rightarrow> sync_failure list" where
  "unacknowledgedSyncFailures file = filter (\<lambda>e. f_state e \<noteq> FAcknowledged) (loadSyncFailures file)"

text \<open>The summary by code: an object filled in order, its entries sorted by descending count.\<close>

fun bump :: "string \<Rightarrow> (string \<times> int) list \<Rightarrow> (string \<times> int) list" where
  "bump c [] = [(c, 1)]"
| "bump c ((d, n) # cs) = (if d = c then (d, n + 1) # cs else (d, n) # bump c cs)"

definition summarizeFailuresByCode :: "sync_failure list \<Rightarrow> (string \<times> int) list" where
  "summarizeFailuresByCode fs = sort_key (\<lambda>(_, n). - n) (fold (\<lambda>f. bump (f_code f)) fs [])"

section \<open>Mutations\<close>

record file_failure =
  x_path :: string
  x_error :: string
  x_line :: "int option"

definition fresh_row :: "string \<Rightarrow> file_failure \<Rightarrow> string \<Rightarrow> int \<Rightarrow> sync_failure" where
  "fresh_row source f commit now =
     applyMirror \<lparr>f_source = source, f_path = x_path f, f_error = x_error f, f_code = classifyErrorCode (x_error f),
       f_commit = commit, f_line = x_line f, f_first_seen = now, f_ts = now, f_attempts = 1, f_state = FOpen,
       f_resolved_at = None, f_acknowledged = False, f_acknowledged_at = None\<rparr>"

definition failed_again :: "file_failure \<Rightarrow> string \<Rightarrow> int \<Rightarrow> sync_failure \<Rightarrow> sync_failure" where
  "failed_again f commit now ex =
     applyMirror (ex\<lparr>f_attempts := f_attempts ex + 1, f_ts := now, f_commit := commit, f_error := x_error f,
       f_code := classifyErrorCode (x_error f), f_line := x_line f\<rparr>)"

definition record_one :: "string \<Rightarrow> string \<Rightarrow> int \<Rightarrow> file_failure \<Rightarrow> sync_failure list \<Rightarrow> sync_failure list" where
  "record_one source commit now f m =
     (let key = ledgerKey source (x_path f)
      in if list_ex (\<lambda>e. row_key e = key) m
         then map (\<lambda>e. if row_key e = key
                       then (if f_state e = FOpen then failed_again f commit now e else fresh_row source f commit now)
                       else e) m
         else m @ [fresh_row source f commit now])"

definition attempts_of :: "string \<Rightarrow> sync_failure list \<Rightarrow> string \<Rightarrow> int" where
  "attempts_of source m path =
     (case List.find (\<lambda>e. row_key e = ledgerKey source path) m of None \<Rightarrow> 1 | Some e \<Rightarrow> f_attempts e)"

text \<open>\<open>recordAndClear\<close>: the counts of the failing paths are read back from the map.\<close>

definition recordAndClear ::
  "string \<Rightarrow> string list \<Rightarrow> file_failure list \<Rightarrow> string \<Rightarrow> int \<Rightarrow> sync_failure list
   \<Rightarrow> (string \<Rightarrow> int) \<times> sync_failure list" where
  "recordAndClear source succeeded failures commit now file =
     (let entries = loadSyncFailures file;
          kept = filter (\<lambda>e. row_key e \<notin> ledgerKey source ` set succeeded) entries;
          m = fold (record_one source commit now) failures kept;
          mutated = (length kept \<noteq> length entries \<or> failures \<noteq> [])
      in (attempts_of source m, if mutated then m else file))"

definition recordFailures :: "string \<Rightarrow> file_failure list \<Rightarrow> string \<Rightarrow> int \<Rightarrow> sync_failure list \<Rightarrow> sync_failure list" where
  "recordFailures source failures commit now file =
     (if failures = [] then file else snd (recordAndClear source [] failures commit now file))"

definition clearFailures :: "string \<Rightarrow> string list \<Rightarrow> sync_failure list \<Rightarrow> sync_failure list" where
  "clearFailures source paths file =
     (if paths = [] then file
      else (let entries = loadSyncFailures file;
                kept = filter (\<lambda>e. row_key e \<notin> ledgerKey source ` set paths) entries
            in if length kept \<noteq> length entries then kept else file))"

definition resolve_rows ::
  "failure_state \<Rightarrow> int \<Rightarrow> (sync_failure \<Rightarrow> bool) \<Rightarrow> sync_failure list
   \<Rightarrow> (nat \<times> (string \<times> int) list) \<times> sync_failure list" where
  "resolve_rows st now P file =
     (let entries = loadSyncFailures file;
          f = (\<lambda>e. applyMirror (e\<lparr>f_state := st, f_resolved_at := Some now\<rparr>));
          changed = filter P entries
      in ((length changed, summarizeFailuresByCode (map f changed)),
          if changed \<noteq> [] then map (\<lambda>e. if P e then f e else e) entries else file))"

definition acknowledgeFailures ::
  "string option \<Rightarrow> int \<Rightarrow> sync_failure list \<Rightarrow> (nat \<times> (string \<times> int) list) \<times> sync_failure list" where
  "acknowledgeFailures source now =
     resolve_rows FAcknowledged now
       (\<lambda>e. f_state e = FOpen \<and> (case source of None \<Rightarrow> True | Some s \<Rightarrow> f_source e = s) \<and> isSkippablePath (f_path e))"

definition autoSkipFailures ::
  "string \<Rightarrow> string list \<Rightarrow> int \<Rightarrow> sync_failure list \<Rightarrow> (nat \<times> (string \<times> int) list) \<times> sync_failure list" where
  "autoSkipFailures source paths now file =
     (if paths = [] then ((0, []), file)
      else resolve_rows FAutoSkipped now
             (\<lambda>e. row_key e \<in> ledgerKey source ` set (filter isSkippablePath paths) \<and> f_state e = FOpen) file)"

section \<open>Decisions\<close>

datatype gate_action = HardBlock | Block | Advance | AdvanceThenAutoskip "string list"

definition decideGateAction ::
  "file_failure list \<Rightarrow> file_failure list \<Rightarrow> (string \<Rightarrow> int) \<Rightarrow> int \<Rightarrow> bool \<Rightarrow> gate_action" where
  "decideGateAction fileFailures sentinels attempts threshold skipFailed =
     (if sentinels \<noteq> [] then HardBlock
      else if fileFailures = [] then Advance
      else if skipFailed then Advance
      else if threshold \<le> 0 then Block
      else (let chronic = filter (\<lambda>f. attempts (x_path f) \<ge> threshold) fileFailures
            in if length chronic < length fileFailures then Block
               else if chronic \<noteq> [] then AdvanceThenAutoskip (map x_path chronic) else Block))"

datatype severity = SevOk | SevWarn | SevFail

definition decideSyncFailureSeverity :: "sync_failure list \<Rightarrow> int \<Rightarrow> int \<Rightarrow> severity \<times> nat \<times> nat \<times> nat" where
  "decideSyncFailureSeverity entries nowMs failHours =
     (let unresolved = filter (\<lambda>e. f_state e = FOpen \<or> f_state e = FAutoSkipped) entries;
          autoSkipped = length (filter (\<lambda>e. f_state e = FAutoSkipped) unresolved);
          opened = length unresolved - autoSkipped
      in if unresolved = [] then (SevOk, 0, 0, 0)
         else (let ts = map f_ts (filter (\<lambda>e. f_state e = FOpen) unresolved);
                   blockedTooLong = (case ts of [] \<Rightarrow> False | t # us \<Rightarrow> nowMs - fold min us t > failHours * 3600000)
               in (if opened \<ge> 10 \<or> blockedTooLong then SevFail else SevWarn, length unresolved, opened, autoSkipped)))"

record gate_input =
  g_source :: string
  g_failed :: "file_failure list"
  g_succeeded :: "string list"
  g_commit :: string
  g_skip_failed :: bool
  g_threshold :: int
  g_now :: int
  g_advance_ok :: bool

record gate_outcome =
  advanced :: bool
  sentinelBlocked :: bool
  fresh :: nat
  chronic :: nat
  autoSkipped :: "string list"
  acknowledged :: nat

text \<open>The gate; \<open>Inl ()\<close> is an exception of \<open>advance()\<close>, after the failures are recorded and before
  anything is resolved.\<close>

definition applySyncFailureGate :: "gate_input \<Rightarrow> sync_failure list \<Rightarrow> (unit + gate_outcome) \<times> sync_failure list" where
  "applySyncFailureGate g file =
     (let sentinels = filter (\<lambda>f. \<not> isSkippablePath (x_path f)) (g_failed g);
          fileFailures = filter (\<lambda>f. isSkippablePath (x_path f)) (g_failed g)
      in if g_failed g = [] \<and> g_succeeded g = []
         then (if g_advance_ok g
               then (Inr \<lparr>advanced = True, sentinelBlocked = False, fresh = 0, chronic = 0, autoSkipped = [], acknowledged = 0\<rparr>, file)
               else (Inl (), file))
         else (case recordAndClear (g_source g) (g_succeeded g) (g_failed g) (g_commit g) (g_now g) file of
           (attempts, file1) \<Rightarrow>
             (let decision = decideGateAction fileFailures sentinels attempts (g_threshold g) (g_skip_failed g);
                  nchronic = length (filter (\<lambda>f. attempts (x_path f) \<ge> g_threshold g \<and> g_threshold g > 0) fileFailures);
                  nfresh = length fileFailures - nchronic
              in if decision = HardBlock \<or> decision = Block
                 then (Inr \<lparr>advanced = False, sentinelBlocked = (decision = HardBlock), fresh = nfresh, chronic = nchronic,
                           autoSkipped = [], acknowledged = 0\<rparr>, file1)
                 else if \<not> g_advance_ok g then (Inl (), file1)
                 else if g_skip_failed g
                 then (case acknowledgeFailures (Some (g_source g)) (g_now g) file1 of
                         ((n, _), file2) \<Rightarrow>
                           (Inr \<lparr>advanced = True, sentinelBlocked = False, fresh = nfresh, chronic = nchronic,
                                 autoSkipped = [], acknowledged = n\<rparr>, file2))
                 else (case decision of
                         AdvanceThenAutoskip paths \<Rightarrow>
                           (Inr \<lparr>advanced = True, sentinelBlocked = False, fresh = nfresh, chronic = nchronic,
                                 autoSkipped = paths, acknowledged = 0\<rparr>,
                            snd (autoSkipFailures (g_source g) paths (g_now g) file1))
                       | _ \<Rightarrow>
                           (Inr \<lparr>advanced = True, sentinelBlocked = False, fresh = nfresh, chronic = nchronic,
                                 autoSkipped = [], acknowledged = 0\<rparr>, file1)))))"

section \<open>Looking up a row\<close>

definition lookup :: "sync_failure list \<Rightarrow> string \<Rightarrow> sync_failure option" where
  "lookup m key = List.find (\<lambda>e. row_key e = key) m"

lemma lookup_simps [simp]:
  "lookup [] key = None"
  "lookup (e # m) key = (if row_key e = key then Some e else lookup m key)"
  by (simp_all add: lookup_def)

lemma lookup_append: "lookup (m @ m') key = (case lookup m key of None \<Rightarrow> lookup m' key | Some e \<Rightarrow> Some e)"
  by (induction m) auto

lemma lookup_None: "lookup m key = None \<longleftrightarrow> key \<notin> row_key ` set m"
  by (auto simp: lookup_def find_None_iff)

lemma lookup_filter: "lookup (filter (\<lambda>e. row_key e \<notin> K) m) key = (if key \<in> K then None else lookup m key)"
  by (induction m) auto

lemma lookup_map:
  "(\<And>e. row_key (f e) = row_key e) \<Longrightarrow> lookup (map f m) key = map_option f (lookup m key)"
  by (induction m) auto

lemma lookup_in: "lookup m key = Some e \<Longrightarrow> e \<in> set m \<and> row_key e = key"
  by (auto simp: lookup_def find_Some_iff)

lemma lookup_distinct:
  "distinct (map row_key m) \<Longrightarrow> e \<in> set m \<Longrightarrow> lookup m (row_key e) = Some e"
  by (induction m) (auto simp: rev_image_eqI)

lemma row_key_simps [simp]:
  "row_key (applyMirror f) = row_key f"
  "row_key (failed_again x commit now ex) = row_key ex"
  "row_key (fresh_row source x commit now) = ledgerKey source (x_path x)"
  "row_key (f\<lparr>f_state := st, f_resolved_at := r\<rparr>) = row_key f"
  by (simp_all add: row_key_def applyMirror_def failed_again_def fresh_row_def)

lemma ledgerKey_same_source [simp]: "ledgerKey s p = ledgerKey s p' \<longleftrightarrow> p = p'"
  by (simp add: ledgerKey_def)

lemma ledgerKey_inject:
  assumes "CHR 0x00 \<notin> set s" "CHR 0x00 \<notin> set s'" "ledgerKey s p = ledgerKey s' p'"
  shows "s = s'" "p = p'"
proof -
  have "takeWhile (\<lambda>c. c \<noteq> CHR 0x00) (ledgerKey u q) = u" if "CHR 0x00 \<notin> set u" for u q
    using that by (induction u) (auto simp: ledgerKey_def)
  then show "s = s'" using assms by metis
  then show "p = p'" using assms(3) by simp
qed

text \<open>A file that holds one row per key is read as it is.\<close>

lemma group_rows_distinct: "distinct (map row_key m) \<Longrightarrow> group_rows m = map (\<lambda>r. [r]) m"
proof (induction m)
  case Nil
  then show ?case by simp
next
  case (Cons r m)
  then have "\<forall>x \<in> set m. row_key x \<noteq> row_key r" by (auto simp: image_iff)
  then have "filter (\<lambda>x. row_key x = row_key r) m = []" "filter (\<lambda>x. row_key x \<noteq> row_key r) m = m"
    by (auto simp: filter_empty_conv filter_id_conv)
  then show ?case using Cons by (simp add: filter_map o_def)
qed

lemma load_distinct: "distinct (map row_key m) \<Longrightarrow> loadSyncFailures m = m"
  by (simp add: loadSyncFailures_def group_rows_distinct o_def)

lemma group_rows_keys: "row_key ` hd ` set (group_rows m) \<subseteq> row_key ` set m" "[] \<notin> set (group_rows m)"
  by (induction m) (auto simp: subset_iff)

lemma record_one_lookup:
  "lookup (record_one source commit now f m) key =
     (if key = ledgerKey source (x_path f)
      then Some (case lookup m key of
          Some e \<Rightarrow> if f_state e = FOpen then failed_again f commit now e else fresh_row source f commit now
        | None \<Rightarrow> fresh_row source f commit now)
      else lookup m key)"
proof -
  let ?k = "ledgerKey source (x_path f)"
  let ?g = "\<lambda>e. if row_key e = ?k
     then (if f_state e = FOpen then failed_again f commit now e else fresh_row source f commit now) else e"
  have "lookup (map ?g m) key = map_option ?g (lookup m key)" by (rule lookup_map) simp
  moreover have "list_ex (\<lambda>e. row_key e = ?k) m \<longleftrightarrow> lookup m ?k \<noteq> None"
    by (auto simp: lookup_def find_None_iff list_ex_iff)
  ultimately show ?thesis
    by (auto simp: record_one_def Let_def lookup_append split: option.split dest: lookup_in)
qed

lemma record_all_lookup:
  assumes "distinct (map x_path fs)"
  shows "lookup (fold (record_one source commit now) fs m) key =
    (case List.find (\<lambda>f. ledgerKey source (x_path f) = key) fs of
       None \<Rightarrow> lookup m key
     | Some f \<Rightarrow> Some (case lookup m key of
           Some e \<Rightarrow> if f_state e = FOpen then failed_again f commit now e else fresh_row source f commit now
         | None \<Rightarrow> fresh_row source f commit now))"
  using assms
proof (induction fs arbitrary: m)
  case Nil
  then show ?case by simp
next
  case (Cons f fs)
  show ?case
  proof (cases "ledgerKey source (x_path f) = key")
    case True
    then have "List.find (\<lambda>f. ledgerKey source (x_path f) = key) fs = None"
      using Cons.prems by (auto simp: find_None_iff rev_image_eqI)
    then show ?thesis using Cons True by (simp add: record_one_lookup)
  next
    case False
    then have "lookup (record_one source commit now f m) key = lookup m key"
      by (auto simp: record_one_lookup)
    then show ?thesis using Cons.IH [of "record_one source commit now f m"] Cons.prems False
      by (auto split: option.splits)
  qed
qed

section \<open>The invariant\<close>

text \<open>Rows have distinct keys, a source id without NUL, at least one attempt, mirror fields that agree
  with the state, and a resolution time exactly when resolved; the rows of sentinels are open.\<close>

definition row_inv :: "sync_failure \<Rightarrow> bool" where
  "row_inv r \<longleftrightarrow> CHR 0x00 \<notin> set (f_source r) \<and> 1 \<le> f_attempts r
     \<and> f_acknowledged r = (f_state r = FAcknowledged)
     \<and> f_acknowledged_at r = (if f_state r = FAcknowledged then f_resolved_at r else None)
     \<and> (f_resolved_at r = None) = (f_state r = FOpen)
     \<and> (f_state r = FOpen \<or> isSkippablePath (f_path r))"

definition ledger_ok :: "sync_failure list \<Rightarrow> bool" where
  "ledger_ok file \<longleftrightarrow> distinct (map row_key file) \<and> (\<forall>r \<in> set file. row_inv r)"

lemma ledger_ok_load: "ledger_ok file \<Longrightarrow> loadSyncFailures file = file"
  by (simp add: ledger_ok_def load_distinct)

lemma ledger_ok_filter: "ledger_ok file \<Longrightarrow> ledger_ok (filter P file)"
  by (auto simp: ledger_ok_def distinct_map_filter)

lemma ledger_ok_map:
  assumes "ledger_ok file" "\<And>e. row_key (f e) = row_key e" "\<And>e. e \<in> set file \<Longrightarrow> row_inv e \<Longrightarrow> row_inv (f e)"
  shows "ledger_ok (map f file)"
proof -
  have "map row_key (map f file) = map row_key file" using assms(2) by simp
  then show ?thesis using assms by (auto simp: ledger_ok_def simp del: map_map)
qed

lemma row_inv_fresh: "CHR 0x00 \<notin> set source \<Longrightarrow> row_inv (fresh_row source f commit now)"
  by (simp add: row_inv_def fresh_row_def applyMirror_def)

lemma row_inv_again: "row_inv e \<Longrightarrow> f_state e = FOpen \<Longrightarrow> row_inv (failed_again f commit now e)"
  by (simp add: row_inv_def failed_again_def applyMirror_def)

lemma record_one_ok:
  assumes "ledger_ok m" "CHR 0x00 \<notin> set source"
  shows "ledger_ok (record_one source commit now f m)"
proof (cases "list_ex (\<lambda>e. row_key e = ledgerKey source (x_path f)) m")
  case True
  let ?g = "\<lambda>e. if row_key e = ledgerKey source (x_path f)
     then (if f_state e = FOpen then failed_again f commit now e else fresh_row source f commit now) else e"
  have "ledger_ok (map ?g m)"
    by (rule ledger_ok_map [OF assms(1)]) (use assms(2) row_inv_fresh row_inv_again in auto)
  then show ?thesis using True by (simp add: record_one_def Let_def)
next
  case False
  then show ?thesis using assms row_inv_fresh
    by (auto simp: record_one_def Let_def ledger_ok_def list_ex_iff)
qed

lemma record_all_ok:
  "ledger_ok m \<Longrightarrow> CHR 0x00 \<notin> set source \<Longrightarrow> ledger_ok (fold (record_one source commit now) fs m)"
  by (induction fs arbitrary: m) (simp_all add: record_one_ok)

lemma recordAndClear_ok:
  "ledger_ok file \<Longrightarrow> CHR 0x00 \<notin> set source \<Longrightarrow> ledger_ok (snd (recordAndClear source ok fs commit now file))"
  by (auto simp: recordAndClear_def Let_def ledger_ok_load intro: record_all_ok ledger_ok_filter)

lemma resolve_rows_ok:
  assumes "ledger_ok file" "\<And>e. e \<in> set file \<Longrightarrow> P e \<Longrightarrow> isSkippablePath (f_path e)" "st \<noteq> FOpen"
  shows "ledger_ok (snd (resolve_rows st now P file))"
proof -
  have "ledger_ok (map (\<lambda>e. if P e then applyMirror (e\<lparr>f_state := st, f_resolved_at := Some now\<rparr>) else e) file)"
    by (rule ledger_ok_map [OF assms(1)]) (use assms(2,3) in \<open>auto simp: row_inv_def applyMirror_def row_key_def\<close>)
  then show ?thesis using assms(1) by (simp add: resolve_rows_def Let_def ledger_ok_load)
qed

lemma acknowledge_ok: "ledger_ok file \<Longrightarrow> ledger_ok (snd (acknowledgeFailures source now file))"
  unfolding acknowledgeFailures_def by (rule resolve_rows_ok) auto

lemma autoSkip_ok:
  assumes "ledger_ok file" "CHR 0x00 \<notin> set source"
  shows "ledger_ok (snd (autoSkipFailures source paths now file))"
proof -
  have "isSkippablePath (f_path e)"
    if "e \<in> set file" "row_key e \<in> ledgerKey source ` set (filter isSkippablePath paths)" for e
    using that assms ledgerKey_inject(2) [of "f_source e" source "f_path e"]
    by (auto simp: row_key_def ledger_ok_def row_inv_def)
  then show ?thesis using assms(1)
    by (auto simp: autoSkipFailures_def intro!: resolve_rows_ok)
qed

lemma gate_ok:
  assumes "ledger_ok file" "CHR 0x00 \<notin> set (g_source g)"
  shows "ledger_ok (snd (applySyncFailureGate g file))"
proof -
  have "ledger_ok (snd (recordAndClear (g_source g) (g_succeeded g) (g_failed g) (g_commit g) (g_now g) file))"
    using recordAndClear_ok assms .
  then show ?thesis
    using assms acknowledge_ok [of _ "Some (g_source g)" "g_now g"] autoSkip_ok [OF _ assms(2)]
    by (auto simp: applySyncFailureGate_def Let_def split_beta split: gate_action.split)
qed

inductive ledger_step :: "sync_failure list \<Rightarrow> sync_failure list \<Rightarrow> bool" where
  l_gate: "CHR 0x00 \<notin> set (g_source g) \<Longrightarrow> ledger_step file (snd (applySyncFailureGate g file))"
| l_record: "CHR 0x00 \<notin> set source \<Longrightarrow> ledger_step file (recordFailures source fs commit now file)"
| l_clear: "ledger_step file (clearFailures source paths file)"
| l_acknowledge: "ledger_step file (snd (acknowledgeFailures sel now file))"
| l_autoskip: "CHR 0x00 \<notin> set source \<Longrightarrow> ledger_step file (snd (autoSkipFailures source paths now file))"

lemma ledger_step_ok: "ledger_step file file' \<Longrightarrow> ledger_ok file \<Longrightarrow> ledger_ok file'"
proof (induction rule: ledger_step.induct)
  case l_clear
  then show ?case by (auto simp: clearFailures_def Let_def ledger_ok_load intro: ledger_ok_filter)
qed (auto simp: recordFailures_def intro: gate_ok recordAndClear_ok acknowledge_ok autoSkip_ok)

interpretation sync_ledger: invariant_system "\<lambda>file. file = []" ledger_step ledger_ok
proof unfold_locales
  show "ledger_ok rows" if "rows = []" for rows
    using that by (simp add: ledger_ok_def)
qed (rule ledger_step_ok)

section \<open>Streaks\<close>

text \<open>In how many runs in a row a file has failed: the attempts of its open row.\<close>

definition open_streak :: "string \<Rightarrow> sync_failure list \<Rightarrow> string \<Rightarrow> int" where
  "open_streak source file path =
     (case lookup file (ledgerKey source path) of
        None \<Rightarrow> 0
      | Some e \<Rightarrow> if f_state e = FOpen then f_attempts e else 0)"

lemma state_simps [simp]:
  "f_state (fresh_row source f commit now) = FOpen" "f_attempts (fresh_row source f commit now) = 1"
  "f_state (failed_again f commit now e) = f_state e" "f_attempts (failed_again f commit now e) = f_attempts e + 1"
  by (simp_all add: fresh_row_def failed_again_def applyMirror_def)

lemma find_path:
  "distinct (map x_path fs) \<Longrightarrow> f \<in> set fs \<Longrightarrow>
    List.find (\<lambda>g. ledgerKey source (x_path g) = ledgerKey source (x_path f)) fs = Some f"
  by (induction fs) (auto simp: rev_image_eqI)

lemma find_no_path:
  "p \<notin> x_path ` set fs \<Longrightarrow> List.find (\<lambda>g. ledgerKey source (x_path g) = ledgerKey source p) fs = None"
  by (auto simp: find_None_iff)

text \<open>The table after a run is recorded, before any decision.\<close>

definition recorded :: "gate_input \<Rightarrow> sync_failure list \<Rightarrow> sync_failure list" where
  "recorded g file = snd (recordAndClear (g_source g) (g_succeeded g) (g_failed g) (g_commit g) (g_now g) file)"

lemma recorded_eq:
  assumes "ledger_ok file" "g_failed g \<noteq> []"
  shows "recorded g file = fold (record_one (g_source g) (g_commit g) (g_now g)) (g_failed g)
    (filter (\<lambda>e. row_key e \<notin> ledgerKey (g_source g) ` set (g_succeeded g)) file)"
  using assms by (simp add: recorded_def recordAndClear_def Let_def ledger_ok_load)

lemma recorded_streak:
  assumes "ledger_ok file" "distinct (map x_path (g_failed g))" "f \<in> set (g_failed g)"
  shows "open_streak (g_source g) (recorded g file) (x_path f) =
      (if x_path f \<in> set (g_succeeded g) then 1 else open_streak (g_source g) file (x_path f) + 1)"
    and "fst (recordAndClear (g_source g) (g_succeeded g) (g_failed g) (g_commit g) (g_now g) file) (x_path f) =
      open_streak (g_source g) (recorded g file) (x_path f)"
proof -
  have ne: "g_failed g \<noteq> []" using assms(3) by auto
  let ?m = "filter (\<lambda>e. row_key e \<notin> ledgerKey (g_source g) ` set (g_succeeded g)) file"
  note l = record_all_lookup [OF assms(2), of "g_source g" "g_commit g" "g_now g" ?m "ledgerKey (g_source g) (x_path f)",
      unfolded find_path [OF assms(2,3)]]
  have m: "lookup ?m (ledgerKey (g_source g) (x_path f)) =
      (if x_path f \<in> set (g_succeeded g) then None else lookup file (ledgerKey (g_source g) (x_path f)))"
    unfolding lookup_filter by (auto simp: image_iff)
  have row: "lookup (recorded g file) (ledgerKey (g_source g) (x_path f)) =
      Some (case (if x_path f \<in> set (g_succeeded g) then None else lookup file (ledgerKey (g_source g) (x_path f))) of
          Some e \<Rightarrow> if f_state e = FOpen then failed_again f (g_commit g) (g_now g) e
            else fresh_row (g_source g) f (g_commit g) (g_now g)
        | None \<Rightarrow> fresh_row (g_source g) f (g_commit g) (g_now g))"
    unfolding recorded_eq [OF assms(1) ne] l m by simp
  show "open_streak (g_source g) (recorded g file) (x_path f) =
      (if x_path f \<in> set (g_succeeded g) then 1 else open_streak (g_source g) file (x_path f) + 1)"
    by (auto simp: open_streak_def row split: option.split)
  have "fst (recordAndClear (g_source g) (g_succeeded g) (g_failed g) (g_commit g) (g_now g) file) =
      attempts_of (g_source g) (recorded g file)"
    unfolding recorded_eq [OF assms(1) ne]
    using assms(1) by (simp add: recordAndClear_def Let_def ledger_ok_load)
  then show "fst (recordAndClear (g_source g) (g_succeeded g) (g_failed g) (g_commit g) (g_now g) file) (x_path f) =
      open_streak (g_source g) (recorded g file) (x_path f)"
    using row by (auto simp: open_streak_def attempts_of_def lookup_def [symmetric] split: option.splits if_splits)
qed

lemma gate_unfold:
  assumes "g_failed g \<noteq> []"
  shows "applySyncFailureGate g file = (let
      attempts = fst (recordAndClear (g_source g) (g_succeeded g) (g_failed g) (g_commit g) (g_now g) file);
      bad = filter (\<lambda>f. isSkippablePath (x_path f)) (g_failed g);
      decision = decideGateAction bad (filter (\<lambda>f. \<not> isSkippablePath (x_path f)) (g_failed g)) attempts (g_threshold g) (g_skip_failed g);
      nchronic = length (filter (\<lambda>f. attempts (x_path f) \<ge> g_threshold g \<and> g_threshold g > 0) bad);
      result = (\<lambda>adv paths n. Inr \<lparr>advanced = adv, sentinelBlocked = (decision = HardBlock),
          fresh = length bad - nchronic, chronic = nchronic, autoSkipped = paths, acknowledged = n\<rparr>)
    in if decision = HardBlock \<or> decision = Block then (result False [] 0, recorded g file)
       else if \<not> g_advance_ok g then (Inl (), recorded g file)
       else if g_skip_failed g
       then (result True [] (fst (fst (acknowledgeFailures (Some (g_source g)) (g_now g) (recorded g file)))),
             snd (acknowledgeFailures (Some (g_source g)) (g_now g) (recorded g file)))
       else (case decision of
               AdvanceThenAutoskip paths \<Rightarrow>
                 (result True paths 0, snd (autoSkipFailures (g_source g) paths (g_now g) (recorded g file)))
             | _ \<Rightarrow> (result True [] 0, recorded g file)))"
  using assms by (auto simp: applySyncFailureGate_def recorded_def Let_def split_beta split: gate_action.split)

text \<open>The streak a failing file has reached with this run.\<close>

definition streak_now :: "gate_input \<Rightarrow> sync_failure list \<Rightarrow> file_failure \<Rightarrow> int" where
  "streak_now g file f =
     (if x_path f \<in> set (g_succeeded g) then 1 else open_streak (g_source g) file (x_path f) + 1)"

lemma decide_shape:
  "decideGateAction bad sentinels attempts threshold skip =
     (if sentinels \<noteq> [] then HardBlock
      else if bad = [] \<or> skip then Advance
      else if 0 < threshold \<and> (\<forall>f \<in> set bad. threshold \<le> attempts (x_path f))
      then AdvanceThenAutoskip (map x_path bad) else Block)"
proof -
  let ?chronic = "filter (\<lambda>f. attempts (x_path f) \<ge> threshold) bad"
  have "length ?chronic < length bad \<longleftrightarrow> \<not> (\<forall>f \<in> set bad. threshold \<le> attempts (x_path f))"
    by (metis (mono_tags, lifting) filter_True length_filter_less linorder_not_less order_less_irrefl)
  moreover have "\<forall>f \<in> set bad. threshold \<le> attempts (x_path f) \<Longrightarrow> ?chronic = bad" by simp
  ultimately show ?thesis by (auto simp: decideGateAction_def Let_def)
qed

lemma gate_result:
  assumes "ledger_ok file" "distinct (map x_path (g_failed g))" "g_failed g \<noteq> []" "g_advance_ok g"
  defines "clean \<equiv> \<forall>f \<in> set (g_failed g). isSkippablePath (x_path f)"
    and "stale \<equiv> 0 < g_threshold g \<and> (\<forall>f \<in> set (g_failed g). g_threshold g \<le> streak_now g file f)"
  shows "\<exists>out. fst (applySyncFailureGate g file) = Inr out
      \<and> (advanced out \<longleftrightarrow> clean \<and> (g_skip_failed g \<or> stale))"
    and "\<not> g_skip_failed g \<Longrightarrow> clean \<Longrightarrow> snd (applySyncFailureGate g file) =
      (if stale then snd (autoSkipFailures (g_source g) (map x_path (g_failed g)) (g_now g) (recorded g file))
       else recorded g file)"
proof -
  let ?a = "fst (recordAndClear (g_source g) (g_succeeded g) (g_failed g) (g_commit g) (g_now g) file)"
  let ?bad = "filter (\<lambda>f. isSkippablePath (x_path f)) (g_failed g)"
  let ?sent = "filter (\<lambda>f. \<not> isSkippablePath (x_path f)) (g_failed g)"
  have a: "?a (x_path f) = streak_now g file f" if "f \<in> set (g_failed g)" for f
    using recorded_streak [OF assms(1,2) that] by (simp add: streak_now_def)
  have clean: "?bad = g_failed g" "?sent = []" if clean
    using that by (simp_all add: clean_def)
  have sent: "?sent = [] \<longleftrightarrow> clean" by (auto simp: filter_empty_conv clean_def)
  have d: "decideGateAction ?bad ?sent ?a (g_threshold g) (g_skip_failed g) =
      (if \<not> clean then HardBlock else if g_skip_failed g then Advance
       else if stale then AdvanceThenAutoskip (map x_path (g_failed g)) else Block)"
    unfolding decide_shape using clean sent a assms(3) by (auto simp: stale_def)
  show "\<exists>out. fst (applySyncFailureGate g file) = Inr out \<and> (advanced out \<longleftrightarrow> clean \<and> (g_skip_failed g \<or> stale))"
    unfolding gate_unfold [OF assms(3)] d Let_def using assms(4) by auto
  show "snd (applySyncFailureGate g file) =
      (if stale then snd (autoSkipFailures (g_source g) (map x_path (g_failed g)) (g_now g) (recorded g file))
       else recorded g file)" if "\<not> g_skip_failed g" clean
    unfolding gate_unfold [OF assms(3)] d Let_def using assms(4) that by simp
qed

lemma autoskip_streak:
  assumes "ledger_ok file" "isSkippablePath p" "p \<in> set paths"
  shows "open_streak source (snd (autoSkipFailures source paths now file)) p = 0"
proof -
  let ?P = "\<lambda>e. row_key e \<in> ledgerKey source ` set (filter isSkippablePath paths) \<and> f_state e = FOpen"
  let ?f = "\<lambda>e. if ?P e then applyMirror (e\<lparr>f_state := FAutoSkipped, f_resolved_at := Some now\<rparr>) else e"
  have after: "snd (autoSkipFailures source paths now file) = map ?f file"
  proof (cases "filter ?P file = []")
    case True
    then have "map ?f file = file" by (intro map_idI) (auto simp: filter_empty_conv)
    then show ?thesis using True assms by (auto simp: autoSkipFailures_def resolve_rows_def Let_def ledger_ok_load)
  next
    case False
    then show ?thesis using assms by (auto simp: autoSkipFailures_def resolve_rows_def Let_def ledger_ok_load)
  qed
  have "lookup (map ?f file) (ledgerKey source p) = map_option ?f (lookup file (ledgerKey source p))"
    by (rule lookup_map) simp
  then show ?thesis using assms(2,3)
    by (auto simp: open_streak_def after applyMirror_def split: option.split dest!: lookup_in)
qed

section \<open>The guarantees\<close>

text \<open>Whatever syncs, imports and operators do, the ledger holds one row per source and path, every row
  counts at least one attempt, the row of a sentinel such as \<open><head>\<close> is never acknowledged or
  skipped, and the mirror fields for older readers say acknowledged exactly for acknowledged rows,
  so a skipped file stays visible to them.\<close>

theorem ledger_invariant:
  assumes "ledger_step\<^sup>*\<^sup>* [] rows"
  shows "distinct (map (\<lambda>r. (f_source r, f_path r)) rows)
    \<and> {r \<in> set rows. f_attempts r < 1} = {}
    \<and> {r \<in> set rows. \<not> isSkippablePath (f_path r) \<and> f_state r \<noteq> FOpen} = {}
    \<and> {r \<in> set rows. (f_acknowledged_at r \<noteq> None) \<noteq> (f_state r = FAcknowledged)} = {}"
proof -
  have ok: "ledger_ok rows" by (rule sync_ledger.reachable_inv [OF refl assms])
  then have "distinct (map row_key rows)" by (simp add: ledger_ok_def)
  moreover have "map row_key rows = map (\<lambda>(s, p). ledgerKey s p) (map (\<lambda>r. (f_source r, f_path r)) rows)"
    by (simp add: row_key_def)
  ultimately have "distinct (map (\<lambda>r. (f_source r, f_path r)) rows)" by (simp only: distinct_map)
  then show ?thesis using ok by (auto simp: ledger_ok_def row_inv_def)
qed


text \<open>A series of runs of one source: which of them advanced, and the ledger after them.\<close>

fun gate_runs :: "gate_input list \<Rightarrow> sync_failure list \<Rightarrow> bool list \<times> sync_failure list" where
  "gate_runs [] file = ([], file)"
| "gate_runs (g # gs) file =
     (case applySyncFailureGate g file of
        (out, file1) \<Rightarrow>
          (case gate_runs gs file1 of
             (advs, file2) \<Rightarrow> ((case out of Inl _ \<Rightarrow> False | Inr r \<Rightarrow> advanced r) # advs, file2)))"

text \<open>Runs in which always the same files fail, with the valve on.\<close>

definition poisoned :: "string \<Rightarrow> nat \<Rightarrow> string set \<Rightarrow> gate_input \<Rightarrow> bool" where
  "poisoned source threshold paths g \<longleftrightarrow>
     g_source g = source \<and> g_threshold g = int threshold \<and> \<not> g_skip_failed g \<and> g_advance_ok g
     \<and> distinct (map x_path (g_failed g)) \<and> x_path ` set (g_failed g) = paths
     \<and> set (g_succeeded g) \<inter> paths = {}"

lemma poisoned_run:
  assumes "poisoned source T paths g" "ledger_ok rows" "CHR 0x00 \<notin> set source"
    and "paths \<noteq> {}" "\<forall>p \<in> paths. isSkippablePath p" "\<forall>p \<in> paths. open_streak source rows p = int k" "k < T"
  shows "\<exists>out. fst (applySyncFailureGate g rows) = Inr out \<and> advanced out = (Suc k = T)"
    and "\<forall>p \<in> paths. open_streak source (snd (applySyncFailureGate g rows)) p = int (Suc k mod T)"
    and "ledger_ok (snd (applySyncFailureGate g rows))"
proof -
  note g = assms(1) [unfolded poisoned_def]
  have ne: "g_failed g \<noteq> []" using g assms(4) by auto
  have clean: "\<forall>f \<in> set (g_failed g). isSkippablePath (x_path f)" using g assms(5) by blast
  have now: "streak_now g rows f = int (Suc k)" if "f \<in> set (g_failed g)" for f
  proof -
    have "x_path f \<in> paths" using that g by blast
    then show ?thesis using g assms(6) by (auto simp: streak_now_def)
  qed
  obtain f0 where "f0 \<in> set (g_failed g)" using ne by (meson list.set_sel(1))
  then have stale: "0 < g_threshold g \<and> (\<forall>f \<in> set (g_failed g). g_threshold g \<le> streak_now g rows f) \<longleftrightarrow> Suc k = T"
    using now g assms(7) by auto
  note r = gate_result [OF assms(2) _ ne, unfolded stale]
  show "\<exists>out. fst (applySyncFailureGate g rows) = Inr out \<and> advanced out = (Suc k = T)"
    using r(1) g clean by blast
  have rec_ok: "ledger_ok (recorded g rows)"
    using recordAndClear_ok [OF assms(2)] g assms(3) by (simp add: recorded_def)
  have rec: "open_streak source (recorded g rows) p = int (Suc k)" if "p \<in> paths" for p
  proof -
    have "p \<in> x_path ` set (g_failed g)" using g that by blast
    then obtain f where f: "f \<in> set (g_failed g)" "x_path f = p" by blast
    have "open_streak (g_source g) (recorded g rows) (x_path f) = streak_now g rows f"
      using recorded_streak(1) [OF assms(2) _ f(1)] g by (simp add: streak_now_def)
    then show ?thesis using now [OF f(1)] f(2) g by simp
  qed
  have after: "snd (applySyncFailureGate g rows) =
      (if Suc k = T then snd (autoSkipFailures source (map x_path (g_failed g)) (g_now g) (recorded g rows))
       else recorded g rows)"
    using r(2) g clean by blast
  show "ledger_ok (snd (applySyncFailureGate g rows))"
    using gate_ok assms(2,3) g by blast
  show "\<forall>p \<in> paths. open_streak source (snd (applySyncFailureGate g rows)) p = int (Suc k mod T)"
  proof
    fix p assume p: "p \<in> paths"
    show "open_streak source (snd (applySyncFailureGate g rows)) p = int (Suc k mod T)"
    proof (cases "Suc k = T")
      case True
      have "p \<in> set (map x_path (g_failed g))" using g p by simp
      then show ?thesis unfolding after using autoskip_streak [OF rec_ok] assms(5) p True by simp
    next
      case False
      then show ?thesis unfolding after using rec [OF p] assms(7) by simp
    qed
  qed
qed

lemma poisoned_runs:
  assumes "CHR 0x00 \<notin> set source" "paths \<noteq> {}" "\<forall>p \<in> paths. isSkippablePath p"
  shows "\<forall>g \<in> set gs. poisoned source T paths g \<Longrightarrow> ledger_ok rows \<Longrightarrow> k < T \<Longrightarrow>
    \<forall>p \<in> paths. open_streak source rows p = int k \<Longrightarrow>
    fst (gate_runs gs rows) = map (\<lambda>i. T dvd (k + i + 1)) [0..<length gs]"
proof (induction gs arbitrary: rows k)
  case Nil
  then show ?case by simp
next
  case (Cons g gs)
  have g: "poisoned source T paths g" using Cons.prems(1) by simp
  note run = poisoned_run [OF g Cons.prems(2) assms(1-3) Cons.prems(4,3)]
  obtain out where out: "fst (applySyncFailureGate g rows) = Inr out" "advanced out = (Suc k = T)"
    using run(1) by blast
  have "Suc k mod T < T" using Cons.prems(3) by simp
  then have "fst (gate_runs gs (snd (applySyncFailureGate g rows))) = map (\<lambda>i. T dvd (Suc k mod T + i + 1)) [0..<length gs]"
    using Cons.prems(1) run(2,3) by (intro Cons.IH) simp_all
  moreover have "T dvd (Suc k mod T + i + 1) \<longleftrightarrow> T dvd (k + Suc i + 1)" for i
  proof -
    have "(Suc k mod T + (i + 1)) mod T = (Suc k + (i + 1)) mod T" by (rule mod_add_left_eq)
    then show ?thesis by (simp add: dvd_eq_mod_eq_0)
  qed
  moreover have "(Suc k = T) = (T dvd (k + 0 + 1))"
    using Cons.prems(3) by (auto dest: dvd_imp_le)
  moreover have "fst (gate_runs (g # gs) rows) = (Suc k = T) # fst (gate_runs gs (snd (applySyncFailureGate g rows)))"
    using out by (simp add: case_prod_beta)
  ultimately show ?case by (simp add: map_upt_Suc del: upt_Suc)
qed

text \<open>C35: a poison file cannot wedge a source: when in every run exactly the same files fail, with whatever
  errors, the gate advances in every run whose number is a multiple of the threshold, and in no other.\<close>

theorem poison_files_released:
  assumes "ledger_step\<^sup>*\<^sup>* [] rows" "CHR 0x00 \<notin> set source" "paths \<noteq> {}" "\<forall>p \<in> paths. isSkippablePath p"
    and "\<forall>g \<in> set gs. poisoned source T paths g" "0 < T" "\<forall>p \<in> paths. open_streak source rows p = 0"
  shows "fst (gate_runs gs rows) = map (\<lambda>i. T dvd (i + 1)) [0..<length gs]"
  using poisoned_runs [OF assms(2-5), of rows 0] sync_ledger.reachable_inv [OF refl assms(1)] assms(6,7) by simp

text \<open>The severity for the doctor: any number of skipped files alone is a warning (the comment over the
  function counts all unresolved rows), and the age of a blocking file is that of its last failure.\<close>

lemma skipped_never_fail:
  "\<forall>e \<in> set rows. f_state e = FAutoSkipped \<Longrightarrow> rows \<noteq> [] \<Longrightarrow>
    fst (decideSyncFailureSeverity rows now hours) = SevWarn"
  by (simp add: decideSyncFailureSeverity_def Let_def)

lemma age_is_last_failure:
  "f_state e = FOpen \<Longrightarrow>
    fst (decideSyncFailureSeverity [failed_again f commit t e] now hours) = (if now - t > hours * 3600000 then SevFail else SevWarn)"
  by (simp add: decideSyncFailureSeverity_def Let_def failed_again_def applyMirror_def)

section \<open>Witnesses\<close>

definition bad_yaml :: file_failure where
  "bad_yaml = \<lparr>x_path = ''a.md'', x_error = ''YAML parse failed'', x_line = None\<rparr>"

definition run_at :: "int \<Rightarrow> gate_input" where
  "run_at now = \<lparr>g_source = ''s'', g_failed = [bad_yaml], g_succeeded = [''b.md''], g_commit = ''c'',
     g_skip_failed = False, g_threshold = 3, g_now = now, g_advance_ok = True\<rparr>"

definition after_run :: "sync_failure list" where
  "after_run = snd (applySyncFailureGate (run_at 0) [])"

lemma after_run_reachable: "ledger_step\<^sup>*\<^sup>* [] after_run"
proof -
  have "CHR 0x00 \<notin> set (g_source (run_at 0))" by (simp add: run_at_def)
  then have "ledger_step [] after_run" unfolding after_run_def by (rule l_gate)
  then show ?thesis by blast
qed

theorem ledger_invariant_witness: "distinct (map (\<lambda>r. (f_source r, f_path r)) after_run)"
  using ledger_invariant [OF after_run_reachable] by simp


theorem poison_files_released_witness:
  "fst (gate_runs (map run_at [1, 2, 3, 4, 5, 6]) []) = [False, False, True, False, False, True]"
proof -
  have "poisoned ''s'' 3 {''a.md''} (run_at t)" for t
    by (simp add: poisoned_def run_at_def bad_yaml_def)
  moreover have "isSkippablePath ''a.md''" by code_simp
  ultimately have "fst (gate_runs (map run_at ts) []) = map (\<lambda>i. 3 dvd (i + 1)) [0..<length ts]" for ts
    using poison_files_released [of "[]" "''s''" "{''a.md''}" "map run_at ts" 3]
    by (simp add: open_streak_def)
  then have "fst (gate_runs (map run_at [1, 2, 3, 4, 5, 6]) []) = map (\<lambda>i. 3 dvd (i + 1)) [0..<length [1, 2, 3, 4, 5, 6 :: int]]" .
  also have "\<dots> = [False, False, True, False, False, True]" by code_simp
  finally show ?thesis .
qed

end
