(* ===== verification/Worker_Pool.thy ===== *)
theory Worker_Pool
  imports Prelude "HOL-Library.Multiset"
begin

text \<open>
  The sliding worker pool of the bulk commands (\<open>src/core/worker-pool.ts\<close>, \<open>runSlidingPool\<close>): workers
  that claim the next item of a shared list until it is empty or the pool is aborted.  A worker runs
  without interruption from one \<open>await\<close> to the next; the steps are these pieces, in any order the
  event loop may choose.  \<open>calls\<close> is the trace of the indices \<open>onItem\<close> was called with, which the code
  does not keep.
\<close>

section \<open>The code\<close>

record pool_error =
  err_tag :: "string option"
  err_text :: string

record pool_failure =
  pf_idx :: nat
  pf_label :: string
  pf_error :: pool_error

datatype error_decision = DecideContinue | DecideAbort

record 'a pool_opts =
  pool_items :: "'a list"
  pool_workers :: int
  pool_onProgress :: "nat \<Rightarrow> nat \<Rightarrow> pool_error option"
  pool_onError :: "pool_error \<Rightarrow> 'a \<Rightarrow> nat \<Rightarrow> error_decision"
  pool_label :: "'a \<Rightarrow> string"

definition MUST_ABORT_ERROR_TAGS :: "string set" where
  "MUST_ABORT_ERROR_TAGS = {''BUDGET_EXHAUSTED''}"

definition isMustAbortError :: "pool_error \<Rightarrow> bool" where
  "isMustAbortError e = (case err_tag e of None \<Rightarrow> False | Some t \<Rightarrow> t \<in> MUST_ABORT_ERROR_TAGS)"

datatype worker_state = AtTop | Busy nat | Returned | Rejected pool_error

record pool =
  nextIdx :: nat
  slots :: "worker_state list"
  processed :: nat
  errored :: nat
  pool_aborted :: bool
  failures :: "pool_failure list"
  abort_signal :: bool
  calls :: "nat list"

definition pool_total :: "'a pool_opts \<Rightarrow> nat" where
  "pool_total opts = length (pool_items opts)"

definition workerCount :: "'a pool_opts \<Rightarrow> nat" where
  "workerCount opts = nat (max 1 (min (pool_workers opts) (int (pool_total opts))))"

definition start_pool :: "'a pool_opts \<Rightarrow> bool \<Rightarrow> pool" where
  "start_pool opts aborted0 =
     \<lparr>nextIdx = 0, slots = (if pool_total opts = 0 then [] else replicate (workerCount opts) AtTop), processed = 0, errored = 0,
      pool_aborted = False, failures = [], abort_signal = aborted0, calls = []\<rparr>"

text \<open>From the head of the loop to the call of \<open>onItem\<close>.\<close>

definition worker_top :: "'a pool_opts \<Rightarrow> nat \<Rightarrow> pool \<Rightarrow> pool" where
  "worker_top opts w s =
     (if abort_signal s then s\<lparr>pool_aborted := True, slots := (slots s)[w := Returned]\<rparr>
      else if nextIdx s \<ge> pool_total opts then s\<lparr>slots := (slots s)[w := Returned]\<rparr>
      else s\<lparr>nextIdx := nextIdx s + 1, slots := (slots s)[w := Busy (nextIdx s)], calls := calls s @ [nextIdx s]\<rparr>)"

definition item_failed :: "'a pool_opts \<Rightarrow> nat \<Rightarrow> nat \<Rightarrow> pool_error \<Rightarrow> pool \<Rightarrow> pool" where
  "item_failed opts w idx err s =
     (let item = pool_items opts ! idx;
          s1 = s\<lparr>errored := errored s + 1,
                 failures := failures s @ [\<lparr>pf_idx = idx, pf_label = pool_label opts item, pf_error = err\<rparr>]\<rparr>
      in if isMustAbortError err
         then s1\<lparr>pool_aborted := True, abort_signal := True, slots := (slots s1)[w := Rejected err]\<rparr>
         else (case pool_onError opts err item idx of
                 DecideAbort \<Rightarrow> s1\<lparr>pool_aborted := True, abort_signal := True, slots := (slots s1)[w := Returned]\<rparr>
               | DecideContinue \<Rightarrow> s1\<lparr>slots := (slots s1)[w := AtTop]\<rparr>))"

text \<open>\<open>onProgress\<close> is called inside the \<open>try\<close>: when it throws, the item counts as processed and as failed.\<close>

definition item_done :: "'a pool_opts \<Rightarrow> nat \<Rightarrow> nat \<Rightarrow> pool \<Rightarrow> pool" where
  "item_done opts w idx s =
     (let s1 = s\<lparr>processed := processed s + 1\<rparr>
      in case pool_onProgress opts (processed s1) (pool_total opts) of
           None \<Rightarrow> s1\<lparr>slots := (slots s1)[w := AtTop]\<rparr>
         | Some err \<Rightarrow> item_failed opts w idx err s1)"

definition caller_abort :: "pool \<Rightarrow> pool" where
  "caller_abort s = s\<lparr>abort_signal := True\<rparr>"

inductive pool_step :: "'a pool_opts \<Rightarrow> pool \<Rightarrow> pool \<Rightarrow> bool" for opts where
  w_top: "w < length (slots s) \<Longrightarrow> slots s ! w = AtTop \<Longrightarrow> pool_step opts s (worker_top opts w s)"
| w_done: "w < length (slots s) \<Longrightarrow> slots s ! w = Busy i \<Longrightarrow> pool_step opts s (item_done opts w i s)"
| w_failed: "w < length (slots s) \<Longrightarrow> slots s ! w = Busy i \<Longrightarrow> pool_step opts s (item_failed opts w i err s)"
| w_abort: "\<not> abort_signal s \<Longrightarrow> pool_step opts s (caller_abort s)"

inductive_cases pool_stepE: "pool_step opts s t"

definition over :: "pool \<Rightarrow> bool" where
  "over s \<longleftrightarrow> (\<forall>x \<in> set (slots s). x = Returned \<or> (\<exists>e. x = Rejected e))"

section \<open>The invariant\<close>

definition in_work :: "pool \<Rightarrow> nat list" where
  "in_work s = concat (map (\<lambda>x. case x of Busy i \<Rightarrow> [i] | _ \<Rightarrow> []) (slots s))"

definition progress_quiet :: "'a pool_opts \<Rightarrow> bool" where
  "progress_quiet opts \<longleftrightarrow> (\<forall>n m. pool_onProgress opts n m = None)"

definition pool_ok :: "'a pool_opts \<Rightarrow> pool \<Rightarrow> bool" where
  "pool_ok opts s \<longleftrightarrow>
     length (slots s) \<le> workerCount opts \<and> (slots s = [] \<longleftrightarrow> pool_total opts = 0)
     \<and> calls s = [0..<nextIdx s] \<and> nextIdx s \<le> pool_total opts
     \<and> mset (in_work s) + mset (map pf_idx (failures s)) \<subseteq># mset [0..<nextIdx s]
     \<and> nextIdx s \<le> processed s + errored s + length (in_work s)
     \<and> (progress_quiet opts \<longrightarrow> processed s + errored s + length (in_work s) = nextIdx s)
     \<and> length (failures s) = errored s
     \<and> (\<not> pool_aborted s \<longrightarrow> (\<forall>x \<in> set (slots s). (x = Returned \<longrightarrow> nextIdx s = pool_total opts) \<and> (\<forall>e. x \<noteq> Rejected e)))
     \<and> (pool_aborted s \<longrightarrow> abort_signal s)"

abbreviation busy_idx :: "worker_state \<Rightarrow> nat list" where
  "busy_idx x \<equiv> case x of Busy i \<Rightarrow> [i] | _ \<Rightarrow> []"

lemma mset_concat_update:
  "w < length xs \<Longrightarrow>
    mset (concat (map f (xs[w := x]))) + mset (f (xs ! w)) = mset (concat (map f xs)) + mset (f x)"
proof (induction xs arbitrary: w)
  case Nil
  then show ?case by simp
next
  case (Cons y ys)
  then show ?case by (cases w) (simp_all add: ac_simps)
qed

text \<open>What a slot that goes from one state to another does to the work in progress.\<close>

lemma in_work_update:
  assumes "w < length (slots s)" "slots t = (slots s)[w := x]"
  shows "mset (in_work t) + mset (busy_idx (slots s ! w)) = mset (in_work s) + mset (busy_idx x)"
    "length (in_work t) + length (busy_idx (slots s ! w)) = length (in_work s) + length (busy_idx x)"
proof -
  show m: "mset (in_work t) + mset (busy_idx (slots s ! w)) = mset (in_work s) + mset (busy_idx x)"
    unfolding in_work_def assms(2) by (rule mset_concat_update [OF assms(1)])
  show "length (in_work t) + length (busy_idx (slots s ! w)) = length (in_work s) + length (busy_idx x)"
    using arg_cong [OF m, of size] by simp
qed

lemma busy_idle [simp]: "busy_idx AtTop = []" "busy_idx (Busy i) = [i]" "busy_idx Returned = []" "busy_idx (Rejected e) = []"
  by simp_all

lemma upt_mset_Suc: "mset [0..<Suc n] = add_mset n (mset [0..<n])"
  by simp

lemma slots_update_all:
  "x \<in> set (xs[w := y]) \<Longrightarrow> x \<in> set xs \<or> x = y"
  by (metis insertE set_update_subset_insert subsetD)

lemma top_ok:
  assumes "pool_ok opts s" "w < length (slots s)" "slots s ! w = AtTop"
  shows "pool_ok opts (worker_top opts w s)"
proof -
  note ok = assms(1) [unfolded pool_ok_def]
  note iw = in_work_update [OF assms(2), unfolded assms(3)]
  consider "abort_signal s" | "\<not> abort_signal s" "pool_total opts \<le> nextIdx s" | "\<not> abort_signal s" "nextIdx s < pool_total opts"
    by linarith
  then show ?thesis
  proof cases
    case 1
    have eq: "worker_top opts w s = s\<lparr>pool_aborted := True, slots := (slots s)[w := Returned]\<rparr>"
      using 1 by (simp add: worker_top_def)
    have "mset (in_work (worker_top opts w s)) = mset (in_work s)" "length (in_work (worker_top opts w s)) = length (in_work s)"
      using iw [of "worker_top opts w s" Returned] by (simp_all add: eq)
    then show ?thesis using ok 1 by (simp add: pool_ok_def eq)
  next
    case 2
    have eq: "worker_top opts w s = s\<lparr>slots := (slots s)[w := Returned]\<rparr>"
      using 2 by (simp add: worker_top_def)
    have "mset (in_work (worker_top opts w s)) = mset (in_work s)" "length (in_work (worker_top opts w s)) = length (in_work s)"
      using iw [of "worker_top opts w s" Returned] by (simp_all add: eq)
    then show ?thesis using ok 2 by (auto simp: pool_ok_def eq dest!: slots_update_all)
  next
    case 3
    let ?t = "s\<lparr>nextIdx := nextIdx s + 1, slots := (slots s)[w := Busy (nextIdx s)], calls := calls s @ [nextIdx s]\<rparr>"
    have eq: "worker_top opts w s = ?t" using 3 by (simp add: worker_top_def)
    have "mset (in_work ?t) = add_mset (nextIdx s) (mset (in_work s))" "length (in_work ?t) = Suc (length (in_work s))"
      using iw [of ?t "Busy (nextIdx s)"] by simp_all
    then have "mset (in_work ?t) + mset (map pf_idx (failures ?t)) \<subseteq># mset [0..<nextIdx ?t]"
      "nextIdx ?t \<le> processed ?t + errored ?t + length (in_work ?t)"
      "progress_quiet opts \<longrightarrow> processed ?t + errored ?t + length (in_work ?t) = nextIdx ?t"
      using ok by (simp_all add: ac_simps)
    moreover have "\<not> pool_aborted s \<longrightarrow> (\<forall>x \<in> set (slots s). x \<noteq> Returned \<and> (\<forall>e. x \<noteq> Rejected e))"
      using ok 3(2) by auto
    then have "\<not> pool_aborted s \<longrightarrow> (\<forall>x \<in> set (slots ?t). x \<noteq> Returned \<and> (\<forall>e. x \<noteq> Rejected e))"
      by (auto dest!: slots_update_all)
    ultimately show ?thesis using ok 3 unfolding eq pool_ok_def by simp
  qed
qed

lemma failed_ok:
  assumes "pool_ok opts s" "w < length (slots s)" "slots s ! w = Busy i"
  shows "pool_ok opts (item_failed opts w i err s)"
proof -
  note ok = assms(1) [unfolded pool_ok_def]
  let ?t = "item_failed opts w i err s"
  obtain x where x: "slots ?t = (slots s)[w := x]" "busy_idx x = []"
      "x = Returned \<or> (\<exists>e. x = Rejected e) \<longrightarrow> pool_aborted ?t"
    by (cases "isMustAbortError err"; cases "pool_onError opts err (pool_items opts ! i) i") (auto simp: item_failed_def Let_def)
  have m: "add_mset i (mset (in_work ?t)) = mset (in_work s)" "Suc (length (in_work ?t)) = length (in_work s)"
    using in_work_update [OF assms(2), unfolded assms(3), OF x(1)] x(2) by simp_all
  have same: "nextIdx ?t = nextIdx s" "calls ?t = calls s" "processed ?t = processed s" "errored ?t = Suc (errored s)"
    "map pf_idx (failures ?t) = map pf_idx (failures s) @ [i]" "pool_aborted s \<longrightarrow> pool_aborted ?t"
    "pool_aborted ?t \<longrightarrow> pool_aborted s \<or> abort_signal ?t" "abort_signal s \<longrightarrow> abort_signal ?t"
    by (auto simp: item_failed_def Let_def split: error_decision.split)
  have "mset (in_work ?t) + mset (map pf_idx (failures ?t)) = mset (in_work s) + mset (map pf_idx (failures s))"
    unfolding same(5) m(1) [symmetric] by simp
  moreover have "length (failures ?t) = Suc (length (failures s))"
    using arg_cong [OF same(5), of length] by simp
  moreover have "(y = Returned \<longrightarrow> nextIdx ?t = pool_total opts) \<and> (\<forall>e. y \<noteq> Rejected e)"
    if "\<not> pool_aborted ?t" "y \<in> set (slots ?t)" for y
    using slots_update_all [of y "slots s" w x] that ok x(1,3) same(1,6) by auto
  moreover have "pool_aborted ?t \<longrightarrow> abort_signal ?t" using ok same(7,8) by blast
  moreover have "slots ?t = [] \<longleftrightarrow> slots s = []" "length (slots ?t) = length (slots s)" using x(1) by simp_all
  ultimately show ?thesis
    using ok m(2) same(1-4) unfolding pool_ok_def by (intro conjI impI ballI) simp_all
qed

lemma done_ok:
  assumes "pool_ok opts s" "w < length (slots s)" "slots s ! w = Busy i"
  shows "pool_ok opts (item_done opts w i s)"
proof (cases "pool_onProgress opts (processed s + 1) (pool_total opts)")
  case None
  let ?t = "s\<lparr>processed := processed s + 1, slots := (slots s)[w := AtTop]\<rparr>"
  have eq: "item_done opts w i s = ?t" using None by (simp add: item_done_def Let_def)
  note ok = assms(1) [unfolded pool_ok_def]
  have m: "add_mset i (mset (in_work ?t)) = mset (in_work s)" "Suc (length (in_work ?t)) = length (in_work s)"
    using in_work_update [OF assms(2), unfolded assms(3), of ?t AtTop] by simp_all
  have "mset (in_work ?t) + mset (map pf_idx (failures s)) \<subseteq># mset [0..<nextIdx s]"
    using ok unfolding m(1) [symmetric] by (metis add_mset_add_single mset_subset_eq_add_left subset_mset.dual_order.trans union_mset_add_mset_left)
  then show ?thesis using ok m(2) unfolding eq by (auto simp: pool_ok_def dest!: slots_update_all)
next
  case (Some err)
  let ?s1 = "s\<lparr>processed := processed s + 1\<rparr>"
  have "\<not> progress_quiet opts" using Some by (auto simp: progress_quiet_def)
  then have "pool_ok opts ?s1" using assms(1) by (auto simp: pool_ok_def in_work_def)
  then show ?thesis
    using failed_ok [of opts ?s1 w i err] assms(2,3) Some by (simp add: item_done_def Let_def)
qed

lemma pool_step_ok: "pool_step opts s t \<Longrightarrow> pool_ok opts s \<Longrightarrow> pool_ok opts t"
proof (induction rule: pool_step.induct)
  case (w_abort s)
  then show ?case by (simp add: pool_ok_def caller_abort_def in_work_def)
qed (auto intro: top_ok done_ok failed_ok)

lemma start_pool_ok: "pool_ok opts (start_pool opts aborted0)"
  by (auto simp: pool_ok_def start_pool_def in_work_def workerCount_def)

interpretation worker_pool: invariant_system "\<lambda>s. s = start_pool opts aborted0" "pool_step opts" "pool_ok opts"
  for opts aborted0
  by unfold_locales (auto intro: start_pool_ok pool_step_ok)

section \<open>Progress\<close>

text \<open>Every step brings the pool closer to its end.\<close>

fun weight :: "worker_state \<Rightarrow> nat" where
  "weight AtTop = 1"
| "weight (Busy i) = 2"
| "weight Returned = 0"
| "weight (Rejected e) = 0"

definition remaining :: "'a pool_opts \<Rightarrow> pool \<Rightarrow> nat" where
  "remaining opts s = 3 * (pool_total opts - nextIdx s) + sum_list (map weight (slots s)) + (if abort_signal s then 0 else 1)"

lemma sum_weight_update:
  "w < length xs \<Longrightarrow> sum_list (map weight (xs[w := x])) + weight (xs ! w) = sum_list (map weight xs) + weight x"
proof (induction xs arbitrary: w)
  case Nil
  then show ?case by simp
next
  case (Cons y ys)
  then show ?case by (cases w) simp_all
qed

lemma failed_remaining:
  "w < length (slots s) \<Longrightarrow> slots s ! w = Busy i \<Longrightarrow> remaining opts (item_failed opts w i err s) < remaining opts s"
  using sum_weight_update [of w "slots s" AtTop] sum_weight_update [of w "slots s" Returned]
    sum_weight_update [of w "slots s" "Rejected err"]
  by (auto simp: remaining_def item_failed_def Let_def split: error_decision.split)

lemma step_remaining: "pool_step opts s t \<Longrightarrow> remaining opts t < remaining opts s"
proof (induction rule: pool_step.induct)
  case (w_top w s)
  then show ?case
    using sum_weight_update [of w "slots s" Returned] sum_weight_update [of w "slots s" "Busy (nextIdx s)"]
    by (auto simp: remaining_def worker_top_def)
next
  case (w_done w s i)
  show ?case
  proof (cases "pool_onProgress opts (processed s + 1) (pool_total opts)")
    case None
    then show ?thesis using w_done sum_weight_update [of w "slots s" AtTop] by (simp add: remaining_def item_done_def)
  next
    case (Some err)
    let ?s1 = "s\<lparr>processed := processed s + 1\<rparr>"
    have "remaining opts ?s1 = remaining opts s" by (simp add: remaining_def)
    then show ?thesis
      using failed_remaining [of w ?s1 i opts err] w_done Some by (simp add: item_done_def Let_def)
  qed
next
  case (w_failed w s i err)
  then show ?case by (rule failed_remaining)
next
  case (w_abort s)
  then show ?case by (simp add: remaining_def caller_abort_def)
qed

lemma run_remaining: "(pool_step opts ^^ n) s t \<Longrightarrow> n + remaining opts t \<le> remaining opts s"
proof (induction n arbitrary: t)
  case 0
  then show ?case by simp
next
  case (Suc n)
  then obtain u where "(pool_step opts ^^ n) s u" "pool_step opts u t" by auto
  then show ?case using Suc.IH [of u] step_remaining [of opts u t] by simp
qed

lemma not_over_steps:
  assumes "\<not> over s"
  shows "\<exists>t. pool_step opts s t"
proof -
  obtain x where x: "x \<in> set (slots s)" "x \<noteq> Returned" "\<forall>e. x \<noteq> Rejected e"
    using assms by (auto simp: over_def)
  then obtain w where "w < length (slots s)" "slots s ! w = x" by (auto simp: in_set_conv_nth)
  then show ?thesis using x(2,3) by (cases x) (auto intro: pool_step.intros)
qed

text \<open>Once the signal is up, nothing is claimed, and a worker that has ended stays ended.\<close>

lemma step_after_abort:
  "pool_step opts s t \<Longrightarrow> abort_signal s \<Longrightarrow>
    abort_signal t \<and> calls t = calls s \<and> (pool_aborted s \<longrightarrow> pool_aborted t)"
  by (induction rule: pool_step.induct)
    (auto simp: worker_top_def item_done_def item_failed_def Let_def split: error_decision.split option.split)

lemma step_keeps_rejected:
  "pool_step opts s t \<Longrightarrow> w < length (slots s) \<Longrightarrow> slots s ! w = Rejected e \<Longrightarrow>
    w < length (slots t) \<and> slots t ! w = Rejected e"
  by (induction rule: pool_step.induct)
    (auto simp: worker_top_def item_done_def item_failed_def caller_abort_def Let_def nth_list_update
      split: error_decision.split option.split)

section \<open>The guarantees\<close>

lemma distinct_sub_upt:
  assumes "mset xs \<subseteq># mset [0..<n]"
  shows "distinct xs"
proof -
  have "\<forall>a. count (mset [0..<n]) a = (if a \<in> set [0..<n] then 1 else 0)"
    using distinct_upt [of 0 n] unfolding distinct_count_atmost_1 .
  then have "count (mset xs) a \<le> (if a \<in> set [0..<n] then 1 else 0)" for a
    using mset_subset_eq_count [OF assms, of a] by metis
  then have "count (mset xs) a \<le> 1" for a
    by (rule order_trans) simp
  then have "count (mset xs) a = (if a \<in> set xs then 1 else 0)" for a
    using count_mset_gt_0 [of a xs] by (auto simp: count_mset_0_iff intro: le_antisym)
  then show ?thesis unfolding distinct_count_atmost_1 by blast
qed

lemma over_idle: "over s \<Longrightarrow> in_work s = []"
  by (auto simp: over_def in_work_def)

text \<open>C21: no item is lost or done twice: in every reachable state the workers have called \<open>onItem\<close> for the
  items in order, each once, with no more items in work than there are workers; no item is reported twice as a
  failure; every item claimed is in work, counted as processed or counted as a failure, and only a
  throwing \<open>onProgress\<close> makes one count as both; and when all workers have ended and the pool was not
  aborted, all items were claimed and none is in work.\<close>

theorem pool_each_item_once:
  assumes "(pool_step opts)\<^sup>*\<^sup>* (start_pool opts aborted0) s"
  shows "calls s = [0..<nextIdx s] \<and> nextIdx s \<le> pool_total opts \<and> length (slots s) \<le> workerCount opts
    \<and> distinct (in_work s @ map pf_idx (failures s)) \<and> length (failures s) = errored s
    \<and> nextIdx s \<le> processed s + errored s + length (in_work s)
    \<and> (if progress_quiet opts then processed s + errored s + length (in_work s) = nextIdx s else True)
    \<and> (if over s \<and> \<not> pool_aborted s then in_work s = [] \<and> nextIdx s = pool_total opts else True)"
proof -
  have ok: "pool_ok opts s" by (rule worker_pool.reachable_inv [OF refl assms])
  note ok' = ok [unfolded pool_ok_def]
  have "distinct (in_work s @ map pf_idx (failures s))"
    by (rule distinct_sub_upt [of _ "nextIdx s"]) (use ok' in simp)
  moreover have "nextIdx s = pool_total opts" if "over s" "\<not> pool_aborted s"
    using that ok' by (cases "slots s") (auto simp: over_def)
  moreover have "in_work s = []" if "over s" using that by (rule over_idle)
  ultimately show ?thesis using ok' by auto
qed

text \<open>C26: the pool ends: however the event loop interleaves the workers and whatever the items do, a run has
  at most three steps per item, one per worker and one for the caller's abort, and as long as a
  worker has not ended some step is possible.\<close>

theorem pool_terminates:
  assumes "(pool_step opts ^^ n) (start_pool opts aborted0) s"
  shows "n \<le> 3 * pool_total opts + workerCount opts + 1 \<and> (over s \<or> (\<exists>t. pool_step opts s t))"
proof -
  have "remaining opts (start_pool opts aborted0) \<le> 3 * pool_total opts + workerCount opts + 1"
    by (simp add: remaining_def start_pool_def sum_list_replicate)
  then have "n \<le> 3 * pool_total opts + workerCount opts + 1" using run_remaining [OF assms] by linarith
  then show ?thesis using not_over_steps [of s opts] by blast
qed


section \<open>Witnesses\<close>

definition two_items :: "string pool_opts" where
  "two_items = \<lparr>pool_items = [''x'', ''y''], pool_workers = 5, pool_onProgress = (\<lambda>_ _. None), pool_onError = (\<lambda>_ _ _. DecideContinue), pool_label = id\<rparr>"

definition both_busy :: pool where
  "both_busy = worker_top two_items 1 (worker_top two_items 0 (start_pool two_items False))"

definition over_budget :: pool_error where
  "over_budget = \<lparr>err_tag = Some ''BUDGET_EXHAUSTED'', err_text = []\<rparr>"

lemmas pool_evals = both_busy_def worker_top_def start_pool_def two_items_def pool_total_def workerCount_def numeral_2_eq_2

lemma both_busy_run: "(pool_step two_items ^^ 2) (start_pool two_items False) both_busy"
proof -
  let ?s = "start_pool two_items False"
  have "pool_step two_items ?s (worker_top two_items 0 ?s)"
    by (rule w_top) (simp_all add: pool_evals)
  moreover have "pool_step two_items (worker_top two_items 0 ?s) both_busy"
    unfolding both_busy_def by (rule w_top) (simp_all add: pool_evals)
  ultimately show ?thesis by (auto simp: numeral_2_eq_2)
qed

theorem pool_each_item_once_witness: "calls both_busy = [0, 1] \<and> nextIdx both_busy \<le> pool_total two_items"
  using pool_each_item_once [OF relpowp_imp_rtranclp [OF both_busy_run]] by (simp add: pool_evals)

theorem pool_terminates_witness: "(2 :: nat) \<le> 3 * pool_total two_items + workerCount two_items + 1"
  using pool_terminates [OF both_busy_run] by simp


text \<open>A caller that aborts after the last item is told that the pool was aborted, although all items were
  done; the result type says that it aborted before claiming all items.\<close>

definition one_item :: "string pool_opts" where
  "one_item = \<lparr>pool_items = [''x''], pool_workers = 1, pool_onProgress = (\<lambda>_ _. None), pool_onError = (\<lambda>_ _ _. DecideContinue), pool_label = id\<rparr>"

lemma aborted_although_complete:
  "let s = worker_top one_item 0 (caller_abort (item_done one_item 0 0 (worker_top one_item 0 (start_pool one_item False))))
   in pool_aborted s \<and> processed s = pool_total one_item \<and> over s"
  by (simp add: worker_top_def caller_abort_def item_done_def start_pool_def one_item_def pool_total_def workerCount_def over_def)

end
