(* ===== verification/Settled_Pool.thy ===== *)
theory Settled_Pool
  imports Worker_Pool
begin

text \<open>
  The bounded runner with settled results (\<open>src/core/worker-pool.ts\<close>, \<open>runWithLimit\<close>): workers claim the
  items of a list in order and write each outcome, a value or the error, at the index of its item.
  \<open>fn\<close> is the caller's function; an array of results that is not yet written at an index holds \<open>None\<close>
  there (a hole of the JavaScript array).
\<close>

section \<open>The code\<close>

datatype 'b settled_item = SettledOk 'b nat | SettledError pool_error nat

record ('a, 'b) limit_opts =
  lim_items :: "'a list"
  lim_limit :: int
  lim_fn :: "'a \<Rightarrow> nat \<Rightarrow> pool_error + 'b"

record 'b limit_pool =
  lim_next :: nat
  lim_slots :: "worker_state list"
  lim_out :: "'b settled_item option list"
  lim_signal :: bool

definition lim_total :: "('a, 'b) limit_opts \<Rightarrow> nat" where
  "lim_total opts = length (lim_items opts)"

definition lim_workers :: "('a, 'b) limit_opts \<Rightarrow> nat" where
  "lim_workers opts = nat (max 1 (min (lim_limit opts) (int (lim_total opts))))"

definition start_limit :: "('a, 'b) limit_opts \<Rightarrow> bool \<Rightarrow> 'b limit_pool" where
  "start_limit opts aborted0 =
     \<lparr>lim_next = 0, lim_slots = (if lim_total opts = 0 then [] else replicate (lim_workers opts) AtTop),
      lim_out = replicate (lim_total opts) None, lim_signal = aborted0\<rparr>"

definition limit_top :: "('a, 'b) limit_opts \<Rightarrow> nat \<Rightarrow> 'b limit_pool \<Rightarrow> 'b limit_pool" where
  "limit_top opts w s =
     (if lim_signal s then s\<lparr>lim_slots := (lim_slots s)[w := Returned]\<rparr>
      else if lim_next s \<ge> lim_total opts then s\<lparr>lim_slots := (lim_slots s)[w := Returned]\<rparr>
      else s\<lparr>lim_next := lim_next s + 1, lim_slots := (lim_slots s)[w := Busy (lim_next s)]\<rparr>)"

definition settle_item :: "nat \<Rightarrow> pool_error + 'b \<Rightarrow> 'b settled_item" where
  "settle_item idx r = (case r of Inr v \<Rightarrow> SettledOk v idx | Inl e \<Rightarrow> SettledError e idx)"

definition limit_settle :: "('a, 'b) limit_opts \<Rightarrow> nat \<Rightarrow> nat \<Rightarrow> 'b limit_pool \<Rightarrow> 'b limit_pool" where
  "limit_settle opts w idx s =
     s\<lparr>lim_out := (lim_out s)[idx := Some (settle_item idx (lim_fn opts (lim_items opts ! idx) idx))],
       lim_slots := (lim_slots s)[w := AtTop]\<rparr>"

definition limit_abort :: "'b limit_pool \<Rightarrow> 'b limit_pool" where
  "limit_abort s = s\<lparr>lim_signal := True\<rparr>"

inductive limit_step :: "('a, 'b) limit_opts \<Rightarrow> 'b limit_pool \<Rightarrow> 'b limit_pool \<Rightarrow> bool" for opts where
  l_top: "w < length (lim_slots s) \<Longrightarrow> lim_slots s ! w = AtTop \<Longrightarrow> limit_step opts s (limit_top opts w s)"
| l_settle: "w < length (lim_slots s) \<Longrightarrow> lim_slots s ! w = Busy i \<Longrightarrow> limit_step opts s (limit_settle opts w i s)"
| l_abort: "\<not> lim_signal s \<Longrightarrow> limit_step opts s (limit_abort s)"

definition limit_over :: "'b limit_pool \<Rightarrow> bool" where
  "limit_over s \<longleftrightarrow> (\<forall>x \<in> set (lim_slots s). x = Returned)"

section \<open>The invariant\<close>

definition expected :: "('a, 'b) limit_opts \<Rightarrow> nat \<Rightarrow> 'b settled_item" where
  "expected opts i = settle_item i (lim_fn opts (lim_items opts ! i) i)"

definition limit_ok :: "('a, 'b) limit_opts \<Rightarrow> 'b limit_pool \<Rightarrow> bool" where
  "limit_ok opts s \<longleftrightarrow>
     length (lim_slots s) \<le> lim_workers opts \<and> (lim_slots s = [] \<longleftrightarrow> lim_total opts = 0)
     \<and> length (lim_out s) = lim_total opts \<and> lim_next s \<le> lim_total opts
     \<and> (\<forall>i < lim_total opts.
          lim_out s ! i = (if i < lim_next s \<and> Busy i \<notin> set (lim_slots s) then Some (expected opts i) else None))
     \<and> (\<forall>i. Busy i \<in> set (lim_slots s) \<longrightarrow> i < lim_next s)
     \<and> (\<forall>v w i. v < length (lim_slots s) \<longrightarrow> w < length (lim_slots s) \<longrightarrow>
          lim_slots s ! v = Busy i \<longrightarrow> lim_slots s ! w = Busy i \<longrightarrow> v = w)
     \<and> (\<not> lim_signal s \<longrightarrow> Returned \<in> set (lim_slots s) \<longrightarrow> lim_next s = lim_total opts)
     \<and> (\<forall>e. Rejected e \<notin> set (lim_slots s))"

lemma in_update_iff:
  "w < length xs \<Longrightarrow> x \<in> set (xs[w := y]) \<longleftrightarrow> x = y \<or> (\<exists>v < length xs. v \<noteq> w \<and> xs ! v = x)"
  unfolding in_set_conv_nth by (auto simp: nth_list_update split: if_splits)

lemma in_update_idle:
  "w < length xs \<Longrightarrow> xs ! w \<noteq> x \<Longrightarrow> x \<in> set (xs[w := y]) \<longleftrightarrow> x = y \<or> x \<in> set xs"
  using in_update_iff [of w xs x y] in_set_conv_nth [of x xs] by metis

lemma limit_top_ok:
  assumes "limit_ok opts s" "w < length (lim_slots s)" "lim_slots s ! w = AtTop"
  shows "limit_ok opts (limit_top opts w s)"
proof -
  note ok = assms(1) [unfolded limit_ok_def]
  consider "lim_signal s" | "\<not> lim_signal s" "lim_total opts \<le> lim_next s" | "\<not> lim_signal s" "lim_next s < lim_total opts"
    by linarith
  then show ?thesis
  proof cases
    case 3
    have eq: "limit_top opts w s = s\<lparr>lim_next := lim_next s + 1, lim_slots := (lim_slots s)[w := Busy (lim_next s)]\<rparr>"
      using 3 by (simp add: limit_top_def)
    have fresh: "Busy (lim_next s) \<notin> set (lim_slots s)" using ok by blast
    have none: "Returned \<notin> set (lim_slots s)" using ok 3 by auto
    have "\<forall>i < lim_total opts. lim_out s ! i =
        (if i < Suc (lim_next s) \<and> i \<noteq> lim_next s \<and> Busy i \<notin> set (lim_slots s) then Some (expected opts i) else None)"
      using ok by (auto simp: less_Suc_eq)
    moreover have "\<forall>i. Busy i \<in> set (lim_slots s) \<longrightarrow> i < Suc (lim_next s)" using ok by (auto simp: less_Suc_eq)
    moreover have "lim_slots s ! v \<noteq> Busy (lim_next s)" if "v < length (lim_slots s)" for v
      using fresh that by (metis nth_mem)
    ultimately show ?thesis
      using ok 3 none assms(2,3) unfolding eq limit_ok_def
      by (intro conjI) (auto simp: in_update_idle nth_list_update)
  qed (use ok assms(2,3) in \<open>auto simp: limit_ok_def limit_top_def in_update_idle nth_list_update\<close>)
qed

lemma limit_settle_ok:
  assumes "limit_ok opts s" "w < length (lim_slots s)" "lim_slots s ! w = Busy i"
  shows "limit_ok opts (limit_settle opts w i s)"
proof -
  note ok = assms(1) [unfolded limit_ok_def]
  have b: "Busy i \<in> set (lim_slots s)" using assms(2,3) by (metis nth_mem)
  then have i: "i < lim_next s" "i < lim_total opts" using ok by auto
  have mem: "Busy j \<in> set ((lim_slots s)[w := AtTop]) \<longleftrightarrow> j \<noteq> i \<and> Busy j \<in> set (lim_slots s)" for j
  proof (cases "j = i")
    case True
    then show ?thesis using ok assms(2,3) by (auto simp: in_update_iff)
  next
    case False
    then show ?thesis using assms(2,3) by (simp add: in_update_idle)
  qed
  have out: "\<forall>j < lim_total opts. (lim_out s)[i := Some (expected opts i)] ! j =
      (if j < lim_next s \<and> Busy j \<notin> set ((lim_slots s)[w := AtTop]) then Some (expected opts j) else None)"
    using ok i by (auto simp: mem nth_list_update)
  have ret: "Returned \<in> set ((lim_slots s)[w := AtTop]) \<longleftrightarrow> Returned \<in> set (lim_slots s)"
    and rej: "Rejected e \<in> set ((lim_slots s)[w := AtTop]) \<longleftrightarrow> Rejected e \<in> set (lim_slots s)" for e
    using assms(2,3) by (simp_all add: in_update_idle)
  have uniq: "\<forall>u v j. u < length (lim_slots s) \<longrightarrow> v < length (lim_slots s) \<longrightarrow>
      (lim_slots s)[w := AtTop] ! u = Busy j \<longrightarrow> (lim_slots s)[w := AtTop] ! v = Busy j \<longrightarrow> u = v"
    using ok assms(2) by (auto simp: nth_list_update split: if_splits)
  show ?thesis
    using ok out mem ret rej uniq unfolding limit_ok_def limit_settle_def expected_def [symmetric]
    by (intro conjI) simp_all
qed

lemma limit_step_ok: "limit_step opts s t \<Longrightarrow> limit_ok opts s \<Longrightarrow> limit_ok opts t"
proof (induction rule: limit_step.induct)
  case (l_abort s)
  then show ?case by (simp add: limit_ok_def limit_abort_def)
qed (auto intro: limit_top_ok limit_settle_ok)

lemma limit_start_ok: "limit_ok opts (start_limit opts aborted0)"
  by (auto simp: limit_ok_def start_limit_def lim_workers_def)

interpretation limit_pool: invariant_system "\<lambda>s. s = start_limit opts aborted0" "limit_step opts" "limit_ok opts"
  for opts :: "('a, 'b) limit_opts" and aborted0
  by unfold_locales (auto intro: limit_start_ok limit_step_ok)

section \<open>Progress\<close>

definition limit_remaining :: "('a, 'b) limit_opts \<Rightarrow> 'b limit_pool \<Rightarrow> nat" where
  "limit_remaining opts s =
     3 * (lim_total opts - lim_next s) + sum_list (map weight (lim_slots s)) + (if lim_signal s then 0 else 1)"

lemma limit_step_remaining: "limit_step opts s t \<Longrightarrow> limit_remaining opts t < limit_remaining opts s"
proof (induction rule: limit_step.induct)
  case (l_top w s)
  then show ?case
    using sum_weight_update [of w "lim_slots s" Returned] sum_weight_update [of w "lim_slots s" "Busy (lim_next s)"]
    by (auto simp: limit_remaining_def limit_top_def)
next
  case (l_settle w s i)
  then show ?case
    using sum_weight_update [of w "lim_slots s" AtTop] by (simp add: limit_remaining_def limit_settle_def)
next
  case (l_abort s)
  then show ?case by (simp add: limit_remaining_def limit_abort_def)
qed

lemma limit_run_remaining: "(limit_step opts ^^ n) s t \<Longrightarrow> n + limit_remaining opts t \<le> limit_remaining opts s"
proof (induction n arbitrary: t)
  case 0
  then show ?case by simp
next
  case (Suc n)
  then obtain u where "(limit_step opts ^^ n) s u" "limit_step opts u t" by auto
  then show ?case using Suc.IH [of u] limit_step_remaining [of opts u t] by simp
qed

lemma limit_not_over_steps:
  assumes "limit_ok opts s" "\<not> limit_over s"
  shows "\<exists>t. limit_step opts s t"
proof -
  obtain x where x: "x \<in> set (lim_slots s)" "x \<noteq> Returned" using assms(2) by (auto simp: limit_over_def)
  then obtain w where "w < length (lim_slots s)" "lim_slots s ! w = x" by (auto simp: in_set_conv_nth)
  moreover have "\<forall>e. x \<noteq> Rejected e" using assms(1) x(1) by (auto simp: limit_ok_def)
  ultimately show ?thesis using x(2) by (cases x) (auto intro: limit_step.intros)
qed

lemma limit_ends:
  assumes "(limit_step opts ^^ n) (start_limit opts aborted0) s"
  shows "n \<le> 3 * lim_total opts + lim_workers opts + 1 \<and> (limit_over s \<or> (\<exists>t. limit_step opts s t))"
proof -
  have "limit_remaining opts (start_limit opts aborted0) \<le> 3 * lim_total opts + lim_workers opts + 1"
    by (simp add: limit_remaining_def start_limit_def sum_list_replicate)
  moreover have "limit_ok opts s"
    by (rule limit_pool.reachable_inv [OF refl relpowp_imp_rtranclp [OF assms]])
  ultimately show ?thesis using limit_run_remaining [OF assms] limit_not_over_steps by fastforce
qed

section \<open>The guarantee\<close>

text \<open>However the workers interleave, the settled array is the sequential map: when all workers have
  ended, the entry of every claimed item is its own outcome, value or error, in the order of the
  input; without an abort that is every item, and after one the unclaimed rest of the array is
  holes.\<close>

theorem limit_pool_is_map:
  assumes "(limit_step opts)\<^sup>*\<^sup>* (start_limit opts aborted0) s" "limit_over s"
  shows "lim_out s = map (\<lambda>i. Some (settle_item i (lim_fn opts (lim_items opts ! i) i))) [0..<lim_next s]
      @ replicate (lim_total opts - lim_next s) None
    \<and> (if lim_signal s then lim_next s \<le> lim_total opts else lim_next s = lim_total opts)"
proof -
  have "limit_ok opts s" by (rule limit_pool.reachable_inv [OF refl assms(1)])
  note ok = this [unfolded limit_ok_def]
  have idle: "Busy i \<notin> set (lim_slots s)" for i using assms(2) by (auto simp: limit_over_def)
  have "lim_out s = map (\<lambda>i. Some (expected opts i)) [0..<lim_next s] @ replicate (lim_total opts - lim_next s) None"
    by (rule nth_equalityI) (use ok idle in \<open>auto simp: nth_append\<close>)
  moreover have "lim_next s = lim_total opts" if "\<not> lim_signal s"
    using that ok assms(2) by (cases "lim_slots s") (auto simp: limit_over_def)
  ultimately show ?thesis using ok by (simp add: expected_def)
qed

section \<open>A witness\<close>

definition two_tasks :: "(nat, nat) limit_opts" where
  "two_tasks =
     \<lparr>lim_items = [10, 20], lim_limit = 2,
      lim_fn = (\<lambda>x i. if x = 10 then Inr (x + i) else Inl \<lparr>err_tag = None, err_text = ''bad''\<rparr>)\<rparr>"

definition late_first :: "nat limit_pool" where
  "late_first =
     (let s1 = limit_top two_tasks 1 (limit_top two_tasks 0 (start_limit two_tasks False));
          s2 = limit_settle two_tasks 0 0 (limit_settle two_tasks 1 1 s1)
      in limit_top two_tasks 1 (limit_top two_tasks 0 s2))"

lemmas limit_evals = late_first_def limit_top_def limit_settle_def start_limit_def two_tasks_def lim_total_def
  lim_workers_def numeral_2_eq_2 Let_def

lemma late_first_run: "(limit_step two_tasks)\<^sup>*\<^sup>* (start_limit two_tasks False) late_first"
proof -
  let ?a = "start_limit two_tasks False"
  let ?b = "limit_top two_tasks 0 ?a"
  let ?c = "limit_top two_tasks 1 ?b"
  let ?d = "limit_settle two_tasks 1 1 ?c"
  let ?e = "limit_settle two_tasks 0 0 ?d"
  let ?f = "limit_top two_tasks 0 ?e"
  have "limit_step two_tasks ?a ?b" by (rule l_top) (simp_all add: limit_evals)
  moreover have "limit_step two_tasks ?b ?c" by (rule l_top) (simp_all add: limit_evals)
  moreover have "limit_step two_tasks ?c ?d" by (rule l_settle) (simp_all add: limit_evals)
  moreover have "limit_step two_tasks ?d ?e" by (rule l_settle) (simp_all add: limit_evals)
  moreover have "limit_step two_tasks ?e ?f" by (rule l_top) (simp_all add: limit_evals)
  moreover have "limit_step two_tasks ?f late_first"
    unfolding late_first_def Let_def by (rule l_top) (simp_all add: limit_evals)
  ultimately show ?thesis by (meson converse_rtranclp_into_rtranclp rtranclp.rtrancl_refl)
qed

theorem limit_pool_is_map_witness:
  "lim_out late_first = [Some (SettledOk 10 0), Some (SettledError \<lparr>err_tag = None, err_text = ''bad''\<rparr> 1)]"
proof -
  have "limit_over late_first" by (simp add: limit_over_def limit_evals)
  from limit_pool_is_map [OF late_first_run this] show ?thesis
    by (simp add: limit_evals settle_item_def)
qed

end
