(* ===== verification/Js_Data.thy ===== *)
theory Js_Data
  imports Text_Match "HOL-Library.List_Lexorder" "HOL-Library.Char_ord"
begin

text \<open>
  The list and string idioms of JavaScript that several components share: \<open>split\<close> and \<open>join\<close> on one
  character, \<open>split\<close> on runs of white space, the order in which a \<open>Set\<close> or a \<open>Map\<close> keeps its keys, the
  default order of strings, and a counted filter.
\<close>

section \<open>Split and join\<close>

fun split_on :: "'a \<Rightarrow> 'a list \<Rightarrow> 'a list list" where
  "split_on c [] = [[]]"
| "split_on c (x # xs) =
     (if x = c then [] # split_on c xs
      else (case split_on c xs of [] \<Rightarrow> [[x]] | y # ys \<Rightarrow> (x # y) # ys))"

fun join_with :: "'a \<Rightarrow> 'a list list \<Rightarrow> 'a list" where
  "join_with c [] = []"
| "join_with c [x] = x"
| "join_with c (x # y # ys) = x @ c # join_with c (y # ys)"

lemma split_on_not_Nil [simp]: "split_on c xs \<noteq> []"
  by (induction xs) (auto split: list.split)

lemma split_on_append: "c \<notin> set x \<Longrightarrow> split_on c (x @ c # ys) = x # split_on c ys"
  by (induction x) auto

lemma split_on_plain: "c \<notin> set x \<Longrightarrow> split_on c x = [x]"
  by (induction x) auto

lemma split_join:
  "xs \<noteq> [] \<Longrightarrow> \<forall>x \<in> set xs. c \<notin> set x \<Longrightarrow> split_on c (join_with c xs) = xs"
  by (induction c xs rule: join_with.induct) (auto simp: split_on_plain split_on_append)

lemma join_split [simp]: "join_with c (split_on c xs) = xs"
proof (induction xs)
  case Nil
  then show ?case by simp
next
  case (Cons x xs)
  obtain y ys where y: "split_on c xs = y # ys" using split_on_not_Nil by (metis neq_Nil_conv)
  then show ?case using Cons by (cases ys) auto
qed

lemma split_on_pieces: "y \<in> set (split_on c xs) \<Longrightarrow> c \<notin> set y"
  by (induction xs arbitrary: y) (auto split: list.splits if_splits)

section \<open>White space\<close>

text \<open>The white space of \<open>\s\<close> among the characters of one byte.\<close>

definition is_ws :: "char \<Rightarrow> bool" where
  "is_ws c \<longleftrightarrow> (let n = of_char c :: nat in (9 \<le> n \<and> n \<le> 13) \<or> n = 32 \<or> n = 160)"

function split_ws :: "string \<Rightarrow> string list" where
  "split_ws [] = [[]]"
| "split_ws (c # cs) =
     (if is_ws c then [] # split_ws (dropWhile is_ws cs)
      else (case split_ws cs of [] \<Rightarrow> [[c]] | y # ys \<Rightarrow> (c # y) # ys))"
  by pat_completeness auto
termination
  by (relation "measure length") (auto simp: le_imp_less_Suc length_dropWhile_le)

lemma split_ws_not_Nil [simp]: "split_ws s \<noteq> []"
  by (induction s rule: split_ws.induct) (auto split: list.split)

lemma split_ws_pieces: "y \<in> set (split_ws s) \<Longrightarrow> c \<in> set y \<Longrightarrow> \<not> is_ws c"
proof (induction s arbitrary: y rule: split_ws.induct)
  case (2 d cs)
  then show ?case by (cases "split_ws cs"; cases "is_ws d") (auto, blast+)
qed simp

definition nonempty :: "'a list list \<Rightarrow> 'a list list" where
  "nonempty xs = filter (\<lambda>x. x \<noteq> []) xs"

lemma nonempty_simps [simp]:
  "nonempty [] = []" "nonempty ([] # xs) = nonempty xs" "nonempty ((y # ys) # xs) = (y # ys) # nonempty xs"
  by (simp_all add: nonempty_def)

lemma nonempty_id: "\<forall>x \<in> set xs. x \<noteq> [] \<Longrightarrow> nonempty xs = xs"
  by (simp add: nonempty_def)

lemma space_is_ws [simp]: "is_ws CHR '' ''"
  by (simp add: is_ws_def)

lemma split_ws_append: "\<forall>c \<in> set x. \<not> is_ws c \<Longrightarrow> is_ws d \<Longrightarrow> split_ws (x @ d # ys) = x # split_ws (dropWhile is_ws ys)"
  by (induction x) auto

lemma split_ws_plain: "\<forall>c \<in> set x. \<not> is_ws c \<Longrightarrow> split_ws x = [x]"
  by (induction x) auto

text \<open>Words without white space, joined by spaces, are their own fields.\<close>

lemma split_ws_join:
  "xs \<noteq> [] \<Longrightarrow> \<forall>x \<in> set xs. x \<noteq> [] \<and> (\<forall>c \<in> set x. \<not> is_ws c) \<Longrightarrow> split_ws (join_with CHR '' '' xs) = xs"
proof (induction "CHR '' ''" xs rule: join_with.induct)
  case (3 x y ys)
  obtain a as where "join_with CHR '' '' (y # ys) = a # as" "\<not> is_ws a"
    using 3(3) by (cases ys; cases y) auto
  then have "dropWhile is_ws (join_with CHR '' '' (y # ys)) = join_with CHR '' '' (y # ys)" by simp
  then show ?case using 3 by (simp add: split_ws_append)
qed (auto simp: split_ws_plain)

definition trim :: "string \<Rightarrow> string" where
  "trim s = rev (dropWhile is_ws (rev (dropWhile is_ws s)))"

text \<open>\<open>toLowerCase\<close> on the characters of one byte: the letters of ASCII and of Latin-1.\<close>

definition lower_char :: "char \<Rightarrow> char" where
  "lower_char c =
     (let n = of_char c :: nat
      in if (65 \<le> n \<and> n \<le> 90) \<or> (192 \<le> n \<and> n \<le> 222 \<and> n \<noteq> 215) then char_of (n + 32) else c)"

definition toLowerCase :: "string \<Rightarrow> string" where
  "toLowerCase s = map lower_char s"

lemma toLowerCase_append [simp]: "toLowerCase (s @ t) = toLowerCase s @ toLowerCase t"
  by (simp add: toLowerCase_def)

lemma lower_char_small: "(of_char (lower_char c) :: nat) = (let n = of_char c :: nat
    in if (65 \<le> n \<and> n \<le> 90) \<or> (192 \<le> n \<and> n \<le> 222 \<and> n \<noteq> 215) then n + 32 else n)"
  by (simp add: lower_char_def Let_def)

lemma lower_char_idem [simp]: "lower_char (lower_char c) = lower_char c"
proof -
  have "(of_char (lower_char (lower_char c)) :: nat) = of_char (lower_char c)"
    unfolding lower_char_small [of "lower_char c"] lower_char_small [of c] Let_def by (simp split: if_splits)
  then show ?thesis by simp
qed

lemma toLowerCase_idem [simp]: "toLowerCase (toLowerCase s) = toLowerCase s"
  by (simp add: toLowerCase_def)

section \<open>Sets and maps in insertion order\<close>

fun first_occ :: "'a list \<Rightarrow> 'a list" where
  "first_occ [] = []"
| "first_occ (x # xs) = x # filter (\<lambda>y. y \<noteq> x) (first_occ xs)"

lemma set_first_occ [simp]: "set (first_occ xs) = set xs"
  by (induction xs) auto

lemma distinct_first_occ [simp]: "distinct (first_occ xs)"
  by (induction xs) auto

lemma first_occ_distinct: "distinct xs \<Longrightarrow> first_occ xs = xs"
  by (induction xs) (auto intro: filter_True)

lemma first_occ_Nil_iff [simp]: "first_occ xs = [] \<longleftrightarrow> xs = []"
  by (cases xs) auto

section \<open>Default order of strings\<close>

text \<open>\<open>sort()\<close> without a comparison orders strings by their code units.\<close>

lemma sort_first_occ_set: "set xs = set ys \<Longrightarrow> sort (first_occ xs) = sort (first_occ (ys :: 'a::linorder list))"
  by (rule sorted_distinct_set_unique) auto

lemma sort_first_occ_idem: "sort (first_occ (sort (first_occ xs))) = sort (first_occ (xs :: 'a::linorder list))"
  by (rule sort_first_occ_set) simp

section \<open>A filter that keeps a bounded number per key\<close>

fun keep_upto :: "nat \<Rightarrow> ('a \<Rightarrow> 'k) \<Rightarrow> ('k \<Rightarrow> nat) \<Rightarrow> 'a list \<Rightarrow> 'a list" where
  "keep_upto n key counts [] = []"
| "keep_upto n key counts (x # xs) =
     (if counts (key x) < n then x # keep_upto n key (counts(key x := counts (key x) + 1)) xs
      else keep_upto n key counts xs)"

lemma keep_upto_subseq: "subseq (keep_upto n key counts xs) xs"
  by (induction xs arbitrary: counts) auto

lemma keep_upto_count:
  "length (filter (\<lambda>x. key x = k) (keep_upto n key counts xs))
    = min (n - counts k) (length (filter (\<lambda>x. key x = k) xs))"
proof (induction xs arbitrary: counts)
  case (Cons x xs)
  then show ?case by (cases "counts (key x) < n"; cases "key x = k") auto
qed simp

lemma keep_upto_bound: "length (filter (\<lambda>x. key x = k) (keep_upto n key counts xs)) \<le> n - counts k"
  by (simp add: keep_upto_count)

section \<open>Decimal text of a number\<close>

fun show_nat :: "nat \<Rightarrow> string" where
  "show_nat n = (if n < 10 then [char_of (48 + n)] else show_nat (n div 10) @ [char_of (48 + n mod 10)])"

declare show_nat.simps [simp del]

definition show_int :: "int \<Rightarrow> string" where
  "show_int i = (if i < 0 then CHR ''-'' # show_nat (nat (- i)) else show_nat (nat i))"

lemma show_nat_chars: "c \<in> set (show_nat n) \<Longrightarrow> 48 \<le> (of_char c :: nat) \<and> (of_char c :: nat) < 58"
proof (induction n rule: show_nat.induct)
  case (1 n)
  show ?case
  proof (cases "n < 10")
    case True
    then show ?thesis using 1(2) by (simp add: show_nat.simps [of n] of_char_of)
  next
    case False
    then have "c \<in> set (show_nat (n div 10)) \<or> c = char_of (48 + n mod 10)" using 1(2) by (auto simp: show_nat.simps [of n])
    moreover have "48 \<le> (of_char (char_of (48 + n mod 10) :: char) :: nat) \<and> (of_char (char_of (48 + n mod 10) :: char) :: nat) < 58"
      by (simp add: of_char_of)
    ultimately show ?thesis using 1(1) False by blast
  qed
qed

lemma digit_inj: "a < 10 \<Longrightarrow> b < 10 \<Longrightarrow> char_of (48 + a) = (char_of (48 + b) :: char) \<Longrightarrow> a = (b :: nat)"
  using arg_cong [of "char_of (48 + a) :: char" "char_of (48 + b)" "of_char :: char \<Rightarrow> nat"] by (simp add: of_char_of)

lemma show_nat_not_Nil [simp]: "show_nat n \<noteq> []"
  by (simp add: show_nat.simps [of n])

lemma Nil_not_show_nat [simp]: "[] \<noteq> show_nat n"
  using show_nat_not_Nil by metis

lemma show_nat_inj: "show_nat m = show_nat n \<Longrightarrow> m = n"
proof (induction m arbitrary: n rule: show_nat.induct)
  case (1 m)
  note eq = 1(2) [unfolded show_nat.simps [of m] show_nat.simps [of n]]
  show ?case
  proof (cases "m < 10 \<or> n < 10")
    case True
    then have "m < 10 \<and> n < 10" using eq by (auto split: if_splits simp: append_eq_Cons_conv Cons_eq_append_conv)
    then show ?thesis using eq by (auto intro: digit_inj)
  next
    case False
    then have "show_nat (m div 10) = show_nat (n div 10)" "char_of (48 + m mod 10) = (char_of (48 + n mod 10) :: char)"
      using eq by auto
    then have "m div 10 = n div 10" "m mod 10 = n mod 10" using 1(1) False by (auto intro: digit_inj)
    then show ?thesis by (metis div_mult_mod_eq)
  qed
qed

lemma char_of_nat_digit_minus: "\<not> (48 \<le> (of_char CHR ''-'' :: nat) \<and> (of_char CHR ''-'' :: nat) < 58)"
  by simp

lemma show_int_inj: "show_int i = show_int j \<Longrightarrow> i = j"
proof -
  have sign: "CHR ''-'' # s \<noteq> show_nat n" for s n
    using show_nat_chars [of "CHR ''-''" n] by (metis (no_types, lifting) char_of_nat_digit_minus list.set_intros(1))
  assume "show_int i = show_int j"
  then show ?thesis
    using sign [of "show_nat (nat (- i))" "nat j"] sign [of "show_nat (nat (- j))" "nat i"] show_nat_inj
    by (auto simp: show_int_def split: if_splits dest!: show_nat_inj)
qed

lemma show_int_no_colon: "CHR '':'' \<notin> set (show_int i)"
  using show_nat_chars [of "CHR '':''"] by (auto simp: show_int_def)

text \<open>The text before the first separator.\<close>

lemma first_sep_unique:
  "c \<notin> set a \<Longrightarrow> c \<notin> set a' \<Longrightarrow> a @ c # b = a' @ c # b' \<Longrightarrow> a = a' \<and> b = b'"
  by (induction a arbitrary: a') (auto simp: Cons_eq_append_conv)

end
