(* ===== verification/Scopes.thy ===== *)
theory Scopes
  imports Js_Data
begin

text \<open>
  The scopes of access tokens (\<open>src/core/scope.ts\<close>): the hierarchy, the check of a required scope
  against granted ones, and the parsing and normalization of what a client registration supplies.
\<close>

section \<open>The hierarchy\<close>

definition ALLOWED_SCOPES :: "string list" where
  "ALLOWED_SCOPES = [''read'', ''write'', ''admin'', ''sources_admin'', ''users_admin'', ''agent'']"

definition isScope :: "string \<Rightarrow> bool" where
  "isScope s \<longleftrightarrow> s \<in> set ALLOWED_SCOPES"

definition IMPLIES :: "string \<Rightarrow> string list" where
  "IMPLIES g =
     (if g = ''admin'' then [''admin'', ''sources_admin'', ''users_admin'', ''write'', ''read'']
      else if g = ''write'' then [''write'', ''read'']
      else if g = ''sources_admin'' then [''sources_admin'']
      else if g = ''users_admin'' then [''users_admin'']
      else if g = ''read'' then [''read'']
      else if g = ''agent'' then [''agent'']
      else [])"

fun hasScope :: "string list \<Rightarrow> string \<Rightarrow> bool" where
  "hasScope [] requiredScope = False"
| "hasScope (granted # rest) requiredScope =
     (if \<not> isScope granted then hasScope rest requiredScope
      else if requiredScope \<in> set (IMPLIES granted) then True
      else hasScope rest requiredScope)"

section \<open>Parsing and normalization\<close>

datatype scope_error =
  NotAString string
| EmptyElement
| InnerWhitespace string
| NotAList string
| EmptyScopes
| InvalidScopeError string "string list"

definition assertAllowedScopes :: "string list \<Rightarrow> scope_error option" where
  "assertAllowedScopes scopes = map_option (\<lambda>s. InvalidScopeError s scopes) (find (\<lambda>s. \<not> isScope s) scopes)"

definition parseScopeString :: "string option \<Rightarrow> string list" where
  "parseScopeString s =
     (case s of None \<Rightarrow> [] | Some t \<Rightarrow> if t = [] then [] else nonempty (split_on CHR '' '' t))"

text \<open>The JSON values the endpoint may receive; an element that is not a string, and a value that is
  neither string nor array, are given by their \<open>typeof\<close>.\<close>

datatype raw_element = ElString string | ElOther string
datatype raw_scopes = RawMissing | RawString string | RawArray "raw_element list" | RawOther string

fun check_elements :: "raw_element list \<Rightarrow> scope_error + string list" where
  "check_elements [] = Inr []"
| "check_elements (ElOther t # els) = Inl (NotAString t)"
| "check_elements (ElString e # els) =
     (if e = [] then Inl EmptyElement
      else if list_ex is_ws e then Inl (InnerWhitespace e)
      else (case check_elements els of Inl err \<Rightarrow> Inl err | Inr cs \<Rightarrow> Inr (e # cs)))"

definition scope_candidates :: "raw_scopes \<Rightarrow> scope_error + string list" where
  "scope_candidates raw =
     (case raw of
        RawString s \<Rightarrow> Inr (nonempty (split_ws s))
      | RawArray els \<Rightarrow> check_elements els
      | RawOther t \<Rightarrow> Inl (NotAList t)
      | RawMissing \<Rightarrow> Inr [''read''])"

definition normalizeScopesInput :: "raw_scopes \<Rightarrow> scope_error + string" where
  "normalizeScopesInput raw =
     (if raw = RawMissing then Inr ''read''
      else (case scope_candidates raw of
              Inl err \<Rightarrow> Inl err
            | Inr candidates \<Rightarrow>
                (let deduped = sort (first_occ candidates)
                 in if deduped = [] then Inl EmptyScopes
                    else (case assertAllowedScopes deduped of
                            Some err \<Rightarrow> Inl err
                          | None \<Rightarrow> Inr (join_with CHR '' '' deduped)))))"

section \<open>The check\<close>

lemma hasScope_ex: "hasScope granted r \<longleftrightarrow> (\<exists>g \<in> set granted. isScope g \<and> r \<in> set (IMPLIES g))"
  by (induction granted) auto

lemma IMPLIES_isScope: "r \<in> set (IMPLIES g) \<Longrightarrow> isScope r \<and> isScope g"
  by (auto simp: IMPLIES_def isScope_def ALLOWED_SCOPES_def split: if_splits)

lemma IMPLIES_refl: "isScope g \<Longrightarrow> g \<in> set (IMPLIES g)"
  by (auto simp: IMPLIES_def isScope_def ALLOWED_SCOPES_def)

lemma IMPLIES_trans: "q \<in> set (IMPLIES r) \<Longrightarrow> r \<in> set (IMPLIES g) \<Longrightarrow> q \<in> set (IMPLIES g)"
  by (auto simp: IMPLIES_def split: if_splits)

lemma isScope_literals [simp]:
  "isScope ''read''" "isScope ''write''" "isScope ''admin''" "isScope ''sources_admin''" "isScope ''users_admin''"
  "isScope ''agent''"
  by (simp_all add: isScope_def ALLOWED_SCOPES_def)

lemma isScope_cases:
  assumes "isScope g"
  obtains "g = ''read''" | "g = ''write''" | "g = ''admin''" | "g = ''sources_admin''" | "g = ''users_admin''" | "g = ''agent''"
  using assms unfolding isScope_def ALLOWED_SCOPES_def list.set insert_iff empty_iff
  by (elim disjE FalseE) (erule that)+

lemma IMPLIES_literals [simp]:
  "IMPLIES ''admin'' = [''admin'', ''sources_admin'', ''users_admin'', ''write'', ''read'']"
  "IMPLIES ''write'' = [''write'', ''read'']" "IMPLIES ''sources_admin'' = [''sources_admin'']"
  "IMPLIES ''users_admin'' = [''users_admin'']" "IMPLIES ''read'' = [''read'']" "IMPLIES ''agent'' = [''agent'']"
  by (simp_all add: IMPLIES_def)

lemma IMPLIES_of:
  "g \<in> {''read'', ''sources_admin'', ''users_admin'', ''agent''} \<Longrightarrow> r \<in> set (IMPLIES g) \<longleftrightarrow> r = g"
  by auto

lemma hasScope_iff_implies: "hasScope granted r \<longleftrightarrow> (\<exists>g \<in> set granted. r \<in> set (IMPLIES g))"
  using IMPLIES_isScope by (auto simp: hasScope_ex)

lemma hasScope_trans: "hasScope granted r \<Longrightarrow> hasScope [r] q \<Longrightarrow> hasScope granted q"
  by (auto simp: hasScope_iff_implies intro: IMPLIES_trans)

lemma hasScope_mono: "set a \<subseteq> set b \<Longrightarrow> hasScope a r \<Longrightarrow> hasScope b r"
  by (auto simp: hasScope_iff_implies)

text \<open>A grant derived from another grant by \<open>hasScope\<close> reaches no further.\<close>

definition within :: "string list \<Rightarrow> string list \<Rightarrow> bool" where
  "within granted scopes \<longleftrightarrow> (\<forall>s \<in> set scopes. hasScope granted s)"

lemma within_trans: "within a b \<Longrightarrow> within b c \<Longrightarrow> within a c"
  unfolding within_def hasScope_iff_implies by (meson IMPLIES_trans)

lemma within_hasScope: "within granted scopes \<Longrightarrow> hasScope scopes r \<Longrightarrow> hasScope granted r"
  unfolding within_def hasScope_iff_implies by (meson IMPLIES_trans)

lemma within_filter: "within granted (filter (\<lambda>s. hasScope granted s) scopes)"
  by (simp add: within_def)

section \<open>Normalization\<close>

lemma check_elements_words:
  "check_elements els = Inr cs \<Longrightarrow>
    els = map ElString cs \<and> (\<forall>e \<in> set cs. e \<noteq> [] \<and> (\<forall>c \<in> set e. \<not> is_ws c))"
  by (induction els arbitrary: cs rule: check_elements.induct) (auto split: if_splits sum.splits simp: list_ex_iff)

lemma check_elements_all:
  "\<forall>e \<in> set cs. e \<noteq> [] \<and> (\<forall>c \<in> set e. \<not> is_ws c) \<Longrightarrow> check_elements (map ElString cs) = Inr cs"
  by (induction cs) (auto simp: list_ex_iff)

lemma scope_word: "isScope s \<Longrightarrow> s \<noteq> [] \<and> (\<forall>c \<in> set s. \<not> is_ws c)"
  by (auto simp: isScope_def ALLOWED_SCOPES_def is_ws_def)

lemma assertAllowed_None: "assertAllowedScopes scopes = None \<longleftrightarrow> (\<forall>s \<in> set scopes. isScope s)"
  by (auto simp: assertAllowedScopes_def find_None_iff)

text \<open>What a successful normalization has done.\<close>

lemma normalize_okE:
  assumes "normalizeScopesInput raw = Inr w"
  obtains cs where "scope_candidates raw = Inr cs" "cs \<noteq> []" "\<forall>s \<in> set cs. isScope s"
    "w = join_with CHR '' '' (sort (first_occ cs))"
proof (cases "raw = RawMissing")
  case True
  show thesis
  proof (rule that)
    show "scope_candidates raw = Inr [''read'']" using True by (simp add: scope_candidates_def)
    show "w = join_with CHR '' '' (sort (first_occ [''read'']))"
      using assms True by (simp add: normalizeScopesInput_def)
  qed (simp_all add: isScope_def ALLOWED_SCOPES_def)
next
  case False
  then obtain cs where cs: "scope_candidates raw = Inr cs"
    using assms by (auto simp: normalizeScopesInput_def split: sum.splits)
  then have "cs \<noteq> []" "assertAllowedScopes (sort (first_occ cs)) = None"
    "w = join_with CHR '' '' (sort (first_occ cs))"
    using assms False by (auto simp: normalizeScopesInput_def Let_def split: option.splits if_splits)
  then show thesis using that [OF cs] by (simp add: assertAllowed_None)
qed

lemma normalize_okI:
  assumes "scope_candidates raw = Inr cs" "cs \<noteq> []" "\<forall>s \<in> set cs. isScope s"
  shows "normalizeScopesInput raw = Inr (join_with CHR '' '' (sort (first_occ cs)))"
proof (cases "raw = RawMissing")
  case True
  then show ?thesis using assms(1) by (auto simp: normalizeScopesInput_def scope_candidates_def)
next
  case False
  have "sort (first_occ cs) \<noteq> []" using assms(2) by (metis first_occ_Nil_iff set_empty set_sort)
  moreover have "assertAllowedScopes (sort (first_occ cs)) = None" using assms(3) by (simp add: assertAllowed_None)
  ultimately show ?thesis using False assms(1) by (simp add: normalizeScopesInput_def Let_def)
qed

lemma parse_joined:
  assumes "ds \<noteq> []" "\<forall>s \<in> set ds. isScope s"
  shows "parseScopeString (Some (join_with CHR '' '' ds)) = ds"
proof -
  have words: "\<forall>s \<in> set ds. s \<noteq> [] \<and> (\<forall>c \<in> set s. \<not> is_ws c)" using assms(2) scope_word by blast
  then have "\<forall>s \<in> set ds. CHR '' '' \<notin> set s" using space_is_ws by blast
  then have split: "split_on CHR '' '' (join_with CHR '' '' ds) = ds" using assms(1) by (simp add: split_join)
  have "join_with CHR '' '' ds \<noteq> []" using split words assms(1) by (metis list.set_intros(1) split_on.simps(1))
  then show ?thesis using split words by (simp add: parseScopeString_def nonempty_id)
qed

text \<open>A scope list that passes normalization is stored in one canonical text, whatever its form: parsing
  the text returns the requested scopes, each once, in alphabetical order and all of them known; the
  text and the list of its words normalize to the text itself.\<close>

theorem scopes_canonical:
  assumes "normalizeScopesInput raw = Inr w"
  shows "let ds = parseScopeString (Some w) in
      scope_candidates raw \<in> {Inr cs | cs. set cs = set ds} \<and> sorted ds \<and> distinct ds \<and> ds \<noteq> []
      \<and> set ds \<subseteq> set ALLOWED_SCOPES
      \<and> normalizeScopesInput (RawString w) = Inr w \<and> normalizeScopesInput (RawArray (map ElString ds)) = Inr w"
proof -
  obtain cs where cs: "scope_candidates raw = Inr cs" "cs \<noteq> []" "\<forall>s \<in> set cs. isScope s"
      "w = join_with CHR '' '' (sort (first_occ cs))"
    by (rule normalize_okE [OF assms])
  let ?ds = "sort (first_occ cs)"
  have ne: "?ds \<noteq> []" using cs(2) by (metis first_occ_Nil_iff set_empty set_sort)
  have scopes: "\<forall>s \<in> set ?ds. isScope s" using cs(3) by simp
  have words: "\<forall>s \<in> set ?ds. s \<noteq> [] \<and> (\<forall>c \<in> set s. \<not> is_ws c)" using scopes scope_word by blast
  have parse: "parseScopeString (Some w) = ?ds" unfolding cs(4) by (rule parse_joined [OF ne scopes])
  have canon: "sort (first_occ ?ds) = ?ds" by (rule sort_first_occ_idem)
  have "scope_candidates (RawString w) = Inr ?ds"
    using split_ws_join [OF ne words] words by (simp add: scope_candidates_def cs(4) nonempty_id)
  then have "normalizeScopesInput (RawString w) = Inr w"
    using normalize_okI [OF _ ne scopes, of "RawString w"] canon cs(4) by simp
  moreover have "scope_candidates (RawArray (map ElString ?ds)) = Inr ?ds"
    unfolding scope_candidates_def raw_scopes.case by (rule check_elements_all [OF words])
  then have "normalizeScopesInput (RawArray (map ElString ?ds)) = Inr w"
    using normalize_okI [OF _ ne scopes, of "RawArray (map ElString ?ds)"] canon cs(4) by simp
  ultimately show ?thesis
    using cs(1,3) ne unfolding parse Let_def by (auto simp: isScope_def)
qed

theorem scopes_canonical_witness:
  "normalizeScopesInput (RawString '' write read  write'') = Inr ''read write''
    \<and> sorted (parseScopeString (Some ''read write''))"
proof -
  have n: "normalizeScopesInput (RawString '' write read  write'') = Inr ''read write''"
    by (simp add: normalizeScopesInput_def scope_candidates_def is_ws_def nonempty_def assertAllowedScopes_def
        isScope_def ALLOWED_SCOPES_def less_char_def less_eq_char_def)
  with scopes_canonical [OF n] show ?thesis by (simp add: Let_def)
qed

text \<open>What a set of granted scopes gives: every scope needs itself, \<open>admin\<close> above it, or \<open>write\<close> for
  \<open>read\<close>; \<open>agent\<close> is implied by nothing else, and a required scope outside the list is never met.\<close>

theorem hasScope_table:
  "hasScope granted r =
     (if r = ''read'' then {''read'', ''write'', ''admin''} \<inter> set granted \<noteq> {}
      else if r \<in> {''write'', ''sources_admin'', ''users_admin''} then {r, ''admin''} \<inter> set granted \<noteq> {}
      else if r \<in> {''admin'', ''agent''} then r \<in> set granted
      else False)"
proof -
  have none: "r \<notin> set (IMPLIES g)" if "\<not> isScope r" for g
    using that IMPLIES_isScope by blast
  have ex: "hasScope granted q \<longleftrightarrow> (\<exists>g \<in> set ALLOWED_SCOPES. g \<in> set granted \<and> q \<in> set (IMPLIES g))" for q
    using IMPLIES_isScope unfolding hasScope_iff_implies isScope_def by blast
  show ?thesis
  proof (cases "isScope r")
    case True
    then show ?thesis
      by (rule isScope_cases) (auto simp: ex ALLOWED_SCOPES_def)
  next
    case False
    then show ?thesis
      using none unfolding hasScope_iff_implies by (auto simp del: isScope_literals simp: isScope_def ALLOWED_SCOPES_def)
  qed
qed

text \<open>The comment of \<open>hasScope\<close> says that a granted \<open>admin\<close> satisfies any required scope.\<close>

lemma admin_has_no_agent: "\<not> hasScope [''admin''] ''agent''"
  by (simp add: hasScope_table)

end
