(* ===== verification/Oauth_Provider.thy ===== *)
theory Oauth_Provider
  imports Scopes
begin

text \<open>
  The OAuth server behind the HTTP transport (\<open>src/core/oauth-provider.ts\<close>, with \<open>legacy-token-scope.ts\<close>
  and the administrator's endpoints of \<open>serve-http.ts\<close> and \<open>auth.ts\<close> that write the same tables): clients,
  authorization codes, access and refresh tokens, and the older bearer tokens.

  \<^item> Tables are lists of rows; the primary keys and the foreign keys of the schema are checked by the
    inserts.  The text arrays are lists.  Times are seconds.
  \<^item> \<open>h\<close> is \<open>hashToken\<close> (SHA-256), the results of \<open>generateToken\<close> are arguments, and \<open>url_of\<close> is the URL
    parser of the platform.
\<close>

section \<open>The tables\<close>

record agent_bindings =
  ab_tools :: "string list option"
  ab_source :: "string option"
  ab_brain :: "string option"
  ab_max_concurrent :: int
  ab_budget :: "string option"

definition no_bindings :: agent_bindings where
  "no_bindings = \<lparr>ab_tools = None, ab_source = None, ab_brain = None, ab_max_concurrent = 1, ab_budget = None\<rparr>"

record oauth_client =
  oc_id :: string
  oc_secret_hash :: "string option"
  oc_name :: string
  oc_redirects :: "string list option"
  oc_grants :: "string list option"
  oc_scope :: "string option"
  oc_auth_method :: "string option"
  oc_issued_at :: "int option"
  oc_secret_expires :: "int option"
  oc_ttl :: "int option"
  oc_deleted_at :: "int option"
  oc_source :: "string option"
  oc_federated :: "string list"
  oc_prefixes :: "string list option"
  oc_agent :: agent_bindings

record code_row =
  k_hash :: string
  k_client :: string
  k_scopes :: "string list option"
  k_challenge :: string
  k_redirect :: string
  k_state :: "string option"
  k_resource :: "string option"
  k_expires :: int

datatype token_type = AccessToken | RefreshToken

record token_row =
  t_hash :: string
  t_type :: token_type
  t_client :: string
  t_scopes :: "string list option"
  t_expires :: "int option"
  t_resource :: "string option"

text \<open>What the permissions of an older token say about its source: nothing readable, one, or an array of
  JSON values (\<open>None\<close> where the value is not a string).\<close>

datatype source_grant = NoGrant | OneSource string | SourceArray "string option list"

record legacy_row =
  l_hash :: string
  l_name :: string
  l_grant :: source_grant
  l_revoked :: bool
  l_last_used :: "int option"

record oauth_db =
  clients :: "oauth_client list"
  codes :: "code_row list"
  tokens :: "token_row list"
  legacy :: "legacy_row list"
  sources :: "string list"

datatype oauth_error =
  UniqueViolation | ForeignKeyViolation
| InvalidRedirectUri string | InvalidScope scope_error | InvalidAuthMethod | ClientCredentialsNotPermitted
| EmptyPrefixes | BlankPrefix | UntrimmedPrefix string | MixedCasePrefix string | UnboundedPrefix string
| CodeNotFound | RefreshNotFound | RefreshExpired | ScopeExceedsGrant
| TokenExpired | InvalidToken
| InvalidClient | ClientNotFound | ClientRevoked | GrantNotAuthorized | InvalidClientSecret
| NothingToRescope | InvalidSourceId string | EmptyFederation | SourceMissing | NoSuchClient

record provider_config =
  tokenTtl :: int
  refreshTtl :: int
  dcrDisabled :: bool
  allowClientCredentialsDcr :: bool

text \<open>The constructor: a lifetime that is absent or zero takes its default.\<close>

definition new_provider :: "int option \<Rightarrow> int option \<Rightarrow> bool option \<Rightarrow> bool option \<Rightarrow> provider_config" where
  "new_provider ttl rttl no_dcr cc =
     \<lparr>tokenTtl = (case ttl of Some t \<Rightarrow> if t \<noteq> 0 then t else 3600 | None \<Rightarrow> 3600),
      refreshTtl = (case rttl of Some t \<Rightarrow> if t \<noteq> 0 then t else 30 * 24 * 3600 | None \<Rightarrow> 30 * 24 * 3600),
      dcrDisabled = (no_dcr = Some True), allowClientCredentialsDcr = (cc = Some True)\<rparr>"

section \<open>Array literals\<close>

text \<open>The arrays are bound as text.\<close>

definition replace_char :: "char \<Rightarrow> string \<Rightarrow> string \<Rightarrow> string" where
  "replace_char c by_text s = concat (map (\<lambda>x. if x = c then by_text else [x]) s)"

definition pg_element :: "string \<Rightarrow> string" where
  "pg_element s =
     CHR 0x22 # replace_char CHR 0x22 [CHR 0x5C, CHR 0x22] (replace_char CHR 0x5C [CHR 0x5C, CHR 0x5C] s) @ [CHR 0x22]"

definition pgArray :: "string list \<Rightarrow> string" where
  "pgArray arr = (if arr = [] then ''{}'' else CHR ''{'' # join_with CHR '','' (map pg_element arr) @ ''}'')"

text \<open>A reader of one quoted element finds its end, whatever the element holds.\<close>

fun read_quoted :: "string \<Rightarrow> (string \<times> string) option" where
  "read_quoted [] = None"
| "read_quoted [c] = (if c = CHR 0x22 then Some ([], []) else None)"
| "read_quoted (c # d # cs) =
     (if c = CHR 0x22 then Some ([], d # cs)
      else if c = CHR 0x5C then map_option (\<lambda>(x, rest). (d # x, rest)) (read_quoted cs)
      else map_option (\<lambda>(x, rest). (c # x, rest)) (read_quoted (d # cs)))"

definition escaped :: "string \<Rightarrow> string" where
  "escaped s = concat (map (\<lambda>c. if c = CHR 0x22 then [CHR 0x5C, CHR 0x22] else if c = CHR 0x5C then [CHR 0x5C, CHR 0x5C] else [c]) s)"

lemma pg_element_escaped: "pg_element s = CHR 0x22 # escaped s @ [CHR 0x22]"
proof -
  have "replace_char CHR 0x22 [CHR 0x5C, CHR 0x22] (replace_char CHR 0x5C [CHR 0x5C, CHR 0x5C] s) = escaped s"
    by (induction s) (simp_all add: replace_char_def escaped_def)
  then show ?thesis by (simp add: pg_element_def)
qed

lemma read_quoted_plain: "c \<noteq> CHR 0x22 \<Longrightarrow> c \<noteq> CHR 0x5C \<Longrightarrow> read_quoted (c # ds) = map_option (\<lambda>(x, rest). (c # x, rest)) (read_quoted ds)"
  by (cases ds) simp_all

lemma read_quoted_end: "read_quoted (CHR 0x22 # rest) = Some ([], rest)"
  by (cases rest) simp_all

lemma read_escaped: "read_quoted (escaped s @ CHR 0x22 # rest) = Some (s, rest)"
proof (induction s)
  case Nil
  then show ?case by (simp add: escaped_def read_quoted_end)
next
  case (Cons c s)
  have "escaped (c # s) = (if c = CHR 0x22 then [CHR 0x5C, CHR 0x22] else if c = CHR 0x5C then [CHR 0x5C, CHR 0x5C] else [c]) @ escaped s"
    by (simp add: escaped_def)
  then show ?case using Cons by (simp add: read_quoted_plain)
qed

lemma pg_element_cancel:
  assumes "pg_element x @ r = pg_element y @ s"
  shows "x = y \<and> r = s"
proof -
  have "escaped x @ CHR 0x22 # r = escaped y @ CHR 0x22 # s" using assms by (simp add: pg_element_escaped)
  then have "Some (x, r) = Some (y, s)" unfolding read_escaped [symmetric] by (rule arg_cong)
  then show ?thesis by simp
qed

lemma join_elements_inj:
  "join_with CHR '','' (map pg_element xs) @ ''}'' = join_with CHR '','' (map pg_element ys) @ ''}'' \<Longrightarrow> xs \<noteq> [] \<Longrightarrow> ys \<noteq> [] \<Longrightarrow> xs = ys"
proof (induction xs arbitrary: ys)
  case Nil
  then show ?case by simp
next
  case (Cons x xs)
  obtain y yt where ys: "ys = y # yt" using Cons.prems(3) by (cases ys) auto
  have tail: "join_with CHR '','' (map pg_element (z # zs)) @ ''}''
      = pg_element z @ (if zs = [] then ''}'' else CHR '','' # join_with CHR '','' (map pg_element zs) @ ''}'')" for z zs
    by (cases zs) simp_all
  have "x = y" "(if xs = [] then ''}'' else CHR '','' # join_with CHR '','' (map pg_element xs) @ ''}'')
      = (if yt = [] then ''}'' else CHR '','' # join_with CHR '','' (map pg_element yt) @ ''}'')"
    using pg_element_cancel Cons.prems(1) unfolding ys tail by blast+
  then show ?case using Cons.IH [of yt] ys by (auto split: if_splits)
qed

text \<open>The text of an array determines its elements: no choice of characters in an element, such as a comma or a
  quote in a registered redirect URI, makes two different lists the same array text.\<close>

theorem pgArray_injective: "pgArray xs = pgArray ys \<longleftrightarrow> xs = ys"
proof
  have ne: "pgArray zs \<noteq> ''{}''" if "zs \<noteq> []" for zs
    using that by (cases zs; cases "tl zs") (simp_all add: pgArray_def pg_element_def)
  have braces: "pgArray zs = CHR ''{'' # join_with CHR '','' (map pg_element zs) @ ''}''" if "zs \<noteq> []" for zs
    using that by (simp add: pgArray_def)
  assume eq: "pgArray xs = pgArray ys"
  show "xs = ys"
  proof (cases "xs = [] \<or> ys = []")
    case True
    moreover have "pgArray [] = ''{}''" by (simp add: pgArray_def)
    ultimately show ?thesis using eq ne [of xs] ne [of ys] by metis
  next
    case False
    then show ?thesis using eq join_elements_inj [of xs ys] by (simp add: braces)
  qed
qed simp

section \<open>Validation at registration\<close>

fun assertValidSlugPrefixes :: "string list \<Rightarrow> oauth_error option" where
  "assertValidSlugPrefixes [] = None"
| "assertValidSlugPrefixes (p # ps) =
     (if trim p = [] then Some BlankPrefix
      else if p \<noteq> trim p then Some (UntrimmedPrefix p)
      else if p \<noteq> toLowerCase p then Some (MixedCasePrefix p)
      else if \<not> suffix ''/'' p \<and> \<not> suffix ''/*'' p then Some (UnboundedPrefix p)
      else assertValidSlugPrefixes ps)"

datatype auth_method_input = MethodMissing | MethodText string | MethodOther

definition ALLOWED_TOKEN_ENDPOINT_AUTH_METHODS :: "string list" where
  "ALLOWED_TOKEN_ENDPOINT_AUTH_METHODS = [''client_secret_post'', ''client_secret_basic'', ''none'']"

definition validateTokenEndpointAuthMethod :: "auth_method_input \<Rightarrow> oauth_error + string" where
  "validateTokenEndpointAuthMethod v =
     (case v of
        MethodMissing \<Rightarrow> Inr ''client_secret_post''
      | MethodOther \<Rightarrow> Inl InvalidAuthMethod
      | MethodText t \<Rightarrow>
          if t = [] then Inr ''client_secret_post''
          else if t \<in> set ALLOWED_TOKEN_ENDPOINT_AUTH_METHODS then Inr t else Inl InvalidAuthMethod)"

record url =
  u_protocol :: string
  u_hostname :: string

definition validateRedirectUri :: "(string \<Rightarrow> url option) \<Rightarrow> string \<Rightarrow> oauth_error option" where
  "validateRedirectUri url_of uri =
     (case url_of uri of
        None \<Rightarrow> Some (InvalidRedirectUri uri)
      | Some u \<Rightarrow>
          let isLoopback = u_hostname u \<in> {''localhost'', ''127.0.0.1'', ''[::1]'', ''::1''}
          in if u_protocol u = ''https:'' then None
             else if u_protocol u = ''http:'' \<and> isLoopback then None
             else Some (InvalidRedirectUri uri))"

fun first_error :: "('a \<Rightarrow> 'e option) \<Rightarrow> 'a list \<Rightarrow> 'e option" where
  "first_error f [] = None"
| "first_error f (x # xs) = (case f x of Some e \<Rightarrow> Some e | None \<Rightarrow> first_error f xs)"

section \<open>Inserts\<close>

definition find_client :: "string \<Rightarrow> oauth_db \<Rightarrow> oauth_client option" where
  "find_client cid db = find (\<lambda>c. oc_id c = cid) (clients db)"

definition insert_client :: "oauth_client \<Rightarrow> oauth_db \<Rightarrow> oauth_error + oauth_db" where
  "insert_client c db =
     (if find_client (oc_id c) db \<noteq> None then Inl UniqueViolation
      else if (case oc_source c of Some s \<Rightarrow> s \<notin> set (sources db) | None \<Rightarrow> False) then Inl ForeignKeyViolation
      else Inr (db\<lparr>clients := clients db @ [c]\<rparr>))"

definition insert_code :: "code_row \<Rightarrow> oauth_db \<Rightarrow> oauth_error + oauth_db" where
  "insert_code r db =
     (if list_ex (\<lambda>x. k_hash x = k_hash r) (codes db) then Inl UniqueViolation
      else if find_client (k_client r) db = None then Inl ForeignKeyViolation
      else Inr (db\<lparr>codes := codes db @ [r]\<rparr>))"

definition insert_token :: "token_row \<Rightarrow> oauth_db \<Rightarrow> oauth_error + oauth_db" where
  "insert_token r db =
     (if list_ex (\<lambda>x. t_hash x = t_hash r) (tokens db) then Inl UniqueViolation
      else if find_client (t_client r) db = None then Inl ForeignKeyViolation
      else Inr (db\<lparr>tokens := tokens db @ [r]\<rparr>))"

section \<open>Clients\<close>

record client_info =
  ci_id :: string
  ci_secret :: "string option"
  ci_grants :: "string list"
  ci_scope :: "string option"
  ci_auth_method :: "string option"

definition getClient :: "string \<Rightarrow> oauth_db \<Rightarrow> client_info option" where
  "getClient cid db =
     map_option (\<lambda>c. \<lparr>ci_id = oc_id c, ci_secret = oc_secret_hash c,
                       ci_grants = orElse (oc_grants c) [''client_credentials''], ci_scope = oc_scope c,
                       ci_auth_method = oc_auth_method c\<rparr>)
       (find_client cid db)"

record client_metadata =
  cm_redirects :: "string list option"
  cm_scope :: "string option"
  cm_auth_method :: auth_method_input
  cm_grants :: "string list option"
  cm_name :: "string option"

text \<open>A row as both registrations write it; the name falls back when it is empty or missing.\<close>

definition new_client_row ::
  "string \<Rightarrow> string option \<Rightarrow> string \<Rightarrow> string list \<Rightarrow> string list \<Rightarrow> string \<Rightarrow> string \<Rightarrow> int \<Rightarrow> string \<Rightarrow> string list
    \<Rightarrow> oauth_client" where
  "new_client_row cid secret_hash name uris grants scope_text method now src federated =
     \<lparr>oc_id = cid, oc_secret_hash = secret_hash, oc_name = name, oc_redirects = Some uris, oc_grants = Some grants,
      oc_scope = Some scope_text, oc_auth_method = Some method, oc_issued_at = Some now, oc_secret_expires = None,
      oc_ttl = None, oc_deleted_at = None, oc_source = Some src, oc_federated = federated, oc_prefixes = None,
      oc_agent = no_bindings\<rparr>"

definition truthy_text :: "string option \<Rightarrow> string \<Rightarrow> string" where
  "truthy_text s d = (case s of Some t \<Rightarrow> if t \<noteq> [] then t else d | None \<Rightarrow> d)"

text \<open>Dynamic registration; the result is the client's id and, for a confidential client, its secret.\<close>

definition registerClient ::
  "(string \<Rightarrow> url option) \<Rightarrow> (string \<Rightarrow> string) \<Rightarrow> provider_config \<Rightarrow> string \<Rightarrow> string \<Rightarrow> int \<Rightarrow> client_metadata \<Rightarrow> oauth_db
    \<Rightarrow> (oauth_error + string \<times> string option) \<times> oauth_db" where
  "registerClient url_of h cfg genId genSecret now cm db =
     (case first_error (validateRedirectUri url_of) (orElse (cm_redirects cm) []) of
        Some e \<Rightarrow> (Inl e, db)
      | None \<Rightarrow>
     (case assertAllowedScopes (parseScopeString (cm_scope cm)) of
        Some e \<Rightarrow> (Inl (InvalidScope e), db)
      | None \<Rightarrow>
     (case validateTokenEndpointAuthMethod (cm_auth_method cm) of
        Inl e \<Rightarrow> (Inl e, db)
      | Inr authMethod \<Rightarrow>
          (let grantTypes = (case cm_grants cm of Some gs \<Rightarrow> if gs \<noteq> [] then gs else [''authorization_code'']
                             | None \<Rightarrow> [''authorization_code''])
           in if \<not> allowClientCredentialsDcr cfg \<and> ''client_credentials'' \<in> set grantTypes
              then (Inl ClientCredentialsNotPermitted, db)
              else let secret = (if authMethod = ''none'' then None else Some genSecret);
                       row = new_client_row genId (map_option h secret) (truthy_text (cm_name cm) ''unnamed'')
                               (orElse (cm_redirects cm) []) grantTypes (orElse (cm_scope cm) []) authMethod now
                               ''default'' [''default'']
                   in case insert_client row db of Inl e \<Rightarrow> (Inl e, db) | Inr db' \<Rightarrow> (Inr (genId, secret), db')))))"

record manual_registration =
  mr_name :: string
  mr_grants :: "string list"
  mr_scopes :: string
  mr_redirects :: "string list"
  mr_source :: string
  mr_federated :: "string list option"
  mr_auth_method :: auth_method_input
  mr_bindings :: "(string list option \<times> agent_bindings) option"

definition check_new_prefixes :: "string list option \<Rightarrow> oauth_error option" where
  "check_new_prefixes ps =
     (case ps of None \<Rightarrow> None | Some l \<Rightarrow> if l = [] then Some EmptyPrefixes else assertValidSlugPrefixes l)"

definition registerClientManual ::
  "(string \<Rightarrow> string) \<Rightarrow> string \<Rightarrow> string \<Rightarrow> int \<Rightarrow> manual_registration \<Rightarrow> oauth_db
    \<Rightarrow> (oauth_error + string \<times> string option) \<times> oauth_db" where
  "registerClientManual h genId genSecret now mr db =
     (case assertAllowedScopes (parseScopeString (Some (mr_scopes mr))) of
        Some e \<Rightarrow> (Inl (InvalidScope e), db)
      | None \<Rightarrow>
     (case check_new_prefixes (case mr_bindings mr of None \<Rightarrow> None | Some b \<Rightarrow> fst b) of
        Some e \<Rightarrow> (Inl e, db)
      | None \<Rightarrow>
     (case validateTokenEndpointAuthMethod (mr_auth_method mr) of
        Inl e \<Rightarrow> (Inl e, db)
      | Inr authMethod \<Rightarrow>
          (let secret = (if authMethod = ''none'' then None else Some genSecret);
               federated = (case mr_federated mr of Some f \<Rightarrow> if f \<noteq> [] then f else [mr_source mr] | None \<Rightarrow> [mr_source mr]);
               row = new_client_row genId (map_option h secret) (mr_name mr) (mr_redirects mr) (mr_grants mr)
                       (mr_scopes mr) authMethod now (mr_source mr) federated;
               bound = (case mr_bindings mr of None \<Rightarrow> row | Some (ps, ab) \<Rightarrow> row\<lparr>oc_prefixes := ps, oc_agent := ab\<rparr>)
           in case insert_client bound db of Inl e \<Rightarrow> (Inl e, db) | Inr db' \<Rightarrow> (Inr (genId, secret), db')))))"

section \<open>Rescoping and revoking a client\<close>

definition isValidSourceId :: "string \<Rightarrow> bool" where
  "isValidSourceId s \<longleftrightarrow>
     (let alnum = (\<lambda>c. let n = of_char c :: nat in (48 \<le> n \<and> n \<le> 57) \<or> (97 \<le> n \<and> n \<le> 122))
      in s \<noteq> [] \<and> length s \<le> 32 \<and> alnum (hd s) \<and> alnum (last s) \<and> list_all (\<lambda>c. alnum c \<or> c = CHR ''-'') s)"

text \<open>\<open>boundSlugPrefixes\<close> is absent (\<open>None\<close>: untouched), \<open>null\<close> (\<open>Some None\<close>: cleared) or a list.\<close>

record rescope_opts =
  ro_source :: "string option"
  ro_federated :: "string list option"
  ro_prefixes :: "string list option option"

definition check_rescope :: "rescope_opts \<Rightarrow> oauth_error option" where
  "check_rescope ro =
     (if ro_source ro = None \<and> ro_federated ro = None \<and> ro_prefixes ro = None then Some NothingToRescope
      else if (case ro_source ro of Some s \<Rightarrow> \<not> isValidSourceId s | None \<Rightarrow> False)
      then Some (InvalidSourceId (orElse (ro_source ro) []))
      else (case (case ro_federated ro of
                    None \<Rightarrow> None
                  | Some f \<Rightarrow> if f = [] then Some EmptyFederation
                              else map_option InvalidSourceId (find (\<lambda>s. \<not> isValidSourceId s) f)) of
              Some e \<Rightarrow> Some e
            | None \<Rightarrow> check_new_prefixes (case ro_prefixes ro of Some (Some l) \<Rightarrow> Some l | _ \<Rightarrow> None)))"

definition rescope_row :: "rescope_opts \<Rightarrow> oauth_client \<Rightarrow> oauth_client" where
  "rescope_row ro c =
     c\<lparr>oc_source := (case ro_source ro of Some s \<Rightarrow> Some s | None \<Rightarrow> oc_source c),
       oc_federated := orElse (ro_federated ro) (oc_federated c),
       oc_prefixes := orElse (ro_prefixes ro) (oc_prefixes c)\<rparr>"

definition rescopeClient :: "string \<Rightarrow> rescope_opts \<Rightarrow> oauth_db \<Rightarrow> (oauth_error + oauth_client) \<times> oauth_db" where
  "rescopeClient cid ro db =
     (case check_rescope ro of
        Some e \<Rightarrow> (Inl e, db)
      | None \<Rightarrow>
     (case updated (\<lambda>c. oc_id c = cid) (rescope_row ro) (clients db) of
        [] \<Rightarrow> (Inl NoSuchClient, db)
      | c # _ \<Rightarrow>
          if (case ro_source ro of Some s \<Rightarrow> s \<notin> set (sources db) | None \<Rightarrow> False) then (Inl SourceMissing, db)
          else (Inr c, db\<lparr>clients := update_where (\<lambda>c. oc_id c = cid) (rescope_row ro) (clients db)\<rparr>)))"

text \<open>The administrator's revocation marks the client and deletes its tokens; the one of the command line
  deletes the client, and the foreign keys delete its tokens and codes.\<close>

definition admin_revoke_client :: "int \<Rightarrow> string \<Rightarrow> oauth_db \<Rightarrow> oauth_db" where
  "admin_revoke_client now cid db =
     db\<lparr>clients := update_where (\<lambda>c. oc_id c = cid \<and> oc_deleted_at c = None) (\<lambda>c. c\<lparr>oc_deleted_at := Some now\<rparr>) (clients db),
        tokens := delete_where (\<lambda>t. t_client t = cid) (tokens db)\<rparr>"

definition cli_revoke_client :: "string \<Rightarrow> oauth_db \<Rightarrow> (oauth_error + oauth_client) \<times> oauth_db" where
  "cli_revoke_client cid db =
     (case filter (\<lambda>c. oc_id c = cid) (clients db) of
        [] \<Rightarrow> (Inl NoSuchClient, db)
      | c # _ \<Rightarrow> (Inr c, db\<lparr>clients := delete_where (\<lambda>c. oc_id c = cid) (clients db),
                            codes := delete_where (\<lambda>r. k_client r = cid) (codes db),
                            tokens := delete_where (\<lambda>t. t_client t = cid) (tokens db)\<rparr>))"

definition update_client_ttl :: "string \<Rightarrow> int option \<Rightarrow> oauth_db \<Rightarrow> oauth_db" where
  "update_client_ttl cid ttl db =
     (let v = (if ttl = Some 0 then None else ttl)
      in db\<lparr>clients := update_where (\<lambda>c. oc_id c = cid) (\<lambda>c. c\<lparr>oc_ttl := v\<rparr>) (clients db)\<rparr>)"

section \<open>Issuing tokens\<close>

record issued =
  is_access :: string
  is_refresh :: "string option"
  is_expires_in :: int
  is_scope :: string

definition issueTokens ::
  "(string \<Rightarrow> string) \<Rightarrow> provider_config \<Rightarrow> string \<Rightarrow> string \<Rightarrow> int \<Rightarrow> string \<Rightarrow> string list \<Rightarrow> string option \<Rightarrow> bool
    \<Rightarrow> int option \<Rightarrow> oauth_db \<Rightarrow> (oauth_error + issued) \<times> oauth_db" where
  "issueTokens h cfg genAccess genRefresh now cid scopes resource includeRefresh ttlOverride db =
     (let effectiveTtl = (case ttlOverride of Some t \<Rightarrow> if t \<noteq> 0 then t else tokenTtl cfg | None \<Rightarrow> tokenTtl cfg);
          access = \<lparr>t_hash = h genAccess, t_type = AccessToken, t_client = cid, t_scopes = Some scopes,
                    t_expires = Some (now + effectiveTtl), t_resource = resource\<rparr>;
          refresh = \<lparr>t_hash = h genRefresh, t_type = RefreshToken, t_client = cid, t_scopes = Some scopes,
                     t_expires = Some (now + refreshTtl cfg), t_resource = resource\<rparr>;
          result = \<lparr>is_access = genAccess, is_refresh = None, is_expires_in = effectiveTtl,
                    is_scope = join_with CHR '' '' scopes\<rparr>
      in case insert_token access db of
           Inl e \<Rightarrow> (Inl e, db)
         | Inr db1 \<Rightarrow>
             if includeRefresh
             then (case insert_token refresh db1 of
                     Inl e \<Rightarrow> (Inl e, db1)
                   | Inr db2 \<Rightarrow> (Inr (result\<lparr>is_refresh := Some genRefresh\<rparr>), db2))
             else (Inr result, db1))"

section \<open>The authorization code flow\<close>

record auth_params =
  ap_scopes :: "string list option"
  ap_challenge :: string
  ap_redirect :: string
  ap_state :: "string option"
  ap_resource :: "string option"

definition authorize ::
  "(string \<Rightarrow> string) \<Rightarrow> string \<Rightarrow> int \<Rightarrow> client_info \<Rightarrow> auth_params \<Rightarrow> oauth_db \<Rightarrow> (oauth_error + string) \<times> oauth_db" where
  "authorize h genCode now client params db =
     (let allowedScopes = parseScopeString (ci_scope client);
          requestedScopes = (case ap_scopes params of Some ss \<Rightarrow> if ss \<noteq> [] then ss else allowedScopes
                             | None \<Rightarrow> allowedScopes);
          grantedScopes = filter (\<lambda>s. hasScope allowedScopes s) requestedScopes;
          row = \<lparr>k_hash = h genCode, k_client = ci_id client, k_scopes = Some grantedScopes,
                 k_challenge = ap_challenge params, k_redirect = ap_redirect params,
                 k_state = (case ap_state params of Some t \<Rightarrow> if t \<noteq> [] then Some t else None | None \<Rightarrow> None),
                 k_resource = ap_resource params, k_expires = now + 600\<rparr>
      in case insert_code row db of Inl e \<Rightarrow> (Inl e, db) | Inr db' \<Rightarrow> (Inr genCode, db'))"

definition challengeForAuthorizationCode ::
  "(string \<Rightarrow> string) \<Rightarrow> int \<Rightarrow> client_info \<Rightarrow> string \<Rightarrow> oauth_db \<Rightarrow> oauth_error + string" where
  "challengeForAuthorizationCode h now client code db =
     (case filter (\<lambda>r. k_hash r = h code \<and> k_client r = ci_id client \<and> k_expires r > now) (codes db) of
        [] \<Rightarrow> Inl CodeNotFound
      | r # _ \<Rightarrow> Inr (k_challenge r))"

definition code_matches :: "(string \<Rightarrow> string) \<Rightarrow> int \<Rightarrow> client_info \<Rightarrow> string \<Rightarrow> string option \<Rightarrow> code_row \<Rightarrow> bool" where
  "code_matches h now client code redirectUri r \<longleftrightarrow>
     k_hash r = h code \<and> k_client r = ci_id client
     \<and> (case redirectUri of Some u \<Rightarrow> k_redirect r = u | None \<Rightarrow> True) \<and> k_expires r > now"

text \<open>The verifier of the challenge is a parameter the code does not use.\<close>

definition exchangeAuthorizationCode ::
  "(string \<Rightarrow> string) \<Rightarrow> provider_config \<Rightarrow> string \<Rightarrow> string \<Rightarrow> int \<Rightarrow> client_info \<Rightarrow> string \<Rightarrow> string option \<Rightarrow> string option
    \<Rightarrow> string option \<Rightarrow> oauth_db \<Rightarrow> (oauth_error + issued) \<times> oauth_db" where
  "exchangeAuthorizationCode h cfg genAccess genRefresh now client code codeVerifier redirectUri resource db =
     (case filter (code_matches h now client code redirectUri) (codes db) of
        [] \<Rightarrow> (Inl CodeNotFound, db)
      | r # _ \<Rightarrow>
          issueTokens h cfg genAccess genRefresh now (ci_id client) (orElse (k_scopes r) []) resource True None
            (db\<lparr>codes := delete_where (code_matches h now client code redirectUri) (codes db)\<rparr>))"

section \<open>Refresh, revocation, sweeping\<close>

definition refresh_matches :: "(string \<Rightarrow> string) \<Rightarrow> client_info \<Rightarrow> string \<Rightarrow> token_row \<Rightarrow> bool" where
  "refresh_matches h client tok t \<longleftrightarrow> t_hash t = h tok \<and> t_type t = RefreshToken \<and> t_client t = ci_id client"

definition exchangeRefreshToken ::
  "(string \<Rightarrow> string) \<Rightarrow> provider_config \<Rightarrow> string \<Rightarrow> string \<Rightarrow> int \<Rightarrow> client_info \<Rightarrow> string \<Rightarrow> string list option
    \<Rightarrow> string option \<Rightarrow> oauth_db \<Rightarrow> (oauth_error + issued) \<times> oauth_db" where
  "exchangeRefreshToken h cfg genAccess genRefresh now client tok scopes resource db =
     (case filter (refresh_matches h client tok) (tokens db) of
        [] \<Rightarrow> (Inl RefreshNotFound, db)
      | t # _ \<Rightarrow>
          (let db1 = db\<lparr>tokens := delete_where (refresh_matches h client tok) (tokens db)\<rparr>;
               grantedScopes = orElse (t_scopes t) []
           in if (case t_expires t of None \<Rightarrow> True | Some e \<Rightarrow> e < now) then (Inl RefreshExpired, db1)
              else if (case scopes of Some ss \<Rightarrow> list_ex (\<lambda>s. \<not> hasScope grantedScopes s) ss | None \<Rightarrow> False)
              then (Inl ScopeExceedsGrant, db1)
              else issueTokens h cfg genAccess genRefresh now (ci_id client) (orElse scopes grantedScopes) resource True None db1))"

definition revokeToken :: "(string \<Rightarrow> string) \<Rightarrow> client_info \<Rightarrow> string \<Rightarrow> oauth_db \<Rightarrow> oauth_db" where
  "revokeToken h client tok db =
     db\<lparr>tokens := delete_where (\<lambda>t. t_hash t = h tok \<and> t_client t = ci_id client) (tokens db)\<rparr>"

definition sweepExpiredTokens :: "int \<Rightarrow> oauth_db \<Rightarrow> nat \<times> oauth_db" where
  "sweepExpiredTokens now db =
     (let old_token = (\<lambda>t. case t_expires t of Some e \<Rightarrow> e < now | None \<Rightarrow> False);
          old_code = (\<lambda>r. k_expires r < now)
      in (length (filter old_token (tokens db)) + length (filter old_code (codes db)),
          db\<lparr>tokens := delete_where old_token (tokens db), codes := delete_where old_code (codes db)\<rparr>))"

section \<open>Confidential clients\<close>

definition is_revoked :: "string \<Rightarrow> oauth_db \<Rightarrow> bool" where
  "is_revoked cid db \<longleftrightarrow> list_ex (\<lambda>c. oc_id c = cid \<and> oc_deleted_at c \<noteq> None) (clients db)"

definition verifyConfidentialClientSecret ::
  "(string \<Rightarrow> string) \<Rightarrow> string \<Rightarrow> string \<Rightarrow> oauth_db \<Rightarrow> oauth_error + client_info" where
  "verifyConfidentialClientSecret h cid secret db =
     (case getClient cid db of
        None \<Rightarrow> Inl InvalidClient
      | Some client \<Rightarrow>
          if ci_secret client = None then Inl InvalidClient
          else if ci_secret client \<noteq> Some (h secret) then Inl InvalidClient
          else if is_revoked cid db then Inl ClientRevoked
          else Inr client)"

definition exchangeClientCredentials ::
  "(string \<Rightarrow> string) \<Rightarrow> provider_config \<Rightarrow> string \<Rightarrow> int \<Rightarrow> string \<Rightarrow> string \<Rightarrow> string option \<Rightarrow> oauth_db
    \<Rightarrow> (oauth_error + issued) \<times> oauth_db" where
  "exchangeClientCredentials h cfg genAccess now cid secret requestedScope db =
     (case getClient cid db of
        None \<Rightarrow> (Inl ClientNotFound, db)
      | Some client \<Rightarrow>
          if is_revoked cid db then (Inl ClientRevoked, db)
          else if ''client_credentials'' \<notin> set (ci_grants client) then (Inl GrantNotAuthorized, db)
          else if ci_secret client \<noteq> Some (h secret) then (Inl InvalidClientSecret, db)
          else
            (let allowedScopes = parseScopeString (ci_scope client);
                 requestedScopes = (case requestedScope of Some t \<Rightarrow> if t \<noteq> [] then parseScopeString (Some t) else allowedScopes
                                    | None \<Rightarrow> allowedScopes);
                 grantedScopes = filter (\<lambda>s. hasScope allowedScopes s) requestedScopes;
                 clientTtl = (case find_client cid db of None \<Rightarrow> None | Some c \<Rightarrow> if oc_ttl c = Some 0 then None else oc_ttl c)
             in issueTokens h cfg genAccess [] now cid grantedScopes None False clientTtl db))"

section \<open>Verification\<close>

text \<open>Which of the optional columns the migrations have added.\<close>

record oauth_schema =
  has_source_id :: bool
  has_federated_read :: bool
  has_bound_slug_prefixes :: bool
  has_permissions :: bool

record auth_info =
  ai_client :: string
  ai_name :: "string option"
  ai_scopes :: "string list"
  ai_expires :: int
  ai_source :: "string option"
  ai_allowed :: "string list option"
  ai_prefixes :: "string list option"
  ai_degraded :: bool

text \<open>The ladder of projections: source, federated read, and the write binding, which is absent from the
  row (\<open>None\<close>) or has a value.\<close>

definition project_client ::
  "oauth_schema \<Rightarrow> oauth_client option \<Rightarrow> string option \<times> string list option \<times> string list option option" where
  "project_client sch c =
     (let src = Option.bind c oc_source; fed = map_option oc_federated c; bound = Option.bind c oc_prefixes
      in if has_source_id sch \<and> has_federated_read sch \<and> has_bound_slug_prefixes sch then (src, fed, Some bound)
         else if has_source_id sch \<and> has_federated_read sch then (src, fed, None)
         else if has_source_id sch then (src, None, None)
         else (None, None, None))"

definition parseLegacyTokenScope :: "source_grant \<Rightarrow> string \<times> string list option" where
  "parseLegacyTokenScope g =
     (case g of
        SourceArray els \<Rightarrow>
          (let allowed = map the (filter (\<lambda>e. case e of Some s \<Rightarrow> s \<noteq> [] | None \<Rightarrow> False) els)
           in if allowed \<noteq> [] then (hd allowed, Some allowed) else (''default'', None))
      | OneSource s \<Rightarrow> if s \<noteq> [] then (s, None) else (''default'', None)
      | NoGrant \<Rightarrow> (''default'', None))"

definition verifyAccessToken ::
  "(string \<Rightarrow> string) \<Rightarrow> oauth_schema \<Rightarrow> int \<Rightarrow> string \<Rightarrow> oauth_db \<Rightarrow> (oauth_error + auth_info) \<times> oauth_db" where
  "verifyAccessToken h sch now tok db =
     (case filter (\<lambda>t. t_hash t = h tok \<and> t_type t = AccessToken) (tokens db) of
        t # _ \<Rightarrow>
          (case t_expires t of
             None \<Rightarrow> (Inl TokenExpired, db)
           | Some e \<Rightarrow>
               if e < now then (Inl TokenExpired, db)
               else
                 (let c = find_client (t_client t) db;
                      (src, fed, bound) = project_client sch c;
                      allowed = (case fed of Some f \<Rightarrow> Some f | None \<Rightarrow> map_option (\<lambda>s. [s]) src)
                  in (Inr \<lparr>ai_client = t_client t, ai_name = map_option oc_name c, ai_scopes = orElse (t_scopes t) [],
                           ai_expires = e, ai_source = src, ai_allowed = allowed, ai_prefixes = orElse bound None,
                           ai_degraded = (bound = None)\<rparr>, db)))
      | [] \<Rightarrow>
          (case filter (\<lambda>l. l_hash l = h tok \<and> \<not> l_revoked l) (legacy db) of
             [] \<Rightarrow> (Inl InvalidToken, db)
           | l # _ \<Rightarrow>
               (let (src, allowed) = parseLegacyTokenScope (if has_permissions sch then l_grant l else NoGrant)
                in (Inr \<lparr>ai_client = l_name l, ai_name = Some (l_name l), ai_scopes = [''read'', ''write'', ''admin''],
                         ai_expires = now + 365 * 24 * 3600, ai_source = Some src, ai_allowed = allowed,
                         ai_prefixes = None, ai_degraded = False\<rparr>,
                    db\<lparr>legacy := update_where (\<lambda>l. l_hash l = h tok) (\<lambda>l. l\<lparr>l_last_used := Some now\<rparr>) (legacy db)\<rparr>))))"

section \<open>The token endpoint\<close>

text \<open>The handlers of \<open>/token\<close> that stand before the one of the SDK: for client credentials, and for clients
  that present a secret.  \<open>None\<close> hands the request on to the SDK.\<close>

record token_request =
  tr_grant_type :: string
  tr_client_id :: "string option"
  tr_client_secret :: "string option"
  tr_scope :: "string option"
  tr_code :: "string option"
  tr_redirect_uri :: "string option"
  tr_code_verifier :: "string option"
  tr_refresh_token :: "string option"

datatype token_reply = InvalidRequest | InvalidClientReply oauth_error | InvalidGrantReply oauth_error | TokenReply issued

definition truthy :: "string option \<Rightarrow> bool" where
  "truthy s \<longleftrightarrow> s \<noteq> None \<and> s \<noteq> Some []"

definition reply_of :: "oauth_error + issued \<Rightarrow> token_reply" where
  "reply_of r =
     (case r of
        Inr i \<Rightarrow> TokenReply i
      | Inl e \<Rightarrow> if e = InvalidClient \<or> e = ClientRevoked then InvalidClientReply e else InvalidGrantReply e)"

definition token_endpoint ::
  "(string \<Rightarrow> string) \<Rightarrow> provider_config \<Rightarrow> string \<Rightarrow> string \<Rightarrow> int \<Rightarrow> token_request \<Rightarrow> oauth_db \<Rightarrow> token_reply option \<times> oauth_db" where
  "token_endpoint h cfg genAccess genRefresh now req db =
     (if tr_grant_type req = ''client_credentials''
      then if \<not> truthy (tr_client_id req) \<or> \<not> truthy (tr_client_secret req) then (Some InvalidRequest, db)
           else (case exchangeClientCredentials h cfg genAccess now (the (tr_client_id req)) (the (tr_client_secret req))
                        (tr_scope req) db of
                   (Inr i, db') \<Rightarrow> (Some (TokenReply i), db')
                 | (Inl e, db') \<Rightarrow> (Some (InvalidGrantReply e), db'))
      else if tr_grant_type req \<noteq> ''authorization_code'' \<and> tr_grant_type req \<noteq> ''refresh_token'' then (None, db)
      else if \<not> truthy (tr_client_id req) \<or> \<not> truthy (tr_client_secret req) then (None, db)
      else (case verifyConfidentialClientSecret h (the (tr_client_id req)) (the (tr_client_secret req)) db of
              Inl e \<Rightarrow> (Some (reply_of (Inl e)), db)
            | Inr client \<Rightarrow>
                if tr_grant_type req = ''authorization_code''
                then if \<not> truthy (tr_code req) then (Some InvalidRequest, db)
                     else (case exchangeAuthorizationCode h cfg genAccess genRefresh now client (the (tr_code req))
                                  (tr_code_verifier req) (tr_redirect_uri req) None db of
                             (r, db') \<Rightarrow> (Some (reply_of r), db'))
                else if \<not> truthy (tr_refresh_token req) then (Some InvalidRequest, db)
                     else (case exchangeRefreshToken h cfg genAccess genRefresh now client (the (tr_refresh_token req))
                                  (map_option split_ws (tr_scope req)) None db of
                             (r, db') \<Rightarrow> (Some (reply_of r), db'))))"

end
