(* ===== verification/Oauth_Guarantees.thy ===== *)
theory Oauth_Guarantees
  imports Oauth_Provider
begin

text \<open>
  The OAuth server as a transition system, and what holds along every run: no token reaches beyond the
  registered scopes of its client, authorization codes and refresh tokens work once, and a client
  touches only its own rows.  A state is the database and the set of hashes of all codes and tokens
  generated so far; the steps assume of \<open>generateToken\<close> that it does not repeat a hash.
\<close>

section \<open>The transition system\<close>

inductive oauth_step ::
  "(string \<Rightarrow> string) \<Rightarrow> provider_config \<Rightarrow> oauth_db \<times> string set \<Rightarrow> oauth_db \<times> string set \<Rightarrow> bool"
  for h cfg where
  o_register: "oauth_step h cfg (db, m) (snd (registerClient url_of h cfg cid sec now cm db), m)"
| o_manual: "oauth_step h cfg (db, m) (snd (registerClientManual h cid sec now mr db), m)"
| o_rescope: "oauth_step h cfg (db, m) (snd (rescopeClient cid ro db), m)"
| o_admin_revoke: "oauth_step h cfg (db, m) (admin_revoke_client now cid db, m)"
| o_cli_revoke: "oauth_step h cfg (db, m) (snd (cli_revoke_client cid db), m)"
| o_ttl: "oauth_step h cfg (db, m) (update_client_ttl cid ttl db, m)"
| o_authorize: "getClient cid db = Some client \<Longrightarrow> h code \<notin> m \<Longrightarrow>
    oauth_step h cfg (db, m) (snd (authorize h code now client params db), insert (h code) m)"
| o_code: "getClient cid db = Some client \<Longrightarrow> h a \<notin> m \<Longrightarrow> h r \<notin> m \<Longrightarrow> h a \<noteq> h r \<Longrightarrow>
    oauth_step h cfg (db, m)
      (snd (exchangeAuthorizationCode h cfg a r now client code verifier redirect resource db), {h a, h r} \<union> m)"
| o_refresh: "getClient cid db = Some client \<Longrightarrow> h a \<notin> m \<Longrightarrow> h r \<notin> m \<Longrightarrow> h a \<noteq> h r \<Longrightarrow>
    oauth_step h cfg (db, m)
      (snd (exchangeRefreshToken h cfg a r now client tok scopes resource db), {h a, h r} \<union> m)"
| o_credentials: "h a \<notin> m \<Longrightarrow>
    oauth_step h cfg (db, m) (snd (exchangeClientCredentials h cfg a now cid secret scope db), insert (h a) m)"
| o_endpoint: "h a \<notin> m \<Longrightarrow> h r \<notin> m \<Longrightarrow> h a \<noteq> h r \<Longrightarrow>
    oauth_step h cfg (db, m) (snd (token_endpoint h cfg a r now req db), {h a, h r} \<union> m)"
| o_revoke: "getClient cid db = Some client \<Longrightarrow> oauth_step h cfg (db, m) (revokeToken h client tok db, m)"
| o_sweep: "oauth_step h cfg (db, m) (snd (sweepExpiredTokens now db), m)"
| o_verify: "oauth_step h cfg (db, m) (snd (verifyAccessToken h sch now tok db), m)"
| o_others: "oauth_step h cfg (db, m) (db\<lparr>legacy := ls, sources := ss\<rparr>, m)"

definition empty_oauth :: "oauth_db \<Rightarrow> bool" where
  "empty_oauth db \<longleftrightarrow> clients db = [] \<and> codes db = [] \<and> tokens db = []"

section \<open>The invariant\<close>

definition scope_of :: "string \<Rightarrow> oauth_db \<Rightarrow> string list option" where
  "scope_of cid db = map_option (\<lambda>c. parseScopeString (oc_scope c)) (find_client cid db)"

definition ceiling_ok :: "oauth_db \<Rightarrow> string \<Rightarrow> string list option \<Rightarrow> bool" where
  "ceiling_ok db cid scopes \<longleftrightarrow> (case scope_of cid db of None \<Rightarrow> False | Some reg \<Rightarrow> within reg (orElse scopes []))"

definition oauth_ok :: "oauth_db \<times> string set \<Rightarrow> bool" where
  "oauth_ok w \<longleftrightarrow>
     (let (db, m) = w in
        distinct (map k_hash (codes db)) \<and> distinct (map t_hash (tokens db))
        \<and> (\<forall>r \<in> set (codes db). k_hash r \<in> m \<and> ceiling_ok db (k_client r) (k_scopes r))
        \<and> (\<forall>t \<in> set (tokens db). t_hash t \<in> m \<and> ceiling_ok db (t_client t) (t_scopes t)))"

lemma oauth_okI:
  assumes "distinct (map k_hash (codes db))" "distinct (map t_hash (tokens db))"
    and "\<And>r. r \<in> set (codes db) \<Longrightarrow> k_hash r \<in> m \<and> ceiling_ok db (k_client r) (k_scopes r)"
    and "\<And>t. t \<in> set (tokens db) \<Longrightarrow> t_hash t \<in> m \<and> ceiling_ok db (t_client t) (t_scopes t)"
  shows "oauth_ok (db, m)"
  using assms by (simp add: oauth_ok_def)

lemma oauth_okD:
  assumes "oauth_ok (db, m)"
  shows "distinct (map k_hash (codes db))" "distinct (map t_hash (tokens db))"
    and "r \<in> set (codes db) \<Longrightarrow> k_hash r \<in> m \<and> ceiling_ok db (k_client r) (k_scopes r)"
    and "t \<in> set (tokens db) \<Longrightarrow> t_hash t \<in> m \<and> ceiling_ok db (t_client t) (t_scopes t)"
  using assms by (simp_all add: oauth_ok_def)

lemma ok_mono: "oauth_ok (db, m) \<Longrightarrow> m \<subseteq> n \<Longrightarrow> oauth_ok (db, n)"
  by (auto simp: oauth_ok_def)

text \<open>What the clients' scopes are read from.\<close>

definition registrations :: "oauth_db \<Rightarrow> (string \<times> string option) list" where
  "registrations db = map (\<lambda>c. (oc_id c, oc_scope c)) (clients db)"

lemma scope_of_registrations: "scope_of cid db = map_option parseScopeString (map_of (registrations db) cid)"
proof -
  have "map_option f (map_of (map (\<lambda>c. (oc_id c, oc_scope c)) xs) cid)
      = map_option (\<lambda>c. f (oc_scope c)) (find (\<lambda>c. oc_id c = cid) xs)" for f :: "string option \<Rightarrow> string list" and xs
    by (induction xs) auto
  from this [of parseScopeString "clients db"] show ?thesis
    unfolding scope_of_def registrations_def find_client_def by (rule sym)
qed

lemma ceiling_registrations: "registrations db' = registrations db \<Longrightarrow> ceiling_ok db' = ceiling_ok db"
  by (simp add: fun_eq_iff ceiling_ok_def scope_of_registrations)

lemma registrations_simps [simp]:
  "registrations (db\<lparr>codes := cs\<rparr>) = registrations db" "registrations (db\<lparr>tokens := ts\<rparr>) = registrations db"
  "registrations (db\<lparr>legacy := ls\<rparr>) = registrations db" "registrations (db\<lparr>sources := ss\<rparr>) = registrations db"
  by (simp_all add: registrations_def)

lemma ceiling_simps [simp]:
  "ceiling_ok (db\<lparr>codes := cs\<rparr>) = ceiling_ok db" "ceiling_ok (db\<lparr>tokens := ts\<rparr>) = ceiling_ok db"
  "ceiling_ok db cid (Some (orElse ss [])) = ceiling_ok db cid ss"
  by (rule ceiling_registrations, simp, rule ceiling_registrations, simp, simp add: ceiling_ok_def split: option.split)

lemma map_update_where: "(\<And>c. g (f c) = g c) \<Longrightarrow> map g (update_where P f xs) = map g xs"
  by (rule map_key_update_where)

text \<open>A database whose client scopes are unchanged and whose codes and tokens are fewer is as good.\<close>

lemma fewer_ok:
  assumes "oauth_ok (db, m)"
    and "registrations db' = registrations db"
    and "codes db' = filter P (codes db)" "tokens db' = filter Q (tokens db)"
  shows "oauth_ok (db', m)"
  using oauth_okD [OF assms(1)] ceiling_registrations [OF assms(2)] assms(3,4)
  by (intro oauth_okI) (auto simp: distinct_map_filter)

lemma delete_filter: "delete_where P t = filter (\<lambda>r. \<not> P r) t"
  by (simp add: delete_where_def)

lemma find_append: "find P (xs @ ys) = (case find P xs of None \<Rightarrow> find P ys | Some x \<Rightarrow> Some x)"
  by (induction xs) auto

lemma insert_client_ok:
  assumes "oauth_ok (db, m)" "insert_client c db = Inr db'"
  shows "oauth_ok (db', m)"
proof -
  have db': "db' = db\<lparr>clients := clients db @ [c]\<rparr>"
    using assms(2) by (auto simp: insert_client_def split: if_splits)
  have keep: "ceiling_ok db cid ss \<Longrightarrow> ceiling_ok db' cid ss" for cid ss
    by (auto simp: db' ceiling_ok_def scope_of_def find_client_def split: option.splits)
      (auto simp: find_append)
  show ?thesis
    using oauth_okD [OF assms(1)] keep by (intro oauth_okI) (simp_all add: db')
qed

lemma insert_code_ok:
  assumes "oauth_ok (db, m)" "insert_code r db = Inr db'" "k_hash r \<in> n" "m \<subseteq> n" "ceiling_ok db (k_client r) (k_scopes r)"
  shows "oauth_ok (db', n)"
proof -
  have db': "db' = db\<lparr>codes := codes db @ [r]\<rparr>" and new: "k_hash r \<notin> k_hash ` set (codes db)"
    using assms(2) by (auto simp: insert_code_def list_ex_iff split: if_splits)
  have "ceiling_ok db' = ceiling_ok db" by (simp add: db')
  then show ?thesis
    using oauth_okD [OF assms(1)] assms(3-5) new by (intro oauth_okI) (auto simp: db')
qed

lemma insert_token_ok:
  assumes "oauth_ok (db, m)" "insert_token t db = Inr db'" "t_hash t \<in> n" "m \<subseteq> n" "ceiling_ok db (t_client t) (t_scopes t)"
  shows "oauth_ok (db', n)" "ceiling_ok db' = ceiling_ok db"
proof -
  have db': "db' = db\<lparr>tokens := tokens db @ [t]\<rparr>" and new: "t_hash t \<notin> t_hash ` set (tokens db)"
    using assms(2) by (auto simp: insert_token_def list_ex_iff split: if_splits)
  show same: "ceiling_ok db' = ceiling_ok db" by (simp add: db')
  show "oauth_ok (db', n)"
    using oauth_okD [OF assms(1)] assms(3-5) new same by (intro oauth_okI) (auto simp: db')
qed

lemma issueTokens_ok:
  assumes "oauth_ok (db, m)" "ceiling_ok db cid (Some scopes)" "h a \<in> n" "incl \<longrightarrow> h r \<in> n" "m \<subseteq> n"
  shows "oauth_ok (snd (issueTokens h cfg a r now cid scopes resource incl ttl db), n)"
proof -
  have ok: "oauth_ok (db, n)" by (rule ok_mono [OF assms(1,5)])
  let ?at = "\<lparr>t_hash = h a, t_type = AccessToken, t_client = cid, t_scopes = Some scopes,
      t_expires = Some (now + (case ttl of Some t \<Rightarrow> if t \<noteq> 0 then t else tokenTtl cfg | None \<Rightarrow> tokenTtl cfg)),
      t_resource = resource\<rparr>"
  let ?rt = "\<lparr>t_hash = h r, t_type = RefreshToken, t_client = cid, t_scopes = Some scopes,
      t_expires = Some (now + refreshTtl cfg), t_resource = resource\<rparr>"
  show ?thesis
  proof (cases "insert_token ?at db")
    case (Inl e)
    then show ?thesis using ok by (simp add: issueTokens_def Let_def)
  next
    case (Inr db1)
    have one: "oauth_ok (db1, n)" and same: "ceiling_ok db1 = ceiling_ok db"
      using insert_token_ok [OF ok Inr, of n] assms(2,3) by simp_all
    show ?thesis
    proof (cases "insert_token ?rt db1")
      case Err: (Inl e)
      then show ?thesis using one Inr by (simp add: issueTokens_def Let_def)
    next
      case Two: (Inr db2)
      have "oauth_ok (db2, n)" if incl using insert_token_ok (1) [OF one Two, of n] assms(2,4) same that by simp
      then show ?thesis using one Inr Two by (simp add: issueTokens_def Let_def)
    qed
  qed
qed

section \<open>Every step keeps the invariant\<close>

lemma getClient_scope:
  "getClient cid db = Some client \<Longrightarrow> ci_id client = cid \<and> scope_of cid db = Some (parseScopeString (ci_scope client))"
  by (auto simp: getClient_def scope_of_def find_client_def dest: find_Some_iff [THEN iffD1])

lemma register_ok: "oauth_ok (db, m) \<Longrightarrow> oauth_ok (snd (registerClient url_of h cfg cid sec now cm db), m)"
  by (auto simp: registerClient_def Let_def intro: insert_client_ok split: option.split sum.split)

lemma manual_ok: "oauth_ok (db, m) \<Longrightarrow> oauth_ok (snd (registerClientManual h cid sec now mr db), m)"
  by (auto simp: registerClientManual_def Let_def intro: insert_client_ok split: option.split sum.split)

lemma rescope_ok:
  assumes "oauth_ok (db, m)"
  shows "oauth_ok (snd (rescopeClient cid ro db), m)"
proof -
  let ?db = "db\<lparr>clients := update_where (\<lambda>c. oc_id c = cid) (rescope_row ro) (clients db)\<rparr>"
  have "oauth_ok (?db, m)"
    by (rule fewer_ok [OF assms, where P = "\<lambda>_. True" and Q = "\<lambda>_. True"])
      (simp_all add: registrations_def map_update_where rescope_row_def)
  then show ?thesis using assms by (simp add: rescopeClient_def split: option.split list.split)
qed

lemma ttl_ok: "oauth_ok (db, m) \<Longrightarrow> oauth_ok (update_client_ttl cid ttl db, m)"
  by (rule fewer_ok [where P = "\<lambda>_. True" and Q = "\<lambda>_. True"])
    (simp_all add: update_client_ttl_def Let_def registrations_def map_update_where)

lemma admin_revoke_ok: "oauth_ok (db, m) \<Longrightarrow> oauth_ok (admin_revoke_client now cid db, m)"
  by (rule fewer_ok [where P = "\<lambda>_. True"])
    (simp_all add: admin_revoke_client_def registrations_def map_update_where delete_filter)

lemma find_other_key: "k \<noteq> cid \<Longrightarrow> find (\<lambda>c. oc_id c = k) (filter (\<lambda>c. oc_id c \<noteq> cid) xs) = find (\<lambda>c. oc_id c = k) xs"
  by (induction xs) auto

lemma cli_revoke_ok:
  assumes "oauth_ok (db, m)"
  shows "oauth_ok (snd (cli_revoke_client cid db), m)"
proof -
  let ?db = "db\<lparr>clients := delete_where (\<lambda>c. oc_id c = cid) (clients db),
      codes := delete_where (\<lambda>r. k_client r = cid) (codes db), tokens := delete_where (\<lambda>t. t_client t = cid) (tokens db)\<rparr>"
  have keep: "ceiling_ok ?db k ss = ceiling_ok db k ss" if "k \<noteq> cid" for k ss
    using that by (simp add: ceiling_ok_def scope_of_def find_client_def delete_filter find_other_key)
  have "oauth_ok (?db, m)"
    using oauth_okD [OF assms] keep by (intro oauth_okI) (auto simp: delete_filter distinct_map_filter)
  then show ?thesis using assms by (simp add: cli_revoke_client_def split: list.split)
qed

lemma authorize_ok:
  assumes "oauth_ok (db, m)" "getClient cid db = Some client"
  shows "oauth_ok (snd (authorize h code now client params db), insert (h code) m)"
proof -
  let ?allowed = "parseScopeString (ci_scope client)"
  let ?row = "\<lambda>ss. \<lparr>k_hash = h code, k_client = ci_id client, k_scopes = Some (filter (hasScope ?allowed) ss),
      k_challenge = ap_challenge params, k_redirect = ap_redirect params,
      k_state = (case ap_state params of Some t \<Rightarrow> if t \<noteq> [] then Some t else None | None \<Rightarrow> None),
      k_resource = ap_resource params, k_expires = now + 600\<rparr>"
  have "oauth_ok (db', insert (h code) m)" if "insert_code (?row ss) db = Inr db'" for ss db'
    by (rule insert_code_ok [OF assms(1) that])
      (use getClient_scope [OF assms(2)] in \<open>auto simp: ceiling_ok_def within_def\<close>)
  moreover have "oauth_ok (db, insert (h code) m)" by (rule ok_mono [OF assms(1)]) blast
  ultimately show ?thesis by (simp add: authorize_def Let_def split: sum.split)
qed

lemma code_exchange_ok:
  assumes "oauth_ok (db, m)"
  shows "oauth_ok (snd (exchangeAuthorizationCode h cfg a r now client code verifier redirect resource db), {h a, h r} \<union> m)"
proof (cases "filter (code_matches h now client code redirect) (codes db)")
  case Nil
  have "oauth_ok (db, {h a, h r} \<union> m)" by (rule ok_mono [OF assms]) blast
  then show ?thesis using Nil by (simp add: exchangeAuthorizationCode_def)
next
  case (Cons row rest)
  let ?db = "db\<lparr>codes := delete_where (code_matches h now client code redirect) (codes db)\<rparr>"
  have "row \<in> set (codes db)" "k_client row = ci_id client"
    using arg_cong [OF Cons, of set] by (auto simp: code_matches_def)
  then have granted: "ceiling_ok ?db (ci_id client) (Some (orElse (k_scopes row) []))"
    using oauth_okD(3) [OF assms, of row] by simp
  have ok: "oauth_ok (?db, m)"
    by (rule fewer_ok [OF assms, where Q = "\<lambda>_. True"]) (simp_all add: delete_filter)
  show ?thesis
    using Cons issueTokens_ok [OF ok granted _ _ Un_upper2, of h a "{h a, h r}" True r]
    by (simp add: exchangeAuthorizationCode_def)
qed

lemma refresh_exchange_ok:
  assumes "oauth_ok (db, m)"
  shows "oauth_ok (snd (exchangeRefreshToken h cfg a r now client tok scopes resource db), {h a, h r} \<union> m)"
proof (cases "filter (refresh_matches h client tok) (tokens db)")
  case Nil
  have "oauth_ok (db, {h a, h r} \<union> m)" by (rule ok_mono [OF assms]) blast
  then show ?thesis using Nil by (simp add: exchangeRefreshToken_def)
next
  case (Cons row rest)
  let ?db = "db\<lparr>tokens := delete_where (refresh_matches h client tok) (tokens db)\<rparr>"
  let ?granted = "orElse (t_scopes row) []"
  have row: "row \<in> set (tokens db)" "t_client row = ci_id client"
    using arg_cong [OF Cons, of set] by (auto simp: refresh_matches_def)
  have ok: "oauth_ok (?db, m)"
    by (rule fewer_ok [OF assms, where P = "\<lambda>_. True"]) (simp_all add: delete_filter)
  then have ok': "oauth_ok (?db, {h a, h r} \<union> m)" by (rule ok_mono) blast
  have granted: "ceiling_ok ?db (ci_id client) (Some ?granted)"
    using oauth_okD(4) [OF assms, of row] row by simp
  have "ceiling_ok ?db (ci_id client) (Some (orElse scopes ?granted))"
    if "\<not> (case scopes of Some ss \<Rightarrow> list_ex (\<lambda>s. \<not> hasScope ?granted s) ss | None \<Rightarrow> False)"
  proof (cases scopes)
    case None
    then show ?thesis using granted by simp
  next
    case (Some ss)
    then have "within ?granted ss" using that by (simp add: within_def list_ex_iff)
    then show ?thesis using granted Some by (auto simp: ceiling_ok_def intro: within_trans split: option.splits)
  qed
  then show ?thesis
    using Cons ok' issueTokens_ok [OF ok _ _ _ Un_upper2, of "ci_id client" "orElse scopes ?granted" h a "{h a, h r}" True r]
    by (simp add: exchangeRefreshToken_def Let_def)
qed

lemma credentials_ok:
  assumes "oauth_ok (db, m)"
  shows "oauth_ok (snd (exchangeClientCredentials h cfg a now cid secret scope db), insert (h a) m)"
proof -
  have "oauth_ok (snd (issueTokens h cfg a [] now cid (filter (hasScope (parseScopeString (ci_scope client))) ss) None False ttl db),
      insert (h a) m)" if "getClient cid db = Some client" for client ss ttl
    by (rule issueTokens_ok [OF assms])
      (use getClient_scope [OF that] in \<open>simp_all add: ceiling_ok_def within_def subset_insertI\<close>)
  moreover have "oauth_ok (db, insert (h a) m)" by (rule ok_mono [OF assms]) blast
  ultimately show ?thesis by (simp add: exchangeClientCredentials_def Let_def split: option.split)
qed

lemma snd_reply:
  "snd (case p of (x, db') \<Rightarrow> (f x, db')) = snd p"
  "snd (case q of (Inr i, db') \<Rightarrow> (g i, db') | (Inl e, db') \<Rightarrow> (k e, db')) = snd q"
  by (auto split: prod.split sum.split)

lemma endpoint_ok:
  assumes "oauth_ok (db, m)"
  shows "oauth_ok (snd (token_endpoint h cfg a r now req db), {h a, h r} \<union> m)"
proof -
  have same: "oauth_ok (db, {h a, h r} \<union> m)" by (rule ok_mono [OF assms]) blast
  have cred: "oauth_ok (snd (exchangeClientCredentials h cfg a now cid secret scope db), {h a, h r} \<union> m)" for cid secret scope
    by (rule ok_mono [OF credentials_ok [OF assms]]) blast
  show ?thesis
    using same cred code_exchange_ok [OF assms, of h cfg a r now] refresh_exchange_ok [OF assms, of h cfg a r now]
    by (simp add: token_endpoint_def snd_reply split: sum.split)
qed

lemma oauth_step_ok:
  assumes "oauth_step h cfg w w'" "oauth_ok w"
  shows "oauth_ok w'"
  using assms
proof (induction rule: oauth_step.induct)
  case (o_revoke cid db client m tok)
  show ?case
    by (rule fewer_ok [OF o_revoke(2), where P = "\<lambda>_. True"]) (simp_all add: revokeToken_def delete_filter)
next
  case (o_sweep db m now)
  show ?case
    by (rule fewer_ok [OF o_sweep]) (simp_all add: sweepExpiredTokens_def Let_def delete_filter)
next
  case (o_verify db m sch now tok)
  show ?case
    by (rule fewer_ok [OF o_verify, where P = "\<lambda>_. True" and Q = "\<lambda>_. True"])
      (auto simp: verifyAccessToken_def Let_def split: list.split option.split prod.split)
next
  case (o_others db m ls ss)
  show ?case
    by (rule fewer_ok [OF o_others, where P = "\<lambda>_. True" and Q = "\<lambda>_. True"]) (simp_all)
qed (simp_all add: register_ok manual_ok rescope_ok admin_revoke_ok cli_revoke_ok ttl_ok authorize_ok
      credentials_ok endpoint_ok [simplified] code_exchange_ok [simplified] refresh_exchange_ok [simplified])

lemma empty_oauth_ok: "empty_oauth db \<Longrightarrow> oauth_ok (db, m)"
  by (simp add: empty_oauth_def oauth_ok_def)

interpretation oauth: invariant_system "\<lambda>w. empty_oauth (fst w)" "oauth_step h cfg" oauth_ok
  for h cfg
  by unfold_locales (auto intro: empty_oauth_ok oauth_step_ok)

section \<open>Scopes never escalate\<close>

lemma tokens_within_ceiling:
  assumes "empty_oauth db0" "(oauth_step h cfg)\<^sup>*\<^sup>* (db0, {}) (db, m)"
    and "fst (verifyAccessToken h sch now tok db) = Inr info" "hasScope (ai_scopes info) s"
  shows "(\<exists>c. find_client (ai_client info) db = Some c \<and> hasScope (parseScopeString (oc_scope c)) s)
    \<or> (\<exists>l \<in> set (legacy db). l_hash l = h tok \<and> \<not> l_revoked l)"
proof (cases "filter (\<lambda>t. t_hash t = h tok \<and> t_type t = AccessToken) (tokens db)")
  case Nil
  then have "filter (\<lambda>l. l_hash l = h tok \<and> \<not> l_revoked l) (legacy db) \<noteq> []"
    using assms(3) by (auto simp: verifyAccessToken_def)
  then show ?thesis by (auto simp: filter_empty_conv)
next
  case (Cons t rest)
  have t: "t \<in> set (tokens db)" using arg_cong [OF Cons, of set] by auto
  have info: "ai_client info = t_client t" "ai_scopes info = orElse (t_scopes t) []"
    using assms(3) Cons by (auto simp: verifyAccessToken_def Let_def split: option.splits if_splits prod.splits)
  have "oauth_ok (db, m)" by (rule oauth.reachable_inv [OF _ assms(2)]) (simp add: assms(1))
  then have "ceiling_ok db (t_client t) (t_scopes t)" using oauth_okD(4) t by blast
  then obtain c where "find_client (t_client t) db = Some c" "within (parseScopeString (oc_scope c)) (orElse (t_scopes t) [])"
    by (auto simp: ceiling_ok_def scope_of_def split: option.splits)
  then show ?thesis using info assms(4) by (auto intro: within_hasScope)
qed

text \<open>C13: no escalation: along any run of the server, whatever a client requests at the authorization
  endpoint, at an exchange or at a refresh, a token that verifies reaches at most what its client was
  registered for, unless it is an unrevoked bearer token of the older kind.\<close>

theorem tokens_within_registration:
  assumes "empty_oauth db0" "(oauth_step h cfg)\<^sup>*\<^sup>* (db0, {}) (db, m)"
    and "fst (verifyAccessToken h sch now tok db) = Inr info" "hasScope (ai_scopes info) s"
  shows "(\<exists>c. find_client (ai_client info) db = Some c \<and> hasScope (parseScopeString (oc_scope c)) s)
    \<or> (\<exists>l \<in> set (legacy db). l_hash l = h tok \<and> \<not> l_revoked l)"
  by (rule tokens_within_ceiling [OF assms])

section \<open>Codes and refresh tokens work once\<close>

text \<open>A table whose keys, once removed, do not come back: every step only forgets keys of the table or
  adds keys that were not known before.\<close>

locale spent_keys =
  fixes step :: "'s \<Rightarrow> 's \<Rightarrow> bool" and present known :: "'s \<Rightarrow> 'k \<Rightarrow> bool"
  assumes still_known: "step s t \<Longrightarrow> known s k \<Longrightarrow> known t k"
    and only_fresh: "step s t \<Longrightarrow> known s k \<Longrightarrow> present t k \<Longrightarrow> present s k"
begin

lemma gone_for_good: "step\<^sup>*\<^sup>* s t \<Longrightarrow> known s k \<Longrightarrow> \<not> present s k \<Longrightarrow> known t k \<and> \<not> present t k"
  by (induction rule: rtranclp_induct) (auto dest: still_known only_fresh)

end

definition code_present :: "oauth_db \<times> string set \<Rightarrow> string \<Rightarrow> bool" where
  "code_present w k \<longleftrightarrow> k \<in> k_hash ` set (codes (fst w))"

definition token_present :: "oauth_db \<times> string set \<Rightarrow> string \<Rightarrow> bool" where
  "token_present w k \<longleftrightarrow> k \<in> t_hash ` set (tokens (fst w))"

abbreviation code_keys :: "oauth_db \<Rightarrow> string set" where "code_keys db \<equiv> k_hash ` set (codes db)"
abbreviation token_keys :: "oauth_db \<Rightarrow> string set" where "token_keys db \<equiv> t_hash ` set (tokens db)"

lemma insert_code_keys: "insert_code r db = Inr db' \<Longrightarrow> code_keys db' = insert (k_hash r) (code_keys db) \<and> tokens db' = tokens db"
  by (auto simp: insert_code_def split: if_splits)

lemma insert_token_keys: "insert_token t db = Inr db' \<Longrightarrow> token_keys db' = insert (t_hash t) (token_keys db) \<and> codes db' = codes db"
  by (auto simp: insert_token_def split: if_splits)

lemma insert_client_keys: "insert_client c db = Inr db' \<Longrightarrow> codes db' = codes db \<and> tokens db' = tokens db"
  by (auto simp: insert_client_def split: if_splits)

lemma issue_keys:
  "codes (snd (issueTokens h cfg a r now cid scopes resource incl ttl db)) = codes db"
  "token_keys (snd (issueTokens h cfg a r now cid scopes resource incl ttl db))
    \<subseteq> {h a} \<union> (if incl then {h r} else {}) \<union> token_keys db"
  by (auto simp: issueTokens_def Let_def dest!: insert_token_keys split: sum.split) (metis imageI insert_iff)

lemma exchange_keys:
  "code_keys (snd (exchangeAuthorizationCode h cfg a r now client code verifier redirect resource db)) \<subseteq> code_keys db"
  "token_keys (snd (exchangeAuthorizationCode h cfg a r now client code verifier redirect resource db)) \<subseteq> {h a, h r} \<union> token_keys db"
  using issue_keys(2) [of h cfg a r now "ci_id client" _ resource True None "db\<lparr>codes := _\<rparr>"]
  by (auto simp: exchangeAuthorizationCode_def issue_keys(1) delete_filter split: list.split)

lemma refresh_keys:
  "code_keys (snd (exchangeRefreshToken h cfg a r now client tok scopes resource db)) = code_keys db"
  "token_keys (snd (exchangeRefreshToken h cfg a r now client tok scopes resource db)) \<subseteq> {h a, h r} \<union> token_keys db"
proof -
  show "code_keys (snd (exchangeRefreshToken h cfg a r now client tok scopes resource db)) = code_keys db"
    by (simp add: exchangeRefreshToken_def Let_def issue_keys(1) split: list.split)
  have "token_keys (snd (issueTokens h cfg a r now (ci_id client) ss resource True None
      (db\<lparr>tokens := delete_where (refresh_matches h client tok) (tokens db)\<rparr>))) \<subseteq> {h a, h r} \<union> token_keys db" for ss
    by (rule order_trans [OF issue_keys(2)]) (auto simp: delete_filter)
  then show "token_keys (snd (exchangeRefreshToken h cfg a r now client tok scopes resource db)) \<subseteq> {h a, h r} \<union> token_keys db"
    by (auto simp: exchangeRefreshToken_def Let_def delete_filter split: list.split)
qed

lemma credentials_keys:
  "code_keys (snd (exchangeClientCredentials h cfg a now cid secret scope db)) = code_keys db"
  "token_keys (snd (exchangeClientCredentials h cfg a now cid secret scope db)) \<subseteq> {h a} \<union> token_keys db"
  using issue_keys(2) [of h cfg a "[]" now cid _ None False _ db]
  by (auto simp: exchangeClientCredentials_def Let_def issue_keys(1) split: option.split)

lemma endpoint_keys:
  "code_keys (snd (token_endpoint h cfg a r now req db)) \<subseteq> code_keys db"
  "token_keys (snd (token_endpoint h cfg a r now req db)) \<subseteq> {h a, h r} \<union> token_keys db"
proof -
  show "code_keys (snd (token_endpoint h cfg a r now req db)) \<subseteq> code_keys db"
    using exchange_keys(1)
    by (simp add: token_endpoint_def snd_reply credentials_keys(1) refresh_keys(1) split: sum.split)
  have "token_keys (snd (exchangeClientCredentials h cfg a now cid secret scope db)) \<subseteq> {h a, h r} \<union> token_keys db" for cid secret scope
    by (rule order_trans [OF credentials_keys(2)]) blast
  then show "token_keys (snd (token_endpoint h cfg a r now req db)) \<subseteq> {h a, h r} \<union> token_keys db"
    using exchange_keys(2) [of h cfg a r now] refresh_keys(2) [of h cfg a r now]
    by (simp add: token_endpoint_def snd_reply subset_insertI2 split: sum.split)
qed

text \<open>What a step adds to the two tables was not minted before.\<close>

lemma register_same:
  "codes (snd (registerClient url_of h cfg cid sec now cm db)) = codes db \<and> tokens (snd (registerClient url_of h cfg cid sec now cm db)) = tokens db"
  "codes (snd (registerClientManual h cid sec now mr db)) = codes db \<and> tokens (snd (registerClientManual h cid sec now mr db)) = tokens db"
  by (auto simp: registerClient_def registerClientManual_def Let_def dest!: insert_client_keys split: option.split sum.split)

lemma admin_same:
  "codes (snd (rescopeClient cid ro db)) = codes db \<and> tokens (snd (rescopeClient cid ro db)) = tokens db"
  "codes (update_client_ttl cid ttl db) = codes db \<and> tokens (update_client_ttl cid ttl db) = tokens db"
  by (simp_all add: rescopeClient_def update_client_ttl_def Let_def split: option.split list.split)

lemma fewer_keys:
  "code_keys (admin_revoke_client now cid db) = code_keys db" "token_keys (admin_revoke_client now cid db) \<subseteq> token_keys db"
  "code_keys (snd (cli_revoke_client cid db)) \<subseteq> code_keys db" "token_keys (snd (cli_revoke_client cid db)) \<subseteq> token_keys db"
  "code_keys (revokeToken h client tok db) = code_keys db" "token_keys (revokeToken h client tok db) \<subseteq> token_keys db"
  "code_keys (snd (sweepExpiredTokens now db)) \<subseteq> code_keys db" "token_keys (snd (sweepExpiredTokens now db)) \<subseteq> token_keys db"
  by (auto simp: admin_revoke_client_def cli_revoke_client_def revokeToken_def sweepExpiredTokens_def Let_def delete_filter
      split: list.split)

lemma verify_same:
  "codes (snd (verifyAccessToken h sch now tok db)) = codes db \<and> tokens (snd (verifyAccessToken h sch now tok db)) = tokens db"
  by (simp add: verifyAccessToken_def Let_def split: list.split option.split prod.split)

lemma authorize_keys:
  "code_keys (snd (authorize h code now client params db)) \<subseteq> insert (h code) (code_keys db)"
  "tokens (snd (authorize h code now client params db)) = tokens db"
  by (auto simp: authorize_def Let_def dest!: insert_code_keys split: sum.split)

lemma sub_keys: "A \<subseteq> A' \<Longrightarrow> B \<subseteq> B' \<Longrightarrow> m \<subseteq> m \<and> A \<inter> m \<subseteq> A' \<and> B \<inter> m \<subseteq> B'"
  by blast

lemma step_keys:
  assumes "oauth_step h cfg w w'"
  shows "snd w \<subseteq> snd w' \<and> code_keys (fst w') \<inter> snd w \<subseteq> code_keys (fst w)
    \<and> token_keys (fst w') \<inter> snd w \<subseteq> token_keys (fst w)"
  using assms
proof (induction rule: oauth_step.induct)
  case (o_authorize cid db client code m now params)
  then show ?case using authorize_keys [of h code now client params db] by auto
next
  case (o_code cid db client a m r now code verifier redirect resource)
  then show ?case
    using exchange_keys [of h cfg a r now client code verifier redirect resource db] by auto
next
  case (o_refresh cid db client a m r now tok scopes resource)
  then show ?case using refresh_keys [of h cfg a r now client tok scopes resource db] by auto
next
  case (o_credentials a m db now cid secret scope)
  then show ?case using credentials_keys [of h cfg a now cid secret scope db] by auto
next
  case (o_endpoint a m r db now req)
  then show ?case using endpoint_keys [of h cfg a r now req db] by auto
next
  case (o_admin_revoke db m now cid)
  show ?case unfolding fst_conv snd_conv by (rule sub_keys) (simp_all add: fewer_keys(1,2))
next
  case (o_cli_revoke db m cid)
  show ?case unfolding fst_conv snd_conv by (rule sub_keys) (simp_all add: fewer_keys(3,4))
next
  case (o_revoke cid db client m tok)
  show ?case unfolding fst_conv snd_conv by (rule sub_keys) (simp_all add: fewer_keys(5,6))
next
  case (o_sweep db m now)
  show ?case unfolding fst_conv snd_conv by (rule sub_keys) (simp_all add: fewer_keys(7,8))
qed (simp_all add: register_same admin_same verify_same)

interpretation spent_codes: spent_keys "oauth_step h cfg" code_present "\<lambda>w k. k \<in> snd w" for h cfg
  by unfold_locales (use step_keys in \<open>fastforce simp: code_present_def\<close>)+

interpretation spent_tokens: spent_keys "oauth_step h cfg" token_present "\<lambda>w k. k \<in> snd w" for h cfg
  by unfold_locales (use step_keys in \<open>fastforce simp: token_present_def\<close>)+

lemma exchange_successE:
  assumes "fst (exchangeAuthorizationCode h cfg a r now client code verifier redirect resource db) = Inr i"
  obtains row where "row \<in> set (codes db)" "code_matches h now client code redirect row"
    "codes (snd (exchangeAuthorizationCode h cfg a r now client code verifier redirect resource db))
      = filter (\<lambda>r. \<not> code_matches h now client code redirect r) (codes db)"
proof (cases "filter (code_matches h now client code redirect) (codes db)")
  case Nil
  then show thesis using assms by (simp add: exchangeAuthorizationCode_def)
next
  case (Cons row rest)
  have "row \<in> set (filter (code_matches h now client code redirect) (codes db))" unfolding Cons by simp
  then have "row \<in> set (codes db)" "code_matches h now client code redirect row" by simp_all
  then show thesis
    using that Cons by (simp add: exchangeAuthorizationCode_def issue_keys(1) delete_filter)
qed

text \<open>C20: an authorization code works once: after an exchange has succeeded, every later attempt with the same
  code fails, whichever client makes it, whatever happened in between.\<close>

theorem code_single_use:
  assumes "empty_oauth db0" "(oauth_step h cfg)\<^sup>*\<^sup>* (db0, {}) (db, m)"
    and "exchangeAuthorizationCode h cfg a r now client code verifier redirect resource db = (Inr i, db1)"
    and "(oauth_step h cfg)\<^sup>*\<^sup>* (db1, {h a, h r} \<union> m) (db2, m2)"
  shows "fst (exchangeAuthorizationCode h cfg a' r' now' client' code verifier' redirect' resource' db2) = Inl CodeNotFound"
proof -
  have ok: "oauth_ok (db, m)" by (rule oauth.reachable_inv [OF _ assms(2)]) (simp add: assms(1))
  obtain row where row: "row \<in> set (codes db)" "code_matches h now client code redirect row"
      "codes db1 = filter (\<lambda>r. \<not> code_matches h now client code redirect r) (codes db)"
    using exchange_successE [of h cfg a r now client code verifier redirect resource db i] assms(3) by auto
  then have hash: "k_hash row = h code" by (simp add: code_matches_def)
  have "x = row" if "x \<in> set (codes db)" "k_hash x = h code" for x
    using distinct_key_unique [OF oauth_okD(1) [OF ok] that(1) row(1)] that(2) hash by simp
  then have "\<not> code_present (db1, {h a, h r} \<union> m) (h code)"
    using row(2,3) by (auto simp: code_present_def)
  moreover have "h code \<in> snd (db1, {h a, h r} \<union> m)" using oauth_okD(3) [OF ok row(1)] hash by simp
  ultimately have "\<not> code_present (db2, m2) (h code)"
    using spent_codes.gone_for_good [OF assms(4)] by blast
  then have "filter (code_matches h now' client' code redirect') (codes db2) = []"
    by (auto simp: filter_empty_conv code_present_def code_matches_def image_iff)
  then show ?thesis by (simp add: exchangeAuthorizationCode_def)
qed

text \<open>A refresh token works once, and even a refused attempt of its own client spends it: after an
  exchange that found the token, whether it succeeded, had expired or asked for too much, every
  later exchange of the token fails.\<close>

theorem refresh_single_use:
  assumes "empty_oauth db0" "(oauth_step h cfg)\<^sup>*\<^sup>* (db0, {}) (db, m)" "h a \<notin> m" "h r \<notin> m"
    and "exchangeRefreshToken h cfg a r now client tok scopes resource db = (res, db1)" "res \<noteq> Inl RefreshNotFound"
    and "(oauth_step h cfg)\<^sup>*\<^sup>* (db1, {h a, h r} \<union> m) (db2, m2)"
  shows "fst (exchangeRefreshToken h cfg a' r' now' client' tok scopes' resource' db2) = Inl RefreshNotFound"
proof -
  have ok: "oauth_ok (db, m)" by (rule oauth.reachable_inv [OF _ assms(2)]) (simp add: assms(1))
  let ?db = "db\<lparr>tokens := delete_where (refresh_matches h client tok) (tokens db)\<rparr>"
  obtain row rest where Cons: "filter (refresh_matches h client tok) (tokens db) = row # rest"
    using assms(5,6) by (auto simp: exchangeRefreshToken_def split: list.splits)
  have "row \<in> set (filter (refresh_matches h client tok) (tokens db))" unfolding Cons by simp
  then have row: "row \<in> set (tokens db)" "refresh_matches h client tok row" by simp_all
  then have hash: "t_hash row = h tok" by (simp add: refresh_matches_def)
  have "x = row" if "x \<in> set (tokens db)" "t_hash x = h tok" for x
    using distinct_key_unique [OF oauth_okD(2) [OF ok] that(1) row(1)] that(2) hash by simp
  then have gone: "h tok \<notin> token_keys ?db" using row(2) by (auto simp: delete_filter)
  have known: "h tok \<in> m" using oauth_okD(4) [OF ok row(1)] hash by simp
  have "token_keys (snd (issueTokens h cfg a r now (ci_id client) ss resource True None ?db)) \<subseteq> {h a, h r} \<union> token_keys ?db" for ss
    by (rule order_trans [OF issue_keys(2)]) auto
  then have "token_keys (snd (exchangeRefreshToken h cfg a r now client tok scopes resource db)) \<subseteq> {h a, h r} \<union> token_keys ?db"
    by (auto simp: exchangeRefreshToken_def Cons Let_def)
  then have "token_keys db1 \<subseteq> {h a, h r} \<union> token_keys ?db" using assms(5) by simp
  then have "\<not> token_present (db1, {h a, h r} \<union> m) (h tok)"
    using gone known assms(3,4) by (auto simp: token_present_def)
  then have "\<not> token_present (db2, m2) (h tok)"
    using spent_tokens.gone_for_good [OF assms(7)] known by simp
  then have "filter (refresh_matches h client' tok) (tokens db2) = []"
    by (auto simp: filter_empty_conv token_present_def refresh_matches_def image_iff)
  then show ?thesis by (simp add: exchangeRefreshToken_def)
qed

section \<open>Isolation of clients\<close>

definition foreign :: "string \<Rightarrow> oauth_db \<Rightarrow> oauth_client list \<times> code_row list \<times> token_row list" where
  "foreign cid db = (clients db, filter (\<lambda>r. k_client r \<noteq> cid) (codes db), filter (\<lambda>t. t_client t \<noteq> cid) (tokens db))"

lemma foreign_insert_token: "insert_token t db = Inr db' \<Longrightarrow> t_client t = cid \<Longrightarrow> foreign cid db' = foreign cid db"
  by (auto simp: insert_token_def foreign_def split: if_splits)

lemma foreign_issue: "foreign cid (snd (issueTokens h cfg a r now cid scopes resource incl ttl db)) = foreign cid db"
  by (auto simp: issueTokens_def Let_def dest!: foreign_insert_token split: sum.split)

lemma foreign_delete:
  "(\<And>r. P r \<Longrightarrow> k_client r = cid) \<Longrightarrow> foreign cid (db\<lparr>codes := delete_where P (codes db)\<rparr>) = foreign cid db"
  "(\<And>t. Q t \<Longrightarrow> t_client t = cid) \<Longrightarrow> foreign cid (db\<lparr>tokens := delete_where Q (tokens db)\<rparr>) = foreign cid db"
  by (auto simp: foreign_def delete_filter intro!: filter_cong)

text \<open>A client can touch only its own rows: an exchange, a refresh and a revocation, successful or not and with
  any code or token, leave the codes and tokens of every other client and all clients as they are.\<close>

theorem clients_isolated:
  "foreign (ci_id client) (snd (exchangeAuthorizationCode h cfg a r now client code verifier redirect resource db))
      = foreign (ci_id client) db
    \<and> foreign (ci_id client) (snd (exchangeRefreshToken h cfg a r now client tok scopes resource db)) = foreign (ci_id client) db
    \<and> foreign (ci_id client) (revokeToken h client tok db) = foreign (ci_id client) db"
proof (intro conjI)
  show "foreign (ci_id client) (revokeToken h client tok db) = foreign (ci_id client) db"
    unfolding revokeToken_def by (rule foreign_delete) simp
  have "foreign (ci_id client) (db\<lparr>codes := delete_where (code_matches h now client code redirect) (codes db)\<rparr>)
      = foreign (ci_id client) db"
    by (rule foreign_delete) (simp add: code_matches_def)
  then show "foreign (ci_id client) (snd (exchangeAuthorizationCode h cfg a r now client code verifier redirect resource db))
      = foreign (ci_id client) db"
    by (simp add: exchangeAuthorizationCode_def foreign_issue split: list.split)
  have "foreign (ci_id client) (db\<lparr>tokens := delete_where (refresh_matches h client tok) (tokens db)\<rparr>) = foreign (ci_id client) db"
    by (rule foreign_delete) (simp add: refresh_matches_def)
  then show "foreign (ci_id client) (snd (exchangeRefreshToken h cfg a r now client tok scopes resource db)) = foreign (ci_id client) db"
    by (simp add: exchangeRefreshToken_def Let_def foreign_issue split: list.split)
qed

section \<open>What revocation and the token endpoint miss\<close>

text \<open>A pair of tokens with new hashes for an existing client is stored, and its access token verifies.\<close>

definition token_pair ::
  "(string \<Rightarrow> string) \<Rightarrow> provider_config \<Rightarrow> string \<Rightarrow> string \<Rightarrow> int \<Rightarrow> string \<Rightarrow> string list \<Rightarrow> string option \<Rightarrow> token_row list" where
  "token_pair h cfg a r now cid scopes resource =
     [\<lparr>t_hash = h a, t_type = AccessToken, t_client = cid, t_scopes = Some scopes, t_expires = Some (now + tokenTtl cfg),
       t_resource = resource\<rparr>,
      \<lparr>t_hash = h r, t_type = RefreshToken, t_client = cid, t_scopes = Some scopes, t_expires = Some (now + refreshTtl cfg),
       t_resource = resource\<rparr>]"

definition issued_pair :: "provider_config \<Rightarrow> string \<Rightarrow> string \<Rightarrow> string list \<Rightarrow> issued" where
  "issued_pair cfg a r scopes =
     \<lparr>is_access = a, is_refresh = Some r, is_expires_in = tokenTtl cfg, is_scope = join_with CHR '' '' scopes\<rparr>"

lemma issue_fresh:
  assumes "find_client cid db \<noteq> None" "h a \<notin> token_keys db" "h r \<notin> token_keys db" "h a \<noteq> h r"
  shows "issueTokens h cfg a r now cid scopes resource True None db
    = (Inr (issued_pair cfg a r scopes), db\<lparr>tokens := tokens db @ token_pair h cfg a r now cid scopes resource\<rparr>)"
proof -
  have "find_client cid (db\<lparr>tokens := ts\<rparr>) = find_client cid db" for ts by (simp add: find_client_def)
  then show ?thesis
    using assms by (auto simp: issueTokens_def Let_def insert_token_def list_ex_iff issued_pair_def token_pair_def image_iff)
qed

lemma verify_issued:
  assumes "tokens db' = ts @ token_pair h cfg a r now cid scopes resource" "h a \<notin> t_hash ` set ts" "0 \<le> tokenTtl cfg"
  shows "\<exists>info. verifyAccessToken h sch now a db' = (Inr info, db') \<and> ai_client info = cid \<and> ai_scopes info = scopes"
proof -
  have "filter (\<lambda>t. t_hash t = h a \<and> t_type t = AccessToken) ts = []"
    using assms(2) by (auto simp: filter_empty_conv image_iff)
  then obtain rest where hit: "filter (\<lambda>t. t_hash t = h a \<and> t_type t = AccessToken) (tokens db')
      = hd (token_pair h cfg a r now cid scopes resource) # rest"
    unfolding assms(1) by (simp add: token_pair_def)
  obtain src fed bound where "project_client sch (find_client cid db') = (src, fed, bound)" by (metis prod_cases3)
  then show ?thesis using hit assms(3) by (simp add: verifyAccessToken_def token_pair_def)
qed

text \<open>The administrator's revocation does not end the access of a client: it deletes the tokens but not the
  outstanding codes, and the exchange asks neither for the mark nor for a live client, so a code issued
  before the revocation still buys an access token that verifies and a refresh token.\<close>

theorem revoked_client_redeems_code:
  assumes "empty_oauth db0" "(oauth_step h cfg)\<^sup>*\<^sup>* (db0, {}) (db, m)" "h a \<notin> m" "h rt \<notin> m" "h a \<noteq> h rt"
    and "row \<in> set (codes db)" "k_hash row = h code" "now < k_expires row" "0 \<le> tokenTtl cfg"
    and "getClient (k_client row) (admin_revoke_client t (k_client row) db) = Some client"
  shows "\<exists>i db' info. exchangeAuthorizationCode h cfg a rt now client code verifier None resource
      (admin_revoke_client t (k_client row) db) = (Inr i, db')
    \<and> is_access i = a \<and> is_refresh i = Some rt
    \<and> verifyAccessToken h sch now a db' = (Inr info, db') \<and> ai_client info = k_client row
    \<and> ai_scopes info = orElse (k_scopes row) []"
proof -
  let ?db = "admin_revoke_client t (k_client row) db"
  let ?P = "code_matches h now client code None"
  let ?db1 = "?db\<lparr>codes := delete_where ?P (codes ?db)\<rparr>"
  have ok: "oauth_ok (db, m)" by (rule oauth.reachable_inv [OF _ assms(2)]) (simp add: assms(1))
  have cid: "ci_id client = k_client row" and found: "find_client (k_client row) ?db \<noteq> None"
    using assms(10) by (auto simp: getClient_def dest: find_Some_iff [THEN iffD1])
      (auto simp: find_client_def find_Some_iff)
  have match: "?P row" using assms(7,8) cid by (simp add: code_matches_def)
  have fresh: "h a \<notin> token_keys ?db" "h rt \<notin> token_keys ?db"
    using assms(3,4) oauth_okD(4) [OF ok] by (auto simp: admin_revoke_client_def delete_filter)
  have "\<And>x. x \<in> set (codes ?db) \<Longrightarrow> ?P x \<Longrightarrow> x = row"
    using distinct_key_unique [OF oauth_okD(1) [OF ok] _ assms(6)] assms(7)
    by (auto simp: admin_revoke_client_def code_matches_def)
  moreover have "row \<in> set (filter ?P (codes ?db))" using match assms(6) by (simp add: admin_revoke_client_def)
  ultimately obtain rest where hit: "filter ?P (codes ?db) = row # rest"
    by (cases "filter ?P (codes ?db)") (auto dest: filter_eq_ConsD)
  let ?ss = "orElse (k_scopes row) []"
  have issue: "issueTokens h cfg a rt now (k_client row) ?ss resource True None ?db1
      = (Inr (issued_pair cfg a rt ?ss), ?db1\<lparr>tokens := tokens ?db1 @ token_pair h cfg a rt now (k_client row) ?ss resource\<rparr>)"
    by (rule issue_fresh) (use found fresh assms(5) in \<open>simp_all add: find_client_def\<close>)
  let ?db' = "?db1\<lparr>tokens := tokens ?db1 @ token_pair h cfg a rt now (k_client row) ?ss resource\<rparr>"
  have "exchangeAuthorizationCode h cfg a rt now client code verifier None resource ?db = (Inr (issued_pair cfg a rt ?ss), ?db')"
    unfolding exchangeAuthorizationCode_def hit list.case cid by (rule issue)
  moreover have "\<exists>info. verifyAccessToken h sch now a ?db' = (Inr info, ?db') \<and> ai_client info = k_client row \<and> ai_scopes info = ?ss"
    by (rule verify_issued [where ts = "tokens ?db" and r = rt and resource = resource]) (use fresh assms(9) in simp_all)
  moreover have "is_access (issued_pair cfg a rt ?ss) = a" "is_refresh (issued_pair cfg a rt ?ss) = Some rt"
    by (simp_all add: issued_pair_def)
  ultimately show ?thesis by blast
qed

text \<open>The handler for clients that present a secret passes the verifier of the challenge to an exchange that does not
  use it, and nothing else compares it with the challenge of the code.\<close>

lemma confidential_exchange_ignores_verifier:
  "token_endpoint h cfg a r now (req\<lparr>tr_code_verifier := v\<rparr>) db = token_endpoint h cfg a r now req db"
  by (simp add: token_endpoint_def exchangeAuthorizationCode_def split: sum.split)

section \<open>Witnesses\<close>

text \<open>A public client with scopes \<open>read write\<close> that asks for \<open>write\<close> and \<open>admin\<close>; hashes are the identity.\<close>

definition no_oauth :: oauth_db where
  "no_oauth = \<lparr>clients = [], codes = [], tokens = [], legacy = [], sources = [''default'']\<rparr>"

definition demo_registration :: manual_registration where
  "demo_registration =
     \<lparr>mr_name = ''app'', mr_grants = [''authorization_code''], mr_scopes = ''read write'', mr_redirects = [''cb''],
      mr_source = ''default'', mr_federated = None, mr_auth_method = MethodText ''none'', mr_bindings = None\<rparr>"

definition demo_cfg :: provider_config where
  "demo_cfg = new_provider None None None None"

definition demo_params :: auth_params where
  "demo_params =
     \<lparr>ap_scopes = Some [''write'', ''admin''], ap_challenge = ''ch'', ap_redirect = ''cb'', ap_state = None, ap_resource = None\<rparr>"

definition registered :: oauth_db where
  "registered = snd (registerClientManual id ''app1'' ''sec'' 0 demo_registration no_oauth)"

definition demo_client :: client_info where
  "demo_client = \<lparr>ci_id = ''app1'', ci_secret = None, ci_grants = [''authorization_code''], ci_scope = Some ''read write'',
     ci_auth_method = Some ''none''\<rparr>"

definition authorized :: oauth_db where
  "authorized = snd (authorize id ''code1'' 0 demo_client demo_params registered)"

definition exchanged :: oauth_db where
  "exchanged = snd (exchangeAuthorizationCode id demo_cfg ''at1'' ''rt1'' 5 demo_client ''code1'' None None None authorized)"

lemma registered_eq:
  "registered = no_oauth\<lparr>clients := [new_client_row ''app1'' None ''app'' [''cb''] [''authorization_code''] ''read write''
      ''none'' 0 ''default'' [''default'']]\<rparr>"
  by (simp add: registered_def registerClientManual_def demo_registration_def no_oauth_def parseScopeString_def
      nonempty_def assertAllowedScopes_def check_new_prefixes_def validateTokenEndpointAuthMethod_def
      ALLOWED_TOKEN_ENDPOINT_AUTH_METHODS_def insert_client_def find_client_def new_client_row_def)

lemma demo_allowed: "parseScopeString (Some ''read write'') = [''read'', ''write'']"
  by (simp add: parseScopeString_def nonempty_def)

lemma demo_granted: "filter (hasScope [''read'', ''write'']) [''write'', ''admin''] = [''write'']"
  by (simp add: hasScope_table)

lemma authorized_eq:
  "authorized = registered\<lparr>codes := [\<lparr>k_hash = ''code1'', k_client = ''app1'', k_scopes = Some [''write''], k_challenge = ''ch'',
      k_redirect = ''cb'', k_state = None, k_resource = None, k_expires = 600\<rparr>]\<rparr>"
  using demo_granted
  by (simp add: authorized_def authorize_def demo_client_def demo_params_def demo_allowed Let_def insert_code_def registered_eq
      no_oauth_def find_client_def new_client_row_def)

lemma get_demo: "getClient ''app1'' registered = Some demo_client" "getClient ''app1'' authorized = Some demo_client"
  by (simp_all add: authorized_eq registered_eq getClient_def find_client_def new_client_row_def demo_client_def no_oauth_def)

lemma demo_exchange:
  "exchangeAuthorizationCode id demo_cfg ''at1'' ''rt1'' 5 demo_client ''code1'' None None None authorized
    = (Inr (issued_pair demo_cfg ''at1'' ''rt1'' [''write'']), exchanged)"
  by (simp add: exchanged_def exchangeAuthorizationCode_def authorized_eq registered_eq no_oauth_def code_matches_def
      demo_client_def issueTokens_def insert_token_def find_client_def new_client_row_def Let_def issued_pair_def demo_cfg_def
      new_provider_def)

lemma exchanged_eq:
  "exchanged = registered\<lparr>codes := [], tokens := token_pair id demo_cfg ''at1'' ''rt1'' 5 ''app1'' [''write''] None\<rparr>"
  by (simp add: exchanged_def exchangeAuthorizationCode_def authorized_eq registered_eq no_oauth_def code_matches_def
      demo_client_def issueTokens_def insert_token_def find_client_def new_client_row_def Let_def token_pair_def demo_cfg_def
      new_provider_def)

lemma run_authorized: "(oauth_step id demo_cfg)\<^sup>*\<^sup>* (no_oauth, {}) (authorized, {''code1''})"
proof -
  have "oauth_step id demo_cfg (no_oauth, {}) (registered, {})" unfolding registered_def by (rule o_manual)
  moreover have "oauth_step id demo_cfg (registered, {}) (authorized, {''code1''})"
    unfolding authorized_def using o_authorize [OF get_demo(1), of id "''code1''" "{}" demo_cfg 0 demo_params] by simp
  ultimately show ?thesis by (meson converse_rtranclp_into_rtranclp rtranclp.rtrancl_refl)
qed

lemma run_exchanged: "(oauth_step id demo_cfg)\<^sup>*\<^sup>* (no_oauth, {}) (exchanged, {''at1'', ''rt1''} \<union> {''code1''})"
proof -
  have "oauth_step id demo_cfg (authorized, {''code1''}) (exchanged, {id ''at1'', id ''rt1''} \<union> {''code1''})"
    unfolding exchanged_def by (rule o_code [OF get_demo(2)]) simp_all
  then show ?thesis using run_authorized by simp
qed

lemma no_oauth_empty: "empty_oauth no_oauth"
  by (simp add: empty_oauth_def no_oauth_def)

definition full_schema :: oauth_schema where
  "full_schema = \<lparr>has_source_id = True, has_federated_read = True, has_bound_slug_prefixes = True, has_permissions = True\<rparr>"

theorem tokens_within_registration_witness:
  "\<exists>info. fst (verifyAccessToken id full_schema 5 ''at1'' exchanged) = Inr info \<and> hasScope (ai_scopes info) ''read''
    \<and> hasScope (parseScopeString (Some ''read write'')) ''read''"
proof -
  obtain info where info: "verifyAccessToken id full_schema 5 ''at1'' exchanged = (Inr info, exchanged)" "ai_client info = ''app1''"
      "ai_scopes info = [''write'']"
    using verify_issued [of exchanged "[]" id demo_cfg "''at1''" "''rt1''" 5 "''app1''" "[''write'']" None full_schema]
    by (auto simp: exchanged_eq registered_eq no_oauth_def demo_cfg_def new_provider_def)
  have s: "hasScope (ai_scopes info) ''read''" by (simp add: info hasScope_table)
  have "legacy exchanged = []" "find_client ''app1'' exchanged = Some c \<Longrightarrow> oc_scope c = Some ''read write''" for c
    by (auto simp: exchanged_eq registered_eq no_oauth_def find_client_def new_client_row_def)
  then have "hasScope (parseScopeString (Some ''read write'')) ''read''"
    using tokens_within_registration [OF no_oauth_empty run_exchanged, of full_schema 5 "''at1''" info "''read''"] info s by auto
  then show ?thesis using info s by auto
qed

theorem code_single_use_witness:
  "fst (exchangeAuthorizationCode id demo_cfg ''at2'' ''rt2'' 6 demo_client ''code1'' None None None exchanged) = Inl CodeNotFound"
  by (rule code_single_use [OF no_oauth_empty run_authorized demo_exchange rtranclp.rtrancl_refl])

definition overreached :: oauth_db where
  "overreached = snd (exchangeRefreshToken id demo_cfg ''at2'' ''rt2'' 6 demo_client ''rt1'' (Some [''admin'']) None exchanged)"

lemma demo_overreach:
  "exchangeRefreshToken id demo_cfg ''at2'' ''rt2'' 6 demo_client ''rt1'' (Some [''admin'']) None exchanged
    = (Inl ScopeExceedsGrant, overreached)"
proof -
  have "\<not> hasScope [''write''] ''admin''" by (simp add: hasScope_table)
  then show ?thesis
    by (simp add: overreached_def exchangeRefreshToken_def exchanged_eq registered_eq no_oauth_def refresh_matches_def
        demo_client_def token_pair_def demo_cfg_def new_provider_def Let_def)
qed

theorem refresh_single_use_witness:
  "fst (exchangeRefreshToken id demo_cfg ''at3'' ''rt3'' 7 demo_client ''rt1'' None None overreached) = Inl RefreshNotFound"
  by (rule refresh_single_use [OF no_oauth_empty run_exchanged _ _ demo_overreach _ rtranclp.rtrancl_refl]) simp_all

theorem revoked_client_redeems_code_witness:
  "\<exists>i db' info. exchangeAuthorizationCode id demo_cfg ''at1'' ''rt1'' 5 demo_client ''code1'' None None None
      (admin_revoke_client 3 ''app1'' authorized) = (Inr i, db')
    \<and> verifyAccessToken id full_schema 5 ''at1'' db' = (Inr info, db') \<and> ai_client info = ''app1'' \<and> ai_scopes info = [''write'']"
proof -
  let ?row = "\<lparr>k_hash = ''code1'', k_client = ''app1'', k_scopes = Some [''write''], k_challenge = ''ch'',
      k_redirect = ''cb'', k_state = None, k_resource = None, k_expires = 600\<rparr>"
  have "?row \<in> set (codes authorized)" by (simp add: authorized_eq)
  moreover have "getClient (k_client ?row) (admin_revoke_client 3 (k_client ?row) authorized) = Some demo_client"
    by (simp add: admin_revoke_client_def authorized_eq registered_eq no_oauth_def getClient_def find_client_def
        new_client_row_def demo_client_def)
  ultimately show ?thesis
    using revoked_client_redeems_code [OF no_oauth_empty run_authorized, of "''at1''" "''rt1''" ?row "''code1''" 5 3 demo_client
        None None full_schema]
    by (auto simp: demo_cfg_def new_provider_def)
qed

end
