(* ===== verification/Access_Control.thy ===== *)
theory Access_Control
  imports Oauth_Guarantees
begin

text \<open>
  What a caller may read and write (\<open>src/core/operations.ts\<close>, the scope resolvers and the slug fences), and the
  path of a remote tool call: verification of the token, scope check (\<open>serve-http.ts\<close>), dispatch with its gates
  (\<open>src/mcp/dispatch.ts\<close>).  The operations themselves are a parameter.
\<close>

section \<open>Context\<close>

text \<open>\<open>remote\<close> is \<open>None\<close> where the field is missing; only a strict \<open>false\<close> is trusted.  The id of a subagent is
  given as its decimal text.\<close>

record op_context =
  ctx_auth :: "auth_info option"
  ctx_remote :: "bool option"
  ctx_source :: "string option"
  ctx_local_federated :: "string list option"
  ctx_via_subagent :: bool
  ctx_subagent_id :: "string option"
  ctx_slug_prefixes :: "string list option"

definition trusted :: "op_context \<Rightarrow> bool" where
  "trusted ctx \<longleftrightarrow> ctx_remote ctx = Some False"

datatype op_error = PermissionDenied string | InvalidParams string

definition ALL_SOURCES :: string where
  "ALL_SOURCES = ''__all__''"

section \<open>Read scopes\<close>

record read_scope =
  sc_source :: "string option"
  sc_sources :: "string list option"

definition no_scope :: read_scope where "no_scope = \<lparr>sc_source = None, sc_sources = None\<rparr>"
definition one_source :: "string \<Rightarrow> read_scope" where "one_source s = \<lparr>sc_source = Some s, sc_sources = None\<rparr>"
definition many_sources :: "string list \<Rightarrow> read_scope" where "many_sources ss = \<lparr>sc_source = None, sc_sources = Some ss\<rparr>"

definition allowedSources :: "op_context \<Rightarrow> string list" where
  "allowedSources ctx = (case ctx_auth ctx of None \<Rightarrow> [] | Some a \<Rightarrow> orElse (ai_allowed a) [])"

definition sourceScopeOpts :: "op_context \<Rightarrow> read_scope" where
  "sourceScopeOpts ctx =
     (if allowedSources ctx \<noteq> [] then many_sources (allowedSources ctx)
      else if ctx_source ctx = Some ALL_SOURCES then (if trusted ctx then no_scope else one_source ALL_SOURCES)
      else (case ctx_source ctx of Some s \<Rightarrow> if s \<noteq> [] then one_source s else no_scope | None \<Rightarrow> no_scope))"

definition thinkSourceScopeOpts :: "op_context \<Rightarrow> string option \<times> string list option" where
  "thinkSourceScopeOpts ctx =
     (let scope = sourceScopeOpts ctx
      in case sc_sources scope of
           Some ss \<Rightarrow> (None, Some ss)
         | None \<Rightarrow> (case sc_source scope of Some s \<Rightarrow> (Some s, None) | None \<Rightarrow> (None, None)))"

definition linkReadScopeOpts :: "op_context \<Rightarrow> read_scope" where
  "linkReadScopeOpts ctx =
     (let scope = sourceScopeOpts ctx
      in case sc_source scope of
           Some s \<Rightarrow> if \<not> trusted ctx \<and> s \<noteq> [] \<and> sc_sources scope = None then many_sources [s] else scope
         | None \<Rightarrow> scope)"

definition resolveRequestedScope :: "op_context \<Rightarrow> string option \<Rightarrow> bool \<Rightarrow> op_error + read_scope" where
  "resolveRequestedScope ctx sourceIdParam allSourcesParam =
     (if allSourcesParam \<or> sourceIdParam = Some ALL_SOURCES
      then Inr (if trusted ctx then no_scope else sourceScopeOpts ctx)
      else (case sourceIdParam of
              Some s \<Rightarrow>
                if \<not> trusted ctx \<and> allowedSources ctx \<noteq> [] \<and> s \<notin> set (allowedSources ctx) then Inl (PermissionDenied s)
                else Inr (one_source s)
            | None \<Rightarrow> Inr (sourceScopeOpts ctx)))"

definition federatedSearchScope :: "op_context \<Rightarrow> string option \<Rightarrow> op_error + read_scope" where
  "federatedSearchScope ctx sourceIdParam =
     (case resolveRequestedScope ctx sourceIdParam False of
        Inl e \<Rightarrow> Inl e
      | Inr scope \<Rightarrow>
          (case ctx_local_federated ctx of
             Some ss \<Rightarrow>
               if sourceIdParam = None \<and> sc_source scope \<noteq> None \<and> sc_sources scope = None \<and> length ss > 1
               then Inr (many_sources ss) else Inr scope
           | None \<Rightarrow> Inr scope))"

definition resolveCodeIntelScope :: "op_context \<Rightarrow> string option \<Rightarrow> bool \<Rightarrow> op_error + string option" where
  "resolveCodeIntelScope ctx sourceIdParam allSourcesParam =
     (case resolveRequestedScope ctx sourceIdParam allSourcesParam of
        Inl e \<Rightarrow> Inl e
      | Inr scope \<Rightarrow>
          if sc_source scope \<noteq> None \<and> sc_source scope \<noteq> Some [] then Inr (sc_source scope)
          else (case orElse (sc_sources scope) [] of
                  [s] \<Rightarrow> Inr (Some s)
                | _ # _ # _ \<Rightarrow> Inl (InvalidParams ''source_id'')
                | [] \<Rightarrow> if trusted ctx then Inr None else Inl (PermissionDenied [])))"

text \<open>What a query under a scope reads: the engines filter by the array when there is one, by the scalar
  otherwise, and not at all when there is neither.\<close>

definition reads :: "read_scope \<Rightarrow> string \<Rightarrow> bool" where
  "reads scope src \<longleftrightarrow>
     (case sc_sources scope of
        Some ss \<Rightarrow> src \<in> set ss
      | None \<Rightarrow> (case sc_source scope of Some s \<Rightarrow> src = s | None \<Rightarrow> True))"

definition code_reads :: "string option \<Rightarrow> string \<Rightarrow> bool" where
  "code_reads r src \<longleftrightarrow> (case r of Some s \<Rightarrow> src = s | None \<Rightarrow> True)"

section \<open>Write fences\<close>

definition matchesSlugAllowList :: "string \<Rightarrow> string list \<Rightarrow> bool" where
  "matchesSlugAllowList slug ps \<longleftrightarrow>
     list_ex (\<lambda>p. if suffix ''/*'' p
                  then let base = take (length p - 2) p in slug \<noteq> base \<and> prefix (base @ ''/'') slug
                  else p = slug) ps"

definition enforceSubagentSlugFence :: "op_context \<Rightarrow> string \<Rightarrow> op_error option" where
  "enforceSubagentSlugFence ctx slug =
     (if \<not> ctx_via_subagent ctx then None
      else (case ctx_subagent_id ctx of
              None \<Rightarrow> Some (PermissionDenied slug)
            | Some n \<Rightarrow>
                if orElse (ctx_slug_prefixes ctx) [] \<noteq> []
                then (if matchesSlugAllowList slug (orElse (ctx_slug_prefixes ctx) []) then None else Some (PermissionDenied slug))
                else let pre = ''wiki/agents/'' @ n @ ''/''
                     in if \<not> prefix pre slug \<or> length slug = length pre then Some (PermissionDenied slug) else None))"

definition normalizeSlugPrefix :: "string \<Rightarrow> string" where
  "normalizeSlugPrefix p = toLowerCase (if suffix ''/*'' p then butlast p else p)"

definition slugUnderBoundPrefixes :: "string list \<Rightarrow> string \<Rightarrow> bool" where
  "slugUnderBoundPrefixes ps slug \<longleftrightarrow>
     (let canonical = toLowerCase slug
      in list_ex (\<lambda>bp. let base = normalizeSlugPrefix bp
                       in if base = [] then False
                          else if suffix ''/'' base then prefix base canonical
                          else canonical = base \<or> prefix (base @ ''/'') canonical) ps)"

definition enforceClientSlugFence :: "op_context \<Rightarrow> string \<Rightarrow> op_error option" where
  "enforceClientSlugFence ctx slug =
     (case ctx_auth ctx of
        None \<Rightarrow> None
      | Some a \<Rightarrow>
          if ai_degraded a then Some (PermissionDenied slug)
          else (case ai_prefixes a of
                  None \<Rightarrow> None
                | Some ps \<Rightarrow> if slugUnderBoundPrefixes ps slug then None else Some (PermissionDenied slug)))"

section \<open>Dispatch\<close>

datatype param_type = PString | PNumber | PBoolean | PObject | PArray
datatype param_value = VNull | VOf param_type

record param_def =
  pd_name :: string
  pd_type :: param_type
  pd_required :: bool

record operation =
  op_name :: string
  op_scope :: "string option"
  op_mutating :: bool
  op_local_only :: bool
  op_params :: "param_def list"

fun check_params :: "(string \<rightharpoonup> param_value) \<Rightarrow> param_def list \<Rightarrow> string option" where
  "check_params vals [] = None"
| "check_params vals (d # ds) =
     (case vals (pd_name d) of
        None \<Rightarrow> if pd_required d then Some (pd_name d) else check_params vals ds
      | Some VNull \<Rightarrow> if pd_required d then Some (pd_name d) else check_params vals ds
      | Some (VOf t) \<Rightarrow> if t \<noteq> pd_type d then Some (pd_name d) else check_params vals ds)"

definition validateParams :: "operation \<Rightarrow> (string \<rightharpoonup> param_value) \<Rightarrow> string option" where
  "validateParams op vals = check_params vals (op_params op)"

definition CLIENT_FENCED_WRITE_OPS :: "string list" where
  "CLIENT_FENCED_WRITE_OPS =
     [''put_page'', ''delete_page'', ''restore_page'', ''add_tag'', ''remove_tag'', ''add_link'', ''remove_link'',
      ''add_timeline_entry'', ''revert_version'', ''put_raw_data'', ''think'', ''submit_agent'']"

definition enforceBoundClientOpAllowList :: "auth_info option \<Rightarrow> operation \<Rightarrow> op_error option" where
  "enforceBoundClientOpAllowList auth op =
     (let degraded = (case auth of None \<Rightarrow> False | Some a \<Rightarrow> ai_degraded a);
          bound = (case auth of None \<Rightarrow> False | Some a \<Rightarrow> ai_prefixes a \<noteq> None)
      in if \<not> degraded \<and> \<not> bound then None
         else if op_scope op = Some ''read'' \<and> \<not> op_mutating op then None
         else if degraded then Some (PermissionDenied (op_name op))
         else if op_name op \<in> set CLIENT_FENCED_WRITE_OPS then None
         else Some (PermissionDenied (op_name op)))"

record dispatch_opts =
  do_remote :: "bool option"
  do_source :: "string option"
  do_local_federated :: "string list option"
  do_auth :: "auth_info option"

definition buildOperationContext :: "dispatch_opts \<Rightarrow> op_context" where
  "buildOperationContext opts =
     \<lparr>ctx_auth = do_auth opts, ctx_remote = Some (orElse (do_remote opts) True), ctx_source = Some (orElse (do_source opts) ''default''),
      ctx_local_federated = do_local_federated opts, ctx_via_subagent = False, ctx_subagent_id = None, ctx_slug_prefixes = None\<rparr>"

datatype 'r tool_result =
  UnknownTool | BadParams string | MissingSourceScope | OpFailed op_error | Ran op_context 'r

definition dispatchToolCall ::
  "operation list \<Rightarrow> (operation \<Rightarrow> op_context \<Rightarrow> op_error + 'r) \<Rightarrow> string \<Rightarrow> (string \<rightharpoonup> param_value) \<Rightarrow> dispatch_opts
    \<Rightarrow> 'r tool_result" where
  "dispatchToolCall ops handler name vals opts =
     (case find (\<lambda>o'. op_name o' = name) ops of
        None \<Rightarrow> UnknownTool
      | Some op \<Rightarrow>
     (case validateParams op vals of
        Some p \<Rightarrow> BadParams p
      | None \<Rightarrow>
          if orElse (do_remote opts) True \<and> \<not> truthy (do_source opts) then MissingSourceScope
          else let ctx = buildOperationContext opts
               in case enforceBoundClientOpAllowList (do_auth opts) op of
                    Some e \<Rightarrow> OpFailed e
                  | None \<Rightarrow> (case handler op ctx of Inl e \<Rightarrow> OpFailed e | Inr r \<Rightarrow> Ran ctx r)))"

text \<open>A tool call at \<open>/mcp\<close>: the token is verified, the operation looked up, its scope checked, and the call
  dispatched as a remote one with the source of the token.\<close>

datatype 'r mcp_reply = Unauthorized oauth_error | UnknownOperation | InsufficientScope string | ToolReply "'r tool_result"

definition mcp_tool_call ::
  "(string \<Rightarrow> string) \<Rightarrow> oauth_schema \<Rightarrow> operation list \<Rightarrow> (operation \<Rightarrow> op_context \<Rightarrow> op_error + 'r) \<Rightarrow> int \<Rightarrow> string
    \<Rightarrow> string \<Rightarrow> (string \<rightharpoonup> param_value) \<Rightarrow> oauth_db \<Rightarrow> 'r mcp_reply \<times> oauth_db" where
  "mcp_tool_call h sch ops handler now tok name vals db =
     (case verifyAccessToken h sch now tok db of
        (Inl e, db') \<Rightarrow> (Unauthorized e, db')
      | (Inr info, db') \<Rightarrow>
          (case find (\<lambda>o'. op_name o' = name) (filter (\<lambda>o'. \<not> op_local_only o') ops) of
             None \<Rightarrow> (UnknownOperation, db')
           | Some op \<Rightarrow>
               let requiredScope = truthy_text (op_scope op) ''read''
               in if \<not> hasScope (ai_scopes info) requiredScope then (InsufficientScope requiredScope, db')
                  else (ToolReply (dispatchToolCall ops handler name vals
                          \<lparr>do_remote = Some True, do_source = Some (orElse (ai_source info) ''default''),
                           do_local_federated = None, do_auth = Some info\<rparr>), db')))"

section \<open>Reads stay within the grant\<close>

lemma sourceScope_granted:
  "allowedSources ctx \<noteq> [] \<Longrightarrow> sourceScopeOpts ctx = many_sources (allowedSources ctx)"
  by (simp add: sourceScopeOpts_def)

lemma requested_granted:
  assumes "\<not> trusted ctx" "allowedSources ctx \<noteq> []" "resolveRequestedScope ctx p allp = Inr scope" "reads scope src"
  shows "src \<in> set (allowedSources ctx)"
  using assms
  by (auto simp: resolveRequestedScope_def sourceScope_granted reads_def many_sources_def one_source_def
      split: if_splits option.splits)

text \<open>C15: a remote caller with a grant reads only granted sources, whatever it passes as \<open>source_id\<close> or
  \<open>all_sources\<close>: every read scope any of the resolvers returns stays within the grant.\<close>

theorem grant_confines_reads:
  assumes "\<not> trusted ctx" "allowedSources ctx \<noteq> []"
  shows "{src. reads (sourceScopeOpts ctx) src} \<union> {src. reads (linkReadScopeOpts ctx) src}
      \<union> {src. \<exists>scope. resolveRequestedScope ctx p allp = Inr scope \<and> reads scope src}
      \<union> {src. \<exists>scope. federatedSearchScope ctx p = Inr scope \<and> reads scope src}
      \<union> {src. \<exists>r. resolveCodeIntelScope ctx p allp = Inr r \<and> code_reads r src}
    \<subseteq> set (allowedSources ctx)"
proof -
  have granted: "sourceScopeOpts ctx = many_sources (allowedSources ctx)" by (rule sourceScope_granted [OF assms(2)])
  have "reads (linkReadScopeOpts ctx) src \<Longrightarrow> src \<in> set (allowedSources ctx)" for src
    by (simp add: linkReadScopeOpts_def granted many_sources_def reads_def)
  moreover have "src \<in> set (allowedSources ctx)" if fed: "federatedSearchScope ctx p = Inr scope" "reads scope src" for scope src
  proof -
    obtain s0 where s0: "resolveRequestedScope ctx p False = Inr s0"
      by (cases "resolveRequestedScope ctx p False") (use fed(1) in \<open>simp_all add: federatedSearchScope_def\<close>)
    have "p = None \<Longrightarrow> sc_sources s0 \<noteq> None"
      using s0 by (auto simp: resolveRequestedScope_def granted many_sources_def)
    then have "scope = s0"
      using fed(1) s0 by (auto simp: federatedSearchScope_def split: option.splits if_splits)
    then show ?thesis using requested_granted [OF assms s0] fed(2) by simp
  qed
  moreover have "src \<in> set (allowedSources ctx)" if r: "resolveCodeIntelScope ctx p allp = Inr r" "code_reads r src" for r src
  proof -
    obtain s0 where s0: "resolveRequestedScope ctx p allp = Inr s0"
      by (cases "resolveRequestedScope ctx p allp") (use r(1) in \<open>simp_all add: resolveCodeIntelScope_def\<close>)
    have shape: "(\<exists>s. s0 = one_source s) \<or> s0 = many_sources (allowedSources ctx)"
      using s0 assms(1) by (auto simp: resolveRequestedScope_def granted split: if_splits option.splits)
    then have "r \<noteq> None" "reads s0 (the r)"
      using r(1) s0 assms(1)
      by (auto simp: resolveCodeIntelScope_def one_source_def many_sources_def reads_def split: if_splits list.splits)
    then show ?thesis using requested_granted [OF assms s0] r(2) by (auto simp: code_reads_def)
  qed
  ultimately show ?thesis
    using requested_granted [OF assms] granted by (auto simp: reads_def many_sources_def)
qed

lemma find_filter: "find P xs = Some x \<Longrightarrow> \<exists>rest. filter P xs = x # rest"
  by (induction xs) (auto split: if_splits)

text \<open>A single granted source does not confine: an older bearer token whose permission names one source verifies
  with no list of granted sources, and a remote context with no such list resolves any explicitly requested
  source, so the caller reads every source by naming it.\<close>

theorem scalar_grant_escapes:
  assumes "filter (\<lambda>t. t_hash t = h tok \<and> t_type t = AccessToken) (tokens db) = []"
    and "find (\<lambda>l. l_hash l = h tok \<and> \<not> l_revoked l) (legacy db) = Some l" "l_grant l = OneSource granted" "granted \<noteq> []"
    and "has_permissions sch" "wanted \<noteq> ALL_SOURCES"
  shows "\<exists>info db'. verifyAccessToken h sch now tok db = (Inr info, db') \<and> ai_source info = Some granted
    \<and> (let ctx = buildOperationContext \<lparr>do_remote = Some True, do_source = ai_source info, do_local_federated = None, do_auth = Some info\<rparr>
        in \<not> trusted ctx \<and> sourceScopeOpts ctx = one_source granted
           \<and> resolveRequestedScope ctx (Some wanted) False = Inr (one_source wanted))"
proof -
  obtain rest where "filter (\<lambda>l. l_hash l = h tok \<and> \<not> l_revoked l) (legacy db) = l # rest"
    using find_filter [OF assms(2)] by blast
  then show ?thesis
    using assms(1,3-6)
    by (auto simp: verifyAccessToken_def parseLegacyTokenScope_def buildOperationContext_def trusted_def sourceScopeOpts_def
        resolveRequestedScope_def allowedSources_def)
qed

section \<open>Writes stay under the bound prefixes\<close>

abbreviation segments :: "string \<Rightarrow> string list" where
  "segments \<equiv> split_on CHR ''/''"

lemma split_on_append_any: "split_on c (x @ c # y) = split_on c x @ split_on c y"
  by (induction x) (auto split: list.split)

lemma join_with_append: "xs \<noteq> [] \<Longrightarrow> ys \<noteq> [] \<Longrightarrow> join_with c (xs @ ys) = join_with c xs @ c # join_with c ys"
proof (induction c xs rule: join_with.induct)
  case (2 c x)
  then show ?case by (cases ys) auto
qed auto

lemma prefix_by_segments: "prefix (b @ ''/'') s \<longleftrightarrow> strict_prefix (segments b) (segments s)"
proof
  assume "prefix (b @ ''/'') s"
  then obtain t where "s = b @ CHR ''/'' # t" by (auto simp: prefix_def)
  then show "strict_prefix (segments b) (segments s)"
    by (simp add: split_on_append_any strict_prefix_def)
next
  assume "strict_prefix (segments b) (segments s)"
  then obtain ts where ts: "segments s = segments b @ ts" "ts \<noteq> []" by (auto simp: strict_prefix_def prefix_def)
  then have "s = b @ CHR ''/'' # join_with CHR ''/'' ts"
    using join_with_append [of "segments b" ts "CHR ''/''"] by (metis join_split split_on_not_Nil)
  then show "prefix (b @ ''/'') s" by (simp add: prefix_def)
qed

lemma segments_inj: "segments a = segments b \<longleftrightarrow> a = b"
  by (metis join_split)

text \<open>The fence works on whole path segments: a slug passes under a list of bound prefixes exactly when, lower-cased, it
  continues one of them after a slash, or, for a prefix without a final slash, equals it; a sibling such as
  \<open>emp-alice-2\<close> is not under \<open>emp-alice\<close>, and an empty prefix admits nothing.\<close>

theorem slug_fence_by_segments:
  "slugUnderBoundPrefixes ps slug \<longleftrightarrow>
     (\<exists>p \<in> set ps. let b = normalizeSlugPrefix p; s = segments (toLowerCase slug)
        in if b = [] then False
           else if suffix ''/'' b then strict_prefix (segments (butlast b)) s
           else prefix (segments b) s)"
proof -
  have "prefix b s \<longleftrightarrow> strict_prefix (segments (butlast b)) (segments s)" if "suffix ''/'' b" for b s
    using that prefix_by_segments [of "butlast b" s] by (auto simp: suffix_def)
  moreover have "s = b \<or> prefix (b @ ''/'') s \<longleftrightarrow> prefix (segments b) (segments s)" for b s
    unfolding prefix_by_segments by (metis prefix_order.le_less segments_inj)
  ultimately show ?thesis by (simp add: slugUnderBoundPrefixes_def list_ex_iff Let_def)
qed

section \<open>What a tool call may run\<close>

lemma find_unique: "distinct (map key xs) \<Longrightarrow> x \<in> set xs \<Longrightarrow> find (\<lambda>y. key y = key x) xs = Some x"
  by (induction xs) (auto simp: rev_image_eqI)


section \<open>Witnesses\<close>

definition some_info :: auth_info where
  "some_info = \<lparr>ai_client = ''c'', ai_name = None, ai_scopes = [''read''], ai_expires = 9, ai_source = Some ''s'',
     ai_allowed = Some [''s'', ''t''], ai_prefixes = None, ai_degraded = False\<rparr>"

definition remote_ctx :: op_context where
  "remote_ctx = buildOperationContext \<lparr>do_remote = None, do_source = Some ''s'', do_local_federated = None, do_auth = Some some_info\<rparr>"

theorem grant_confines_reads_witness:
  "resolveRequestedScope remote_ctx (Some ''t'') False = Inr (one_source ''t'')
    \<and> {src. \<exists>scope. resolveRequestedScope remote_ctx (Some ''t'') False = Inr scope \<and> reads scope src} \<subseteq> set [''s'', ''t'']
    \<and> resolveRequestedScope remote_ctx (Some ''u'') False = Inl (PermissionDenied ''u'')"
proof -
  have ctx: "\<not> trusted remote_ctx" "allowedSources remote_ctx = [''s'', ''t'']"
    by (simp_all add: remote_ctx_def buildOperationContext_def trusted_def allowedSources_def some_info_def)
  then have "allowedSources remote_ctx \<noteq> []" by simp
  from grant_confines_reads [OF ctx(1) this, of "Some ''t''" False]
  show ?thesis using ctx by (simp add: resolveRequestedScope_def ALL_SOURCES_def)
qed

definition old_tokens :: oauth_db where
  "old_tokens = no_oauth\<lparr>legacy := [\<lparr>l_hash = ''k'', l_name = ''bot'', l_grant = OneSource ''a'', l_revoked = False, l_last_used = None\<rparr>]\<rparr>"

theorem scalar_grant_escapes_witness:
  "\<exists>info db'. verifyAccessToken id full_schema 0 ''k'' old_tokens = (Inr info, db') \<and> ai_source info = Some ''a''
    \<and> resolveRequestedScope (buildOperationContext \<lparr>do_remote = Some True, do_source = ai_source info, do_local_federated = None,
          do_auth = Some info\<rparr>) (Some ''b'') False = Inr (one_source ''b'')"
  using scalar_grant_escapes [of id "''k''" old_tokens _ "''a''" full_schema "''b''" 0]
  by (auto simp: old_tokens_def no_oauth_def full_schema_def ALL_SOURCES_def Let_def)

definition get_page_op :: operation where
  "get_page_op = \<lparr>op_name = ''get_page'', op_scope = Some ''read'', op_mutating = False, op_local_only = False, op_params = []\<rparr>"


end
