(* ===== verification/Search_Ranking.thy ===== *)
theory Search_Ranking
  imports Complex_Main Js_Data Prelude "HOL-Library.Multiset"
begin

text \<open>
  Fusion and deduplication of search results (\<open>src/core/search/hybrid.ts\<close>: \<open>rrfFusionWeighted\<close>,
  \<open>rrfFusion\<close>; \<open>src/core/search/dedup.ts\<close>).  Scores are rationals.  A JavaScript \<open>Map\<close> is a list of its
  entries in insertion order.  \<open>search_result\<close> has the fields that the modelled code reads.
\<close>

section \<open>Results\<close>

text \<open>Sorting by descending score, stable as \<open>Array.prototype.sort\<close> is.\<close>

definition sort_desc :: "('a \<Rightarrow> rat) \<Rightarrow> 'a list \<Rightarrow> 'a list" where
  "sort_desc f xs = sort_key (\<lambda>x. - f x) xs"

lemma sort_desc_simps [simp]:
  "set (sort_desc f xs) = set xs" "length (sort_desc f xs) = length xs" "mset (sort_desc f xs) = mset xs"
  "distinct (sort_desc f xs) = distinct xs" "sort_desc f xs = [] \<longleftrightarrow> xs = []"
  by (simp_all add: sort_desc_def flip: length_0_conv)

lemma sort_desc_Nil [simp]: "sort_desc f [] = []"
  by (simp add: sort_desc_def)

lemma sort_desc_sorted: "sorted_wrt (\<lambda>x y. f y \<le> f x) (sort_desc f xs)"
  using sorted_sort_key [of "\<lambda>x. - f x" xs] by (simp add: sort_desc_def sorted_map)

lemma sort_desc_hd: "sort_desc f xs = y # ys \<Longrightarrow> x \<in> set xs \<Longrightarrow> f x \<le> f y"
  using sort_desc_sorted [of f xs] by (metis order_refl set_ConsD sort_desc_simps(1) sorted_wrt.simps(2))

lemma sort_desc_filter_length: "length (filter P (sort_desc f xs)) = length (filter P xs)"
  by (metis mset_filter size_mset sort_desc_simps(3))

datatype chunk_source = CompiledTruth | Timeline

record search_result =
  sr_slug :: string
  sr_page_id :: "int option"
  sr_title :: string
  sr_type :: string
  sr_text :: string
  sr_chunk_source :: chunk_source
  sr_chunk_id :: "int option"
  sr_score :: rat
  sr_unverified :: bool
  sr_source :: "string option"
  sr_rerank :: "rat option"
  sr_alias_hit :: bool

section \<open>Reciprocal rank fusion\<close>

definition rrfKey :: "search_result \<Rightarrow> string" where
  "rrfKey r =
     orElse (sr_source r) ''default'' @ '':'' @ sr_slug r @ '':''
       @ (case sr_chunk_id r of Some i \<Rightarrow> show_int i | None \<Rightarrow> take 50 (sr_text r))"

definition COMPILED_TRUTH_BOOST :: rat where "COMPILED_TRUTH_BOOST = 2"

type_synonym fusion = "(string \<times> search_result \<times> rat) list"

fun rrf_add :: "string \<Rightarrow> search_result \<Rightarrow> rat \<Rightarrow> fusion \<Rightarrow> fusion" where
  "rrf_add key r s [] = [(key, r, s)]"
| "rrf_add key r s ((k, r', s') # m) = (if k = key then (k, r', s' + s) # m else (k, r', s') # rrf_add key r s m)"

fun rrf_list :: "rat \<Rightarrow> nat \<Rightarrow> search_result list \<Rightarrow> fusion \<Rightarrow> fusion" where
  "rrf_list k rank [] m = m"
| "rrf_list k rank (r # rs) m = rrf_list k (rank + 1) rs (rrf_add (rrfKey r) r (1 / (k + of_nat rank)) m)"

definition rrf_scores :: "(search_result list \<times> rat) list \<Rightarrow> fusion" where
  "rrf_scores ls = foldl (\<lambda>m (l, k). rrf_list k 0 l m) [] ls"

definition fusion_boost :: "bool \<Rightarrow> search_result \<Rightarrow> rat" where
  "fusion_boost applyBoost r =
     (if applyBoost \<and> sr_chunk_source r = CompiledTruth \<and> \<not> sr_unverified r then COMPILED_TRUTH_BOOST else 1)"

definition fusion_entries :: "bool \<Rightarrow> fusion \<Rightarrow> search_result list" where
  "fusion_entries applyBoost entries =
     (if entries = [] then []
      else let maxScore = Max (set (map (\<lambda>(_, _, s). s) entries));
               scored = (if maxScore > 0 then map (\<lambda>(_, r, s). (r, s / maxScore * fusion_boost applyBoost r)) entries
                         else map (\<lambda>(_, r, s). (r, s)) entries)
           in map (\<lambda>(r, s). r\<lparr>sr_score := s\<rparr>) (sort_desc snd scored))"

definition rrfFusionWeighted :: "(search_result list \<times> rat) list \<Rightarrow> bool \<Rightarrow> search_result list" where
  "rrfFusionWeighted ls applyBoost = fusion_entries applyBoost (rrf_scores ls)"

fun rrf_scores_plain :: "rat \<Rightarrow> search_result list list \<Rightarrow> fusion \<Rightarrow> fusion" where
  "rrf_scores_plain k [] m = m"
| "rrf_scores_plain k (l # ls) m = rrf_scores_plain k ls (rrf_list k 0 l m)"

definition rrfFusion :: "search_result list list \<Rightarrow> rat \<Rightarrow> bool \<Rightarrow> search_result list" where
  "rrfFusion ls k applyBoost = fusion_entries applyBoost (rrf_scores_plain k ls [])"

section \<open>Deduplication\<close>

definition COSINE_DEDUP_THRESHOLD :: rat where "COSINE_DEDUP_THRESHOLD = 85 / 100"
definition MAX_TYPE_RATIO :: rat where "MAX_TYPE_RATIO = 6 / 10"
definition MAX_PER_PAGE :: nat where "MAX_PER_PAGE = 2"

record dedup_opts =
  cosineThreshold :: "rat option"
  maxTypeRatio :: "rat option"
  maxPerPage :: "nat option"

definition pageKey :: "search_result \<Rightarrow> string" where
  "pageKey r = orElse (sr_source r) ''default'' @ '':'' @ sr_slug r"

definition page_keys :: "search_result list \<Rightarrow> string list" where
  "page_keys rs = first_occ (map pageKey rs)"

definition page_chunks :: "string \<Rightarrow> search_result list \<Rightarrow> search_result list" where
  "page_chunks k rs = filter (\<lambda>r. pageKey r = k) rs"

definition dedupBySource :: "search_result list \<Rightarrow> search_result list" where
  "dedupBySource rs =
     sort_desc sr_score (concat (map (\<lambda>k. take 3 (sort_desc sr_score (page_chunks k rs))) (page_keys rs)))"

definition word_set :: "search_result \<Rightarrow> string set" where
  "word_set r = set (split_ws (toLowerCase (sr_text r)))"

definition jaccard :: "search_result \<Rightarrow> search_result \<Rightarrow> rat" where
  "jaccard a b = of_nat (card (word_set a \<inter> word_set b)) / of_nat (card (word_set a \<union> word_set b))"

fun similarity_filter :: "rat \<Rightarrow> search_result list \<Rightarrow> search_result list \<Rightarrow> search_result list" where
  "similarity_filter threshold kept [] = kept"
| "similarity_filter threshold kept (r # rs) =
     (if list_ex (\<lambda>k. jaccard r k > threshold) kept then similarity_filter threshold kept rs
      else similarity_filter threshold (kept @ [r]) rs)"

definition dedupByTextSimilarity :: "search_result list \<Rightarrow> rat \<Rightarrow> search_result list" where
  "dedupByTextSimilarity rs threshold = similarity_filter threshold [] rs"

definition enforceTypeDiversity :: "search_result list \<Rightarrow> rat \<Rightarrow> search_result list" where
  "enforceTypeDiversity rs maxRatio =
     (let maxPerType = max 1 \<lceil>of_nat (length rs) * maxRatio\<rceil>
      in keep_upto (nat maxPerType) sr_type (\<lambda>_. 0) rs)"

definition capPerPage :: "search_result list \<Rightarrow> nat \<Rightarrow> search_result list" where
  "capPerPage rs n = keep_upto n pageKey (\<lambda>_. 0) rs"

text \<open>The index of the lowest score of a page, the first one among equals.\<close>

definition lowest_idx :: "string \<Rightarrow> search_result list \<Rightarrow> nat option" where
  "lowest_idx key out =
     foldl (\<lambda>m idx. if pageKey (out ! idx) \<noteq> key then m
                    else (case m of None \<Rightarrow> Some idx
                          | Some j \<Rightarrow> if sr_score (out ! idx) < sr_score (out ! j) then Some idx else m))
       None [0..<length out]"

definition guarantee_page ::
  "search_result list \<Rightarrow> search_result list \<Rightarrow> search_result list \<Rightarrow> string \<Rightarrow> search_result list" where
  "guarantee_page results preDedup out key =
     (if list_ex (\<lambda>c. sr_chunk_source c = CompiledTruth) (page_chunks key results) then out
      else (case sort_desc sr_score (filter (\<lambda>r. pageKey r = key \<and> sr_chunk_source r = CompiledTruth) preDedup) of
              [] \<Rightarrow> out
            | candidate # _ \<Rightarrow> (case lowest_idx key out of None \<Rightarrow> out | Some i \<Rightarrow> out[i := candidate])))"

definition guaranteeCompiledTruth :: "search_result list \<Rightarrow> search_result list \<Rightarrow> search_result list" where
  "guaranteeCompiledTruth results preDedup = foldl (guarantee_page results preDedup) results (page_keys results)"

definition dedup_layers :: "search_result list \<Rightarrow> dedup_opts \<Rightarrow> search_result list" where
  "dedup_layers results opts =
     capPerPage
       (enforceTypeDiversity
         (dedupByTextSimilarity (dedupBySource results) (orElse (cosineThreshold opts) COSINE_DEDUP_THRESHOLD))
         (orElse (maxTypeRatio opts) MAX_TYPE_RATIO))
       (orElse (maxPerPage opts) MAX_PER_PAGE)"

definition dedupResults :: "search_result list \<Rightarrow> dedup_opts \<Rightarrow> search_result list" where
  "dedupResults results opts = guaranteeCompiledTruth (dedup_layers results opts) results"

section \<open>Fusion is a sum over the lists\<close>

definition contribution :: "search_result list \<Rightarrow> rat \<Rightarrow> string \<Rightarrow> rat" where
  "contribution l k key = (\<Sum>i<length l. if rrfKey (l ! i) = key then 1 / (k + of_nat i) else 0)"

definition rrf_total :: "(search_result list \<times> rat) list \<Rightarrow> string \<Rightarrow> rat" where
  "rrf_total ls key = sum_list (map (\<lambda>(l, k). contribution l k key) ls)"

definition entry_sum :: "fusion \<Rightarrow> string \<Rightarrow> rat" where
  "entry_sum m key = sum_list (map (\<lambda>(k, _, s). if k = key then s else 0) m)"

definition fusion_ok :: "fusion \<Rightarrow> bool" where
  "fusion_ok m \<longleftrightarrow> distinct (map fst m) \<and> (\<forall>(k, r, s) \<in> set m. rrfKey r = k)"

lemma rrf_add_keys: "map fst (rrf_add key r s m) = (if key \<in> fst ` set m then map fst m else map fst m @ [key])"
  by (induction m) force+

lemma rrf_add_sum: "entry_sum (rrf_add key r s m) key' = entry_sum m key' + (if key = key' then s else 0)"
  by (induction m) (auto simp: entry_sum_def)

lemma rrf_add_entries:
  "\<forall>(k, r, s) \<in> set m. rrfKey r = k \<Longrightarrow> rrfKey r = key \<Longrightarrow> \<forall>(k, r, s) \<in> set (rrf_add key r s m). rrfKey r = k"
  by (induction m) (auto split: if_splits)

lemma rrf_add_ok: "fusion_ok m \<Longrightarrow> rrfKey r = key \<Longrightarrow> fusion_ok (rrf_add key r s m)"
  using rrf_add_entries [of m r key s] by (auto simp: fusion_ok_def rrf_add_keys)

lemma contribution_Cons:
  "contribution (r # l) k key = (if rrfKey r = key then 1 / k else 0) + contribution l (k + 1) key"
  unfolding contribution_def length_Cons by (subst sum.lessThan_Suc_shift) (simp add: algebra_simps cong: if_cong)

lemma rrf_list_sum:
  "entry_sum (rrf_list k rank l m) key = entry_sum m key + contribution l (k + of_nat rank) key"
proof (induction l arbitrary: rank m)
  case Nil
  then show ?case by (simp add: contribution_def)
next
  case (Cons r l)
  have shift: "k + of_nat (rank + 1) = k + of_nat rank + 1" by simp
  show ?case by (simp only: rrf_list.simps Cons.IH contribution_Cons rrf_add_sum shift add.assoc)
qed

lemma rrf_list_ok: "fusion_ok m \<Longrightarrow> fusion_ok (rrf_list k rank l m)"
  by (induction l arbitrary: rank m) (auto intro: rrf_add_ok)

lemma rrf_list_keys: "fst ` set (rrf_list k rank l m) = fst ` set m \<union> rrfKey ` set l"
proof (induction l arbitrary: rank m)
  case (Cons r l)
  have "fst ` set (rrf_add (rrfKey r) r s m) = insert (rrfKey r) (fst ` set m)" for s
    using arg_cong [OF rrf_add_keys [of "rrfKey r" r s m], of set] by (auto split: if_splits)
  then show ?case by (auto simp: Cons.IH)
qed simp

lemma rrf_fold:
  "fusion_ok m \<Longrightarrow> fusion_ok (foldl (\<lambda>m (l, k). rrf_list k 0 l m) m ls)
    \<and> entry_sum (foldl (\<lambda>m (l, k). rrf_list k 0 l m) m ls) key = entry_sum m key + rrf_total ls key
    \<and> fst ` set (foldl (\<lambda>m (l, k). rrf_list k 0 l m) m ls) = fst ` set m \<union> rrfKey ` set (concat (map fst ls))"
proof (induction ls arbitrary: m)
  case (Cons lk ls)
  obtain l k where lk: "lk = (l, k)" by force
  show ?case
    using Cons.IH [OF rrf_list_ok [OF Cons.prems], of k 0 l]
    by (auto simp: lk rrf_list_sum rrf_list_keys rrf_total_def image_Un)
qed (auto simp: rrf_total_def)

lemma entry_sum_none: "k \<notin> fst ` set m \<Longrightarrow> entry_sum m k = 0"
  by (induction m) (auto simp: entry_sum_def)

lemma entry_sum_unique: "fusion_ok m \<Longrightarrow> (k, r, s) \<in> set m \<Longrightarrow> entry_sum m k = s"
proof (induction m)
  case (Cons e m)
  obtain k' r' s' where e: "e = (k', r', s')" by (cases e) auto
  have ok: "fusion_ok m" "k' \<notin> fst ` set m" using Cons.prems(1) by (auto simp: fusion_ok_def e)
  show ?case
    using Cons.IH [OF ok(1)] Cons.prems(2) entry_sum_none [OF ok(2)] ok(2) by (auto simp: e entry_sum_def intro: rev_image_eqI)
qed simp

lemma rrf_scores_facts:
  shows rrf_scores_distinct: "distinct (map fst (rrf_scores ls))"
    and rrf_scores_entry: "(key, r, s) \<in> set (rrf_scores ls) \<Longrightarrow> rrfKey r = key \<and> s = rrf_total ls key"
    and rrf_scores_keys: "fst ` set (rrf_scores ls) = rrfKey ` set (concat (map fst ls))"
proof -
  have start: "fusion_ok []" "entry_sum [] k = 0" for k by (simp_all add: fusion_ok_def entry_sum_def)
  note facts = rrf_fold [OF start(1), of ls, folded rrf_scores_def]
  show "distinct (map fst (rrf_scores ls))" using facts by (simp add: fusion_ok_def)
  show "(key, r, s) \<in> set (rrf_scores ls) \<Longrightarrow> rrfKey r = key \<and> s = rrf_total ls key"
    using facts [of key] entry_sum_unique [of "rrf_scores ls" key r s] start(2) by (auto simp: fusion_ok_def)
  show "fst ` set (rrf_scores ls) = rrfKey ` set (concat (map fst ls))" using facts by simp
qed

lemma contribution_nonneg: "0 < k \<Longrightarrow> 0 \<le> contribution l k key"
  unfolding contribution_def by (rule sum_nonneg) auto

lemma contribution_pos:
  assumes "0 < k" "r \<in> set l"
  shows "0 < contribution l k (rrfKey r)"
proof -
  obtain i where i: "i < length l" "l ! i = r" using assms(2) by (auto simp: in_set_conv_nth)
  have "0 < (if rrfKey (l ! i) = rrfKey r then 1 / (k + of_nat i) else 0)" using assms(1) i by simp
  also have "\<dots> \<le> contribution l k (rrfKey r)"
    unfolding contribution_def by (rule member_le_sum) (use assms(1) i in auto)
  finally show ?thesis .
qed

lemma rrf_total_pos:
  assumes "\<forall>(l, k) \<in> set ls. 0 < k" "r \<in> set (concat (map fst ls))"
  shows "0 < rrf_total ls (rrfKey r)"
  using assms
proof (induction ls)
  case (Cons lk ls)
  obtain l k where lk: "lk = (l, k)" by force
  have rest: "0 \<le> rrf_total ls (rrfKey r)"
    unfolding rrf_total_def using Cons.prems(1) by (intro sum_list_nonneg) (auto intro: contribution_nonneg)
  have here: "0 \<le> contribution l k (rrfKey r)" using Cons.prems(1) by (simp add: lk contribution_nonneg)
  have sum: "rrf_total (lk # ls) (rrfKey r) = contribution l k (rrfKey r) + rrf_total ls (rrfKey r)"
    by (simp add: lk rrf_total_def)
  show ?case
  proof (cases "r \<in> set l")
    case True
    then show ?thesis unfolding sum using contribution_pos [of k r l] Cons.prems(1) rest by (simp add: lk add_pos_nonneg)
  next
    case False
    then have "0 < rrf_total ls (rrfKey r)" using Cons by (auto simp: lk)
    then show ?thesis unfolding sum using here by (simp add: add_nonneg_pos)
  qed
qed simp

lemma rrf_add_member:
  "(k, r', s') \<in> set (rrf_add key r s m) \<Longrightarrow> (\<exists>s0. (k, r', s0) \<in> set m) \<or> k = key \<and> r' = r \<and> k \<notin> fst ` set m"
proof (induction m)
  case (Cons e m)
  obtain k0 r0 s0 where "e = (k0, r0, s0)" by (cases e) auto
  then show ?case using Cons by (cases "k0 = key") auto
qed simp

lemma rrf_add_first:
  "(k, r', s') \<in> set (rrf_add key r s m) \<Longrightarrow> (if k \<in> fst ` set m then \<exists>s0. (k, r', s0) \<in> set m else k = key \<and> r' = r)"
  using rrf_add_member by (fastforce intro: rev_image_eqI)

lemma rrf_list_first:
  "(key, r, s) \<in> set (rrf_list k rank l m) \<Longrightarrow>
     (if key \<in> fst ` set m then \<exists>s0. (key, r, s0) \<in> set m else find (\<lambda>x. rrfKey x = key) l = Some r)"
proof (induction l arbitrary: rank m)
  case Nil
  then show ?case by (auto intro: rev_image_eqI)
next
  case (Cons y l)
  let ?m = "rrf_add (rrfKey y) y (1 / (k + of_nat rank)) m"
  have keys: "fst ` set ?m = insert (rrfKey y) (fst ` set m)"
    using arg_cong [OF rrf_add_keys [of "rrfKey y" y "1 / (k + of_nat rank)" m], of set] by (auto split: if_splits)
  have IH: "if key \<in> fst ` set ?m then \<exists>s0. (key, r, s0) \<in> set ?m else find (\<lambda>x. rrfKey x = key) l = Some r"
    using Cons.IH [of "rank + 1" ?m] Cons.prems by simp
  show ?case
  proof (cases "key \<in> fst ` set ?m")
    case True
    then obtain s0 where "(key, r, s0) \<in> set ?m" using IH by auto
    from rrf_add_first [OF this] show ?thesis by (auto split: if_splits)
  next
    case False
    then show ?thesis using IH keys by auto
  qed
qed

lemma rrf_scores_first: "(key, r, s) \<in> set (rrf_scores ls) \<Longrightarrow> find (\<lambda>x. rrfKey x = key) (concat (map fst ls)) = Some r"
proof -
  have find_append: "find P (a @ b) = (case find P a of None \<Rightarrow> find P b | Some x \<Rightarrow> Some x)" for P and a b :: "search_result list"
    by (induction a) auto
  have "(key, r, s) \<in> set (foldl (\<lambda>m (l, k). rrf_list k 0 l m) m ls) \<Longrightarrow>
      (if key \<in> fst ` set m then \<exists>s0. (key, r, s0) \<in> set m else find (\<lambda>x. rrfKey x = key) (concat (map fst ls)) = Some r)" for m
  proof (induction ls arbitrary: m)
    case Nil
    then show ?case by (auto intro: rev_image_eqI)
  next
    case (Cons lk ls)
    obtain l k where lk: "lk = (l, k)" by force
    let ?m = "rrf_list k 0 l m"
    have IH: "if key \<in> fst ` set ?m then \<exists>s0. (key, r, s0) \<in> set ?m
        else find (\<lambda>x. rrfKey x = key) (concat (map fst ls)) = Some r"
      using Cons.IH [of ?m] Cons.prems by (simp add: lk)
    show ?case
    proof (cases "key \<in> fst ` set ?m")
      case True
      then obtain s0 where "(key, r, s0) \<in> set ?m" using IH by auto
      from rrf_list_first [OF this] show ?thesis by (auto simp: lk find_append split: if_splits)
    next
      case False
      then have "key \<notin> fst ` set m" "find (\<lambda>x. rrfKey x = key) l = None"
        by (auto simp: rrf_list_keys find_None_iff)
      then show ?thesis using IH False by (simp add: lk find_append)
    qed
  qed
  from this [of "[]"] show "(key, r, s) \<in> set (rrf_scores ls) \<Longrightarrow> ?thesis" by (simp add: rrf_scores_def)
qed

lemma rrfKey_score [simp]: "rrfKey (r\<lparr>sr_score := s\<rparr>) = rrfKey r"
  by (simp add: rrfKey_def split: option.split)

lemma fusion_boost_score [simp]: "fusion_boost b (r\<lparr>sr_score := s\<rparr>) = fusion_boost b r"
  by (simp add: fusion_boost_def)

text \<open>With positive constants every total is positive, so the scores are scaled to the best one.\<close>

lemma fusion_out:
  assumes "\<forall>(l, k) \<in> set ls. 0 < k" "concat (map fst ls) \<noteq> []"
  defines "best \<equiv> Max ((\<lambda>r. rrf_total ls (rrfKey r)) ` set (concat (map fst ls)))"
  shows "rrfFusionWeighted ls b = map (\<lambda>(r, s). r\<lparr>sr_score := s\<rparr>)
      (sort_desc snd (map (\<lambda>(_, r, s). (r, s / best * fusion_boost b r)) (rrf_scores ls)))"
proof -
  have scores: "(\<lambda>(_, _, s). s) ` set (rrf_scores ls) = rrf_total ls ` fst ` set (rrf_scores ls)"
    unfolding image_image by (rule image_cong) (auto dest: rrf_scores_entry)
  then have best: "Max (set (map (\<lambda>(_, _, s). s) (rrf_scores ls))) = best"
    by (simp add: best_def rrf_scores_keys image_image)
  obtain r where r: "r \<in> set (concat (map fst ls))" using assms(2) by (metis list.set_sel(1))
  then have "rrf_total ls (rrfKey r) \<le> best" unfolding best_def by (intro Max_ge) auto
  then have pos: "best > 0" using rrf_total_pos [OF assms(1) r] by simp
  have "fst ` set (rrf_scores ls) \<noteq> {}" unfolding rrf_scores_keys image_is_empty set_empty by (rule assms(2))
  then have "rrf_scores ls \<noteq> []" by auto
  then show ?thesis unfolding rrfFusionWeighted_def fusion_entries_def best Let_def using pos by simp
qed

text \<open>Fusion is a sum over the lists: for positive constants the result has every distinct chunk once, in descending
  order of score, with the fields of its first appearance; its score is the sum of \<open>1/(k + rank)\<close> over
  all its appearances, divided by the largest such sum, and doubled for a reviewed compiled-truth
  chunk when the boost is on.\<close>

theorem fusion_is_sum:
  assumes "\<forall>(l, k) \<in> set ls. 0 < k"
  shows "let out = rrfFusionWeighted ls b; every = concat (map fst ls)
    in mset (map rrfKey out) = mset (first_occ (map rrfKey every)) \<and> sorted_wrt (\<lambda>x y. sr_score y \<le> sr_score x) out
      \<and> {x \<in> set out. find (\<lambda>r. rrfKey r = rrfKey x) every \<noteq> None
            \<and> x = (the (find (\<lambda>r. rrfKey r = rrfKey x) every))
                \<lparr>sr_score := rrf_total ls (rrfKey x) / Max ((\<lambda>r. rrf_total ls (rrfKey r)) ` set every) * fusion_boost b x\<rparr>}
        = set out"
proof (cases "concat (map fst ls) = []")
  case True
  then have "rrf_scores ls = []" using rrf_scores_keys [of ls] by simp
  then show ?thesis using True by (simp add: rrfFusionWeighted_def fusion_entries_def Let_def)
next
  case False
  let ?every = "concat (map fst ls)" and ?out = "rrfFusionWeighted ls b"
  let ?scored = "map (\<lambda>(_, r, s). (r, s / Max ((\<lambda>r. rrf_total ls (rrfKey r)) ` set ?every) * fusion_boost b r)) (rrf_scores ls)"
  note out = fusion_out [OF assms False, of b]
  have keys: "map rrfKey (map fst ?scored) = map fst (rrf_scores ls)" by (auto dest: rrf_scores_entry)
  have "map rrfKey ?out = map (rrfKey \<circ> fst) (sort_desc snd ?scored)"
    unfolding out map_map by (rule map_cong) auto
  then have "mset (map rrfKey ?out) = image_mset (rrfKey \<circ> fst) (mset ?scored)" by (simp only: mset_map sort_desc_simps(3))
  also have "\<dots> = mset (map fst (rrf_scores ls))" unfolding keys [symmetric] by (simp only: mset_map multiset.map_comp comp_assoc)
  also have "\<dots> = mset (first_occ (map rrfKey ?every))"
    by (rule set_eq_iff_mset_eq_distinct [THEN iffD1]) (use rrf_scores_distinct rrf_scores_keys in auto)
  finally have ms: "mset (map rrfKey ?out) = mset (first_occ (map rrfKey ?every))" .
  have "sorted_wrt (\<lambda>x y. sr_score y \<le> sr_score x) ?out"
    unfolding out sorted_wrt_map by (rule sorted_wrt_mono_rel [OF _ sort_desc_sorted]) (auto split: prod.splits)
  moreover have "x = (the (find (\<lambda>r. rrfKey r = rrfKey x) ?every))
        \<lparr>sr_score := rrf_total ls (rrfKey x) / Max ((\<lambda>r. rrf_total ls (rrfKey r)) ` set ?every) * fusion_boost b x\<rparr>
      \<and> find (\<lambda>r. rrfKey r = rrfKey x) ?every \<noteq> None" if x: "x \<in> set ?out" for x
  proof -
    obtain key r s where e: "(key, r, s) \<in> set (rrf_scores ls)"
        "x = r\<lparr>sr_score := s / Max ((\<lambda>r. rrf_total ls (rrfKey r)) ` set ?every) * fusion_boost b r\<rparr>"
      using x unfolding out by auto
    then show ?thesis using rrf_scores_entry [OF e(1)] rrf_scores_first [OF e(1)] by simp
  qed
  ultimately show ?thesis using ms by (auto simp: Let_def)
qed

lemma rrfFusion_weighted: "rrfFusion ls k b = rrfFusionWeighted (map (\<lambda>l. (l, k)) ls) b"
proof -
  have "rrf_scores_plain k ls m = foldl (\<lambda>m (l, k). rrf_list k 0 l m) m (map (\<lambda>l. (l, k)) ls)" for m
    by (induction ls arbitrary: m) auto
  then show ?thesis by (simp add: rrfFusion_def rrfFusionWeighted_def rrf_scores_def)
qed

section \<open>The layers of deduplication\<close>

abbreviation compiled :: "search_result \<Rightarrow> bool" where
  "compiled c \<equiv> sr_chunk_source c = CompiledTruth"

lemma page_count: "length (page_chunks k rs) = count_list (map pageKey rs) k"
  by (induction rs) (auto simp: page_chunks_def)

lemma set_page_chunks [simp]: "set (page_chunks k rs) = {r \<in> set rs. pageKey r = k}"
  by (auto simp: page_chunks_def)

lemma set_page_keys [simp]: "set (page_keys rs) = pageKey ` set rs" "distinct (page_keys rs)"
  by (simp_all add: page_keys_def)

lemma dedupBySource_set: "set (dedupBySource rs) \<subseteq> set rs"
  by (auto simp: dedupBySource_def dest: in_set_takeD)

lemma dedupBySource_distinct: "distinct rs \<Longrightarrow> distinct (dedupBySource rs)"
proof -
  assume rs: "distinct rs"
  have page: "x \<in> set (take 3 (sort_desc sr_score (page_chunks k rs))) \<Longrightarrow> pageKey x = k" for x k
    by (auto dest: in_set_takeD)
  have "distinct (concat (map (\<lambda>k. take 3 (sort_desc sr_score (page_chunks k rs))) ks))" if "distinct ks" for ks
    using that
  proof (induction ks)
    case (Cons k ks)
    then show ?case using rs by (auto simp: distinct_take page_chunks_def dest!: in_set_takeD)
  qed simp
  then show ?thesis by (simp add: dedupBySource_def)
qed

lemma dedupBySource_best:
  assumes "rs \<noteq> []"
  obtains r l where "dedupBySource rs = r # l" "r \<in> set rs" "\<And>x. x \<in> set rs \<Longrightarrow> sr_score x \<le> sr_score r"
proof -
  let ?all = "concat (map (\<lambda>k. take 3 (sort_desc sr_score (page_chunks k rs))) (page_keys rs))"
  have top: "\<exists>y \<in> set ?all. sr_score x \<le> sr_score y" if x: "x \<in> set rs" for x
  proof -
    have "sort_desc sr_score (page_chunks (pageKey x) rs) \<noteq> []" using x by (auto simp: page_chunks_def filter_empty_conv)
    then obtain y ys where y: "sort_desc sr_score (page_chunks (pageKey x) rs) = y # ys" by (metis neq_Nil_conv)
    have "sr_score x \<le> sr_score y" by (rule sort_desc_hd [OF y]) (use x in simp)
    moreover have "y \<in> set ?all" using x y by (auto intro!: bexI [of _ x])
    ultimately show ?thesis by blast
  qed
  then have "?all \<noteq> []" using assms by (metis list.set_intros(1) neq_Nil_conv empty_iff empty_set)
  then obtain r l where r: "dedupBySource rs = r # l" by (metis dedupBySource_def neq_Nil_conv sort_desc_simps(5))
  have "sr_score x \<le> sr_score r" if "x \<in> set rs" for x
    using top [OF that] sort_desc_hd [OF r [unfolded dedupBySource_def]] by (meson order_trans)
  moreover have "r \<in> set rs" using dedupBySource_set [of rs] r by auto
  ultimately show thesis using that r by blast
qed

lemma similarity_filter_facts:
  "\<exists>zs. similarity_filter t kept rs = kept @ zs \<and> subseq zs rs
    \<and> (sorted_wrt (\<lambda>a b. jaccard b a \<le> t) kept \<longrightarrow> sorted_wrt (\<lambda>a b. jaccard b a \<le> t) (kept @ zs))"
proof (induction rs arbitrary: kept)
  case (Cons r rs)
  show ?case
  proof (cases "list_ex (\<lambda>k. jaccard r k > t) kept")
    case True
    then show ?thesis using Cons [of kept] by auto
  next
    case False
    then obtain zs where zs: "similarity_filter t kept (r # rs) = kept @ r # zs" "subseq zs rs"
        "sorted_wrt (\<lambda>a b. jaccard b a \<le> t) (kept @ [r]) \<longrightarrow> sorted_wrt (\<lambda>a b. jaccard b a \<le> t) (kept @ r # zs)"
      using Cons [of "kept @ [r]"] by auto
    moreover have "sorted_wrt (\<lambda>a b. jaccard b a \<le> t) kept \<Longrightarrow> sorted_wrt (\<lambda>a b. jaccard b a \<le> t) (kept @ [r])"
      using False by (auto simp: sorted_wrt_append list_ex_iff not_less)
    ultimately show ?thesis by (intro exI [of _ "r # zs"]) auto
  qed
qed simp

lemma dedupByTextSimilarity_facts:
  shows similarity_subseq: "subseq (dedupByTextSimilarity rs t) rs"
    and similarity_pairs: "sorted_wrt (\<lambda>a b. jaccard b a \<le> t) (dedupByTextSimilarity rs t)"
    and similarity_first: "rs = r # l \<Longrightarrow> \<exists>l'. dedupByTextSimilarity rs t = r # l'"
  using similarity_filter_facts [of t "[]" rs] similarity_filter_facts [of t "[r]" l]
  by (auto simp: dedupByTextSimilarity_def)

lemma keep_upto_first: "0 < n \<Longrightarrow> \<exists>l'. keep_upto n key (\<lambda>_. 0) (r # l) = r # l'"
  by simp

lemma type_cap: "0 \<le> t \<Longrightarrow> length (filter (\<lambda>r. sr_type r = ty) (enforceTypeDiversity rs t))
    \<le> nat (max 1 \<lceil>of_nat (length rs) * t\<rceil>)"
  by (simp add: enforceTypeDiversity_def Let_def keep_upto_count)

text \<open>The cap of a type is measured against the list before the cut, so results of one type all stay one type.\<close>

lemma one_type_stays_one_type:
  assumes "\<forall>r \<in> set rs. sr_type r = ty" "rs \<noteq> []" "0 < t"
  shows "length (enforceTypeDiversity rs t) = min (nat \<lceil>of_nat (length rs) * t\<rceil>) (length rs)
    \<and> (\<forall>r \<in> set (enforceTypeDiversity rs t). sr_type r = ty)"
proof -
  have sub: "subseq (enforceTypeDiversity rs t) rs" by (simp add: enforceTypeDiversity_def Let_def keep_upto_subseq)
  have types: "\<forall>r \<in> set (enforceTypeDiversity rs t). sr_type r = ty"
    using assms(1) list_emb_set [OF sub] by metis
  then have "enforceTypeDiversity rs t = filter (\<lambda>r. sr_type r = ty) (enforceTypeDiversity rs t)" by (simp add: filter_True)
  moreover have "filter (\<lambda>r. sr_type r = ty) rs = rs" using assms(1) by (simp add: filter_True)
  moreover have "0 < \<lceil>of_nat (length rs) * t\<rceil>" using assms(2,3) by (simp add: zero_less_ceiling)
  then have "max 1 \<lceil>of_nat (length rs) * t\<rceil> = \<lceil>of_nat (length rs) * t\<rceil>" by simp
  ultimately show ?thesis
    using types keep_upto_count [of sr_type ty "nat \<lceil>of_nat (length rs) * t\<rceil>" "\<lambda>_. 0" rs]
    by (simp add: enforceTypeDiversity_def Let_def)
qed

section \<open>The compiled truth of a page\<close>

lemma filter_update_other:
  "i < length xs \<Longrightarrow> \<not> P (xs ! i) \<Longrightarrow> \<not> P y \<Longrightarrow> filter P (xs[i := y]) = filter P xs"
  by (induction xs arbitrary: i) (auto split: nat.splits)

lemma lowest_idx_facts:
  shows lowest_idx_in: "lowest_idx key out = Some i \<Longrightarrow> i < length out \<and> pageKey (out ! i) = key
      \<and> (\<forall>j < length out. pageKey (out ! j) = key \<longrightarrow> sr_score (out ! i) \<le> sr_score (out ! j))"
    and lowest_idx_none: "lowest_idx key out = None \<Longrightarrow> r \<in> set out \<Longrightarrow> pageKey r \<noteq> key"
proof -
  let ?f = "\<lambda>m idx. if pageKey (out ! idx) \<noteq> key then m
      else (case m of None \<Rightarrow> Some idx | Some j \<Rightarrow> if sr_score (out ! idx) < sr_score (out ! j) then Some idx else m)"
  have upto: "case foldl ?f None [0..<n] of
      None \<Rightarrow> \<forall>j < n. pageKey (out ! j) \<noteq> key
    | Some i \<Rightarrow> i < n \<and> pageKey (out ! i) = key \<and> (\<forall>j < n. pageKey (out ! j) = key \<longrightarrow> sr_score (out ! i) \<le> sr_score (out ! j))" for n
  proof (induction n)
    case (Suc n)
    then show ?case
      by (cases "foldl ?f None [0..<n]") (auto simp: less_Suc_eq not_less intro: order_trans dest: less_imp_le)
  qed simp
  show "lowest_idx key out = Some i \<Longrightarrow> i < length out \<and> pageKey (out ! i) = key
      \<and> (\<forall>j < length out. pageKey (out ! j) = key \<longrightarrow> sr_score (out ! i) \<le> sr_score (out ! j))"
    using upto [of "length out"] by (simp add: lowest_idx_def)
  show "lowest_idx key out = None \<Longrightarrow> r \<in> set out \<Longrightarrow> pageKey r \<noteq> key"
    using upto [of "length out"] by (auto simp: lowest_idx_def in_set_conv_nth)
qed

text \<open>One round either leaves the list alone or swaps a chunk of the page for a compiled one of the same page.\<close>

lemma guarantee_page_cases:
  obtains (same) "guarantee_page S pre out key = out"
      "list_ex compiled (page_chunks key S) \<or> (\<forall>r \<in> set pre. pageKey r = key \<longrightarrow> \<not> compiled r) \<or> key \<notin> pageKey ` set out"
    | (swap) i c where "guarantee_page S pre out key = out[i := c]" "i < length out" "pageKey (out ! i) = key"
      "c \<in> set pre" "pageKey c = key" "compiled c" "\<not> list_ex compiled (page_chunks key S)"
proof (cases "list_ex compiled (page_chunks key S)")
  case True
  then show thesis using same by (simp add: guarantee_page_def)
next
  case False
  show thesis
  proof (cases "sort_desc sr_score (filter (\<lambda>r. pageKey r = key \<and> compiled r) pre)")
    case Nil
    then have "\<forall>r \<in> set pre. pageKey r = key \<longrightarrow> \<not> compiled r" by (simp add: filter_empty_conv)
    then show thesis using same False Nil unfolding guarantee_page_def by simp
  next
    case (Cons c cs)
    then have "c \<in> set (filter (\<lambda>r. pageKey r = key \<and> compiled r) pre)" by (metis list.set_intros(1) sort_desc_simps(1))
    then have c: "c \<in> set pre" "pageKey c = key" "compiled c" by simp_all
    show thesis
    proof (cases "lowest_idx key out")
      case None
      then have "key \<notin> pageKey ` set out" using lowest_idx_none by blast
      then show thesis using same False Cons None by (simp add: guarantee_page_def)
    next
      case (Some i)
      then show thesis using swap [of i c] False Cons c lowest_idx_in [OF Some] by (simp add: guarantee_page_def)
    qed
  qed
qed

lemma guarantee_fold:
  assumes "distinct ks" "\<forall>k \<in> set ks. page_chunks k out = page_chunks k S"
  shows "map pageKey (foldl (guarantee_page S pre) out ks) = map pageKey out
    \<and> set (foldl (guarantee_page S pre) out ks) \<subseteq> set out \<union> set pre
    \<and> (distinct out \<longrightarrow> distinct (foldl (guarantee_page S pre) out ks))
    \<and> (\<forall>k. k \<notin> set ks \<longrightarrow> page_chunks k (foldl (guarantee_page S pre) out ks) = page_chunks k out)
    \<and> (\<forall>k \<in> set ks. k \<in> pageKey ` set out \<longrightarrow> (\<exists>c \<in> set pre. pageKey c = k \<and> compiled c)
          \<longrightarrow> (\<exists>c \<in> set (foldl (guarantee_page S pre) out ks). pageKey c = k \<and> compiled c))"
  using assms
proof (induction ks arbitrary: out)
  case (Cons k ks)
  let ?out = "guarantee_page S pre out k"
  have step: "map pageKey ?out = map pageKey out \<and> set ?out \<subseteq> set out \<union> set pre \<and> (distinct out \<longrightarrow> distinct ?out)
      \<and> (\<forall>k'. k' \<noteq> k \<longrightarrow> page_chunks k' ?out = page_chunks k' out)
      \<and> (k \<in> pageKey ` set out \<longrightarrow> (\<exists>c \<in> set pre. pageKey c = k \<and> compiled c) \<longrightarrow> list_ex compiled (page_chunks k ?out))"
  proof (rule guarantee_page_cases [of S pre out k])
    assume "guarantee_page S pre out k = out"
      "list_ex compiled (page_chunks k S) \<or> (\<forall>r \<in> set pre. pageKey r = k \<longrightarrow> \<not> compiled r) \<or> k \<notin> pageKey ` set out"
    then show ?thesis using Cons.prems(2) by auto
  next
    fix i c assume swap: "guarantee_page S pre out k = out[i := c]" "i < length out" "pageKey (out ! i) = k"
      "c \<in> set pre" "pageKey c = k" "compiled c" "\<not> list_ex compiled (page_chunks k S)"
    have "c \<notin> set out"
    proof
      assume "c \<in> set out"
      then have "c \<in> set (page_chunks k out)" using swap by simp
      then have "c \<in> set (page_chunks k S)" unfolding Cons.prems(2) [rule_format, OF list.set_intros(1)] .
      then show False using swap(6,7) unfolding list_ex_iff by blast
    qed
    have "map pageKey (out[i := c]) = map pageKey out" by (simp add: map_update swap(5) flip: swap(3) nth_map [OF swap(2)])
    moreover have "set (out[i := c]) \<subseteq> set out \<union> set pre" using set_update_subset_insert [of out i c] swap(4) by blast
    moreover have "distinct out \<Longrightarrow> distinct (out[i := c])" using \<open>c \<notin> set out\<close> by (simp add: distinct_list_update)
    moreover have "page_chunks k' (out[i := c]) = page_chunks k' out" if "k' \<noteq> k" for k'
      unfolding page_chunks_def by (rule filter_update_other) (use swap that in auto)
    moreover have "list_ex compiled (page_chunks k (out[i := c]))"
      using swap set_update_memI [OF swap(2), of c] by (auto simp: list_ex_iff)
    ultimately show ?thesis unfolding swap(1) by blast
  qed
  have rest: "\<forall>k' \<in> set ks. page_chunks k' ?out = page_chunks k' S" using step Cons.prems by auto
  note IH = Cons.IH [OF _ rest]
  have keep: "page_chunks k (foldl (guarantee_page S pre) ?out ks) = page_chunks k ?out" using IH Cons.prems(1) by simp
  have pages: "pageKey ` set ?out = pageKey ` set out" using step by (metis list.set_map)
  show ?case
  proof (intro conjI)
    show "\<forall>k' \<in> set (k # ks). k' \<in> pageKey ` set out \<longrightarrow> (\<exists>c \<in> set pre. pageKey c = k' \<and> compiled c)
        \<longrightarrow> (\<exists>c \<in> set (foldl (guarantee_page S pre) out (k # ks)). pageKey c = k' \<and> compiled c)"
    proof (intro ballI impI)
      fix k' assume k': "k' \<in> set (k # ks)" "k' \<in> pageKey ` set out" "\<exists>c \<in> set pre. pageKey c = k' \<and> compiled c"
      show "\<exists>c \<in> set (foldl (guarantee_page S pre) out (k # ks)). pageKey c = k' \<and> compiled c"
      proof (cases "k' = k")
        case True
        then have "list_ex compiled (page_chunks k (foldl (guarantee_page S pre) ?out ks))" using step k' keep by simp
        then show ?thesis using True by (auto simp: list_ex_iff)
      next
        case False
        then show ?thesis using k' IH Cons.prems(1) pages by simp
      qed
    qed
  qed (use IH step Cons.prems(1) in auto)
qed simp

section \<open>The guarantees of deduplication\<close>

lemma subseq_distinct: "subseq xs ys \<Longrightarrow> distinct ys \<Longrightarrow> distinct xs"
  by (induction xs ys rule: list_emb.induct) (auto dest: list_emb_set)

lemma dedup_layers_subseq: "subseq (dedup_layers rs opts) (dedupBySource rs)"
  unfolding dedup_layers_def capPerPage_def enforceTypeDiversity_def Let_def
  by (meson keep_upto_subseq similarity_subseq subseq_order.trans)

lemma dedup_layers_page: "length (page_chunks k (dedup_layers rs opts)) \<le> orElse (maxPerPage opts) MAX_PER_PAGE"
  by (simp add: dedup_layers_def capPerPage_def page_chunks_def keep_upto_count)

lemma dedup_layers_first:
  assumes "dedupBySource rs = r # l" "0 < orElse (maxPerPage opts) MAX_PER_PAGE"
  shows "r \<in> set (dedup_layers rs opts)"
proof -
  obtain l1 where l1: "dedupByTextSimilarity (dedupBySource rs) (orElse (cosineThreshold opts) COSINE_DEDUP_THRESHOLD) = r # l1"
    using similarity_first [OF assms(1)] by blast
  show ?thesis using assms(2) by (simp add: dedup_layers_def l1 enforceTypeDiversity_def capPerPage_def Let_def less_max_iff_disj)
qed

text \<open>C18: deduplication only selects: every result is one of the search, none twice, at most the cap of
  chunks per page; a page that is shown and has a compiled-truth chunk among the results shows one; and the
  page of a best-scored result is always shown.\<close>

theorem dedup_guarantees:
  assumes "rs \<noteq> []" "distinct rs" "0 < orElse (maxPerPage opts) MAX_PER_PAGE"
  shows "let out = dedupResults rs opts
    in set out \<subseteq> set rs \<and> distinct out \<and> (\<forall>k. length (page_chunks k out) \<le> orElse (maxPerPage opts) MAX_PER_PAGE)
      \<and> {k \<in> pageKey ` set out. \<exists>c \<in> set rs. pageKey c = k \<and> compiled c} \<subseteq> {k. \<exists>c \<in> set out. pageKey c = k \<and> compiled c}
      \<and> (\<exists>r \<in> set rs. pageKey r \<in> pageKey ` set out \<and> Max (sr_score ` set rs) = sr_score r)"
proof -
  let ?S = "dedup_layers rs opts" and ?out = "dedupResults rs opts"
  have chunks: "\<forall>k \<in> set (page_keys ?S). page_chunks k ?S = page_chunks k ?S" by simp
  note fold = guarantee_fold [OF set_page_keys(2) chunks, of rs, folded guaranteeCompiledTruth_def dedupResults_def]
  have keys: "map pageKey ?out = map pageKey ?S" and pages: "pageKey ` set ?out = pageKey ` set ?S"
    using fold by (simp, metis list.set_map)
  have sub: "set ?S \<subseteq> set rs" using list_emb_set [OF dedup_layers_subseq] dedupBySource_set by (metis subsetI subsetD)
  have count: "length (page_chunks k ?out) \<le> orElse (maxPerPage opts) MAX_PER_PAGE" for k
    using dedup_layers_page [of k rs opts] unfolding page_count keys .
  have dist: "distinct ?S" by (rule subseq_distinct [OF dedup_layers_subseq dedupBySource_distinct [OF assms(2)]])
  have truth: "\<exists>c \<in> set ?out. pageKey c = k \<and> compiled c"
    if "k \<in> pageKey ` set ?out" "\<exists>c \<in> set rs. pageKey c = k \<and> compiled c" for k
    using fold that unfolding pages set_page_keys by blast
  obtain r l where r: "dedupBySource rs = r # l" "r \<in> set rs" "\<And>x. x \<in> set rs \<Longrightarrow> sr_score x \<le> sr_score r"
    using dedupBySource_best [OF assms(1)] by blast
  have "Max (sr_score ` set rs) = sr_score r" by (rule Max_eqI) (use r in auto)
  then have "\<exists>r \<in> set rs. pageKey r \<in> pageKey ` set ?out \<and> Max (sr_score ` set rs) = sr_score r"
    using r(2) dedup_layers_first [OF r(1) assms(3)] unfolding pages by blast
  moreover have "{k \<in> pageKey ` set ?out. \<exists>c \<in> set rs. pageKey c = k \<and> compiled c}
      \<subseteq> {k. \<exists>c \<in> set ?out. pageKey c = k \<and> compiled c}"
    using truth by blast
  moreover have "set ?out \<subseteq> set rs" "distinct ?out" using fold sub dist by blast+
  ultimately show ?thesis using count unfolding Let_def by blast
qed

text \<open>No source id contains a colon, so the key of a page determines its source and its slug.\<close>

lemma pageKey_inj:
  assumes "CHR '':'' \<notin> set (orElse (sr_source a) ''default'')" "CHR '':'' \<notin> set (orElse (sr_source b) ''default'')"
    and "pageKey a = pageKey b"
  shows "orElse (sr_source a) ''default'' = orElse (sr_source b) ''default'' \<and> sr_slug a = sr_slug b"
  using first_sep_unique [OF assms(1,2)] assms(3) by (simp add: pageKey_def)

section \<open>Witnesses\<close>

definition demo_chunk :: "string \<Rightarrow> string \<Rightarrow> chunk_source \<Rightarrow> int \<Rightarrow> rat \<Rightarrow> search_result" where
  "demo_chunk slug text src i s =
     \<lparr>sr_slug = slug, sr_page_id = None, sr_title = slug, sr_type = ''note'', sr_text = text, sr_chunk_source = src, sr_chunk_id = Some i,
      sr_score = s, sr_unverified = False, sr_source = None, sr_rerank = None, sr_alias_hit = False\<rparr>"

lemma demo_keys:
  "rrfKey (demo_chunk ''a'' ''x'' Timeline 1 0) = ''default:a:1''" "rrfKey (demo_chunk ''b'' ''y'' Timeline 2 0) = ''default:b:2''"
  by code_simp+

theorem fusion_is_sum_witness:
  "mset (map rrfKey (rrfFusionWeighted [([demo_chunk ''a'' ''x'' Timeline 1 0, demo_chunk ''b'' ''y'' Timeline 2 0], 60),
        ([demo_chunk ''b'' ''y'' Timeline 2 0], 30)] True))
    = {#''default:a:1'', ''default:b:2''#}"
  using fusion_is_sum [of "[([demo_chunk ''a'' ''x'' Timeline 1 0, demo_chunk ''b'' ''y'' Timeline 2 0], 60),
      ([demo_chunk ''b'' ''y'' Timeline 2 0], 30)]" True, unfolded Let_def, THEN conjunct1]
  by (simp add: demo_keys)

theorem dedup_guarantees_witness:
  "let rs = [demo_chunk ''a'' ''x'' Timeline 1 9, demo_chunk ''a'' ''y'' Timeline 2 8, demo_chunk ''a'' ''z'' Timeline 3 7,
        demo_chunk ''a'' ''w'' CompiledTruth 4 1];
      out = dedupResults rs \<lparr>cosineThreshold = None, maxTypeRatio = None, maxPerPage = None\<rparr>
    in set out \<subseteq> set rs \<and> length (page_chunks ''default:a'' out) \<le> 2
      \<and> (\<exists>r \<in> set rs. pageKey r \<in> pageKey ` set out \<and> Max (sr_score ` set rs) = sr_score r)"
  using dedup_guarantees [of "[demo_chunk ''a'' ''x'' Timeline 1 9, demo_chunk ''a'' ''y'' Timeline 2 8,
      demo_chunk ''a'' ''z'' Timeline 3 7, demo_chunk ''a'' ''w'' CompiledTruth 4 1]"
      "\<lparr>cosineThreshold = None, maxTypeRatio = None, maxPerPage = None\<rparr>"]
  by (simp only: Let_def) (simp add: demo_chunk_def MAX_PER_PAGE_def)

end
