(* ===== verification/Search_Tail.thy ===== *)
theory Search_Tail
  imports Search_Ranking
begin

text \<open>
  The end of the search pipeline (\<open>src/core/search\<close>): the intent cap (return-policy.ts), the cut at the
  largest gap of the rerank scores (autocut.ts), the page, and the token budget (token-budget.ts), in the order in
  which \<open>hybridSearch\<close> applies them.  A rerank score is \<open>None\<close> when it is absent or not finite.
\<close>

section \<open>Token budget\<close>

definition estimateTokens :: "string option \<Rightarrow> nat" where
  "estimateTokens text = (case text of None \<Rightarrow> 0 | Some t \<Rightarrow> if t = [] then 0 else (length t + 3) div 4)"

definition resultTokens :: "search_result \<Rightarrow> nat" where
  "resultTokens r = estimateTokens (Some (sr_title r)) + estimateTokens (Some (sr_text r))"

record budget_meta =
  bm_budget :: rat
  bm_used :: nat
  bm_dropped :: nat
  bm_kept :: nat

fun greedy_budget :: "rat \<Rightarrow> search_result list \<Rightarrow> nat \<Rightarrow> search_result list \<Rightarrow> search_result list \<times> nat" where
  "greedy_budget safeBudget kept used [] = (kept, used)"
| "greedy_budget safeBudget kept used (r # rs) =
     (let cost = resultTokens r
      in if of_nat (used + cost) > safeBudget then (kept, used)
         else greedy_budget safeBudget (kept @ [r]) (used + cost) rs)"

definition enforceTokenBudget :: "search_result list \<Rightarrow> rat option \<Rightarrow> search_result list \<times> budget_meta" where
  "enforceTokenBudget results budget =
     (let safeBudget = (case budget of Some b \<Rightarrow> if b > 0 then b else 0 | None \<Rightarrow> 0)
      in if safeBudget = 0 \<or> results = []
         then (results, \<lparr>bm_budget = safeBudget, bm_used = sum_list (map resultTokens results), bm_dropped = 0,
                         bm_kept = length results\<rparr>)
         else let (kept, used) = greedy_budget safeBudget [] 0 results
              in (kept, \<lparr>bm_budget = safeBudget, bm_used = used, bm_dropped = length results - length kept,
                         bm_kept = length kept\<rparr>))"

section \<open>Intent cap\<close>

datatype query_intent = Entity | Temporal | Event | General

datatype config_value = CfgBool bool | CfgNumber rat | CfgOther

record adaptive_config =
  ar_enabled :: bool
  ar_entityMax :: int
  ar_otherMax :: int
  ar_minKeep :: int

definition DEFAULT_ADAPTIVE_RETURN :: adaptive_config where
  "DEFAULT_ADAPTIVE_RETURN = \<lparr>ar_enabled = False, ar_entityMax = 2, ar_otherMax = 6, ar_minKeep = 1\<rparr>"

record adaptive_partial =
  ap_enabled :: "bool option"
  ap_entityMax :: "int option"
  ap_otherMax :: "int option"
  ap_minKeep :: "int option"

text \<open>The argument of a call: absent, a switch, or a partial configuration.\<close>

datatype 'p per_call = NotGiven | Switch bool | Override 'p

definition clampInt :: "config_value \<Rightarrow> int \<Rightarrow> int \<Rightarrow> int" where
  "clampInt v fallback m = (case v of CfgNumber x \<Rightarrow> if \<lfloor>x\<rfloor> \<ge> m then \<lfloor>x\<rfloor> else fallback | _ \<Rightarrow> fallback)"

definition adaptiveReturnFromConfig :: "(string \<rightharpoonup> config_value) \<Rightarrow> adaptive_partial" where
  "adaptiveReturnFromConfig search =
     \<lparr>ap_enabled = (case search ''adaptive_return'' of Some (CfgBool b) \<Rightarrow> Some b | _ \<Rightarrow> None),
      ap_entityMax = map_option (\<lambda>v. clampInt v (ar_entityMax DEFAULT_ADAPTIVE_RETURN) 1) (search ''adaptive_return_entity_max''),
      ap_otherMax = map_option (\<lambda>v. clampInt v (ar_otherMax DEFAULT_ADAPTIVE_RETURN) 1) (search ''adaptive_return_other_max''),
      ap_minKeep = map_option (\<lambda>v. clampInt v (ar_minKeep DEFAULT_ADAPTIVE_RETURN) 1) (search ''adaptive_return_min_keep'')\<rparr>"

definition adaptive_spread :: "adaptive_config \<Rightarrow> adaptive_partial \<Rightarrow> adaptive_config" where
  "adaptive_spread base p =
     \<lparr>ar_enabled = orElse (ap_enabled p) (ar_enabled base), ar_entityMax = orElse (ap_entityMax p) (ar_entityMax base),
      ar_otherMax = orElse (ap_otherMax p) (ar_otherMax base), ar_minKeep = orElse (ap_minKeep p) (ar_minKeep base)\<rparr>"

definition resolveAdaptiveReturn :: "adaptive_partial per_call \<Rightarrow> adaptive_partial option \<Rightarrow> adaptive_config" where
  "resolveAdaptiveReturn perCall fromConfig =
     (let base = (case fromConfig of None \<Rightarrow> DEFAULT_ADAPTIVE_RETURN | Some p \<Rightarrow> adaptive_spread DEFAULT_ADAPTIVE_RETURN p)
      in case perCall of
           NotGiven \<Rightarrow> base
         | Switch b \<Rightarrow> base\<lparr>ar_enabled := b\<rparr>
         | Override p \<Rightarrow> adaptive_spread base p)"

definition adaptiveReturnEnabled :: "adaptive_partial per_call \<Rightarrow> (string \<rightharpoonup> config_value) \<Rightarrow> bool" where
  "adaptiveReturnEnabled perCall search = ar_enabled (resolveAdaptiveReturn perCall (Some (adaptiveReturnFromConfig search)))"

record adaptive_decision =
  ad_applied :: bool
  ad_intent :: query_intent
  ad_cap :: int
  ad_kept :: nat
  ad_total :: nat

definition applyAdaptiveReturn :: "'a list \<Rightarrow> query_intent \<Rightarrow> adaptive_config \<Rightarrow> 'a list \<times> adaptive_decision" where
  "applyAdaptiveReturn results intent cfg =
     (if \<not> ar_enabled cfg \<or> results = []
      then (results, \<lparr>ad_applied = False, ad_intent = intent, ad_cap = int (length results), ad_kept = length results,
                      ad_total = length results\<rparr>)
      else let cap = (if intent = Entity then ar_entityMax cfg else ar_otherMax cfg);
               minKeep = max 1 (ar_minKeep cfg);
               keep = max minKeep (min cap (int (length results)));
               kept = take (nat keep) results
           in (kept, \<lparr>ad_applied = True, ad_intent = intent, ad_cap = cap, ad_kept = length kept, ad_total = length results\<rparr>))"

section \<open>Autocut\<close>

record autocut_config =
  ac_enabled :: bool
  ac_jumpRatio :: rat
  ac_minKeep :: int

definition DEFAULT_AUTOCUT :: autocut_config where
  "DEFAULT_AUTOCUT = \<lparr>ac_enabled = True, ac_jumpRatio = 2 / 10, ac_minKeep = 1\<rparr>"

record autocut_partial =
  acp_enabled :: "bool option"
  acp_jumpRatio :: "rat option"
  acp_minKeep :: "int option"

definition autocutFromConfig :: "(string \<rightharpoonup> config_value) \<Rightarrow> autocut_partial" where
  "autocutFromConfig search =
     \<lparr>acp_enabled = (case search ''autocut'' of Some (CfgBool b) \<Rightarrow> Some b | _ \<Rightarrow> None),
      acp_jumpRatio = (case search ''autocut_jump'' of Some (CfgNumber n) \<Rightarrow> if n > 0 \<and> n \<le> 1 then Some n else None | _ \<Rightarrow> None),
      acp_minKeep = (case search ''autocut_min_keep'' of Some (CfgNumber n) \<Rightarrow> if \<lfloor>n\<rfloor> \<ge> 1 then Some \<lfloor>n\<rfloor> else None
                     | _ \<Rightarrow> None)\<rparr>"

definition autocut_spread :: "autocut_config \<Rightarrow> autocut_partial \<Rightarrow> autocut_config" where
  "autocut_spread base p =
     \<lparr>ac_enabled = orElse (acp_enabled p) (ac_enabled base), ac_jumpRatio = orElse (acp_jumpRatio p) (ac_jumpRatio base),
      ac_minKeep = orElse (acp_minKeep p) (ac_minKeep base)\<rparr>"

definition resolveAutocut :: "autocut_partial per_call \<Rightarrow> autocut_partial option \<Rightarrow> autocut_config" where
  "resolveAutocut perCall fromConfig =
     (let base = (case fromConfig of None \<Rightarrow> DEFAULT_AUTOCUT | Some p \<Rightarrow> autocut_spread DEFAULT_AUTOCUT p)
      in case perCall of
           NotGiven \<Rightarrow> base
         | Switch b \<Rightarrow> base\<lparr>ac_enabled := b\<rparr>
         | Override p \<Rightarrow> autocut_spread base p)"

datatype cut_signal = SignalRerank | SignalNone

record autocut_decision =
  acd_applied :: bool
  acd_signal :: cut_signal
  acd_cut :: nat
  acd_kept :: nat
  acd_total :: nat
  acd_gapRatio :: rat

definition noCut :: "'a list \<Rightarrow> rat \<Rightarrow> 'a list \<times> autocut_decision" where
  "noCut results gap =
     (results, \<lparr>acd_applied = False, acd_signal = SignalNone, acd_cut = length results, acd_kept = length results,
                acd_total = length results, acd_gapRatio = gap\<rparr>)"

definition noOp :: "'a list \<Rightarrow> 'a list \<times> autocut_decision" where
  "noOp results = noCut results 0"

definition scores_of :: "('a \<Rightarrow> rat option) \<Rightarrow> 'a list \<Rightarrow> rat list" where
  "scores_of scoreOf results = List.map_filter scoreOf results"

text \<open>The first largest gap among the cut points from \<open>from\<close> on; the index is \<open>None\<close> where the code has \<open>-1\<close>.\<close>

definition best_gap :: "rat list \<Rightarrow> nat \<Rightarrow> rat \<times> nat option" where
  "best_gap normed from =
     foldl (\<lambda>(bestGap, bestIdx) i.
         let gap = normed ! i - normed ! (i + 1) in if gap > bestGap then (gap, Some i) else (bestGap, bestIdx))
       (- 1, None) [from..<length normed - 1]"

definition applyAutocut ::
  "'a list \<Rightarrow> ('a \<Rightarrow> rat option) \<Rightarrow> autocut_config \<Rightarrow> ('a \<Rightarrow> bool) \<Rightarrow> 'a list \<times> autocut_decision" where
  "applyAutocut results scoreOf cfg preserve =
     (let scores = scores_of scoreOf results; top = Max (set scores)
      in if \<not> ac_enabled cfg \<or> length results < 2 \<or> length scores < 2 \<or> top \<le> 0 then noOp results
         else let sorted_scores = sort_desc id scores;
                  normed = map (\<lambda>s. s / top) sorted_scores;
                  minKeep = max 1 (ac_minKeep cfg);
                  (bestGap, bestIdx) = best_gap normed (nat (minKeep - 1))
              in case bestIdx of
                   None \<Rightarrow> noCut results (if bestGap < 0 then 0 else bestGap)
                 | Some i \<Rightarrow>
                     if bestGap < ac_jumpRatio cfg then noCut results (if bestGap < 0 then 0 else bestGap)
                     else let threshold = sorted_scores ! i;
                              kept = filter (\<lambda>r. preserve r \<or> (case scoreOf r of Some s \<Rightarrow> s \<ge> threshold | None \<Rightarrow> False)) results
                          in if kept = [] then noOp results
                             else (kept, \<lparr>acd_applied = length kept < length results,
                                          acd_signal = (if length kept < length results then SignalRerank else SignalNone),
                                          acd_cut = length kept, acd_kept = length kept, acd_total = length results,
                                          acd_gapRatio = bestGap\<rparr>))"

section \<open>The tail of a search\<close>

record tail_opts =
  to_adaptive :: adaptive_config
  to_intent :: query_intent
  to_autocut :: bool
  to_autocut_jump :: rat
  to_offset :: nat
  to_limit :: nat
  to_budget :: "rat option"

definition return_pool :: "tail_opts \<Rightarrow> search_result list \<Rightarrow> search_result list" where
  "return_pool o' aliasHopped =
     (let pool = (if ar_enabled (to_adaptive o') \<and> to_offset o' = 0
                  then fst (applyAdaptiveReturn aliasHopped (to_intent o') (to_adaptive o')) else aliasHopped)
      in if to_autocut o' \<and> to_offset o' = 0
         then fst (applyAutocut pool sr_rerank \<lparr>ac_enabled = True, ac_jumpRatio = to_autocut_jump o', ac_minKeep = 1\<rparr> sr_alias_hit)
         else pool)"

definition search_tail :: "tail_opts \<Rightarrow> search_result list \<Rightarrow> search_result list \<times> budget_meta" where
  "search_tail o' aliasHopped =
     enforceTokenBudget (take (to_limit o') (drop (to_offset o') (return_pool o' aliasHopped))) (to_budget o')"

section \<open>The budget keeps the longest prefix that fits\<close>

abbreviation token_sum :: "search_result list \<Rightarrow> nat" where
  "token_sum rs \<equiv> sum_list (map resultTokens rs)"

lemma greedy_budget_prefix:
  "\<exists>n \<le> length rs. greedy_budget b kept used rs = (kept @ take n rs, used + token_sum (take n rs))
    \<and> (of_nat used \<le> b \<longrightarrow> of_nat (used + token_sum (take n rs)) \<le> b)
    \<and> (n < length rs \<longrightarrow> of_nat (used + token_sum (take (Suc n) rs)) > b)"
proof (induction rs arbitrary: kept used)
  case (Cons r rs)
  show ?case
  proof (cases "of_nat (used + resultTokens r) > b")
    case True
    then show ?thesis by (intro exI [of _ 0]) simp
  next
    case False
    obtain n where "n \<le> length rs"
        "greedy_budget b (kept @ [r]) (used + resultTokens r) rs
          = ((kept @ [r]) @ take n rs, used + resultTokens r + token_sum (take n rs))"
        "of_nat (used + resultTokens r) \<le> b \<longrightarrow> of_nat (used + resultTokens r + token_sum (take n rs)) \<le> b"
        "n < length rs \<longrightarrow> of_nat (used + resultTokens r + token_sum (take (Suc n) rs)) > b"
      using Cons.IH [of "kept @ [r]" "used + resultTokens r"] by blast
    then show ?thesis using False by (intro exI [of _ "Suc n"]) (simp add: Let_def add.assoc)
  qed
qed simp

lemma enforceTokenBudget_prefix:
  "\<exists>n \<le> length results. fst (enforceTokenBudget results budget) = take n results
      \<and> (case budget of Some b \<Rightarrow> if b > 0 then of_nat (token_sum (take n results)) \<le> b else n = length results
         | None \<Rightarrow> n = length results)"
proof (cases "results = [] \<or> (case budget of Some b \<Rightarrow> b \<le> 0 | None \<Rightarrow> True)")
  case True
  then show ?thesis by (auto simp: enforceTokenBudget_def Let_def split: option.splits)
next
  case False
  then obtain b where b: "budget = Some b" "b > 0" "results \<noteq> []" by (cases budget) auto
  then show ?thesis
    using greedy_budget_prefix [of results b "[]" 0] by (auto simp: enforceTokenBudget_def)
qed

lemma budget_first_kept:
  "fst (enforceTokenBudget (r # rs) budget) = [] \<Longrightarrow> \<exists>b. budget = Some b \<and> of_nat (resultTokens r) > b"
proof -
  have "greedy_budget b [] 0 (r # rs) \<noteq> ([], u)" if "of_nat (resultTokens r) \<le> b" for b u
    using that greedy_budget_prefix [of rs b "[r]" "resultTokens r"] by (auto simp: Let_def)
  then show "fst (enforceTokenBudget (r # rs) budget) = [] \<Longrightarrow> ?thesis"
    by (auto simp: enforceTokenBudget_def Let_def not_less split: option.splits if_splits prod.splits)
qed

lemma token_sum_mono: "m \<le> n \<Longrightarrow> token_sum (take m rs) \<le> token_sum (take n rs)"
  by (metis le_add1 le_add_diff_inverse map_append sum_list.append take_add)

text \<open>The budget keeps the longest prefix of the ranked results that fits: with a positive budget the kept results are
  the first \<open>n\<close>, their tokens fit, the prefix of any larger length does not fit, and the counts of the
  report add up; without one all results are kept.\<close>

theorem budget_keeps_longest_prefix:
  "let (kept, meta) = enforceTokenBudget results budget
   in (\<exists>n \<le> length results. kept = take n results \<and> bm_kept meta = n \<and> bm_dropped meta = length results - n
        \<and> bm_used meta = token_sum kept
        \<and> (case budget of Some b \<Rightarrow>
              if b > 0 then of_nat (bm_used meta) \<le> b \<and> {m. m \<le> length results \<and> of_nat (token_sum (take m results)) \<le> b} = {..n}
              else n = length results
            | None \<Rightarrow> n = length results))"
proof (cases "results = [] \<or> (case budget of Some b \<Rightarrow> b \<le> 0 | None \<Rightarrow> True)")
  case True
  then show ?thesis by (auto simp: enforceTokenBudget_def Let_def split: option.splits)
next
  case False
  then obtain b where b: "budget = Some b" "b > 0" "results \<noteq> []" by (cases budget) auto
  obtain n where n: "n \<le> length results" "greedy_budget b [] 0 results = (take n results, token_sum (take n results))"
      "of_nat (token_sum (take n results)) \<le> b" "n < length results \<longrightarrow> of_nat (token_sum (take (Suc n) results)) > b"
    using greedy_budget_prefix [of results b "[]" 0] b(2) by auto
  have "m \<le> n" if "m \<le> length results" "of_nat (token_sum (take m results)) \<le> b" for m
  proof (rule ccontr)
    assume "\<not> m \<le> n"
    then have "token_sum (take (Suc n) results) \<le> token_sum (take m results)" by (intro token_sum_mono) simp
    then show False using n(4) that \<open>\<not> m \<le> n\<close> by (meson leD le_less_trans less_le_trans not_le of_nat_le_iff order_trans)
  qed
  moreover have "of_nat (token_sum (take m results)) \<le> b" if "m \<le> n" for m
    using n(3) token_sum_mono [OF that, of results] by (meson of_nat_mono order_trans)
  ultimately have "{m. m \<le> length results \<and> of_nat (token_sum (take m results)) \<le> b} = {..n}" using n(1) by fastforce
  then show ?thesis using b n by (auto simp: enforceTokenBudget_def intro!: exI [of _ n])
qed

section \<open>Autocut cuts at a cliff\<close>

lemma best_gap_fold:
  fixes normed :: "rat list"
  defines "gap \<equiv> (\<lambda>i. normed ! i - normed ! (i + 1))"
  assumes "best_gap normed from = (g, Some i)"
  shows "from \<le> i \<and> i + 1 < length normed \<and> g = gap i"
proof -
  have "case foldl (\<lambda>(bestGap, bestIdx) i. let gap = normed ! i - normed ! (i + 1)
        in if gap > bestGap then (gap, Some i) else (bestGap, bestIdx)) (- 1, None) is of
      (g, None) \<Rightarrow> True | (g, Some i) \<Rightarrow> i \<in> set is \<and> g = gap i" for "is"
    by (induction "is" rule: rev_induct) (auto simp: gap_def Let_def split: prod.splits option.splits)
  from this [of "[from..<length normed - 1]"] show ?thesis using assms(2) by (simp add: best_gap_def) auto
qed

lemma sort_desc_nth: "i \<le> j \<Longrightarrow> j < length xs \<Longrightarrow> f (sort_desc f xs ! j) \<le> f (sort_desc f xs ! i)"
  using sort_desc_sorted [of f xs] by (cases "i = j") (auto simp: sorted_wrt_iff_nth_less)

lemma set_scores_of: "set (scores_of scoreOf results) = {s. \<exists>r \<in> set results. scoreOf r = Some s}"
  by (auto simp: scores_of_def List.map_filter_def) (force simp: image_iff)

text \<open>When the list is cut, the cut is at a drop of at least the ratio of the best score.\<close>

lemma autocut_cases:
  obtains (uncut) "fst (applyAutocut results scoreOf cfg preserve) = results"
    | (cut) threshold i where
        "fst (applyAutocut results scoreOf cfg preserve)
          = filter (\<lambda>r. preserve r \<or> (case scoreOf r of Some s \<Rightarrow> s \<ge> threshold | None \<Rightarrow> False)) results"
        "threshold = sort_desc id (scores_of scoreOf results) ! i" "ac_minKeep cfg \<le> int i + 1"
        "i + 1 < length (scores_of scoreOf results)" "0 < Max (set (scores_of scoreOf results))"
        "ac_jumpRatio cfg * Max (set (scores_of scoreOf results))
          \<le> threshold - sort_desc id (scores_of scoreOf results) ! (i + 1)"
proof -
  let ?scores = "scores_of scoreOf results" and ?cut = "applyAutocut results scoreOf cfg preserve"
  let ?sorted = "sort_desc id ?scores" and ?top = "Max (set ?scores)"
  let ?norm = "map (\<lambda>s. s / ?top) ?sorted"
  obtain g idx where bg: "best_gap ?norm (nat (max 1 (ac_minKeep cfg) - 1)) = (g, idx)" by force
  let ?kept = "\<lambda>i. filter (\<lambda>r. preserve r \<or> (case scoreOf r of Some s \<Rightarrow> s \<ge> ?sorted ! i | None \<Rightarrow> False)) results"
  consider "fst ?cut = results" | i where "idx = Some i" "ac_jumpRatio cfg \<le> g" "0 < ?top" "fst ?cut = ?kept i"
  proof (cases "\<not> ac_enabled cfg \<or> length results < 2 \<or> length ?scores < 2 \<or> ?top \<le> 0")
    case True
    then have "fst ?cut = results" unfolding applyAutocut_def Let_def noOp_def noCut_def by (simp only: if_True fst_conv)
    then show thesis by (rule that(1))
  next
    case False
    note cut = applyAutocut_def [of results scoreOf cfg preserve, unfolded Let_def if_not_P [OF False] bg prod.case]
    show thesis
    proof (cases idx)
      case None
      then have "fst ?cut = results" unfolding cut by (simp add: noCut_def)
      then show thesis by (rule that(1))
    next
      case (Some i)
      show thesis
      proof (cases "g < ac_jumpRatio cfg \<or> ?kept i = []")
        case True
        then have "fst ?cut = results" unfolding cut Some by (auto simp: noCut_def noOp_def)
        then show thesis by (rule that(1))
      next
        case kept: False
        then have "fst ?cut = ?kept i" unfolding cut Some by simp
        then show thesis using that(2) [OF Some] kept False by simp
      qed
    qed
  qed
  then show thesis
  proof cases
    case 1
    then show thesis by (rule uncut)
  next
    case (2 i)
    have i: "nat (max 1 (ac_minKeep cfg) - 1) \<le> i" "i + 1 < length ?scores" "g = ?norm ! i - ?norm ! (i + 1)"
      using best_gap_fold [OF bg [unfolded 2(1)]] by simp_all
    then have "g = (?sorted ! i - ?sorted ! (i + 1)) / ?top" by (simp add: diff_divide_distrib)
    then have "ac_jumpRatio cfg * ?top \<le> ?sorted ! i - ?sorted ! (i + 1)" using 2(2,3) by (simp add: pos_le_divide_eq)
    then show thesis using cut [of "?sorted ! i" i] 2 i by simp
  qed
qed

lemma filter_cut_eq:
  "filter (\<lambda>r. preserve r \<or> (case scoreOf r of Some s \<Rightarrow> s \<ge> t | None \<Rightarrow> False)) results
    = filter (\<lambda>r. preserve r \<or> r \<in> {r. \<exists>s \<ge> t. scoreOf r = Some s}) results"
  by (rule filter_cong) (auto split: option.splits)

lemma sorted_prefix_count:
  assumes "i < length xs"
  shows "i + 1 \<le> length (filter (\<lambda>s. sort_desc id xs ! i \<le> s) xs)"
proof -
  let ?P = "\<lambda>s. sort_desc id xs ! i \<le> s"
  have "\<forall>s \<in> set (take (Suc i) (sort_desc id xs)). ?P s"
    using sort_desc_nth [of _ i xs id] assms by (auto simp: in_set_conv_nth less_Suc_eq_le)
  then have "length (filter ?P (take (Suc i) (sort_desc id xs))) = Suc i" using assms by simp
  moreover have "length (filter P ys) = length (filter P (take n ys)) + length (filter P (drop n ys))" for P n and ys :: "rat list"
    using arg_cong [OF filter_append [of P "take n ys" "drop n ys"], of length] by simp
  from this [of ?P "sort_desc id xs" "Suc i"]
  have "length (filter ?P (take (Suc i) (sort_desc id xs))) \<le> length (filter ?P (sort_desc id xs))" by simp
  ultimately show ?thesis by (simp add: sort_desc_filter_length)
qed

text \<open>Autocut cuts only at a cliff: when it drops anything, there is a threshold such that exactly the results scored at or
  above it and the preserved ones are kept, at least \<open>minKeep\<close> scores reach it, and every score below it is
  lower by at least the configured share of the best score.\<close>

theorem autocut_cliff:
  assumes "fst (applyAutocut results scoreOf cfg preserve) \<noteq> results"
  shows "\<exists>t. fst (applyAutocut results scoreOf cfg preserve)
        = filter (\<lambda>r. preserve r \<or> r \<in> {r. \<exists>s \<ge> t. scoreOf r = Some s}) results
      \<and> {s \<in> set (scores_of scoreOf results). s < t}
          \<subseteq> {s. s + ac_jumpRatio cfg * Max (set (scores_of scoreOf results)) \<le> t}
      \<and> t \<in> set (scores_of scoreOf results)
      \<and> ac_minKeep cfg \<le> int (length (filter (\<lambda>s. t \<le> s) (scores_of scoreOf results)))"
proof (cases rule: autocut_cases [of results scoreOf cfg preserve])
  case uncut
  then show ?thesis using assms by simp
next
  case (cut t i)
  let ?scores = "scores_of scoreOf results"
  have "s + ac_jumpRatio cfg * Max (set ?scores) \<le> t" if "s \<in> set ?scores" "s < t" for s
  proof -
    have "s \<in> set (sort_desc id ?scores)" using that(1) by simp
    then obtain j where j: "j < length ?scores" "s = sort_desc id ?scores ! j" unfolding in_set_conv_nth by auto
    have "\<not> j \<le> i"
      using sort_desc_nth [of j i ?scores id] cut(2,4) j that(2) by auto
    then have "s \<le> sort_desc id ?scores ! (i + 1)" using sort_desc_nth [of "i + 1" j ?scores id] j by simp
    then show ?thesis using cut(6) by simp
  qed
  moreover have "t \<in> set ?scores" unfolding cut(2) using cut(4) nth_mem [of i "sort_desc id ?scores"] by simp
  moreover have "ac_minKeep cfg \<le> int (length (filter (\<lambda>s. t \<le> s) ?scores))"
    using sorted_prefix_count [of i ?scores] cut(2-4) by simp
  ultimately show ?thesis using cut(1) [unfolded filter_cut_eq] by blast
qed

lemma autocut_not_empty: "results \<noteq> [] \<Longrightarrow> fst (applyAutocut results scoreOf cfg preserve) \<noteq> []"
proof (cases rule: autocut_cases [of results scoreOf cfg preserve])
  case (cut t i)
  have "t \<in> set (scores_of scoreOf results)"
    unfolding cut(2) using cut(4) nth_mem [of i "sort_desc id (scores_of scoreOf results)"] by simp
  then obtain r where "r \<in> set results" "scoreOf r = Some t" by (auto simp: set_scores_of)
  then show ?thesis unfolding cut(1) filter_cut_eq by (auto simp: filter_empty_conv)
qed simp

lemma autocut_preserves: "r \<in> set results \<Longrightarrow> preserve r \<Longrightarrow> r \<in> set (fst (applyAutocut results scoreOf cfg preserve))"
  by (cases rule: autocut_cases [of results scoreOf cfg preserve]) auto

lemma autocut_subseq: "subseq (fst (applyAutocut results scoreOf cfg preserve)) results"
  by (cases rule: autocut_cases [of results scoreOf cfg preserve]) (auto simp: subseq_filter_left)

lemma adaptive_prefix: "\<exists>n. fst (applyAdaptiveReturn results intent cfg) = take n results"
  by (auto simp: applyAdaptiveReturn_def Let_def intro: exI [of _ "length results"])

lemma adaptive_not_empty: "results \<noteq> [] \<Longrightarrow> fst (applyAdaptiveReturn results intent cfg) \<noteq> []"
  by (auto simp: applyAdaptiveReturn_def Let_def)

section \<open>What a page of results is\<close>

lemma return_pool_subseq: "subseq (return_pool o' rs) rs"
proof -
  have capped: "subseq (fst (applyAdaptiveReturn rs (to_intent o') (to_adaptive o'))) rs"
    using adaptive_prefix [of rs "to_intent o'" "to_adaptive o'"] by (metis prefix_imp_subseq take_is_prefix)
  have "subseq ys rs \<Longrightarrow> subseq (fst (applyAutocut ys sr_rerank c sr_alias_hit)) rs" for ys c
    by (rule subseq_order.trans [OF autocut_subseq])
  then show ?thesis using capped by (simp add: return_pool_def Let_def)
qed

lemma return_pool_not_empty: "rs \<noteq> [] \<Longrightarrow> return_pool o' rs \<noteq> []"
  by (auto simp: return_pool_def Let_def adaptive_not_empty autocut_not_empty)


section \<open>Witnesses\<close>

definition scored_chunk :: "string \<Rightarrow> rat \<Rightarrow> search_result" where
  "scored_chunk slug s = (demo_chunk slug ''some text'' Timeline 1 s)\<lparr>sr_rerank := Some s\<rparr>"

theorem autocut_cliff_witness:
  "fst (applyAutocut [9, 8, 1 :: rat] Some DEFAULT_AUTOCUT (\<lambda>_. False)) = [9, 8]
    \<and> (\<exists>t. filter (\<lambda>r. False \<or> r \<in> {r. \<exists>s \<ge> t. Some r = Some s}) [9, 8, 1 :: rat] = [9, 8])"
proof -
  have cut: "fst (applyAutocut [9, 8, 1 :: rat] Some DEFAULT_AUTOCUT (\<lambda>_. False)) = [9, 8]"
    by (simp add: applyAutocut_def Let_def scores_of_def List.map_filter_def DEFAULT_AUTOCUT_def sort_desc_def best_gap_def upt_rec)
  then have "fst (applyAutocut [9, 8, 1 :: rat] Some DEFAULT_AUTOCUT (\<lambda>_. False)) \<noteq> [9, 8, 1]" by simp
  from autocut_cliff [OF this] obtain t where
      "fst (applyAutocut [9, 8, 1] Some DEFAULT_AUTOCUT (\<lambda>_. False))
        = filter (\<lambda>r. False \<or> r \<in> {r. \<exists>s \<ge> t. Some r = Some s}) [9, 8, 1 :: rat]"
    by blast
  then have "filter (\<lambda>r. False \<or> r \<in> {r. \<exists>s \<ge> t. Some r = Some s}) [9, 8, 1 :: rat] = [9, 8]" unfolding cut by (rule sym)
  then show ?thesis using cut by blast
qed


end
