(* ===== verification/Query_Cache.thy ===== *)
theory Query_Cache
  imports Search_Tail Access_Control
begin

text \<open>
  The semantic query cache (\<open>src/core/search/query-cache.ts\<close>, query-cache-gate.ts, \<open>cacheScopeKey\<close> of hybrid.ts) and
  the pages it is kept fresh against, with the two triggers on the pages (schema.sql).  The columns that the row
  trigger watches are one value \<open>p_content\<close>; embeddings are of a type \<open>'e\<close> with a distance \<open>distance\<close> given as an
  argument, and so is SHA-256.  Times are in seconds.
\<close>

section \<open>The scope key\<close>

definition cacheScopeKey :: "read_scope \<Rightarrow> string" where
  "cacheScopeKey scope =
     (case sc_sources scope of
        Some ss \<Rightarrow> if ss \<noteq> [] then ''__set__:'' @ join_with CHR '','' (sort ss) else orElse (sc_source scope) ''default''
      | None \<Rightarrow> orElse (sc_source scope) ''default'')"

section \<open>Pages and the cache\<close>

record 'c page_row =
  p_id :: int
  p_slug :: string
  p_content :: 'c
  p_gen :: int

record 'e cache_row =
  qc_id :: string
  qc_text :: string
  qc_source :: string
  qc_knobs :: string
  qc_embedding :: "'e option"
  qc_results :: "search_result list"
  qc_ttl :: int
  qc_pages :: "(int \<times> int) list"
  qc_clock :: int
  qc_created :: int
  qc_hits :: nat

record ('c, 'e) brain =
  pages :: "'c page_row list"
  next_page_id :: int
  clock :: int
  cache :: "'e cache_row list"

definition DEFAULT_SIMILARITY_THRESHOLD :: rat where "DEFAULT_SIMILARITY_THRESHOLD = 92 / 100"
definition DEFAULT_TTL_SECONDS :: int where "DEFAULT_TTL_SECONDS = 3600"

definition clampThreshold :: "rat option \<Rightarrow> rat" where
  "clampThreshold v = (case v of None \<Rightarrow> DEFAULT_SIMILARITY_THRESHOLD | Some x \<Rightarrow> max (1 / 2) (min (999 / 1000) x))"

definition clampTtl :: "rat option \<Rightarrow> int" where
  "clampTtl v = (case v of None \<Rightarrow> DEFAULT_TTL_SECONDS
     | Some x \<Rightarrow> if x \<le> 0 then DEFAULT_TTL_SECONDS else min (60 * 60 * 24 * 30) \<lfloor>x\<rfloor>)"

record cache_config =
  cc_enabled :: bool
  cc_threshold :: rat
  cc_ttl :: int

text \<open>The constructor of \<open>SemanticQueryCache\<close>.\<close>

definition new_cache :: "bool option \<Rightarrow> rat option \<Rightarrow> rat option \<Rightarrow> cache_config" where
  "new_cache en thr ttl = \<lparr>cc_enabled = orElse en True, cc_threshold = clampThreshold thr, cc_ttl = clampTtl ttl\<rparr>"

definition cacheRowId :: "(string \<Rightarrow> string) \<Rightarrow> string \<Rightarrow> string \<Rightarrow> string \<Rightarrow> string" where
  "cacheRowId sha text source knobs = take 32 (sha (source @ ''::'' @ text @ ''::'' @ knobs))"

section \<open>Writes to pages\<close>

text \<open>An \<open>INSERT\<close>, \<open>UPDATE\<close> or \<open>DELETE\<close> statement: the row trigger sets the generation of an inserted row and raises that of
  a row with a watched column changed; the statement trigger advances the clock once, also when no row is hit.\<close>

definition max_gen :: "'c page_row list \<Rightarrow> int" where
  "max_gen ps = foldr (\<lambda>p m. max (p_gen p) m) ps 0"

definition insert_page :: "string \<Rightarrow> 'c \<Rightarrow> ('c, 'e) brain \<Rightarrow> ('c, 'e) brain" where
  "insert_page slug content b =
     b\<lparr>pages := pages b @ [\<lparr>p_id = next_page_id b, p_slug = slug, p_content = content, p_gen = max_gen (pages b) + 1\<rparr>],
       next_page_id := next_page_id b + 1, clock := clock b + 1\<rparr>"

definition bump_page_generation :: "'c page_row \<Rightarrow> 'c page_row \<Rightarrow> 'c page_row" where
  "bump_page_generation old new = (if p_content old \<noteq> p_content new then new\<lparr>p_gen := p_gen old + 1\<rparr> else new)"

text \<open>An update computes new slugs and contents of the rows that it selects; ids and generations are not assigned.\<close>

definition update_pages ::
  "('c page_row \<Rightarrow> bool) \<Rightarrow> ('c page_row \<Rightarrow> string \<times> 'c) \<Rightarrow> ('c, 'e) brain \<Rightarrow> ('c, 'e) brain" where
  "update_pages P f b =
     b\<lparr>pages := update_where P (\<lambda>p. bump_page_generation p (p\<lparr>p_slug := fst (f p), p_content := snd (f p)\<rparr>)) (pages b),
       clock := clock b + 1\<rparr>"

definition delete_pages :: "('c page_row \<Rightarrow> bool) \<Rightarrow> ('c, 'e) brain \<Rightarrow> ('c, 'e) brain" where
  "delete_pages P b = b\<lparr>pages := delete_where P (pages b), clock := clock b + 1\<rparr>"

section \<open>The operations of the cache\<close>

definition buildPageGenerationsSnapshot :: "('c, 'e) brain \<Rightarrow> int list \<Rightarrow> (int \<times> int) list \<times> int" where
  "buildPageGenerationsSnapshot b ids =
     (map (\<lambda>p. (p_id p, p_gen p)) (filter (\<lambda>p. p_id p \<in> set ids) (pages b)), clock b)"

definition cache_gate :: "('c, 'e) brain \<Rightarrow> 'e cache_row \<Rightarrow> bool" where
  "cache_gate b q \<longleftrightarrow>
     clock b \<le> qc_clock q
     \<or> (qc_pages q \<noteq> []
        \<and> list_all (\<lambda>(i, g). case find (\<lambda>p. p_id p = i) (pages b) of None \<Rightarrow> False | Some p \<Rightarrow> p_gen p = g) (qc_pages q))"

definition validateCacheRowAgainstPages :: "(int \<times> int) list \<times> int \<Rightarrow> int \<times> (int \<rightharpoonup> int) \<Rightarrow> bool" where
  "validateCacheRowAgainstPages snapshot current =
     (if fst current \<le> snd snapshot then True
      else if fst snapshot = [] then False
      else list_all (\<lambda>(i, g). case snd current i of None \<Rightarrow> False | Some g' \<Rightarrow> g' = g) (fst snapshot))"

definition lookup ::
  "('e \<Rightarrow> 'e \<Rightarrow> rat) \<Rightarrow> cache_config \<Rightarrow> int \<Rightarrow> 'e option \<Rightarrow> string \<Rightarrow> string \<Rightarrow> ('c, 'e) brain \<Rightarrow> 'e cache_row option" where
  "lookup distance cc now emb source knobs b =
     (case emb of
        None \<Rightarrow> None
      | Some e \<Rightarrow>
          if \<not> cc_enabled cc then None
          else let near = (\<lambda>q. case qc_embedding q of None \<Rightarrow> 0 | Some e' \<Rightarrow> distance e' e)
               in first_min (\<lambda>q q'. near q < near q')
                    (filter (\<lambda>q. qc_source q = source \<and> qc_knobs q = knobs \<and> qc_embedding q \<noteq> None
                               \<and> near q < 1 - cc_threshold cc \<and> qc_created q + qc_ttl q > now \<and> cache_gate b q) (cache b)))"

definition bumpHit :: "string \<Rightarrow> ('c, 'e) brain \<Rightarrow> ('c, 'e) brain" where
  "bumpHit i b = b\<lparr>cache := update_where (\<lambda>q. qc_id q = i) (\<lambda>q. q\<lparr>qc_hits := qc_hits q + 1\<rparr>) (cache b)\<rparr>"

text \<open>\<open>ON CONFLICT (id) DO UPDATE\<close> sets every stored column except the scope key.\<close>

definition store ::
  "(string \<Rightarrow> string) \<Rightarrow> cache_config \<Rightarrow> int \<Rightarrow> string \<Rightarrow> 'e option \<Rightarrow> search_result list \<Rightarrow> string \<Rightarrow> rat option \<Rightarrow> string
    \<Rightarrow> ('c, 'e) brain \<Rightarrow> ('c, 'e) brain" where
  "store sha cc now text emb results source ttlOpt knobs b =
     (case emb of
        None \<Rightarrow> b
      | Some e \<Rightarrow>
          if \<not> cc_enabled cc then b
          else let ttl = clampTtl (Some (orElse ttlOpt (of_int (cc_ttl cc))));
                   i = cacheRowId sha text source knobs;
                   (snap, stamp) = buildPageGenerationsSnapshot b (List.map_filter sr_page_id results);
                   row = \<lparr>qc_id = i, qc_text = text, qc_source = source, qc_knobs = knobs, qc_embedding = Some e,
                          qc_results = results, qc_ttl = ttl, qc_pages = snap, qc_clock = stamp, qc_created = now, qc_hits = 0\<rparr>
               in if list_ex (\<lambda>q. qc_id q = i) (cache b)
                  then b\<lparr>cache := update_where (\<lambda>q. qc_id q = i)
                           (\<lambda>q. row\<lparr>qc_source := qc_source q, qc_hits := qc_hits q\<rparr>) (cache b)\<rparr>
                  else b\<lparr>cache := cache b @ [row]\<rparr>)"

definition clear_cache :: "string option \<Rightarrow> ('c, 'e) brain \<Rightarrow> nat \<times> ('c, 'e) brain" where
  "clear_cache source b =
     (let P = (\<lambda>q. case source of Some s \<Rightarrow> if s \<noteq> [] then qc_source q = s else True | None \<Rightarrow> True)
      in (length (filter P (cache b)), b\<lparr>cache := delete_where P (cache b)\<rparr>))"

definition prune_cache :: "int \<Rightarrow> ('c, 'e) brain \<Rightarrow> nat \<times> ('c, 'e) brain" where
  "prune_cache now b =
     (let P = (\<lambda>q. qc_created q + qc_ttl q \<le> now) in (length (filter P (cache b)), b\<lparr>cache := delete_where P (cache b)\<rparr>))"

record cache_stats =
  total_rows :: nat
  total_hits :: nat
  fresh_rows :: nat
  stale_rows :: nat

definition stats :: "int \<Rightarrow> ('c, 'e) brain \<Rightarrow> cache_stats" where
  "stats now b =
     \<lparr>total_rows = length (cache b), total_hits = sum_list (map qc_hits (cache b)),
      fresh_rows = length (filter (\<lambda>q. qc_created q + qc_ttl q > now) (cache b)),
      stale_rows = length (filter (\<lambda>q. qc_created q + qc_ttl q \<le> now) (cache b))\<rparr>"

text \<open>The part of \<open>hybridSearchCached\<close> around the search, when the vector search is available.  A hit serves the page of the
  stored results, a miss runs the search, which returns the page itself, and stores a result that is not empty.\<close>

definition cached_search ::
  "(string \<Rightarrow> string) \<Rightarrow> ('e \<Rightarrow> 'e \<Rightarrow> rat) \<Rightarrow> cache_config \<Rightarrow> int \<Rightarrow> string \<Rightarrow> 'e \<Rightarrow> read_scope \<Rightarrow> string \<Rightarrow> nat \<Rightarrow> nat \<Rightarrow> rat option
    \<Rightarrow> (read_scope \<Rightarrow> nat \<Rightarrow> search_result list) \<Rightarrow> ('c, 'e) brain \<Rightarrow> search_result list \<times> ('c, 'e) brain" where
  "cached_search sha distance cc now text e scope knobs offset pageLimit budget search b =
     (case lookup distance cc now (Some e) (cacheScopeKey scope) knobs b of
        Some q \<Rightarrow> (fst (enforceTokenBudget (take pageLimit (drop offset (qc_results q))) budget), bumpHit (qc_id q) b)
      | None \<Rightarrow>
          let results = search scope offset
          in (fst (enforceTokenBudget results budget),
              if results \<noteq> [] then store sha cc now text (Some e) results (cacheScopeKey scope) None knobs b else b))"

section \<open>Runs\<close>

text \<open>The server writes pages, searches through the cache and maintains it.  \<open>S\<close> are the scopes under which searches are made,
  \<open>K\<close> the strings that are hashed; a search reads only within its scope, as the engines' filters do.\<close>

definition result_source :: "search_result \<Rightarrow> string" where
  "result_source r = orElse (sr_source r) ''default''"

inductive cache_step ::
  "(string \<Rightarrow> string) \<Rightarrow> ('e \<Rightarrow> 'e \<Rightarrow> rat) \<Rightarrow> string set \<Rightarrow> read_scope set \<Rightarrow> ('c, 'e) brain \<Rightarrow> ('c, 'e) brain \<Rightarrow> bool"
  for sha distance K S where
  c_insert: "cache_step sha distance K S b (insert_page slug content b)"
| c_update: "cache_step sha distance K S b (update_pages P f b)"
| c_delete: "cache_step sha distance K S b (delete_pages P b)"
| c_search: "scope \<in> S \<Longrightarrow> cacheScopeKey scope @ ''::'' @ text @ ''::'' @ knobs \<in> K \<Longrightarrow>
    \<forall>r \<in> set (search scope offset). reads scope (result_source r) \<Longrightarrow>
    cache_step sha distance K S b (snd (cached_search sha distance cc now text e scope knobs offset pageLimit budget search b))"
| c_prune: "cache_step sha distance K S b (snd (prune_cache now b))"
| c_clear: "cache_step sha distance K S b (snd (clear_cache source b))"

definition fresh_brain :: "('c, 'e) brain \<Rightarrow> bool" where
  "fresh_brain b \<longleftrightarrow> pages b = [] \<and> cache b = []"

definition pages_ok :: "('c, 'e) brain \<Rightarrow> bool" where
  "pages_ok b \<longleftrightarrow> distinct (map p_id (pages b)) \<and> (\<forall>p \<in> set (pages b). p_id p < next_page_id b)"

lemma store_pages [simp]:
  "pages (store sha cc now text emb results source ttl knobs b) = pages b"
  "clock (store sha cc now text emb results source ttl knobs b) = clock b"
  "next_page_id (store sha cc now text emb results source ttl knobs b) = next_page_id b"
  by (simp_all add: store_def Let_def buildPageGenerationsSnapshot_def split: option.split)

lemma bump_pages [simp]:
  "pages (bumpHit i b) = pages b" "clock (bumpHit i b) = clock b" "next_page_id (bumpHit i b) = next_page_id b"
  by (simp_all add: bumpHit_def)

lemma cached_search_pages [simp]:
  "pages (snd (cached_search sha distance cc now text e scope knobs offset pageLimit budget search b)) = pages b"
  "clock (snd (cached_search sha distance cc now text e scope knobs offset pageLimit budget search b)) = clock b"
  "next_page_id (snd (cached_search sha distance cc now text e scope knobs offset pageLimit budget search b)) = next_page_id b"
  by (simp_all add: cached_search_def Let_def split: option.split)

lemma maintenance_pages [simp]:
  "pages (snd (prune_cache now b)) = pages b" "clock (snd (prune_cache now b)) = clock b"
  "next_page_id (snd (prune_cache now b)) = next_page_id b"
  "pages (snd (clear_cache source b)) = pages b" "clock (snd (clear_cache source b)) = clock b"
  "next_page_id (snd (clear_cache source b)) = next_page_id b"
  by (simp_all add: prune_cache_def clear_cache_def Let_def)

lemma bump_page_simps [simp]:
  "p_id (bump_page_generation p (p\<lparr>p_slug := s, p_content := c\<rparr>)) = p_id p"
  "p_content (bump_page_generation p (p\<lparr>p_slug := s, p_content := c\<rparr>)) = c"
  "p_gen (bump_page_generation p (p\<lparr>p_slug := s, p_content := c\<rparr>)) = (if p_content p \<noteq> c then p_gen p + 1 else p_gen p)"
  by (simp_all add: bump_page_generation_def)

text \<open>What one state may become: page ids are not reused, a statement advances the clock, and a page keeps its generation
  only with its content.\<close>

definition becomes :: "('c, 'e) brain \<Rightarrow> ('c, 'e) brain \<Rightarrow> bool" where
  "becomes b0 b1 \<longleftrightarrow>
     next_page_id b0 \<le> next_page_id b1 \<and> clock b0 \<le> clock b1 \<and> (clock b1 = clock b0 \<longrightarrow> pages b1 = pages b0)
     \<and> (\<forall>p1 \<in> set (pages b1). p_id p1 < next_page_id b0 \<longrightarrow>
          (\<exists>p0 \<in> set (pages b0). p_id p0 = p_id p1 \<and> p_gen p0 \<le> p_gen p1 \<and> (p_gen p1 = p_gen p0 \<longrightarrow> p_content p1 = p_content p0)))"

lemma becomes_refl [simp]: "becomes b b"
  by (auto simp: becomes_def)

lemma becomes_trans: "becomes a b \<Longrightarrow> becomes b c \<Longrightarrow> becomes a c"
proof -
  assume ab: "becomes a b" and bc: "becomes b c"
  have "\<exists>p0 \<in> set (pages a). p_id p0 = p_id p \<and> p_gen p0 \<le> p_gen p \<and> (p_gen p = p_gen p0 \<longrightarrow> p_content p = p_content p0)"
    if p: "p \<in> set (pages c)" "p_id p < next_page_id a" for p
  proof -
    obtain q where q: "q \<in> set (pages b)" "p_id q = p_id p" "p_gen q \<le> p_gen p" "p_gen p = p_gen q \<longrightarrow> p_content p = p_content q"
      using bc p ab unfolding becomes_def by (meson order_less_le_trans)
    then obtain r where "r \<in> set (pages a)" "p_id r = p_id q" "p_gen r \<le> p_gen q" "p_gen q = p_gen r \<longrightarrow> p_content q = p_content r"
      using ab p(2) unfolding becomes_def by metis
    then show ?thesis using q by (intro bexI [of _ r]) auto
  qed
  then show ?thesis using ab bc unfolding becomes_def by (auto intro: order_trans)
qed

lemma step_becomes: "cache_step sha distance K S b c \<Longrightarrow> becomes b c"
proof (induction rule: cache_step.induct)
  case (c_insert b slug content)
  then show ?case by (auto simp: becomes_def insert_page_def)
next
  case (c_update b P f)
  show ?case by (auto simp: becomes_def update_pages_def split: if_splits intro!: bexI)
next
  case (c_delete b P)
  then show ?case by (auto simp: becomes_def delete_pages_def)
qed (simp_all add: becomes_def; auto)+

lemma steps_become: "(cache_step sha distance K S)\<^sup>*\<^sup>* b c \<Longrightarrow> becomes b c"
  by (induction rule: rtranclp_induct) (auto intro: becomes_trans step_becomes)

lemma step_pages_ok: "cache_step sha distance K S b c \<Longrightarrow> pages_ok b \<Longrightarrow> pages_ok c"
proof (induction rule: cache_step.induct)
  case (c_update b P f)
  then show ?case by (auto simp: pages_ok_def update_pages_def map_key_update_where)
next
  case (c_delete b P)
  then show ?case by (auto simp: pages_ok_def delete_pages_def distinct_key_delete_where)
qed (auto simp: pages_ok_def insert_page_def)

interpretation page_table: invariant_system fresh_brain "cache_step sha distance K S" pages_ok
proof unfold_locales
  fix b :: "('c, 'e) brain" assume "fresh_brain b"
  then show "pages_ok b" by (simp add: fresh_brain_def pages_ok_def)
qed (rule step_pages_ok)

section \<open>Where the rows come from\<close>

lemma in_cacheE:
  assumes "q \<in> set (cache (snd (cached_search sha distance cc now text e scope knobs offset pageLimit budget search b)))"
  obtains (old) q0 where "q0 \<in> set (cache b)" "q = q0 \<or> q = q0\<lparr>qc_hits := qc_hits q0 + 1\<rparr>"
    | (new) "qc_source q = cacheScopeKey scope" "qc_id q = cacheRowId sha text (cacheScopeKey scope) knobs"
        "qc_results q = search scope offset" "qc_text q = text" "qc_knobs q = knobs"
        "(qc_pages q, qc_clock q) = buildPageGenerationsSnapshot b (List.map_filter sr_page_id (search scope offset))"
    | (replaced) q0 where "q0 \<in> set (cache b)" "qc_id q0 = cacheRowId sha text (cacheScopeKey scope) knobs"
        "qc_id q = qc_id q0" "qc_source q = qc_source q0" "qc_results q = search scope offset" "qc_text q = text" "qc_knobs q = knobs"
        "(qc_pages q, qc_clock q) = buildPageGenerationsSnapshot b (List.map_filter sr_page_id (search scope offset))"
proof (cases "lookup distance cc now (Some e) (cacheScopeKey scope) knobs b")
  case (Some h)
  then have "q \<in> set (cache (bumpHit (qc_id h) b))" using assms by (simp add: cached_search_def)
  then show thesis unfolding bumpHit_def by (auto elim!: in_update_whereE intro: old split: if_splits)
next
  case None
  then have q: "q \<in> set (cache b) \<or> q \<in> set (cache (store sha cc now text (Some e) (search scope offset) (cacheScopeKey scope) None knobs b))"
    using assms by (auto simp: cached_search_def Let_def split: if_splits)
  show thesis
  proof (cases "q \<in> set (cache b)")
    case True
    then show thesis using old by blast
  next
    case False
    let ?i = "cacheRowId sha text (cacheScopeKey scope) knobs"
    obtain snap stamp where snap: "buildPageGenerationsSnapshot b (List.map_filter sr_page_id (search scope offset)) = (snap, stamp)" by force
    show thesis
    proof (cases "list_ex (\<lambda>q. qc_id q = ?i) (cache b)")
      case True
      then show thesis
        using q False snap by (auto simp: store_def Let_def elim!: in_update_whereE intro: replaced split: if_splits)
    next
      case none: False
      then show thesis using q False snap by (auto simp: store_def Let_def intro!: new split: if_splits)
    qed
  qed
qed

text \<open>Every row was stored in an earlier state of the run, with the snapshot of that state.\<close>

definition stored_in :: "('c, 'e) brain \<Rightarrow> 'e cache_row \<Rightarrow> bool" where
  "stored_in b q \<longleftrightarrow> (qc_pages q, qc_clock q) = buildPageGenerationsSnapshot b (List.map_filter sr_page_id (qc_results q))"

lemma stored_in_hits [simp]: "stored_in b (q\<lparr>qc_hits := n\<rparr>) = stored_in b q"
  by (simp add: stored_in_def)

lemma rows_were_stored:
  assumes "(cache_step sha distance K S)\<^sup>*\<^sup>* b0 b" "cache b0 = []" "q \<in> set (cache b)"
  shows "\<exists>b'. (cache_step sha distance K S)\<^sup>*\<^sup>* b0 b' \<and> (cache_step sha distance K S)\<^sup>*\<^sup>* b' b \<and> stored_in b' q"
  using assms
proof (induction arbitrary: q rule: rtranclp_induct)
  case base
  then show ?case by simp
next
  case (step b c)
  have later: "\<exists>b'. (cache_step sha distance K S)\<^sup>*\<^sup>* b0 b' \<and> (cache_step sha distance K S)\<^sup>*\<^sup>* b' c \<and> stored_in b' q"
    if kept: "q0 \<in> set (cache b)" "qc_pages q = qc_pages q0" "qc_clock q = qc_clock q0" "qc_results q = qc_results q0" for q0
  proof -
    obtain b' where "(cache_step sha distance K S)\<^sup>*\<^sup>* b0 b'" "(cache_step sha distance K S)\<^sup>*\<^sup>* b' b" "stored_in b' q0"
      using step.IH [OF step.prems(1) kept(1)] by blast
    then show ?thesis using step.hyps(2) kept(2-4) by (intro exI [of _ b']) (simp add: stored_in_def)
  qed
  have here: "\<exists>b'. (cache_step sha distance K S)\<^sup>*\<^sup>* b0 b' \<and> (cache_step sha distance K S)\<^sup>*\<^sup>* b' c \<and> stored_in b' q"
    if "stored_in b q"
    using step.hyps that by blast
  from step.hyps(2) show ?case
  proof cases
    case (c_search scope query knobs search offset cc now e pageLimit budget)
    show ?thesis
    proof (rule in_cacheE [OF step.prems(2) [unfolded c_search(1)]])
      fix q0 assume "q0 \<in> set (cache b)" "q = q0 \<or> q = q0\<lparr>qc_hits := qc_hits q0 + 1\<rparr>"
      then show ?thesis by (intro later [of q0]) auto
    qed (rule here, simp add: stored_in_def)+
  qed (rule later [of q]; use step.prems(2) in
      \<open>simp add: insert_page_def update_pages_def delete_pages_def prune_cache_def clear_cache_def Let_def\<close>)+
qed

lemma lookup_Some:
  assumes "lookup distance cc now emb source knobs b = Some q"
  shows "q \<in> set (cache b)" "qc_source q = source" "qc_knobs q = knobs" "cache_gate b q" "now < qc_created q + qc_ttl q"
  using assms by (auto simp: lookup_def Let_def split: option.splits if_splits dest!: first_min_in)


section \<open>Scopes do not mix\<close>

definition valid_scope :: "read_scope \<Rightarrow> bool" where
  "valid_scope scope \<longleftrightarrow>
     (case sc_sources scope of
        Some ss \<Rightarrow> ss \<noteq> [] \<and> list_all isValidSourceId ss
      | None \<Rightarrow> (case sc_source scope of Some s \<Rightarrow> isValidSourceId s | None \<Rightarrow> False))"

lemma valid_chars:
  assumes "isValidSourceId s"
  shows "CHR '':'' \<notin> set s" "CHR '','' \<notin> set s" "CHR ''_'' \<notin> set s" "s \<noteq> []"
  using assms by (auto simp: isValidSourceId_def Let_def list_all_iff)

lemma valid_scope_cases:
  assumes "valid_scope scope"
  obtains (many) ss where "sc_sources scope = Some ss" "ss \<noteq> []" "\<forall>s \<in> set ss. isValidSourceId s"
      "cacheScopeKey scope = ''__set__:'' @ join_with CHR '','' (sort ss)"
    | (one) s where "sc_sources scope = None" "sc_source scope = Some s" "isValidSourceId s" "cacheScopeKey scope = s"
  using assms by (cases "sc_sources scope"; cases "sc_source scope") (auto simp: valid_scope_def cacheScopeKey_def list_all_iff)

lemma set_key_not_id: "''__set__:'' @ x = s \<Longrightarrow> isValidSourceId s \<Longrightarrow> P"
  using valid_chars(3) [of s] by auto

lemma sort_Nil_iff: "sort xs = [] \<longleftrightarrow> xs = []"
  by (metis length_0_conv length_sort)

lemma sorted_join_inj:
  assumes "ss \<noteq> []" "ts \<noteq> []" "\<forall>s \<in> set ss. CHR '','' \<notin> set s" "\<forall>s \<in> set ts. CHR '','' \<notin> set s"
    and "join_with CHR '','' (sort ss) = join_with CHR '','' (sort ts)"
  shows "set ss = set ts"
proof -
  have "split_on CHR '','' (join_with CHR '','' (sort ss)) = sort ss"
    by (rule split_join) (use assms(1,3) sort_Nil_iff [of ss] in auto)
  moreover have "split_on CHR '','' (join_with CHR '','' (sort ts)) = sort ts"
    by (rule split_join) (use assms(2,4) sort_Nil_iff [of ts] in auto)
  ultimately have "sort ss = sort ts" unfolding assms(5) by simp
  then have "set (sort ss) = set (sort ts)" by (rule arg_cong)
  then show ?thesis by simp
qed

text \<open>Two scopes with ids under one key read the same sources.\<close>

lemma scope_key_reads:
  assumes "valid_scope a" "valid_scope b" "cacheScopeKey a = cacheScopeKey b"
  shows "reads a = reads b"
  using assms(1)
proof (cases rule: valid_scope_cases)
  case a: (many ss)
  from assms(2) show ?thesis
  proof (cases rule: valid_scope_cases)
    case b: (many ts)
    have "join_with CHR '','' (sort ss) = join_with CHR '','' (sort ts)" using assms(3) unfolding a(4) b(4) by simp
    from sorted_join_inj [OF a(2) b(2) _ _ this] have "set ss = set ts" using a(3) b(3) valid_chars(2) by blast
    then show ?thesis using a b by (simp add: reads_def fun_eq_iff)
  next
    case b: (one t)
    show ?thesis by (rule set_key_not_id [OF assms(3) [unfolded a(4) b(4)] b(3)])
  qed
next
  case a: (one s)
  from assms(2) show ?thesis
  proof (cases rule: valid_scope_cases)
    case b: (many ts)
    show ?thesis by (rule set_key_not_id [OF assms(3) [unfolded a(4) b(4), symmetric] a(3)])
  next
    case b: (one t)
    then show ?thesis using a assms(3) by (simp add: reads_def fun_eq_iff)
  qed
qed

text \<open>The hashed text determines the scope key.\<close>

lemma join_chars: "c \<in> set (join_with d xs) \<Longrightarrow> c = d \<or> (\<exists>x \<in> set xs. c \<in> set x)"
  by (induction d xs rule: join_with.induct) auto

lemma set_key_no_colon: "\<forall>s \<in> set ss. isValidSourceId s \<Longrightarrow> CHR '':'' \<notin> set (join_with CHR '','' (sort ss))"
  using valid_chars(1) by (auto dest!: join_chars)

lemma colon_parse:
  "CHR '':'' \<notin> set x \<Longrightarrow> CHR '':'' \<notin> set y \<Longrightarrow> x @ ''::'' @ t = y @ ''::'' @ u \<Longrightarrow> x = y"
  using first_sep_unique [of "CHR '':''" x y "CHR '':'' # t" "CHR '':'' # u"] by simp

lemma set_hash_not_id:
  assumes "(''__set__:'' @ x) @ ''::'' @ t = s @ ''::'' @ u" "isValidSourceId s"
  shows P
proof -
  have "''__set__'' @ CHR '':'' # (x @ ''::'' @ t) = s @ CHR '':'' # (CHR '':'' # u)" using assms(1) by simp
  then have "s = ''__set__''" using first_sep_unique [of "CHR '':''" "''__set__''" s] valid_chars(1) [OF assms(2)] by auto
  then show P using valid_chars(3) [OF assms(2)] by auto
qed

lemma scope_key_parse:
  assumes "valid_scope a" "valid_scope b" "cacheScopeKey a @ ''::'' @ t = cacheScopeKey b @ ''::'' @ u"
  shows "cacheScopeKey a = cacheScopeKey b"
  using assms(1)
proof (cases rule: valid_scope_cases)
  case a: (many ss)
  from assms(2) show ?thesis
  proof (cases rule: valid_scope_cases)
    case b: (many ts)
    have "join_with CHR '','' (sort ss) @ ''::'' @ t = join_with CHR '','' (sort ts) @ ''::'' @ u"
      using assms(3) unfolding a(4) b(4) by simp
    from colon_parse [OF set_key_no_colon [OF a(3)] set_key_no_colon [OF b(3)] this] show ?thesis unfolding a(4) b(4) by simp
  next
    case b: (one s)
    show ?thesis by (rule set_hash_not_id [OF assms(3) [unfolded a(4) b(4)] b(3)])
  qed
next
  case a: (one s)
  from assms(2) show ?thesis
  proof (cases rule: valid_scope_cases)
    case b: (many ts)
    show ?thesis by (rule set_hash_not_id [OF assms(3) [unfolded a(4) b(4), symmetric] a(3)])
  next
    case b: (one s')
    show ?thesis
      unfolding a(4) b(4) by (rule colon_parse [OF valid_chars(1) [OF a(3)] valid_chars(1) [OF b(3)] assms(3) [unfolded a(4) b(4)]])
  qed
qed

definition isolated :: "(string \<Rightarrow> string) \<Rightarrow> string set \<Rightarrow> 'e cache_row \<Rightarrow> bool" where
  "isolated sha K q \<longleftrightarrow>
     (\<exists>scope. valid_scope scope \<and> qc_source q = cacheScopeKey scope \<and> (\<forall>r \<in> set (qc_results q). reads scope (result_source r)))
     \<and> qc_source q @ ''::'' @ qc_text q @ ''::'' @ qc_knobs q \<in> K \<and> qc_id q = cacheRowId sha (qc_text q) (qc_source q) (qc_knobs q)"

lemma isolated_hits [simp]: "isolated sha K (q\<lparr>qc_hits := n\<rparr>) = isolated sha K q"
  by (simp add: isolated_def)

lemma rows_isolated:
  assumes "(cache_step sha distance K S)\<^sup>*\<^sup>* b0 b" "cache b0 = []" "\<forall>scope \<in> S. valid_scope scope"
    and "inj_on (\<lambda>s. take 32 (sha s)) K"
  shows "\<forall>q \<in> set (cache b). isolated sha K q"
  using assms(1)
proof (induction rule: rtranclp_induct)
  case base
  then show ?case using assms(2) by simp
next
  case (step b c)
  show ?case
  proof
    fix q assume q: "q \<in> set (cache c)"
    from step.hyps(2) show "isolated sha K q"
    proof cases
      case (c_search scope query knobs search offset cc now e pageLimit budget)
      have valid: "valid_scope scope" using assms(3) c_search(2) by blast
      show ?thesis
      proof (rule in_cacheE [OF q [unfolded c_search(1)]])
        fix q0 assume "q0 \<in> set (cache b)" "q = q0 \<or> q = q0\<lparr>qc_hits := qc_hits q0 + 1\<rparr>"
        then show ?thesis using step.IH by auto
      next
        assume "qc_source q = cacheScopeKey scope" "qc_id q = cacheRowId sha query (cacheScopeKey scope) knobs"
          "qc_results q = search scope offset" "qc_text q = query" "qc_knobs q = knobs"
        then show ?thesis using valid c_search(3,4) by (auto simp: isolated_def)
      next
        fix q0 assume new: "q0 \<in> set (cache b)" "qc_id q0 = cacheRowId sha query (cacheScopeKey scope) knobs"
          "qc_id q = qc_id q0" "qc_source q = qc_source q0" "qc_results q = search scope offset" "qc_text q = query" "qc_knobs q = knobs"
        have "isolated sha K q0" using step.IH new(1) by blast
        then obtain scope0 where old: "valid_scope scope0" "qc_source q0 = cacheScopeKey scope0"
            "qc_source q0 @ ''::'' @ qc_text q0 @ ''::'' @ qc_knobs q0 \<in> K"
            "qc_id q0 = cacheRowId sha (qc_text q0) (qc_source q0) (qc_knobs q0)"
          by (auto simp: isolated_def)
        have "qc_source q0 @ ''::'' @ qc_text q0 @ ''::'' @ qc_knobs q0 = cacheScopeKey scope @ ''::'' @ query @ ''::'' @ knobs"
          by (rule inj_onD [OF assms(4) _ old(3) c_search(3)]) (use old(4) new(2) in \<open>simp add: cacheRowId_def\<close>)
        then have "cacheScopeKey scope0 = cacheScopeKey scope" using scope_key_parse [OF old(1) valid] old(2) by simp
        then show ?thesis using new old(2) valid c_search(3,4) by (auto simp: isolated_def)
      qed
    qed (use q step.IH in \<open>auto simp: insert_page_def update_pages_def delete_pages_def prune_cache_def clear_cache_def Let_def\<close>)
  qed
qed

text \<open>C16: the cache keeps scopes apart: when every search is made under an explicit scope, of valid source ids, and no two
  of the strings that are hashed have the same row id, a hit under a scope holds only results the scope may
  read, whoever made the search that is served.\<close>

theorem cache_isolates_scopes:
  assumes "fresh_brain b0" "(cache_step sha distance K S)\<^sup>*\<^sup>* b0 b" "S \<subseteq> {scope. valid_scope scope}"
    and "inj_on (\<lambda>s. take 32 (sha s)) K"
    and "valid_scope scope" "lookup distance cc now emb (cacheScopeKey scope) knobs b = Some q"
  shows "result_source ` set (qc_results q) \<subseteq> {src. reads scope src}"
proof -
  have "cache b0 = []" using assms(1) by (simp add: fresh_brain_def)
  moreover have "\<forall>scope \<in> S. valid_scope scope" using assms(3) by blast
  ultimately have "isolated sha K q" using rows_isolated [OF assms(2) _ _ assms(4)] lookup_Some(1) [OF assms(6)] by blast
  then obtain scope' where s': "valid_scope scope'" "qc_source q = cacheScopeKey scope'" "\<forall>r \<in> set (qc_results q). reads scope' (result_source r)"
    by (auto simp: isolated_def)
  have "reads scope' = reads scope" by (rule scope_key_reads [OF s'(1) assms(5)]) (use s'(2) lookup_Some(2) [OF assms(6)] in simp)
  then show ?thesis using s'(3) by auto
qed

text \<open>What a second call under the same key gets from a cache that only the first one has filled.\<close>

lemma served_from_first:
  assumes "cache b = []" "cc_enabled cc" "distance e e < 1 - cc_threshold cc"
    and "now < now2" "now2 < now + clampTtl (Some (of_int (cc_ttl cc)))"
    and "search scope o1 \<noteq> []" "cacheScopeKey scope2 = cacheScopeKey scope"
  shows "fst (cached_search sha distance cc now2 text2 e scope2 knobs o2 pageLimit2 None search2
      (snd (cached_search sha distance cc now text e scope knobs o1 pageLimit budget search b))) = take pageLimit2 (drop o2 (search scope o1))"
proof -
  have miss: "lookup distance cc now (Some e) (cacheScopeKey scope) knobs b = None" by (simp add: lookup_def Let_def assms(1))
  have all: "fst (enforceTokenBudget rs None) = rs" for rs by (simp add: enforceTokenBudget_def Let_def)
  show ?thesis
    using assms
    by (simp add: cached_search_def miss Let_def store_def buildPageGenerationsSnapshot_def lookup_def cache_gate_def all)
qed

text \<open>C30: an unscoped search shares its cache rows with the scope \<open>default\<close>: a trusted caller's search over all sources is
  served to a caller confined to the source \<open>default\<close> who asks the same, with the results of every other
  source.\<close>

theorem unscoped_search_leaks:
  assumes "cache b = []" "cc_enabled cc" "distance e e < 1 - cc_threshold cc"
    and "now < now2" "now2 < now + clampTtl (Some (of_int (cc_ttl cc)))"
    and "r \<in> set (search no_scope 0)" "length (search no_scope 0) \<le> pageLimit2" "result_source r \<noteq> ''default''"
  shows "r \<in> set (fst (cached_search sha distance cc now2 text2 e (one_source ''default'') knobs 0 pageLimit2 None search2
      (snd (cached_search sha distance cc now text e no_scope knobs 0 pageLimit budget search b))))
    \<and> \<not> reads (one_source ''default'') (result_source r)"
proof -
  have "cacheScopeKey (one_source ''default'') = cacheScopeKey no_scope" "search no_scope 0 \<noteq> []"
    using assms(6) by (auto simp: cacheScopeKey_def no_scope_def one_source_def)
  from served_from_first [where search = search and scope = no_scope and ?o1.0 = 0 and distance = distance and e = e, OF assms(1-5) this(2,1)] show ?thesis
    using assms(6-8) by (simp add: reads_def one_source_def)
qed

text \<open>The cache breaks paging: the offset is not part of the key, a stored row holds one page, and a hit cuts it again, so
  after the first page is cached the second is empty whatever it holds, and after the second page is cached it is
  served as the first.\<close>

theorem cached_pages_are_wrong:
  assumes "cache b = []" "cc_enabled cc" "distance e e < 1 - cc_threshold cc"
    and "now < now2" "now2 < now + clampTtl (Some (of_int (cc_ttl cc)))"
    and "search scope 0 \<noteq> []" "length (search scope 0) \<le> pageLimit" "search scope pageLimit \<noteq> []" "length (search scope pageLimit) \<le> pageLimit"
  shows "fst (cached_search sha distance cc now2 text e scope knobs pageLimit pageLimit None search
        (snd (cached_search sha distance cc now text e scope knobs 0 pageLimit None search b))) = []
    \<and> fst (cached_search sha distance cc now2 text e scope knobs 0 pageLimit None search
        (snd (cached_search sha distance cc now text e scope knobs pageLimit pageLimit None search b))) = search scope pageLimit"
  using served_from_first [of b cc distance e now now2 search scope 0 scope]
    served_from_first [of b cc distance e now now2 search scope pageLimit scope] assms
  by simp

section \<open>What the snapshot does not see\<close>

text \<open>The snapshot is taken when the row is stored, not when the search ran: results of a page that changed in between
  are stored under the generation of the new page, and stay in the cache until it changes again.\<close>

lemma stale_results_are_stored:
  assumes "cc_enabled cc" "cache b = []" "distance e e < 1 - cc_threshold cc" "now < now + clampTtl (Some (of_int (cc_ttl cc)))"
  shows "\<exists>q. lookup distance cc now (Some e) source knobs
      (store sha cc now text (Some e) results source None knobs (update_pages P f b)) = Some q \<and> qc_results q = results"
  using assms by (simp add: store_def Let_def buildPageGenerationsSnapshot_def lookup_def cache_gate_def update_pages_def)

text \<open>The row trigger does not watch the slug: a renamed page keeps its generation, and a row with its old slug still
  passes the gate.\<close>

lemma rename_passes_gate:
  assumes "pages b = [p]" "qc_pages q = [(p_id p, p_gen p)]"
  shows "cache_gate (update_pages (\<lambda>_. True) (\<lambda>p. (''new-slug'', p_content p)) b) q"
  using assms by (simp add: cache_gate_def update_pages_def bump_page_generation_def)

lemma validate_is_gate:
  "distinct (map p_id (pages b)) \<Longrightarrow>
    validateCacheRowAgainstPages (qc_pages q, qc_clock q) (clock b, \<lambda>i. map_option p_gen (find (\<lambda>p. p_id p = i) (pages b))) = cache_gate b q"
  by (auto simp: validateCacheRowAgainstPages_def cache_gate_def list_all_iff split: option.splits)

section \<open>Witnesses\<close>

definition demo_cache :: cache_config where "demo_cache = new_cache None None None"

definition near_all :: "unit \<Rightarrow> unit \<Rightarrow> rat" where "near_all x y = 0"

definition empty_brain :: "(nat, unit) brain" where
  "empty_brain = \<lparr>pages = [], next_page_id = 1, clock = 1, cache = []\<rparr>"

definition hit_a :: search_result where
  "hit_a = (demo_chunk ''a'' ''x'' Timeline 1 1)\<lparr>sr_page_id := Some 1, sr_source := Some ''s''\<rparr>"

definition filled_brain :: "(nat, unit) brain" where
  "filled_brain = snd (cached_search id near_all demo_cache 0 ''q'' () (one_source ''s'') ''k'' 0 20 None (\<lambda>_ _. [hit_a]) (insert_page ''a'' 7 empty_brain))"

definition hit_row :: "unit cache_row" where
  "hit_row = \<lparr>qc_id = ''s::q::k'', qc_text = ''q'', qc_source = ''s'', qc_knobs = ''k'', qc_embedding = Some (), qc_results = [hit_a],
     qc_ttl = 3600, qc_pages = [(1, 1)], qc_clock = 2, qc_created = 0, qc_hits = 0\<rparr>"

lemma filled_brain_eq:
  "filled_brain = (insert_page ''a'' 7 empty_brain)\<lparr>cache := [hit_row]\<rparr>"
  by (simp add: filled_brain_def cached_search_def lookup_def insert_page_def empty_brain_def Let_def store_def
      buildPageGenerationsSnapshot_def hit_a_def hit_row_def cacheScopeKey_def one_source_def demo_cache_def new_cache_def
      clampTtl_def clampThreshold_def DEFAULT_TTL_SECONDS_def cacheRowId_def List.map_filter_def max_gen_def)

lemma valid_s: "valid_scope (one_source ''s'')"
  by (simp add: valid_scope_def one_source_def isValidSourceId_def)

lemma filled_run:
  "(cache_step id near_all {''s::q::k''} {one_source ''s''})\<^sup>*\<^sup>* empty_brain filled_brain"
proof -
  have "cache_step id near_all {''s::q::k''} {one_source ''s''} empty_brain (insert_page ''a'' (7 :: nat) empty_brain)"
    by (rule c_insert)
  moreover have "cache_step id near_all {''s::q::k''} {one_source ''s''} (insert_page ''a'' (7 :: nat) empty_brain) filled_brain"
    unfolding filled_brain_def
    by (rule c_search) (simp_all add: cacheScopeKey_def one_source_def reads_def result_source_def hit_a_def demo_chunk_def)
  ultimately show ?thesis by (meson converse_rtranclp_into_rtranclp rtranclp.rtrancl_refl)
qed

lemma filled_hit: "lookup near_all demo_cache 5 (Some ()) ''s'' ''k'' filled_brain = Some hit_row"
  by (simp add: lookup_def filled_brain_eq insert_page_def empty_brain_def hit_row_def near_all_def demo_cache_def new_cache_def
      clampThreshold_def DEFAULT_SIMILARITY_THRESHOLD_def cache_gate_def)

lemma empty_fresh: "fresh_brain empty_brain"
  by (simp add: fresh_brain_def empty_brain_def)


theorem cache_isolates_scopes_witness:
  "result_source ` set (qc_results hit_row) \<subseteq> {src. reads (one_source ''s'') src}"
proof (rule cache_isolates_scopes [OF empty_fresh filled_run _ _ valid_s])
  show "lookup near_all demo_cache 5 (Some ()) (cacheScopeKey (one_source ''s'')) ''k'' filled_brain = Some hit_row"
    using filled_hit by (simp add: cacheScopeKey_def one_source_def)
qed (use valid_s in simp_all)

lemma demo_cache_simps:
  "cc_enabled demo_cache" "near_all () () < 1 - cc_threshold demo_cache" "clampTtl (Some (of_int (cc_ttl demo_cache))) = 3600"
  by (simp_all add: demo_cache_def new_cache_def near_all_def clampThreshold_def DEFAULT_SIMILARITY_THRESHOLD_def
      clampTtl_def DEFAULT_TTL_SECONDS_def)

theorem unscoped_search_leaks_witness:
  "hit_a \<in> set (fst (cached_search id near_all demo_cache 5 ''q'' () (one_source ''default'') ''k'' 0 20 None (\<lambda>_ _. [])
      (snd (cached_search id near_all demo_cache 0 ''q'' () no_scope ''k'' 0 20 None (\<lambda>_ _. [hit_a]) empty_brain))))"
  using unscoped_search_leaks [of empty_brain demo_cache near_all "()" 0 5 hit_a "\<lambda>_ _. [hit_a]" 20 id "''q''" "''k''" "\<lambda>_ _. []"
      "''q''" 20 None]
  by (simp add: empty_brain_def demo_cache_simps result_source_def hit_a_def demo_chunk_def)

definition two_pages :: "read_scope \<Rightarrow> nat \<Rightarrow> search_result list" where
  "two_pages scope offset = (if offset = 0 then [hit_a] else [hit_a\<lparr>sr_slug := ''b''\<rparr>])"

theorem cached_pages_are_wrong_witness:
  "fst (cached_search id near_all demo_cache 5 ''q'' () no_scope ''k'' 1 1 None two_pages
        (snd (cached_search id near_all demo_cache 0 ''q'' () no_scope ''k'' 0 1 None two_pages empty_brain))) = []
    \<and> fst (cached_search id near_all demo_cache 5 ''q'' () no_scope ''k'' 0 1 None two_pages
        (snd (cached_search id near_all demo_cache 0 ''q'' () no_scope ''k'' 1 1 None two_pages empty_brain))) = two_pages no_scope 1"
  using cached_pages_are_wrong [of empty_brain demo_cache near_all "()" 0 5 two_pages no_scope 1 id "''q''" "''k''"]
  by (simp add: empty_brain_def demo_cache_simps two_pages_def)

end
