(* ===== verification/Fingerprints.thy ===== *)
theory Fingerprints
  imports Js_Data
begin

text \<open>
  The fingerprints that separate the checkpoints of long operations (\<open>src/core/op-checkpoint.ts\<close>): the
  canonical JSON text of the parameters, the first eight digits of its SHA-256, and the parameters each
  operation puts into it.  A number is the text JavaScript prints for it, the hash is an argument.
\<close>

section \<open>JSON text\<close>

datatype json_value =
  JvNull | JvBool bool | JvNumber string | JvString string
| JvArray "json_value list" | JvObject "(string \<times> json_value) list"

definition hex_digit :: "nat \<Rightarrow> char" where
  "hex_digit d = char_of (if d < 10 then 48 + d else 87 + d)"

definition json_char :: "char \<Rightarrow> string" where
  "json_char c =
     (if c = CHR 0x22 then [CHR 0x5C, CHR 0x22]
      else if c = CHR 0x5C then [CHR 0x5C, CHR 0x5C]
      else if c = CHR 0x08 then [CHR 0x5C, CHR ''b'']
      else if c = CHR 0x09 then [CHR 0x5C, CHR ''t'']
      else if c = CHR 0x0A then [CHR 0x5C, CHR ''n'']
      else if c = CHR 0x0C then [CHR 0x5C, CHR ''f'']
      else if c = CHR 0x0D then [CHR 0x5C, CHR ''r'']
      else (let n = of_char c :: nat
            in if n < 32 then [CHR 0x5C, CHR ''u'', CHR ''0'', CHR ''0'', hex_digit (n div 16), hex_digit (n mod 16)]
               else [c]))"

text \<open>\<open>JSON.stringify\<close> of a string.\<close>

definition json_string :: "string \<Rightarrow> string" where
  "json_string s = CHR 0x22 # concat (map json_char s) @ [CHR 0x22]"

fun canonicalJson :: "json_value \<Rightarrow> string" where
  "canonicalJson JvNull = ''null''"
| "canonicalJson (JvBool b) = (if b then ''true'' else ''false'')"
| "canonicalJson (JvNumber n) = n"
| "canonicalJson (JvString s) = json_string s"
| "canonicalJson (JvArray vs) = CHR ''['' # join_with CHR '','' (map canonicalJson vs) @ '']''"
| "canonicalJson (JvObject kvs) =
     CHR ''{'' # join_with CHR '','' (map (\<lambda>(k, t). json_string k @ CHR '':'' # t)
       (sort_key fst (map (\<lambda>(k, v). (k, canonicalJson v)) kvs))) @ ''}''"

definition fingerprint :: "(string \<Rightarrow> string) \<Rightarrow> (string \<times> json_value) list \<Rightarrow> string" where
  "fingerprint sha256 params = take 8 (sha256 (canonicalJson (JvObject params)))"

section \<open>The fingerprint of each operation\<close>

text \<open>An option that is absent takes its default.\<close>

definition jv_flag :: "bool option \<Rightarrow> json_value" where
  "jv_flag b = JvBool (orElse b False)"

definition jv_nullable :: "string option \<Rightarrow> json_value" where
  "jv_nullable s = (case s of None \<Rightarrow> JvNull | Some t \<Rightarrow> JvString t)"

definition jv_source :: "string option \<Rightarrow> json_value" where
  "jv_source s = JvString (orElse s ''default'')"

definition jv_int :: "int \<Rightarrow> json_value" where
  "jv_int i = JvNumber (show_int i)"

datatype extract_mode = ModeLinks | ModeTimeline | ModeAll
datatype backlinks_action = ActionCheck | ActionFix
datatype integrity_mode = IntegrityCheck | IntegrityAuto

definition embed_params :: "bool option \<Rightarrow> bool option \<Rightarrow> string option \<Rightarrow> string option \<Rightarrow> string \<Rightarrow> int \<Rightarrow> (string \<times> json_value) list" where
  "embed_params stale every slug source model dims =
     [(''stale'', jv_flag stale), (''all'', jv_flag every), (''slug'', jv_nullable slug), (''source'', jv_source source),
      (''embedding_model'', JvString model), (''embedding_dimensions'', jv_int dims)]"

definition extract_params :: "extract_mode \<Rightarrow> string option \<Rightarrow> string option \<Rightarrow> (string \<times> json_value) list" where
  "extract_params m source dir =
     [(''mode'', JvString (case m of ModeLinks \<Rightarrow> ''links'' | ModeTimeline \<Rightarrow> ''timeline'' | ModeAll \<Rightarrow> ''all'')),
      (''source'', jv_source source), (''dir'', jv_nullable dir)]"

definition reindex_params :: "bool option \<Rightarrow> bool option \<Rightarrow> string option \<Rightarrow> int \<Rightarrow> (string \<times> json_value) list" where
  "reindex_params markdown code slug version =
     [(''markdown'', jv_flag markdown), (''code'', jv_flag code), (''slug'', jv_nullable slug),
      (''chunker_version'', jv_int version)]"

definition lint_params :: "string \<Rightarrow> bool option \<Rightarrow> (string \<times> json_value) list" where
  "lint_params dir fx = [(''dir'', JvString dir), (''fix'', jv_flag fx)]"

definition backlinks_params :: "string \<Rightarrow> backlinks_action \<Rightarrow> (string \<times> json_value) list" where
  "backlinks_params dir action =
     [(''dir'', JvString dir), (''action'', JvString (case action of ActionCheck \<Rightarrow> ''check'' | ActionFix \<Rightarrow> ''fix''))]"

definition integrity_params :: "integrity_mode \<Rightarrow> string option \<Rightarrow> (string \<times> json_value) list" where
  "integrity_params m confidence =
     [(''mode'', JvString (case m of IntegrityCheck \<Rightarrow> ''check'' | IntegrityAuto \<Rightarrow> ''auto'')),
      (''confidence'', JvNumber (orElse confidence ''0.85''))]"

definition import_params :: "string \<Rightarrow> bool option \<Rightarrow> string option \<Rightarrow> (string \<times> json_value) list" where
  "import_params dir noEmbed source =
     [(''dir'', JvString dir), (''noEmbed'', jv_flag noEmbed), (''source'', jv_source source)]"

definition mentions_params :: "string option \<Rightarrow> string option \<Rightarrow> string option \<Rightarrow> string \<Rightarrow> (string \<times> json_value) list" where
  "mentions_params source type_filter since gazetteerHash =
     [(''mode'', JvString ''by_mention''), (''source'', jv_source source), (''type'', jv_nullable type_filter),
      (''since'', jv_nullable since), (''gazetteer'', JvString gazetteerHash)]"

definition sync_params :: "string option \<Rightarrow> string \<Rightarrow> (string \<times> json_value) list" where
  "sync_params sourceId lastCommit =
     [(''mode'', JvString ''sync''), (''source'', jv_source sourceId), (''lastCommit'', JvString lastCommit)]"

definition syncFingerprint :: "(string \<Rightarrow> string) \<Rightarrow> string option \<Rightarrow> string \<Rightarrow> string" where
  "syncFingerprint sha256 sourceId lastCommit = fingerprint sha256 (sync_params sourceId lastCommit)"

section \<open>The text is read in one way\<close>

lemma hex_digit_inj: "a < 16 \<Longrightarrow> b < 16 \<Longrightarrow> hex_digit a = hex_digit b \<Longrightarrow> a = b"
  using arg_cong [of "hex_digit a" "hex_digit b" "of_char :: char \<Rightarrow> nat"]
  by (auto simp: hex_digit_def of_char_of split: if_splits)

lemma hex_pair_inj:
  assumes "(of_char c :: nat) < 32" "(of_char d :: nat) < 32"
    "hex_digit (of_char c div 16) = hex_digit (of_char d div 16)" "hex_digit (of_char c mod 16) = hex_digit (of_char d mod 16)"
  shows "c = d"
proof -
  have "(of_char c :: nat) div 16 = of_char d div 16" "(of_char c :: nat) mod 16 = of_char d mod 16"
    using assms by (auto intro: hex_digit_inj)
  then have "(of_char c :: nat) = of_char d" by (metis div_mult_mod_eq)
  then show ?thesis by simp
qed

lemma json_char_cancel: "json_char c @ u = json_char d @ v \<Longrightarrow> c = d \<and> u = v"
  by (auto simp: json_char_def Let_def split: if_splits dest: hex_pair_inj)

lemma json_char_no_quote: "json_char c @ u \<noteq> CHR 0x22 # v"
  by (simp add: json_char_def Let_def)

lemma json_string_cancel:
  assumes "json_string x @ r = json_string y @ s"
  shows "x = y \<and> r = s"
proof -
  have "concat (map json_char x) @ CHR 0x22 # r = concat (map json_char y) @ CHR 0x22 # s"
    using assms by (simp add: json_string_def)
  then show ?thesis
  proof (induction x arbitrary: y)
    case Nil
    then show ?case by (cases y) (auto simp: json_char_no_quote [symmetric] dest: sym)
  next
    case (Cons c x)
    then obtain d y' where y: "y = d # y'" by (cases y) (auto simp: json_char_no_quote)
    then have "c = d \<and> concat (map json_char x) @ CHR 0x22 # r = concat (map json_char y') @ CHR 0x22 # s"
      using Cons.prems json_char_cancel [of c _ d] by simp
    then show ?case using Cons.IH y by blast
  qed
qed

text \<open>A canonical value has the keys of every object in order; the text is printed from it.\<close>

fun canon :: "json_value \<Rightarrow> json_value" where
  "canon (JvArray vs) = JvArray (map canon vs)"
| "canon (JvObject kvs) = JvObject (sort_key fst (map (\<lambda>(k, v). (k, canon v)) kvs))"
| "canon v = v"

fun render :: "json_value \<Rightarrow> string" where
  "render JvNull = ''null''"
| "render (JvBool b) = (if b then ''true'' else ''false'')"
| "render (JvNumber n) = n"
| "render (JvString s) = json_string s"
| "render (JvArray vs) = CHR ''['' # join_with CHR '','' (map render vs) @ '']''"
| "render (JvObject kvs) =
     CHR ''{'' # join_with CHR '','' (map (\<lambda>(k, v). json_string k @ CHR '':'' # render v) kvs) @ ''}''"

lemma insort_key_map_snd:
  "insort_key fst (k, f v) (map (\<lambda>(k, v). (k, f v)) kvs) = map (\<lambda>(k, v). (k, f v)) (insort_key fst (k, v) kvs)"
  by (induction kvs) auto

lemma sort_key_map_snd:
  "sort_key fst (map (\<lambda>(k, v). (k, f v)) kvs) = map (\<lambda>(k, v). (k, f v)) (sort_key fst kvs)"
  by (induction kvs) (auto simp: insort_key_map_snd)

lemma canonicalJson_render: "canonicalJson v = render (canon v)"
proof (induction v)
  case (JvObject kvs)
  have "sort_key fst (map (\<lambda>(k, v). (k, canonicalJson v)) kvs) =
      map (\<lambda>(k, v). (k, render v)) (sort_key fst (map (\<lambda>(k, v). (k, canon v)) kvs))"
    unfolding sort_key_map_snd [symmetric] using JvObject by (auto intro!: arg_cong [of _ _ "sort_key fst"])
  then show ?case by (auto intro!: arg_cong [of _ _ "join_with CHR '',''"])
qed (auto simp: comp_def intro!: arg_cong [of _ _ "join_with CHR '',''"])

definition number_char :: "char \<Rightarrow> bool" where
  "number_char c \<longleftrightarrow> 48 \<le> (of_char c :: nat) \<and> (of_char c :: nat) < 58 \<or> c \<in> {CHR ''-'', CHR ''+'', CHR ''.'', CHR ''e''}"

definition number_text :: "string \<Rightarrow> bool" where
  "number_text n \<longleftrightarrow> n \<noteq> [] \<and> list_all number_char n"

fun well_formed :: "json_value \<Rightarrow> bool" where
  "well_formed (JvNumber n) = number_text n"
| "well_formed (JvArray vs) = list_all well_formed vs"
| "well_formed (JvObject kvs) = (distinct (map fst kvs) \<and> list_all (\<lambda>(k, v). well_formed v) kvs)"
| "well_formed _ = True"

text \<open>What may follow a value.\<close>

definition stops :: "string \<Rightarrow> bool" where
  "stops r \<longleftrightarrow> r = [] \<or> hd r \<in> {CHR '','', CHR '']'', CHR ''}''}"

lemma stops_simps [simp]:
  "stops []" "stops (CHR '','' # r)" "stops (CHR '']'' # r)" "stops (CHR ''}'' # r)"
  by (simp_all add: stops_def)

lemma number_cancel:
  assumes "list_all number_char n" "list_all number_char m" "stops r" "stops s" "n @ r = m @ s"
  shows "n = m \<and> r = s"
proof -
  have no: "takeWhile number_char r = []" if "stops r" for r
    using that by (cases r) (auto simp: stops_def number_char_def)
  have "takeWhile number_char (n @ r) = n" "takeWhile number_char (m @ s) = m"
    using assms(1,2) no [OF assms(3)] no [OF assms(4)] by (auto simp: list_all_iff takeWhile_append2)
  then show ?thesis using assms(5) by auto
qed

fun rest_of :: "('a \<Rightarrow> string) \<Rightarrow> char \<Rightarrow> string \<Rightarrow> 'a list \<Rightarrow> string" where
  "rest_of f c r [] = c # r"
| "rest_of f c r (x # xs) = CHR '','' # f x @ rest_of f c r xs"

lemma join_rest: "join_with CHR '','' (map f (x # xs)) @ c # r = f x @ rest_of f c r xs"
  by (induction xs arbitrary: x) auto

lemma rest_cancel:
  assumes "\<And>x y u v. x \<in> set xs \<Longrightarrow> y \<in> set ys \<Longrightarrow> stops u \<Longrightarrow> stops v \<Longrightarrow> f x @ u = f y @ v \<Longrightarrow> x = y \<and> u = v"
    and "c \<in> {CHR '']'', CHR ''}''}" "rest_of f c r xs = rest_of f c s ys"
  shows "xs = ys \<and> r = s"
  using assms(1,3)
proof (induction xs arbitrary: ys)
  case Nil
  then show ?case using assms(2) by (cases ys) auto
next
  case (Cons x xs)
  then obtain y ys' where ys: "ys = y # ys'" using assms(2) by (cases ys) auto
  have stop: "stops (rest_of f c q zs)" for q zs using assms(2) by (cases zs) auto
  have "f x @ rest_of f c r xs = f y @ rest_of f c s ys'" using Cons.prems(2) ys by simp
  then have "x = y" "rest_of f c r xs = rest_of f c s ys'"
    using Cons.prems(1) [of x y, OF _ _ stop stop] ys by auto
  moreover from this(2) have "xs = ys' \<and> r = s"
    using Cons.prems(1) ys by (intro Cons.IH) auto
  ultimately show ?case using ys by simp
qed

lemma join_cancel:
  assumes "\<And>x y u v. x \<in> set xs \<Longrightarrow> y \<in> set ys \<Longrightarrow> stops u \<Longrightarrow> stops v \<Longrightarrow> f x @ u = f y @ v \<Longrightarrow> x = y \<and> u = v"
    and "\<And>x u v. x \<in> set xs \<union> set ys \<Longrightarrow> f x @ u \<noteq> c # v"
    and "c \<in> {CHR '']'', CHR ''}''}"
    and "join_with CHR '','' (map f xs) @ c # r = join_with CHR '','' (map f ys) @ c # s"
  shows "xs = ys \<and> r = s"
proof (cases xs; cases ys)
  assume e: "xs = []" "ys = []"
  then show ?thesis using assms(4) by simp
next
  fix y ys' assume e: "xs = []" "ys = y # ys'"
  then have "f y @ rest_of f c s ys' = c # r" using assms(4) join_rest [of f y ys' c s] by simp
  then show ?thesis using assms(2) [of y] e by auto
next
  fix x xs' assume e: "xs = x # xs'" "ys = []"
  then have "f x @ rest_of f c r xs' = c # s" using assms(4) join_rest [of f x xs' c r] by simp
  then show ?thesis using assms(2) [of x] e by auto
next
  fix x xs' y ys' assume e: "xs = x # xs'" "ys = y # ys'"
  then have "rest_of f c r xs = rest_of f c s ys"
    using assms(4) join_rest [of f x xs' c r] join_rest [of f y ys' c s] by simp
  then show ?thesis using rest_cancel [OF assms(1) assms(3)] by blast
qed

lemma number_start: "number_text n \<Longrightarrow> n @ u = c # v \<Longrightarrow> number_char c"
  by (cases n) (auto simp: number_text_def)

lemma number_char_letters [simp]:
  "\<not> number_char CHR ''n''" "\<not> number_char CHR ''t''" "\<not> number_char CHR ''f''" "\<not> number_char CHR 0x22"
  "\<not> number_char CHR ''[''" "\<not> number_char CHR ''{''" "\<not> number_char CHR '']''" "\<not> number_char CHR ''}''"
  by (simp_all add: number_char_def)

lemma render_start:
  assumes "well_formed v" "render v @ u = c # w"
  shows "c \<noteq> CHR '']''" "c \<noteq> CHR ''}''"
  using assms by (cases v; auto simp: json_string_def split: if_splits dest: number_start)+

lemma member_cancel:
  assumes "\<And>w. well_formed w \<Longrightarrow> render v @ p = render w @ q \<Longrightarrow> v = w \<and> p = q" "well_formed w"
    "json_string k @ CHR '':'' # render v @ p = json_string l @ CHR '':'' # render w @ q"
  shows "(k, v) = (l, w) \<and> p = q"
proof -
  have "k = l \<and> CHR '':'' # render v @ p = CHR '':'' # render w @ q"
    using assms(3) by (rule json_string_cancel)
  then show ?thesis using assms(1) [OF assms(2)] by simp
qed

lemma render_cancel:
  assumes "well_formed a" "well_formed b" "stops r" "stops s" "render a @ r = render b @ s"
  shows "a = b \<and> r = s"
  using assms
proof (induction a arbitrary: b r s)
  case JvNull
  then show ?case by (cases b) (auto simp: json_string_def split: if_splits dest: number_start [OF _ sym])
next
  case (JvBool x)
  then show ?case by (cases b) (auto simp: json_string_def split: if_splits dest: number_start [OF _ sym])
next
  case (JvNumber n)
  show ?case
  proof (cases b)
    case (JvNumber m)
    then show ?thesis using JvNumber.prems number_cancel [of n m r s] by (simp add: number_text_def)
  qed (use JvNumber.prems in \<open>auto simp: json_string_def split: if_splits dest: number_start\<close>)
next
  case (JvString x)
  show ?case
  proof (cases b)
    case (JvString y)
    then show ?thesis using JvString.prems json_string_cancel [of x r y s] by simp
  qed (use JvString.prems in \<open>auto simp: json_string_def split: if_splits dest: number_start [OF _ sym]\<close>)
next
  case (JvArray vs)
  show ?case
  proof (cases b)
    case (JvArray ws)
    have "vs = ws \<and> r = s"
    proof (rule join_cancel)
      show "join_with CHR '','' (map render vs) @ CHR '']'' # r = join_with CHR '','' (map render ws) @ CHR '']'' # s"
        using JvArray.prems JvArray by simp
      show "x = y \<and> u = v"
        if "x \<in> set vs" "y \<in> set ws" "stops u" "stops v" "render x @ u = render y @ v" for x y u v
        using JvArray.IH [OF that(1) _ _ that(3-5)] JvArray.prems JvArray that(1,2) by (auto simp: list_all_iff)
      show "render x @ u \<noteq> CHR '']'' # v" if "x \<in> set vs \<union> set ws" for x u v
        using render_start(1) [of x u _ v] JvArray.prems JvArray that by (auto simp: list_all_iff)
    qed simp
    then show ?thesis using JvArray by simp
  qed (use JvArray.prems in \<open>auto simp: json_string_def split: if_splits dest: number_start [OF _ sym]\<close>)
next
  case (JvObject kvs)
  show ?case
  proof (cases b)
    case (JvObject lws)
    let ?f = "\<lambda>(k, v). json_string k @ CHR '':'' # render v"
    have "kvs = lws \<and> r = s"
    proof (rule join_cancel)
      show "join_with CHR '','' (map ?f kvs) @ CHR ''}'' # r = join_with CHR '','' (map ?f lws) @ CHR ''}'' # s"
        using JvObject.prems JvObject by simp
      show "x = y \<and> u = v"
        if that: "x \<in> set kvs" "y \<in> set lws" "stops u" "stops v" "?f x @ u = ?f y @ v" for x y u v
      proof -
        obtain k w l z where x: "x = (k, w)" and y: "y = (l, z)" by (cases x; cases y)
        have ok: "well_formed w" "well_formed z"
          using that(1,2) JvObject.prems JvObject x y by (auto simp: list_all_iff)
        have "w = t \<and> u = v" if "well_formed t" "render w @ u = render t @ v" for t
          using JvObject.IH [OF \<open>x \<in> set kvs\<close>, of w t u v] x ok that \<open>stops u\<close> \<open>stops v\<close> by simp
        then show ?thesis using member_cancel [of w u v z k l] ok that(5) x y by simp
      qed
      show "?f x @ u \<noteq> CHR ''}'' # v" if "x \<in> set kvs \<union> set lws" for x u v
        by (cases x) (simp add: json_string_def)
    qed simp
    then show ?thesis using JvObject by simp
  qed (use JvObject.prems in \<open>auto simp: json_string_def split: if_splits dest: number_start [OF _ sym]\<close>)
qed

lemma distinct_fst_sort: "distinct (map fst (sort_key f xs)) = distinct (map fst xs)"
  by (simp add: distinct_map)

lemma well_formed_canon: "well_formed v \<Longrightarrow> well_formed (canon v)"
proof (induction v)
  case (JvObject kvs)
  have "map fst (map (\<lambda>(k, v). (k, canon v)) kvs) = map fst kvs" by auto
  then have "distinct (map fst (sort_key fst (map (\<lambda>(k, v). (k, canon v)) kvs)))"
    unfolding distinct_fst_sort using JvObject.prems by (simp del: map_map map_eq_conv)
  moreover have "well_formed (canon v)" if "(k, v) \<in> set kvs" for k v
    using JvObject.IH [OF that, of v] JvObject.prems that by (auto simp: list_all_iff)
  ultimately show ?case by (auto simp: list_all_iff)
qed (auto simp: list_all_iff)

lemma render_canon_iff:
  "well_formed a \<Longrightarrow> well_formed b \<Longrightarrow> canonicalJson a = canonicalJson b \<longleftrightarrow> canon a = canon b"
  using render_cancel [of "canon a" "canon b" "[]" "[]"] by (auto simp: canonicalJson_render well_formed_canon)

text \<open>C36: Two parameter objects have the same canonical JSON text exactly when they are the same value up
  to the order of the keys at every level: the text, and so the fingerprint up to collisions of the
  hash, neither depends on the order of an object literal nor confuses two different values,
  whatever characters the strings in them hold.\<close>

theorem canonical_text_identifies:
  assumes "well_formed a" "well_formed b"
  shows "canonicalJson a = canonicalJson b \<longleftrightarrow> canon a = canon b"
  using assms by (rule render_canon_iff)

text \<open>Objects with the same keys have the same text exactly when their values agree.\<close>

lemma sorted_assoc_eq:
  assumes "map fst kvs = map fst lws" "distinct (map fst kvs)" "sort_key fst kvs = sort_key fst (lws :: ('a::linorder \<times> 'b) list)"
  shows "kvs = lws"
proof (rule nth_equalityI)
  show len: "length kvs = length lws" using assms(1) by (metis length_map)
  fix i assume i: "i < length kvs"
  then have key: "fst (kvs ! i) = fst (lws ! i)" using assms(1) len by (metis nth_map)
  have "kvs ! i \<in> set lws" using assms(3) i by (metis nth_mem set_sort)
  moreover have "lws ! i \<in> set lws" using i len by simp
  ultimately have "snd (kvs ! i) = snd (lws ! i)"
    using key assms(1,2) eq_key_imp_eq_value [of lws "fst (kvs ! i)"] by (metis prod.collapse)
  then show "kvs ! i = lws ! i" using key by (simp add: prod_eq_iff)
qed

lemma object_text_eq:
  assumes "map fst kvs = map fst lws" "distinct (map fst kvs)"
    "list_all (well_formed \<circ> snd) kvs" "list_all (well_formed \<circ> snd) lws"
  shows "canonicalJson (JvObject kvs) = canonicalJson (JvObject lws) \<longleftrightarrow> map (canon \<circ> snd) kvs = map (canon \<circ> snd) lws"
proof -
  let ?c = "map (\<lambda>(k, v). (k, canon v))"
  have keys: "map fst (?c kvs) = map fst kvs" "map fst (?c lws) = map fst lws" by auto
  have "canonicalJson (JvObject kvs) = canonicalJson (JvObject lws) \<longleftrightarrow> canon (JvObject kvs) = canon (JvObject lws)"
    using assms by (intro render_canon_iff) (auto simp: list_all_iff)
  also have "\<dots> \<longleftrightarrow> ?c kvs = ?c lws"
    using sorted_assoc_eq [of "?c kvs" "?c lws"] keys assms(1,2) by (simp del: map_map map_eq_conv) metis
  also have "\<dots> \<longleftrightarrow> map (canon \<circ> snd) kvs = map (canon \<circ> snd) lws"
  proof -
    have "map snd (?c kvs) = map (canon \<circ> snd) kvs" "map snd (?c lws) = map (canon \<circ> snd) lws" by auto
    then show ?thesis using keys assms(1) by (metis zip_map_fst_snd)
  qed
  finally show ?thesis .
qed

lemma well_formed_leaves [simp]:
  "well_formed (jv_flag b)" "well_formed (jv_nullable t)" "well_formed (jv_source t)" "well_formed (jv_int i)"
  using show_nat_chars by (auto simp: jv_flag_def jv_nullable_def jv_source_def jv_int_def number_text_def number_char_def
      show_int_def list_all_iff split: option.split)

lemma leaf_canon [simp]:
  "canon (jv_flag b) = jv_flag b" "canon (jv_nullable t) = jv_nullable t" "canon (jv_source t) = jv_source t"
  "canon (jv_int i) = jv_int i"
  by (auto simp: jv_flag_def jv_nullable_def jv_source_def jv_int_def split: option.split)

lemma leaf_eq [simp]:
  "jv_flag b = jv_flag c \<longleftrightarrow> orElse b False = orElse c False"
  "jv_nullable t = jv_nullable u \<longleftrightarrow> t = u"
  "jv_source t = jv_source u \<longleftrightarrow> orElse t ''default'' = orElse u ''default''"
  "jv_int i = jv_int j \<longleftrightarrow> i = j"
  by (auto simp: jv_flag_def jv_nullable_def jv_source_def jv_int_def dest: show_int_inj split: option.split)

definition text_of :: "(string \<times> json_value) list \<Rightarrow> string" where
  "text_of params = canonicalJson (JvObject params)"

text \<open>Which runs share a checkpoint, up to collisions of the hash.\<close>

lemma embed_text:
  "text_of (embed_params st al sl so m d) = text_of (embed_params st' al' sl' so' m' d') \<longleftrightarrow>
     orElse st False = orElse st' False \<and> orElse al False = orElse al' False \<and> sl = sl'
     \<and> orElse so ''default'' = orElse so' ''default'' \<and> m = m' \<and> d = d'"
  unfolding text_of_def by (subst object_text_eq) (simp_all add: embed_params_def)

lemma extract_text:
  "text_of (extract_params m so dr) = text_of (extract_params m' so' dr') \<longleftrightarrow>
     m = m' \<and> orElse so ''default'' = orElse so' ''default'' \<and> dr = dr'"
  unfolding text_of_def by (subst object_text_eq) (simp_all add: extract_params_def split: extract_mode.split)

lemma reindex_text:
  "text_of (reindex_params md cd sl v) = text_of (reindex_params md' cd' sl' v') \<longleftrightarrow>
     orElse md False = orElse md' False \<and> orElse cd False = orElse cd' False \<and> sl = sl' \<and> v = v'"
  unfolding text_of_def by (subst object_text_eq) (simp_all add: reindex_params_def)

lemma mentions_text:
  "text_of (mentions_params so ty si g) = text_of (mentions_params so' ty' si' g') \<longleftrightarrow>
     orElse so ''default'' = orElse so' ''default'' \<and> ty = ty' \<and> si = si' \<and> g = g'"
  unfolding text_of_def by (subst object_text_eq) (simp_all add: mentions_params_def)

lemma sync_text:
  "text_of (sync_params so c) = text_of (sync_params so' c') \<longleftrightarrow> orElse so ''default'' = orElse so' ''default'' \<and> c = c'"
  unfolding text_of_def by (subst object_text_eq) (simp_all add: sync_params_def)

theorem canonical_text_identifies_witness:
  "canonicalJson (JvObject [(''b'', JvString [CHR 0x22]), (''a'', JvNumber ''12'')])
     = canonicalJson (JvObject [(''a'', JvNumber ''12''), (''b'', JvString [CHR 0x22])])
   \<and> canonicalJson (JvString ''12'') \<noteq> canonicalJson (JvNumber ''12'')"
proof -
  have n: "number_text ''12''" by (simp add: number_text_def number_char_def)
  show ?thesis
    using canonical_text_identifies [of "JvObject [(''b'', JvString [CHR 0x22]), (''a'', JvNumber ''12'')]"
        "JvObject [(''a'', JvNumber ''12''), (''b'', JvString [CHR 0x22])]"]
      canonical_text_identifies [of "JvString ''12''" "JvNumber ''12''"] n
    by simp
qed

end
