(* ===== verification/Op_Checkpoint.thy ===== *)
theory Op_Checkpoint
  imports Retry Fingerprints
begin

text \<open>
  The checkpoints of long operations (\<open>src/core/op-checkpoint.ts\<close>): the two tables of the database with
  their keys, cascade and statements, the writes under the retry wrapper, and loading, appending,
  replacing, clearing and purging.  Times are integers in milliseconds.  An attempt of a write is
  acknowledged, lost after it took effect, or refused; the theorems cover all three.
\<close>

section \<open>The tables\<close>

record op_key =
  ck_op :: string
  ck_fingerprint :: string

text \<open>The value of \<open>completed_keys\<close>: an array of strings, or something that is not an array (rows of an
  older version; the constraint of the column refuses new ones).\<close>

datatype stored_keys = KeyArray "string list" | NotAnArray

record parent_row =
  p_key :: op_key
  p_completed :: stored_keys
  p_updated :: int

record path_row =
  c_key :: op_key
  c_path :: string

record ckpt_tables =
  parents :: "parent_row list"
  paths :: "path_row list"

section \<open>The statements\<close>

text \<open>The upsert of the parent row; \<open>new\<close> is what an insert stores, \<open>upd\<close> what a conflict changes.\<close>

definition upsert_parent :: "op_key \<Rightarrow> parent_row \<Rightarrow> (parent_row \<Rightarrow> parent_row) \<Rightarrow> parent_row list \<Rightarrow> parent_row list" where
  "upsert_parent k new upd ps =
     (if k \<in> p_key ` set ps then map (\<lambda>p. if p_key p = k then upd p else p) ps else ps @ [new])"

definition write_keys_stmt :: "op_key \<Rightarrow> string list \<Rightarrow> int \<Rightarrow> ckpt_tables \<Rightarrow> ckpt_tables" where
  "write_keys_stmt k keys now t =
     t\<lparr>parents := upsert_parent k \<lparr>p_key = k, p_completed = KeyArray keys, p_updated = now\<rparr>
        (\<lambda>p. p\<lparr>p_completed := KeyArray keys, p_updated := now\<rparr>) (parents t)\<rparr>"

definition insert_path :: "op_key \<Rightarrow> string \<Rightarrow> path_row list \<Rightarrow> path_row list" where
  "insert_path k x rows =
     (if \<lparr>c_key = k, c_path = x\<rparr> \<in> set rows then rows else rows @ [\<lparr>c_key = k, c_path = x\<rparr>])"

definition append_paths_stmt :: "op_key \<Rightarrow> string list \<Rightarrow> int \<Rightarrow> ckpt_tables \<Rightarrow> ckpt_tables" where
  "append_paths_stmt k xs now t =
     t\<lparr>parents := upsert_parent k \<lparr>p_key = k, p_completed = KeyArray [], p_updated = now\<rparr>
        (\<lambda>p. p\<lparr>p_updated := now\<rparr>) (parents t),
       paths := fold (insert_path k) xs (paths t)\<rparr>"

text \<open>Deleting parents deletes the rows of their paths with them.\<close>

definition delete_parents :: "(parent_row \<Rightarrow> bool) \<Rightarrow> ckpt_tables \<Rightarrow> ckpt_tables" where
  "delete_parents P t =
     t\<lparr>parents := filter (\<lambda>p. \<not> P p) (parents t),
       paths := filter (\<lambda>r. c_key r \<notin> p_key ` set (filter P (parents t))) (paths t)\<rparr>"

definition clear_stmt :: "op_key \<Rightarrow> ckpt_tables \<Rightarrow> ckpt_tables" where
  "clear_stmt k = delete_parents (\<lambda>p. p_key p = k)"

definition clear_children_stmt :: "op_key \<Rightarrow> ckpt_tables \<Rightarrow> ckpt_tables" where
  "clear_children_stmt k t = t\<lparr>paths := filter (\<lambda>r. c_key r \<noteq> k) (paths t)\<rparr>"

section \<open>Durable writes\<close>

datatype attempt = Acked | AckLost pg_error | Refused pg_error

text \<open>The network during one call: what becomes of each attempt, when it runs, and the random numbers of
  the delays.\<close>

record network =
  n_attempt :: "nat \<Rightarrow> attempt"
  n_now :: "nat \<Rightarrow> int"
  n_rng :: "nat \<Rightarrow> rat"

definition takes_effect :: "attempt \<Rightarrow> bool" where
  "takes_effect a = (case a of Refused e \<Rightarrow> False | _ \<Rightarrow> True)"

definition reported :: "attempt \<Rightarrow> pg_error + unit" where
  "reported a = (case a of Acked \<Rightarrow> Inr () | AckLost e \<Rightarrow> Inl e | Refused e \<Rightarrow> Inl e)"

definition write_env :: "network \<Rightarrow> unit retry_env" where
  "write_env n =
     \<lparr>x_fn = (\<lambda>i. reported (n_attempt n i)), x_aborted = (\<lambda>_. False), x_onRetry = (\<lambda>_. None), x_reconnect = None,
      x_aborted_reconnect = (\<lambda>_. False), x_aborted_sleep = (\<lambda>_. False), x_rng = n_rng n\<rparr>"

definition run_attempt :: "(int \<Rightarrow> ckpt_tables \<Rightarrow> ckpt_tables) \<Rightarrow> network \<Rightarrow> nat \<Rightarrow> ckpt_tables \<Rightarrow> ckpt_tables" where
  "run_attempt stmt n i t = (if takes_effect (n_attempt n i) then stmt (n_now n i) t else t)"

text \<open>\<open>durableWrite\<close>: one attempt more than the wrapper sleeps.  \<open>None\<close> is the abort it throws on.\<close>

definition durableWrite :: "(int \<Rightarrow> ckpt_tables \<Rightarrow> ckpt_tables) \<Rightarrow> network \<Rightarrow> ckpt_tables \<Rightarrow> bool option \<times> ckpt_tables" where
  "durableWrite stmt n t =
     (case withRetry (write_env n) BULK_RETRY_OPTS of
        (res, sleeps) \<Rightarrow>
          (case res of Inr _ \<Rightarrow> Some True | Inl RetryAborted \<Rightarrow> None | Inl _ \<Rightarrow> Some False,
           fold (run_attempt stmt n) [0..<Suc (length sleeps)] t))"

section \<open>The operations\<close>

text \<open>\<open>loadOpCheckpoint\<close>; the second result is the warning about a row that is not an array.  \<open>False\<close> for
  \<open>readable\<close> is a query that fails.\<close>

definition banked_paths :: "op_key \<Rightarrow> ckpt_tables \<Rightarrow> string list" where
  "banked_paths k t = map c_path (filter (\<lambda>r. c_key r = k) (paths t))"

definition array_keys :: "op_key \<Rightarrow> ckpt_tables \<Rightarrow> string list" where
  "array_keys k t =
     concat (map (\<lambda>p. case p_completed p of KeyArray xs \<Rightarrow> xs | NotAnArray \<Rightarrow> []) (filter (\<lambda>p. p_key p = k) (parents t)))"

definition corrupt_parent :: "op_key \<Rightarrow> ckpt_tables \<Rightarrow> bool" where
  "corrupt_parent k t \<longleftrightarrow> list_ex (\<lambda>p. p_key p = k \<and> p_completed p = NotAnArray) (parents t)"

definition loadOpCheckpoint :: "bool \<Rightarrow> op_key \<Rightarrow> ckpt_tables \<Rightarrow> string list \<times> bool" where
  "loadOpCheckpoint readable k t =
     (if readable then (first_occ (banked_paths k t @ array_keys k t), corrupt_parent k t) else ([], False))"

definition recordCompleted :: "network \<Rightarrow> op_key \<Rightarrow> string list \<Rightarrow> ckpt_tables \<Rightarrow> bool option \<times> ckpt_tables" where
  "recordCompleted n k keys t = durableWrite (write_keys_stmt k (sort keys)) n t"

definition APPEND_CHUNK :: nat where "APPEND_CHUNK = 1000"

text \<open>The chunks are written one after the other; the network of chunk \<open>i\<close> is \<open>ns i\<close>.\<close>

function append_loop :: "(nat \<Rightarrow> network) \<Rightarrow> op_key \<Rightarrow> nat \<Rightarrow> string list \<Rightarrow> ckpt_tables \<Rightarrow> bool option \<times> ckpt_tables" where
  "append_loop ns k i xs t =
     (if xs = [] then (Some True, t)
      else (case durableWrite (append_paths_stmt k (take APPEND_CHUNK xs)) (ns i) t of
              (Some True, t') \<Rightarrow> append_loop ns k (Suc i) (drop APPEND_CHUNK xs) t'
            | (r, t') \<Rightarrow> (r, t')))"
  by pat_completeness auto
termination
  by (relation "measure (\<lambda>(ns, k, i, xs, t). length xs)") (auto simp: APPEND_CHUNK_def)

declare append_loop.simps [simp del]

definition appendCompleted :: "(nat \<Rightarrow> network) \<Rightarrow> op_key \<Rightarrow> string list \<Rightarrow> ckpt_tables \<Rightarrow> bool option \<times> ckpt_tables" where
  "appendCompleted ns k delta t = append_loop ns k 0 delta t"

text \<open>One attempt, no retry.\<close>

definition appendCompletedOnce :: "attempt \<Rightarrow> int \<Rightarrow> op_key \<Rightarrow> string list \<Rightarrow> ckpt_tables \<Rightarrow> bool \<times> ckpt_tables" where
  "appendCompletedOnce a now k delta t =
     (if delta = [] then (True, t)
      else (a = Acked, if takes_effect a then append_paths_stmt k delta now t else t))"

definition clearOpCheckpoint :: "network \<Rightarrow> network \<Rightarrow> op_key \<Rightarrow> ckpt_tables \<Rightarrow> unit option \<times> ckpt_tables" where
  "clearOpCheckpoint n1 n2 k t =
     (case durableWrite (\<lambda>_. clear_stmt k) n1 t of
        (None, t1) \<Rightarrow> (None, t1)
      | (Some _, t1) \<Rightarrow>
          (case durableWrite (\<lambda>_. clear_children_stmt k) n2 t1 of
             (None, t2) \<Rightarrow> (None, t2)
           | (Some _, t2) \<Rightarrow> (Some (), t2)))"

definition resumeFilter :: "string list \<Rightarrow> string list \<Rightarrow> string list" where
  "resumeFilter every completed =
     (if completed = [] then every else filter (\<lambda>k. k \<notin> set completed) every)"

definition purgeStaleCheckpoints :: "bool \<Rightarrow> int \<Rightarrow> int \<Rightarrow> ckpt_tables \<Rightarrow> nat \<times> ckpt_tables" where
  "purgeStaleCheckpoints works ttlDays now t =
     (if works
      then (let stale = (\<lambda>p. p_updated p < now - ttlDays * 86400000)
            in (length (filter stale (parents t)), delete_parents stale t))
      else (0, t))"

section \<open>What a durable write leaves\<close>

text \<open>A write is abandoned by an abort only when the caller has a signal, and these writes have none: the
  exception that \<open>durableWrite\<close> passes on is never thrown.\<close>

lemma write_env_undisturbed: "undisturbed (write_env n)"
  by (simp add: undisturbed_def write_env_def reconnect_step_def)

definition retried :: "network \<Rightarrow> nat \<Rightarrow> bool" where
  "retried n i = (case reported (n_attempt n i) of Inr _ \<Rightarrow> False | Inl e \<Rightarrow> isRetryableConnError e)"

lemma reported_cases: "reported a = Inr () \<longleftrightarrow> a = Acked"
  by (cases a) (simp_all add: reported_def)

lemma durable_shape:
  "\<exists>m \<le> 3. durableWrite stmt n t = (Some (n_attempt n m = Acked), fold (run_attempt stmt n) [0..<Suc m] t)
     \<and> (\<forall>i < m. retried n i)"
proof -
  have tr: "transient (write_env n) i = retried n i" for i
    by (simp add: transient_def retried_def write_env_def)
  have three: "maxRetries BULK_RETRY_OPTS = int 3" by (simp add: BULK_RETRY_OPTS_def)
  obtain r ds where w: "withRetry (write_env n) BULK_RETRY_OPTS = (r, ds)" by (cases "withRetry (write_env n) BULK_RETRY_OPTS")
  have shape: "\<exists>m \<le> 3. r = map_sum Thrown id (reported (n_attempt n m)) \<and> length ds = m \<and> (\<forall>i < m. retried n i)"
  proof (cases "List.find (\<lambda>i. \<not> transient (write_env n) i) [0..<Suc 3]")
    case None
    then have "\<forall>i < 3. retried n i" by (auto simp: find_None_iff tr simp del: upt_Suc)
    then show ?thesis
      using retry_loop_undisturbed [OF write_env_undisturbed _ three, of 0 n 0 NothingThrown] None w
      by (auto simp: withRetry_def write_env_def simp del: upt_Suc)
  next
    case (Some i)
    then have "i \<le> 3" "\<forall>j < i. retried n j"
      using Some by (auto simp: find_Some_iff tr simp del: upt_Suc)
    then show ?thesis
      using retry_loop_undisturbed [OF write_env_undisturbed _ three, of 0 n 0 NothingThrown] Some w
      by (auto simp: withRetry_def write_env_def simp del: upt_Suc)
  qed
  then obtain m where m: "m \<le> 3" "r = map_sum Thrown id (reported (n_attempt n m))" "length ds = m" "\<forall>i < m. retried n i"
    by blast
  show ?thesis
    using m by (intro exI [of _ m]) (cases "n_attempt n m"; simp add: durableWrite_def w reported_def)
qed

text \<open>The contents of the tables without the time stamps.  Every statement writes the same contents however
  often and whenever it runs.\<close>

definition contents :: "ckpt_tables \<Rightarrow> (op_key \<times> stored_keys) list \<times> path_row list" where
  "contents t = (map (\<lambda>p. (p_key p, p_completed p)) (parents t), paths t)"

definition repeatable :: "(int \<Rightarrow> ckpt_tables \<Rightarrow> ckpt_tables) \<Rightarrow> bool" where
  "repeatable stmt \<longleftrightarrow> (\<exists>f. (\<forall>a t. contents (stmt a t) = f (contents t)) \<and> (\<forall>c. f (f c) = f c))"

lemma repeatable_fold:
  assumes "repeatable stmt"
  shows "contents (fold (run_attempt stmt n) is t)
    = (if list_ex (\<lambda>i. takes_effect (n_attempt n i)) is then contents (stmt 0 t) else contents t)"
proof (induction "is" arbitrary: t)
  case (Cons i "is")
  from assms obtain f where f: "contents (stmt a u) = f (contents u)" "f (f c) = f c" for a u c
    unfolding repeatable_def by blast
  show ?case using Cons by (simp add: run_attempt_def f)
qed simp

lemma durable_outcome:
  assumes "repeatable stmt"
  shows "fst (durableWrite stmt n t) = Some True \<Longrightarrow> contents (snd (durableWrite stmt n t)) = contents (stmt 0 t)"
    and "fst (durableWrite stmt n t) \<noteq> Some True \<Longrightarrow>
      fst (durableWrite stmt n t) = Some False
      \<and> contents (snd (durableWrite stmt n t)) \<in> {contents t, contents (stmt 0 t)}"
proof -
  obtain m where m: "durableWrite stmt n t = (Some (n_attempt n m = Acked), fold (run_attempt stmt n) [0..<Suc m] t)"
    using durable_shape [of stmt n t] by blast
  note f = repeatable_fold [OF assms, of n "[0..<Suc m]" t]
  show "contents (snd (durableWrite stmt n t)) = contents (stmt 0 t)" if "fst (durableWrite stmt n t) = Some True"
    using that f m by (auto simp: list_ex_iff takes_effect_def)
  show "fst (durableWrite stmt n t) = Some False
      \<and> contents (snd (durableWrite stmt n t)) \<in> {contents t, contents (stmt 0 t)}"
    if "fst (durableWrite stmt n t) \<noteq> Some True"
    using that f m by simp
qed

section \<open>The statements on the contents\<close>

definition ensure_key :: "op_key \<Rightarrow> (op_key \<times> stored_keys) list \<Rightarrow> (op_key \<times> stored_keys) list" where
  "ensure_key k ps = (if k \<in> fst ` set ps then ps else ps @ [(k, KeyArray [])])"

definition put_keys :: "op_key \<Rightarrow> string list \<Rightarrow> (op_key \<times> stored_keys) list \<Rightarrow> (op_key \<times> stored_keys) list" where
  "put_keys k keys ps =
     (if k \<in> fst ` set ps then map (\<lambda>(l, c). if l = k then (l, KeyArray keys) else (l, c)) ps else ps @ [(k, KeyArray keys)])"

lemma set_insert_path [simp]: "set (insert_path k x rows) = insert \<lparr>c_key = k, c_path = x\<rparr> (set rows)"
  by (auto simp: insert_path_def)

lemma set_insert_paths: "set (fold (insert_path k) xs rows) = (\<lambda>x. \<lparr>c_key = k, c_path = x\<rparr>) ` set xs \<union> set rows"
  by (induction xs arbitrary: rows) auto

lemma insert_paths_present: "(\<lambda>x. \<lparr>c_key = k, c_path = x\<rparr>) ` set xs \<subseteq> set rows \<Longrightarrow> fold (insert_path k) xs rows = rows"
  by (induction xs) (auto simp: insert_path_def)

lemma contents_write: "contents (write_keys_stmt k keys a t) = apfst (put_keys k keys) (contents t)"
  by (simp add: contents_def write_keys_stmt_def upsert_parent_def put_keys_def image_image)

lemma contents_append:
  "contents (append_paths_stmt k xs a t) = map_prod (ensure_key k) (fold (insert_path k) xs) (contents t)"
  by (simp add: contents_def append_paths_stmt_def upsert_parent_def ensure_key_def image_image)

lemma contents_clear:
  "contents (clear_stmt k t) =
     (filter (\<lambda>p. fst p \<noteq> k) (fst (contents t)),
      if k \<in> fst ` set (fst (contents t)) then filter (\<lambda>r. c_key r \<noteq> k) (snd (contents t)) else snd (contents t))"
  by (auto simp: contents_def clear_stmt_def delete_parents_def filter_map comp_def image_iff intro!: filter_cong filter_True)

lemma contents_clear_children: "contents (clear_children_stmt k t) = apsnd (filter (\<lambda>r. c_key r \<noteq> k)) (contents t)"
  by (simp add: contents_def clear_children_stmt_def)

lemma put_keys_twice: "put_keys k keys (put_keys k keys ps) = put_keys k keys ps"
proof -
  let ?m = "\<lambda>(l, c). if l = k then (l, KeyArray keys) else (l, c)"
  have "fst ` set (map ?m qs) = fst ` set qs" for qs
    by (induction qs) (auto split: prod.split)
  moreover have "map ?m (map ?m qs) = map ?m qs" for qs by (auto simp: split_beta)
  moreover have "map ?m qs = qs" if "k \<notin> fst ` set qs" for qs using that by (induction qs) (auto split: prod.split)
  ultimately show ?thesis by (simp add: put_keys_def del: map_map set_map)
qed

lemma ensure_key_twice: "ensure_key k (ensure_key k ps) = ensure_key k ps"
  by (simp add: ensure_key_def)

lemma repeatable_write: "repeatable (write_keys_stmt k keys)"
  unfolding repeatable_def
  by (rule exI [of _ "apfst (put_keys k keys)"]) (simp add: contents_write put_keys_twice split_paired_all)

lemma repeatable_append: "repeatable (append_paths_stmt k xs)"
  unfolding repeatable_def
  by (rule exI [of _ "map_prod (ensure_key k) (fold (insert_path k) xs)"])
    (simp add: contents_append ensure_key_twice insert_paths_present set_insert_paths split_paired_all)

lemma repeatable_clear: "repeatable (\<lambda>_. clear_stmt k)"
  unfolding repeatable_def
  by (rule exI [of _ "\<lambda>c. (filter (\<lambda>p. fst p \<noteq> k) (fst c), if k \<in> fst ` set (fst c) then filter (\<lambda>r. c_key r \<noteq> k) (snd c) else snd c)"])
    (auto simp: contents_clear)

lemma repeatable_clear_children: "repeatable (\<lambda>_. clear_children_stmt k)"
  unfolding repeatable_def
  by (rule exI [of _ "apsnd (filter (\<lambda>r. c_key r \<noteq> k))"]) (simp add: contents_clear_children split_paired_all)

section \<open>The keys of the tables\<close>

text \<open>The primary keys of both tables and the foreign key from the paths to their parent.\<close>

definition tables_ok :: "ckpt_tables \<Rightarrow> bool" where
  "tables_ok t \<longleftrightarrow>
     distinct (map p_key (parents t)) \<and> distinct (paths t) \<and> c_key ` set (paths t) \<subseteq> p_key ` set (parents t)"

definition contents_ok :: "(op_key \<times> stored_keys) list \<times> path_row list \<Rightarrow> bool" where
  "contents_ok c \<longleftrightarrow> distinct (map fst (fst c)) \<and> distinct (snd c) \<and> c_key ` set (snd c) \<subseteq> fst ` set (fst c)"

lemma tables_ok_contents: "tables_ok t \<longleftrightarrow> contents_ok (contents t)"
  by (simp add: tables_ok_def contents_ok_def contents_def comp_def image_image)

lemma distinct_insert_paths: "distinct rows \<Longrightarrow> distinct (fold (insert_path k) xs rows)"
  by (induction xs arbitrary: rows) (auto simp: insert_path_def)

lemma map_fst_put_keys: "map fst (put_keys k keys ps) = (if k \<in> fst ` set ps then map fst ps else map fst ps @ [k])"
  by (auto simp: put_keys_def split_beta)

lemma map_fst_ensure_key: "map fst (ensure_key k ps) = (if k \<in> fst ` set ps then map fst ps else map fst ps @ [k])"
  by (simp add: ensure_key_def)

lemma write_ok: "tables_ok t \<Longrightarrow> tables_ok (write_keys_stmt k keys a t)"
proof -
  have "fst ` set (put_keys k keys ps) = insert k (fst ` set ps)" for ps
    using arg_cong [OF map_fst_put_keys [of k keys ps], of set] by auto
  then show "tables_ok t \<Longrightarrow> tables_ok (write_keys_stmt k keys a t)"
    by (auto simp: tables_ok_contents contents_write contents_ok_def map_fst_put_keys)
qed

lemma append_ok: "tables_ok t \<Longrightarrow> tables_ok (append_paths_stmt k xs a t)"
proof -
  have "fst ` set (ensure_key k ps) = insert k (fst ` set ps)" for ps
    using arg_cong [OF map_fst_ensure_key [of k ps], of set] by auto
  then show "tables_ok t \<Longrightarrow> tables_ok (append_paths_stmt k xs a t)"
    by (auto simp: tables_ok_contents contents_append contents_ok_def map_fst_ensure_key distinct_insert_paths set_insert_paths)
qed

lemma delete_ok: "tables_ok t \<Longrightarrow> tables_ok (delete_parents P t)"
  by (auto simp: tables_ok_def delete_parents_def distinct_map_filter image_iff) blast

lemma clear_children_ok: "tables_ok t \<Longrightarrow> tables_ok (clear_children_stmt k t)"
  by (auto simp: tables_ok_def clear_children_stmt_def)

lemma durable_ok:
  assumes "\<And>a t. tables_ok t \<Longrightarrow> tables_ok (stmt a t)" "tables_ok t"
  shows "tables_ok (snd (durableWrite stmt n t))"
proof -
  have "tables_ok (fold (run_attempt stmt n) is t)" if "tables_ok t" for "is" t
    using that assms(1) by (induction "is" arbitrary: t) (auto simp: run_attempt_def)
  then show ?thesis using assms(2) durable_shape [of stmt n t] by (metis snd_conv)
qed

lemma append_loop_ok: "tables_ok t \<Longrightarrow> tables_ok (snd (append_loop ns k i xs t))"
proof (induction ns k i xs t rule: append_loop.induct)
  case (1 ns k i xs t)
  have w: "tables_ok (snd (durableWrite (append_paths_stmt k (take APPEND_CHUNK xs)) (ns i) t))"
    using 1(2) by (intro durable_ok append_ok)
  show ?case
    using 1(1) w by (auto simp: append_loop.simps [of ns k i xs] 1(2) split: prod.split option.split bool.split)
qed

section \<open>What the store means\<close>

text \<open>Per key, a set that only grows by appending, and a set that is replaced as a whole.\<close>

definition appended :: "ckpt_tables \<Rightarrow> op_key \<Rightarrow> string set" where
  "appended t k = set (banked_paths k t)"

definition replaced :: "ckpt_tables \<Rightarrow> op_key \<Rightarrow> string set" where
  "replaced t k = set (array_keys k t)"

lemma load_is_union: "set (fst (loadOpCheckpoint True k t)) = appended t k \<union> replaced t k"
  by (simp add: loadOpCheckpoint_def appended_def replaced_def)

lemma row_iff: "\<lparr>c_key = k, c_path = x\<rparr> = r \<longleftrightarrow> c_key r = k \<and> c_path r = x"
  by (cases r) auto

lemma appended_contents: "appended t k = {x. \<lparr>c_key = k, c_path = x\<rparr> \<in> set (snd (contents t))}"
proof -
  have "\<lparr>c_key = k, c_path = x\<rparr> \<in> set rows \<longleftrightarrow> x \<in> c_path ` {r \<in> set rows. c_key r = k}" for x rows
    using row_iff [of k x] by (induction rows) auto
  then show ?thesis by (auto simp: appended_def banked_paths_def contents_def)
qed

lemma replaced_contents: "replaced t k = {x. \<exists>xs. (k, KeyArray xs) \<in> set (fst (contents t)) \<and> x \<in> set xs}"
  by (force simp: replaced_def array_keys_def contents_def split: stored_keys.splits)

lemma same_contents: "contents t = contents u \<Longrightarrow> appended t = appended u \<and> replaced t = replaced u"
  by (simp add: fun_eq_iff appended_contents replaced_contents)

lemma append_stmt_view:
  "appended (append_paths_stmt k xs a t) = (appended t)(k := appended t k \<union> set xs)"
  "replaced (append_paths_stmt k xs a t) = replaced t"
  by (auto simp: fun_eq_iff appended_contents replaced_contents contents_append set_insert_paths ensure_key_def)

lemma set_put_keys: "(l, c) \<in> set (put_keys k keys ps) \<longleftrightarrow> (if l = k then c = KeyArray keys else (l, c) \<in> set ps)"
proof (cases "k \<in> fst ` set ps")
  case True
  then obtain d where "(k, d) \<in> set ps" by auto
  then show ?thesis using True by (auto simp: put_keys_def image_iff split: if_splits intro: bexI [of _ "(k, d)"] bexI [of _ "(l, c)"])
next
  case False
  then show ?thesis by (force simp: put_keys_def)
qed

lemma write_stmt_view:
  "appended (write_keys_stmt k keys a t) = appended t"
  "replaced (write_keys_stmt k keys a t) = (replaced t)(k := set keys)"
  by (auto simp: fun_eq_iff appended_contents replaced_contents contents_write set_put_keys split: if_splits)

lemma clear_stmt_view:
  assumes "tables_ok t"
  shows "appended (clear_stmt k t) = (appended t)(k := {})" "replaced (clear_stmt k t) = (replaced t)(k := {})"
proof -
  have "c_key ` set (snd (contents t)) \<subseteq> fst ` set (fst (contents t))"
    using assms by (simp add: tables_ok_contents contents_ok_def)
  then have "k \<in> fst ` set (fst (contents t))" if "\<lparr>c_key = k, c_path = x\<rparr> \<in> set (snd (contents t))" for x
    using that by force
  then show "appended (clear_stmt k t) = (appended t)(k := {})"
    by (auto simp: fun_eq_iff appended_contents contents_clear)
  show "replaced (clear_stmt k t) = (replaced t)(k := {})"
    by (auto simp: fun_eq_iff replaced_contents contents_clear)
qed

lemma clear_children_view:
  "appended (clear_children_stmt k t) = (appended t)(k := {})" "replaced (clear_children_stmt k t) = replaced t"
  by (auto simp: fun_eq_iff appended_contents replaced_contents contents_clear_children)

section \<open>The operations refine the store\<close>

lemma durable_view:
  assumes "repeatable stmt" "appended (stmt 0 t) = A" "replaced (stmt 0 t) = R"
  shows "\<exists>b. fst (durableWrite stmt n t) = Some b
    \<and> (appended (snd (durableWrite stmt n t)) = A \<and> replaced (snd (durableWrite stmt n t)) = R
       \<or> \<not> b \<and> appended (snd (durableWrite stmt n t)) = appended t \<and> replaced (snd (durableWrite stmt n t)) = replaced t)"
proof -
  let ?w = "durableWrite stmt n t"
  have same: "appended (snd ?w) = appended u \<and> replaced (snd ?w) = replaced u" if "contents (snd ?w) = contents u" for u
    using that by (rule same_contents)
  show ?thesis
  proof (cases "fst ?w = Some True")
    case True
    then show ?thesis using same [OF durable_outcome(1) [OF assms(1) True]] assms(2,3) by (intro exI [of _ True]) simp
  next
    case False
    then show ?thesis using durable_outcome(2) [OF assms(1) False] same [of t] same [of "stmt 0 t"] assms(2,3) by auto
  qed
qed

lemma durable_effect:
  assumes "repeatable stmt" "appended (stmt 0 t) = A" "replaced (stmt 0 t) = R" "takes_effect (n_attempt n 0)"
  shows "appended (snd (durableWrite stmt n t)) = A \<and> replaced (snd (durableWrite stmt n t)) = R"
proof -
  obtain m where m: "snd (durableWrite stmt n t) = fold (run_attempt stmt n) [0..<Suc m] t"
    using durable_shape [of stmt n t] by (metis snd_conv)
  have "contents (snd (durableWrite stmt n t)) = contents (stmt 0 t)"
    using assms(4) unfolding m repeatable_fold [OF assms(1)] by (auto simp: list_ex_iff)
  from same_contents [OF this] show ?thesis using assms(2,3) by simp
qed

lemma append_loop_outcome:
  "\<exists>b j. fst (append_loop ns k i xs t) = Some b \<and> j \<le> length xs \<and> (b \<longrightarrow> j = length xs)
     \<and> appended (snd (append_loop ns k i xs t)) = (appended t)(k := appended t k \<union> set (take j xs))
     \<and> replaced (snd (append_loop ns k i xs t)) = replaced t"
proof (induction ns k i xs t rule: append_loop.induct)
  case (1 ns k i xs t)
  let ?w = "durableWrite (append_paths_stmt k (take APPEND_CHUNK xs)) (ns i) t"
  let ?l = "append_loop ns k i xs t"
  obtain b where b: "fst ?w = Some b"
    "appended (snd ?w) = (appended t)(k := appended t k \<union> set (take APPEND_CHUNK xs)) \<or> \<not> b \<and> appended (snd ?w) = appended t"
    "replaced (snd ?w) = replaced t"
    using durable_view [OF repeatable_append append_stmt_view, of k "take APPEND_CHUNK xs" "ns i" t] by blast
  show ?case
  proof (cases "xs = [] \<or> \<not> b")
    case True
    then have "xs = [] \<and> ?l = (Some True, t) \<or> ?l = (Some False, snd ?w) \<and> \<not> b"
      using b(1) by (cases ?w) (auto simp: append_loop.simps [of ns k i xs])
    then show ?thesis
    proof (elim disjE conjE)
      assume "xs = []" "?l = (Some True, t)"
      then show ?thesis by (intro exI [of _ True] exI [of _ "0 :: nat"]) simp
    next
      assume l: "?l = (Some False, snd ?w)" "\<not> b"
      show ?thesis
      proof (cases "appended (snd ?w) = appended t")
        case True
        then show ?thesis using l b(3) by (intro exI [of _ False] exI [of _ "0 :: nat"]) simp
      next
        case False
        then have "appended (snd ?w) = (appended t)(k := appended t k \<union> set (take (min APPEND_CHUNK (length xs)) xs))"
          using b(2) by (simp add: min_def)
        then show ?thesis using l b(3) by (intro exI [of _ False] exI [of _ "min APPEND_CHUNK (length xs)"]) simp
      qed
    qed
  next
    case False
    then have w: "?w = (Some True, snd ?w)" "appended (snd ?w) = (appended t)(k := appended t k \<union> set (take APPEND_CHUNK xs))"
      using b by (auto simp: prod_eq_iff)
    have step: "?l = append_loop ns k (Suc i) (drop APPEND_CHUNK xs) (snd ?w)"
      using False by (subst append_loop.simps, subst w(1)) simp
    obtain c j where c: "fst ?l = Some c" "j \<le> length xs - APPEND_CHUNK" "c \<longrightarrow> j = length xs - APPEND_CHUNK"
      "appended (snd ?l) = (appended (snd ?w))(k := appended (snd ?w) k \<union> set (take j (drop APPEND_CHUNK xs)))"
      "replaced (snd ?l) = replaced (snd ?w)"
      using 1 [OF _ w(1) [symmetric] refl refl] False unfolding step length_drop by blast
    have "set (take (min (length xs) (APPEND_CHUNK + j)) xs) = set (take APPEND_CHUNK xs) \<union> set (take j (drop APPEND_CHUNK xs))"
      by (simp add: min_def take_add [symmetric] flip: set_append)
    then have "appended (snd ?l) = (appended t)(k := appended t k \<union> set (take (min (length xs) (APPEND_CHUNK + j)) xs))"
      using c(4) w(2) by (simp add: Un_assoc)
    moreover have "c \<longrightarrow> min (length xs) (APPEND_CHUNK + j) = length xs" using c(3) by auto
    ultimately show ?thesis using c(1,5) b(3) by (intro exI [of _ c] exI [of _ "min (length xs) (APPEND_CHUNK + j)"] conjI) simp_all
  qed
qed

lemma clear_outcome:
  assumes "tables_ok t"
  shows "fst (clearOpCheckpoint n1 n2 k t) = Some ()"
    "(\<forall>l. l \<noteq> k \<longrightarrow> appended (snd (clearOpCheckpoint n1 n2 k t)) l = appended t l \<and> replaced (snd (clearOpCheckpoint n1 n2 k t)) l = replaced t l)"
    "appended (snd (clearOpCheckpoint n1 n2 k t)) k \<in> {appended t k, {}}"
    "replaced (snd (clearOpCheckpoint n1 n2 k t)) k \<in> {replaced t k, {}}"
    "takes_effect (n_attempt n1 0) \<Longrightarrow>
       appended (snd (clearOpCheckpoint n1 n2 k t)) k = {} \<and> replaced (snd (clearOpCheckpoint n1 n2 k t)) k = {}"
proof -
  let ?w = "durableWrite (\<lambda>_. clear_stmt k) n1 t"
  let ?v = "durableWrite (\<lambda>_. clear_children_stmt k) n2 (snd ?w)"
  obtain b where b: "fst ?w = Some b"
    "appended (snd ?w) = (appended t)(k := {}) \<and> replaced (snd ?w) = (replaced t)(k := {})
      \<or> \<not> b \<and> appended (snd ?w) = appended t \<and> replaced (snd ?w) = replaced t"
    using durable_view [OF repeatable_clear clear_stmt_view [OF assms], of k n1] by blast
  obtain c where c: "fst ?v = Some c" "appended (snd ?v) = (appended (snd ?w))(k := {}) \<or> appended (snd ?v) = appended (snd ?w)"
    "replaced (snd ?v) = replaced (snd ?w)"
    using durable_view [OF repeatable_clear_children clear_children_view, of k n2 "snd ?w"] by blast
  have r: "clearOpCheckpoint n1 n2 k t = (Some (), snd ?v)"
    using b(1) c(1) by (cases ?w; cases ?v) (auto simp: clearOpCheckpoint_def)
  show "fst (clearOpCheckpoint n1 n2 k t) = Some ()" using r by simp
  show "\<forall>l. l \<noteq> k \<longrightarrow> appended (snd (clearOpCheckpoint n1 n2 k t)) l = appended t l \<and> replaced (snd (clearOpCheckpoint n1 n2 k t)) l = replaced t l"
    using r b(2) c by auto
  show "appended (snd (clearOpCheckpoint n1 n2 k t)) k \<in> {appended t k, {}}" using r b(2) c by auto
  show "replaced (snd (clearOpCheckpoint n1 n2 k t)) k \<in> {replaced t k, {}}" using r b(2) c by auto
  show "appended (snd (clearOpCheckpoint n1 n2 k t)) k = {} \<and> replaced (snd (clearOpCheckpoint n1 n2 k t)) k = {}"
    if "takes_effect (n_attempt n1 0)"
    using r c durable_effect [OF repeatable_clear clear_stmt_view [OF assms] that, of k] by auto
qed

section \<open>The interface of the sync\<close>

text \<open>What the sync relies on when it banks paths: an append adds some of the given paths and nothing else, all
  of them when it reports success, and touches no other key and no replaced set.\<close>

locale path_store =
  fixes valid :: "'s \<Rightarrow> bool"
    and banked :: "'s \<Rightarrow> 'k \<Rightarrow> string set"
    and rest :: "'s \<Rightarrow> 'r"
    and append :: "'n \<Rightarrow> 'k \<Rightarrow> string list \<Rightarrow> 's \<Rightarrow> bool option \<times> 's"
  assumes append_valid: "valid s \<Longrightarrow> valid (snd (append n k xs s))"
    and append_keeps: "banked s k \<subseteq> banked (snd (append n k xs s)) k"
    and append_within: "banked (snd (append n k xs s)) k \<subseteq> banked s k \<union> set xs"
    and append_done: "fst (append n k xs s) = Some True \<Longrightarrow> set xs \<subseteq> banked (snd (append n k xs s)) k"
    and append_other: "l \<noteq> k \<Longrightarrow> banked (snd (append n k xs s)) l = banked s l"
    and append_rest: "rest (snd (append n k xs s)) = rest s"
    and append_returns: "fst (append n k xs s) \<noteq> None"
begin

lemma done_exact: "fst (append n k xs s) = Some True \<Longrightarrow> banked (snd (append n k xs s)) k = banked s k \<union> set xs"
  using append_keeps append_within append_done by (metis Un_subset_iff subset_antisym)

text \<open>Appending the same paths again after a failure banks them and nothing twice.\<close>

lemma retry_done:
  "fst (append m k xs (snd (append n k xs s))) = Some True
    \<Longrightarrow> banked (snd (append m k xs (snd (append n k xs s)))) k = banked s k \<union> set xs"
  using done_exact [of m k xs "snd (append n k xs s)"] append_keeps [of s k n xs] append_within [of n k xs s] by auto

end

lemma appendCompleted_outcome:
  "\<exists>b j. fst (appendCompleted ns k delta t) = Some b \<and> (b \<longrightarrow> j = length delta)
     \<and> appended (snd (appendCompleted ns k delta t)) = (appended t)(k := appended t k \<union> set (take j delta))
     \<and> replaced (snd (appendCompleted ns k delta t)) = replaced t"
  using append_loop_outcome [of ns k 0 delta t] unfolding appendCompleted_def by blast

interpretation retried_store: path_store tables_ok appended replaced appendCompleted
proof unfold_locales
  fix s n k xs l
  obtain b j where o: "fst (appendCompleted n k xs s) = Some b" "b \<longrightarrow> j = length xs"
    "appended (snd (appendCompleted n k xs s)) = (appended s)(k := appended s k \<union> set (take j xs))"
    "replaced (snd (appendCompleted n k xs s)) = replaced s"
    using appendCompleted_outcome by blast
  show "tables_ok s \<Longrightarrow> tables_ok (snd (appendCompleted n k xs s))"
    by (simp add: appendCompleted_def append_loop_ok)
  show "appended s k \<subseteq> appended (snd (appendCompleted n k xs s)) k" using o(3) by simp
  show "appended (snd (appendCompleted n k xs s)) k \<subseteq> appended s k \<union> set xs" using o(3) set_take_subset [of j xs] by auto
  show "set xs \<subseteq> appended (snd (appendCompleted n k xs s)) k" if "fst (appendCompleted n k xs s) = Some True"
    using o that by simp
  show "appended (snd (appendCompleted n k xs s)) l = appended s l" if "l \<noteq> k" using o(3) that by simp
  show "replaced (snd (appendCompleted n k xs s)) = replaced s" by (rule o(4))
  show "fst (appendCompleted n k xs s) \<noteq> None" using o(1) by simp
qed

text \<open>The append of the shutdown keeps the same contract without retries.\<close>

definition append_once :: "attempt \<times> int \<Rightarrow> op_key \<Rightarrow> string list \<Rightarrow> ckpt_tables \<Rightarrow> bool option \<times> ckpt_tables" where
  "append_once an k xs t = map_prod Some id (appendCompletedOnce (fst an) (snd an) k xs t)"

interpretation once_store: path_store tables_ok appended replaced append_once
  by unfold_locales
    (auto simp: append_once_def appendCompletedOnce_def append_stmt_view append_ok takes_effect_def split: if_splits)

text \<open>One call of the module.\<close>

datatype ckpt_call =
  CallRecord network op_key "string list"
| CallAppend "nat \<Rightarrow> network" op_key "string list"
| CallAppendOnce attempt int op_key "string list"
| CallClear network network op_key
| CallPurge bool int int

fun apply_call :: "ckpt_call \<Rightarrow> ckpt_tables \<Rightarrow> ckpt_tables" where
  "apply_call (CallRecord n k keys) t = snd (recordCompleted n k keys t)"
| "apply_call (CallAppend ns k delta) t = snd (appendCompleted ns k delta t)"
| "apply_call (CallAppendOnce a now k delta) t = snd (appendCompletedOnce a now k delta t)"
| "apply_call (CallClear n1 n2 k) t = snd (clearOpCheckpoint n1 n2 k t)"
| "apply_call (CallPurge works ttl now) t = snd (purgeStaleCheckpoints works ttl now t)"

lemma apply_call_ok: "tables_ok t \<Longrightarrow> tables_ok (apply_call c t)"
proof (induction c t rule: apply_call.induct)
  case (4 n1 n2 k t)
  have w: "tables_ok (snd (durableWrite (\<lambda>_. clear_stmt k) n1 t))"
    by (rule durable_ok [OF _ 4]) (simp add: clear_stmt_def delete_ok)
  then have "tables_ok (snd (durableWrite (\<lambda>_. clear_children_stmt k) n2 (snd (durableWrite (\<lambda>_. clear_stmt k) n1 t))))"
    by (rule durable_ok [rotated]) (rule clear_children_ok)
  then show ?case
    using w by (auto simp: clearOpCheckpoint_def split: prod.split option.split)
qed (auto simp: recordCompleted_def appendCompleted_def appendCompletedOnce_def purgeStaleCheckpoints_def Let_def
    intro: durable_ok write_ok append_ok append_loop_ok delete_ok)

interpretation checkpoint_tables: invariant_system "\<lambda>t. t = \<lparr>parents = [], paths = []\<rparr>" "\<lambda>t u. \<exists>c. u = apply_call c t" tables_ok
  by unfold_locales (auto simp: apply_call_ok, simp add: tables_ok_def)

text \<open>Whatever calls run, in whatever order and under whatever network, retries and lost acknowledgements
  included, the two tables keep their keys: one parent row per operation and fingerprint, one row per
  path, and no path without its parent.\<close>

theorem checkpoint_keys_hold:
  assumes "tables_ok t"
  shows "tables_ok (fold apply_call calls t)"
  using assms by (induction calls arbitrary: t) (auto intro: apply_call_ok)


section \<open>Witnesses\<close>

definition key1 :: op_key where "key1 = \<lparr>ck_op = ''sync'', ck_fingerprint = ''0a1b2c3d''\<rparr>"

definition no_rows :: ckpt_tables where "no_rows = \<lparr>parents = [], paths = []\<rparr>"

definition good_network :: network where
  "good_network = \<lparr>n_attempt = (\<lambda>_. Acked), n_now = (\<lambda>_. 0), n_rng = (\<lambda>_. 0)\<rparr>"

lemma no_rows_ok: "tables_ok no_rows"
  by (simp add: tables_ok_def no_rows_def)

theorem checkpoint_keys_hold_witness:
  "tables_ok (fold apply_call [CallAppend (\<lambda>_. good_network) key1 [''a.md''], CallRecord good_network key1 [''b''], CallPurge True 7 0] no_rows)"
  by (rule checkpoint_keys_hold [OF no_rows_ok])


end
