(* ===== verification/Sync_Manifest.thy ===== *)
theory Sync_Manifest
  imports Js_Data
begin

text \<open>
  What changed between two commits, and which of it is synced (\<open>src/core/sync.ts\<close>,
  \<open>src/core/sync-delta.ts\<close>, the filter in \<open>src/commands/sync.ts\<close>): the parser of the output of
  \<open>git diff --name-status -M\<close>, the classification of paths by strategy, pruned directories, file names
  and globs, and the filtered manifest of one sync.  Git itself is an argument.
\<close>

section \<open>The manifest\<close>

record rename =
  r_from :: string
  r_to :: string

record manifest =
  m_added :: "string list"
  m_modified :: "string list"
  m_deleted :: "string list"
  m_renamed :: "rename list"

definition empty_manifest :: manifest where
  "empty_manifest = \<lparr>m_added = [], m_modified = [], m_deleted = [], m_renamed = []\<rparr>"

definition TAB :: char where "TAB = CHR 0x09"
definition NEWLINE :: char where "NEWLINE = CHR 0x0A"

text \<open>One line of the output.\<close>

definition add_line :: "string \<Rightarrow> manifest \<Rightarrow> manifest" where
  "add_line line m =
     (let trimmed = trim line; parts = split_on TAB trimmed
      in if trimmed = [] then m
         else if length parts < 2 then m
         else (let action = parts ! 0; path = parts ! (if length parts = 3 then 2 else 1)
               in if action = ''A'' then m\<lparr>m_added := m_added m @ [path]\<rparr>
                  else if action = ''M'' then m\<lparr>m_modified := m_modified m @ [path]\<rparr>
                  else if action = ''D'' then m\<lparr>m_deleted := m_deleted m @ [parts ! 1]\<rparr>
                  else if prefix ''R'' action
                  then (if parts ! 1 \<noteq> [] \<and> length parts \<ge> 3 \<and> parts ! 2 \<noteq> []
                        then m\<lparr>m_renamed := m_renamed m @ [\<lparr>r_from = parts ! 1, r_to = parts ! 2\<rparr>]\<rparr> else m)
                  else m))"

definition buildSyncManifest :: "string \<Rightarrow> manifest" where
  "buildSyncManifest gitDiffOutput = fold add_line (split_on NEWLINE gitDiffOutput) empty_manifest"

section \<open>Which paths are synced\<close>

datatype sync_strategy = StrategyMarkdown | StrategyCode | StrategyAuto

definition CODE_EXTENSIONS :: "string list" where
  "CODE_EXTENSIONS =
     [''.ts'', ''.tsx'', ''.mts'', ''.cts'', ''.js'', ''.jsx'', ''.mjs'', ''.cjs'', ''.py'', ''.rb'', ''.go'', ''.rs'',
      ''.java'', ''.cs'', ''.cpp'', ''.cc'', ''.cxx'', ''.hpp'', ''.hxx'', ''.hh'', ''.c'', ''.h'', ''.php'', ''.swift'',
      ''.kt'', ''.kts'', ''.scala'', ''.sc'', ''.lua'', ''.ex'', ''.exs'', ''.elm'', ''.ml'', ''.mli'', ''.dart'',
      ''.zig'', ''.sol'', ''.sh'', ''.bash'', ''.css'', ''.html'', ''.htm'', ''.vue'', ''.json'', ''.yaml'', ''.yml'',
      ''.toml'', ''.tf'', ''.tfvars'', ''.hcl'', ''.sql'']"

definition isCodeFilePath :: "string \<Rightarrow> bool" where
  "isCodeFilePath path \<longleftrightarrow> list_ex (\<lambda>ext. suffix ext (toLowerCase path)) CODE_EXTENSIONS"

definition isImageFilePath :: "string \<Rightarrow> bool" where
  "isImageFilePath path \<longleftrightarrow>
     list_ex (\<lambda>ext. suffix ext (toLowerCase path))
       [''.png'', ''.jpg'', ''.jpeg'', ''.gif'', ''.webp'', ''.heic'', ''.heif'', ''.avif'']"

definition isMarkdownFilePath :: "string \<Rightarrow> bool" where
  "isMarkdownFilePath path \<longleftrightarrow> suffix ''.md'' path \<or> suffix ''.mdx'' path"

text \<open>\<open>multimodal\<close> is whether the environment variable is set to \<open>true\<close>.\<close>

definition isAllowedByStrategy :: "bool \<Rightarrow> string \<Rightarrow> sync_strategy \<Rightarrow> bool" where
  "isAllowedByStrategy multimodal path s =
     (case s of
        StrategyMarkdown \<Rightarrow> isMarkdownFilePath path
      | StrategyCode \<Rightarrow> isCodeFilePath path
      | StrategyAuto \<Rightarrow> isMarkdownFilePath path \<or> isCodeFilePath path \<or> (multimodal \<and> isImageFilePath path))"

text \<open>A glob as the pieces of its regular expression: \<open>(?:.*/)?\<close>, \<open>.*\<close>, \<open>[^/]*\<close>, \<open>[^/]\<close>, a character.\<close>

datatype glob_piece = AnyDirs | AnyText | AnySegment | OneChar | Literal char

fun globToRegex :: "string \<Rightarrow> glob_piece list" where
  "globToRegex [] = []"
| "globToRegex (c # cs) =
     (if c = CHR ''*''
      then (case cs of
              d # ds \<Rightarrow>
                if d = CHR ''*''
                then (case ds of
                        e # es \<Rightarrow> if e = CHR ''/'' then AnyDirs # globToRegex es else AnyText # globToRegex ds
                      | [] \<Rightarrow> [AnyText])
                else AnySegment # globToRegex cs
            | [] \<Rightarrow> [AnySegment])
      else if c = CHR ''?'' then OneChar # globToRegex cs
      else Literal c # globToRegex cs)"

definition line_end :: "char \<Rightarrow> bool" where
  "line_end c \<longleftrightarrow> c = CHR 0x0A \<or> c = CHR 0x0D"

fun piece_weight :: "glob_piece \<Rightarrow> nat" where
  "piece_weight AnyDirs = 3"
| "piece_weight _ = 1"

function glob_test :: "glob_piece list \<Rightarrow> string \<Rightarrow> bool" where
  "glob_test [] s = (s = [])"
| "glob_test (Literal c # ps) s = (case s of [] \<Rightarrow> False | d # ds \<Rightarrow> d = c \<and> glob_test ps ds)"
| "glob_test (OneChar # ps) s = (case s of [] \<Rightarrow> False | d # ds \<Rightarrow> d \<noteq> CHR ''/'' \<and> glob_test ps ds)"
| "glob_test (AnySegment # ps) s =
     (glob_test ps s \<or> (case s of [] \<Rightarrow> False | d # ds \<Rightarrow> d \<noteq> CHR ''/'' \<and> glob_test (AnySegment # ps) ds))"
| "glob_test (AnyText # ps) s =
     (glob_test ps s \<or> (case s of [] \<Rightarrow> False | d # ds \<Rightarrow> \<not> line_end d \<and> glob_test (AnyText # ps) ds))"
| "glob_test (AnyDirs # ps) s = (glob_test ps s \<or> glob_test (AnyText # Literal CHR ''/'' # ps) s)"
  by pat_completeness auto
termination
  by (relation "measure (\<lambda>(ps, s). sum_list (map piece_weight ps) + length s)") auto

definition matchesAnyGlob :: "string \<Rightarrow> string list \<Rightarrow> bool" where
  "matchesAnyGlob path patterns \<longleftrightarrow>
     list_ex (\<lambda>p. glob_test (globToRegex p) (map (\<lambda>c. if c = CHR 0x5C then CHR ''/'' else c) path)) patterns"

definition PRUNE_DIR_NAMES :: "string list" where
  "PRUNE_DIR_NAMES = [''node_modules'', ''vendor'', ''dist'', ''build'', ''venv'', ''.raw'']"

text \<open>\<open>submodule\<close> is what the file system says about a \<open>.git\<close> file below the directory, when a parent
  directory is given.\<close>

definition pruneDir :: "string \<Rightarrow> bool \<Rightarrow> bool" where
  "pruneDir name submodule =
     (if name = [] then True
      else if prefix ''.'' name then False
      else if name \<in> set PRUNE_DIR_NAMES then False
      else if suffix ''.raw'' name then False
      else \<not> submodule)"

definition SYNC_SKIP_FILES :: "string list" where
  "SYNC_SKIP_FILES = [''schema.md'', ''index.md'', ''log.md'', ''README.md'', ''RESOLVER.md'']"

datatype syncable_reason = Metafile | NotInStrategy | PrunedDir | IncludeGlobMiss | ExcludeGlobHit

record syncable_options =
  o_strategy :: "sync_strategy option"
  o_include :: "string list"
  o_exclude :: "string list"
  o_multimodal :: bool

definition unsyncableReason :: "syncable_options \<Rightarrow> string \<Rightarrow> syncable_reason option" where
  "unsyncableReason opts path =
     (let segments = split_on CHR ''/'' path
      in if \<not> isAllowedByStrategy (o_multimodal opts) path (orElse (o_strategy opts) StrategyMarkdown) then Some NotInStrategy
         else if list_ex (\<lambda>p. \<not> pruneDir p False) segments then Some PrunedDir
         else if last segments \<in> set SYNC_SKIP_FILES then Some Metafile
         else if o_include opts \<noteq> [] \<and> \<not> matchesAnyGlob path (o_include opts) then Some IncludeGlobMiss
         else if o_exclude opts \<noteq> [] \<and> matchesAnyGlob path (o_exclude opts) then Some ExcludeGlobHit
         else None)"

definition isSyncable :: "syncable_options \<Rightarrow> string \<Rightarrow> bool" where
  "isSyncable opts path \<longleftrightarrow> unsyncableReason opts path = None"

section \<open>The delta of a sync\<close>

text \<open>\<open>git\<close> answers a command with its output, or fails.\<close>

type_synonym git = "string list \<Rightarrow> string option"

datatype sync_delta = DeltaOk manifest | AnchorMissing | DiffFailed

definition buildDetachedWorkingTreeManifest :: "git \<Rightarrow> manifest option" where
  "buildDetachedWorkingTreeManifest run =
     (case run [''diff'', ''--name-status'', ''-M'', ''HEAD''] of
        None \<Rightarrow> None
      | Some d \<Rightarrow>
          (case run [''ls-files'', ''--others'', ''--exclude-standard''] of
             None \<Rightarrow> None
           | Some u \<Rightarrow>
               (let m = buildSyncManifest d
                in Some \<lparr>m_added = first_occ (m_added m @ nonempty (split_on NEWLINE u)), m_modified = first_occ (m_modified m),
                         m_deleted = first_occ (m_deleted m), m_renamed = m_renamed m\<rparr>)))"

definition merge_detached :: "manifest \<Rightarrow> manifest \<Rightarrow> manifest" where
  "merge_detached m d =
     \<lparr>m_added = first_occ (m_added m @ m_added d), m_modified = first_occ (m_modified m @ m_modified d),
      m_deleted = first_occ (m_deleted m @ m_deleted d), m_renamed = m_renamed m @ m_renamed d\<rparr>"

definition computeSyncDelta :: "git \<Rightarrow> string \<Rightarrow> string \<Rightarrow> manifest option \<Rightarrow> sync_delta" where
  "computeSyncDelta run from_commit to_commit detached =
     (case run [''cat-file'', ''-t'', from_commit] of
        None \<Rightarrow> AnchorMissing
      | Some _ \<Rightarrow>
          (case run [''diff'', ''--name-status'', ''-M'', from_commit @ ''..'' @ to_commit] of
             None \<Rightarrow> DiffFailed
           | Some out \<Rightarrow>
               (let m = buildSyncManifest out
                in DeltaOk (case detached of None \<Rightarrow> m | Some d \<Rightarrow> merge_detached m d))))"

text \<open>The rules of one sync: the sub-directory it is limited to, the patterns of \<open>--exclude\<close>, and what
  \<open>isSyncable\<close> is asked with.\<close>

record sync_rules =
  s_scope :: "string option"
  s_exclude :: "string list"
  s_syncable :: syncable_options

definition inScope :: "sync_rules \<Rightarrow> string \<Rightarrow> bool" where
  "inScope r p = (case s_scope r of None \<Rightarrow> True | Some d \<Rightarrow> p = d \<or> prefix (d @ ''/'') p)"

definition scopeRel :: "sync_rules \<Rightarrow> string \<Rightarrow> string" where
  "scopeRel r p = (case s_scope r of None \<Rightarrow> p | Some d \<Rightarrow> if prefix (d @ ''/'') p then drop (length d + 1) p else p)"

definition excluded :: "sync_rules \<Rightarrow> string \<Rightarrow> bool" where
  "excluded r p \<longleftrightarrow> s_exclude r \<noteq> [] \<and> matchesAnyGlob (scopeRel r p) (s_exclude r)"

definition wanted :: "sync_rules \<Rightarrow> string \<Rightarrow> bool" where
  "wanted r p \<longleftrightarrow> inScope r p \<and> isSyncable (s_syncable r) p"

definition filter_manifest :: "sync_rules \<Rightarrow> manifest \<Rightarrow> manifest" where
  "filter_manifest r m =
     (let renamedToUnsyncable = map r_from (filter (\<lambda>x. wanted r (r_from x) \<and> \<not> wanted r (r_to x)) (m_renamed m))
      in \<lparr>m_added = filter (\<lambda>p. wanted r p \<and> \<not> excluded r p) (m_added m),
          m_modified = filter (\<lambda>p. wanted r p \<and> \<not> excluded r p) (m_modified m),
          m_deleted = first_occ (filter (wanted r) (m_deleted m) @ renamedToUnsyncable),
          m_renamed = filter (\<lambda>x. wanted r (r_to x) \<and> \<not> excluded r (r_to x)) (m_renamed m)\<rparr>)"

definition totalChanges :: "manifest \<Rightarrow> nat" where
  "totalChanges m = length (m_added m) + length (m_modified m) + length (m_deleted m) + length (m_renamed m)"

text \<open>The modified paths that are no longer synced and whose pages are deleted: not the files left out by
  convention, and not those below a pruned directory.\<close>

definition unsyncable_cleanup :: "sync_rules \<Rightarrow> manifest \<Rightarrow> string list" where
  "unsyncable_cleanup r m =
     filter (\<lambda>p. inScope r p \<and> unsyncableReason (s_syncable r) p \<notin> {None, Some Metafile, Some PrunedDir}) (m_modified m)"

section \<open>Globs\<close>

text \<open>The texts a piece stands for, and those a pattern stands for.\<close>

fun piece_lang :: "glob_piece \<Rightarrow> string set" where
  "piece_lang (Literal c) = {[c]}"
| "piece_lang OneChar = {[c] | c. c \<noteq> CHR ''/''}"
| "piece_lang AnySegment = {u. CHR ''/'' \<notin> set u}"
| "piece_lang AnyText = {u. \<forall>c \<in> set u. \<not> line_end c}"
| "piece_lang AnyDirs = {[]} \<union> {u @ [CHR ''/''] | u. \<forall>c \<in> set u. \<not> line_end c}"

fun glob_lang :: "glob_piece list \<Rightarrow> string set" where
  "glob_lang [] = {[]}"
| "glob_lang (p # ps) = {u @ v | u v. u \<in> piece_lang p \<and> v \<in> glob_lang ps}"

lemma run_of_chars:
  "(\<exists>u v. s = u @ v \<and> (\<forall>c \<in> set u. P c) \<and> v \<in> L) \<longleftrightarrow>
     s \<in> L \<or> (case s of [] \<Rightarrow> False | d # ds \<Rightarrow> P d \<and> (\<exists>u v. ds = u @ v \<and> (\<forall>c \<in> set u. P c) \<and> v \<in> L))"
proof (cases s)
  case Nil
  then show ?thesis by auto
next
  case (Cons d ds)
  show ?thesis
  proof
    assume "\<exists>u v. s = u @ v \<and> (\<forall>c \<in> set u. P c) \<and> v \<in> L"
    then obtain u v where u: "s = u @ v" "\<forall>c \<in> set u. P c" "v \<in> L" by blast
    then show "s \<in> L \<or> (case s of [] \<Rightarrow> False | d # ds \<Rightarrow> P d \<and> (\<exists>u v. ds = u @ v \<and> (\<forall>c \<in> set u. P c) \<and> v \<in> L))"
      using Cons by (cases u) auto
  next
    assume "s \<in> L \<or> (case s of [] \<Rightarrow> False | d # ds \<Rightarrow> P d \<and> (\<exists>u v. ds = u @ v \<and> (\<forall>c \<in> set u. P c) \<and> v \<in> L))"
    then show "\<exists>u v. s = u @ v \<and> (\<forall>c \<in> set u. P c) \<and> v \<in> L"
    proof
      assume "s \<in> L"
      then show ?thesis by (intro exI [of _ "[]"] exI [of _ s]) simp
    next
      assume "case s of [] \<Rightarrow> False | d # ds \<Rightarrow> P d \<and> (\<exists>u v. ds = u @ v \<and> (\<forall>c \<in> set u. P c) \<and> v \<in> L)"
      then obtain u v where "ds = u @ v" "P d" "\<forall>c \<in> set u. P c" "v \<in> L" using Cons by auto
      then show ?thesis using Cons by (intro exI [of _ "d # u"] exI [of _ v]) simp
    qed
  qed
qed

lemma glob_lang_consI: "u \<in> piece_lang p \<Longrightarrow> v \<in> glob_lang ps \<Longrightarrow> s = u @ v \<Longrightarrow> s \<in> glob_lang (p # ps)"
  by auto

lemma segment_lang:
  "glob_lang (AnySegment # ps) = {s. \<exists>u v. s = u @ v \<and> (\<forall>c \<in> set u. c \<noteq> CHR ''/'') \<and> v \<in> glob_lang ps}"
  by auto

lemma text_lang:
  "glob_lang (AnyText # ps) = {s. \<exists>u v. s = u @ v \<and> (\<forall>c \<in> set u. \<not> line_end c) \<and> v \<in> glob_lang ps}"
  by auto

lemma dirs_lang: "glob_lang (AnyDirs # ps) = glob_lang ps \<union> glob_lang (AnyText # Literal CHR ''/'' # ps)"
proof (intro set_eqI iffI)
  fix s assume "s \<in> glob_lang (AnyDirs # ps)"
  then obtain u v where u: "s = u @ v" "u \<in> piece_lang AnyDirs" "v \<in> glob_lang ps" by auto
  then consider "u = []" | w where "u = w @ [CHR ''/'']" "\<forall>c \<in> set w. \<not> line_end c" by auto
  then show "s \<in> glob_lang ps \<union> glob_lang (AnyText # Literal CHR ''/'' # ps)"
  proof cases
    case 1
    then show ?thesis using u by simp
  next
    case 2
    have "CHR ''/'' # v \<in> glob_lang (Literal CHR ''/'' # ps)" using u(3) by simp
    then show ?thesis using u(1) 2 unfolding text_lang by auto
  qed
next
  fix s assume "s \<in> glob_lang ps \<union> glob_lang (AnyText # Literal CHR ''/'' # ps)"
  then consider "s \<in> glob_lang ps" | u v where "s = u @ CHR ''/'' # v" "\<forall>c \<in> set u. \<not> line_end c" "v \<in> glob_lang ps"
    by auto
  then show "s \<in> glob_lang (AnyDirs # ps)"
  proof cases
    case 1
    then show ?thesis by (intro glob_lang_consI [of "[]" _ s]) simp_all
  next
    case 2
    then show ?thesis by (intro glob_lang_consI [of "u @ [CHR ''/'']" _ v]) simp_all
  qed
qed


section \<open>The output of git is read back\<close>

datatype change = Added string | Modified string | Deleted string | Renamed string string string

fun change_line :: "change \<Rightarrow> string" where
  "change_line (Added p) = CHR ''A'' # TAB # p"
| "change_line (Modified p) = CHR ''M'' # TAB # p"
| "change_line (Deleted p) = CHR ''D'' # TAB # p"
| "change_line (Renamed score f t) = CHR ''R'' # score @ TAB # f @ TAB # t"

definition diff_text :: "change list \<Rightarrow> string" where
  "diff_text cs = join_with NEWLINE (map change_line cs)"

fun apply_change :: "change \<Rightarrow> manifest \<Rightarrow> manifest" where
  "apply_change (Added p) m = m\<lparr>m_added := m_added m @ [p]\<rparr>"
| "apply_change (Modified p) m = m\<lparr>m_modified := m_modified m @ [p]\<rparr>"
| "apply_change (Deleted p) m = m\<lparr>m_deleted := m_deleted m @ [p]\<rparr>"
| "apply_change (Renamed score f t) m = m\<lparr>m_renamed := m_renamed m @ [\<lparr>r_from = f, r_to = t\<rparr>]\<rparr>"

text \<open>A path git prints as it is: no tab, no line break, and no white space at its end.\<close>

definition plain_path :: "string \<Rightarrow> bool" where
  "plain_path p \<longleftrightarrow> p \<noteq> [] \<and> TAB \<notin> set p \<and> NEWLINE \<notin> set p \<and> \<not> is_ws (last p)"

fun plain_change :: "change \<Rightarrow> bool" where
  "plain_change (Added p) = plain_path p"
| "plain_change (Modified p) = plain_path p"
| "plain_change (Deleted p) = plain_path p"
| "plain_change (Renamed score f t) = (TAB \<notin> set score \<and> NEWLINE \<notin> set score \<and> plain_path f \<and> plain_path t)"

lemma trim_id: "s \<noteq> [] \<Longrightarrow> \<not> is_ws (hd s) \<Longrightarrow> \<not> is_ws (last s) \<Longrightarrow> trim s = s"
proof -
  assume s: "s \<noteq> []" "\<not> is_ws (hd s)" "\<not> is_ws (last s)"
  then have "dropWhile is_ws s = s" by (cases s) simp_all
  moreover have "dropWhile is_ws (rev s) = rev s" using s by (cases "rev s") (auto simp: last_rev hd_rev [symmetric])
  ultimately show ?thesis by (simp add: trim_def)
qed

lemma action_not_ws [simp]: "\<not> is_ws CHR ''A''" "\<not> is_ws CHR ''M''" "\<not> is_ws CHR ''D''" "\<not> is_ws CHR ''R''"
  by (simp_all add: is_ws_def)

lemma action_not_tab [simp]: "CHR ''A'' \<noteq> TAB" "CHR ''M'' \<noteq> TAB" "CHR ''D'' \<noteq> TAB" "CHR ''R'' \<noteq> TAB"
  "CHR ''A'' \<noteq> NEWLINE" "CHR ''M'' \<noteq> NEWLINE" "CHR ''D'' \<noteq> NEWLINE" "CHR ''R'' \<noteq> NEWLINE" "TAB \<noteq> NEWLINE" "NEWLINE \<noteq> TAB"
  by (simp_all add: TAB_def NEWLINE_def)

lemmas tab_not_action [simp] = action_not_tab [symmetric]

lemma change_line_trim: "plain_change c \<Longrightarrow> trim (change_line c) = change_line c"
  by (cases c) (auto intro!: trim_id simp: plain_path_def)

lemma change_line_parts:
  assumes "plain_change c"
  shows "split_on TAB (change_line c) =
    (case c of Added p \<Rightarrow> [''A'', p] | Modified p \<Rightarrow> [''M'', p] | Deleted p \<Rightarrow> [''D'', p]
     | Renamed score f t \<Rightarrow> [CHR ''R'' # score, f, t])"
proof (cases c)
  case (Renamed score f t)
  then have "split_on TAB ((CHR ''R'' # score) @ TAB # f @ TAB # t) = [CHR ''R'' # score, f, t]"
    using assms split_on_append [of TAB "CHR ''R'' # score" "f @ TAB # t"] split_on_append [of TAB f t] split_on_plain [of TAB t]
    by (auto simp: plain_path_def)
  then show ?thesis using Renamed by simp
qed (use assms in \<open>auto simp: plain_path_def split_on_plain\<close>)

lemma add_change_line: "plain_change c \<Longrightarrow> add_line (change_line c) m = apply_change c m"
  using change_line_trim [of c] change_line_parts [of c]
  by (cases c) (auto simp: add_line_def Let_def plain_path_def)

lemma change_line_no_newline: "plain_change c \<Longrightarrow> NEWLINE \<notin> set (change_line c)"
  by (cases c) (auto simp: plain_path_def)



text \<open>A line for a change of type, which git prints when a file becomes a link or a link a file, is ignored.\<close>

lemma type_change_ignored: "plain_path p \<Longrightarrow> add_line (CHR ''T'' # TAB # p) m = m"
proof -
  assume p: "plain_path p"
  then have "trim (CHR ''T'' # TAB # p) = CHR ''T'' # TAB # p" by (intro trim_id) (auto simp: plain_path_def is_ws_def)
  moreover have "split_on TAB (CHR ''T'' # TAB # p) = [''T'', p]"
    using p split_on_plain [of TAB p] by (simp add: plain_path_def TAB_def)
  ultimately show ?thesis by (simp add: add_line_def)
qed

section \<open>What the filter keeps\<close>

definition vanished :: "manifest \<Rightarrow> string set" where
  "vanished m = set (m_deleted m) \<union> r_from ` set (m_renamed m)"

text \<open>The filter of a sync drops nothing it should act on.  Every added or modified path that is wanted and
  not excluded stays; a wanted path that disappeared is deleted or is the source of a kept rename,
  except when it was renamed to a wanted path that is excluded; and whatever is kept is wanted.\<close>

theorem filter_covers_changes:
  assumes "wanted r p"
  shows "(p \<in> set (m_added m) \<union> set (m_modified m) \<and> \<not> excluded r p
            \<longrightarrow> p \<in> set (m_added (filter_manifest r m)) \<union> set (m_modified (filter_manifest r m)))
    \<and> (p \<in> vanished m \<longrightarrow> p \<in> vanished (filter_manifest r m) \<or> (\<exists>x \<in> set (m_renamed m). r_from x = p \<and> wanted r (r_to x) \<and> excluded r (r_to x)))
    \<and> (\<forall>q \<in> set (m_added (filter_manifest r m)) \<union> set (m_modified (filter_manifest r m)) \<union> set (m_deleted (filter_manifest r m)). wanted r q)"
  using assms by (auto simp: filter_manifest_def vanished_def Let_def)

text \<open>The exception is real: the page of the old path stays, although its file is gone.\<close>

definition rules1 :: sync_rules where
  "rules1 = \<lparr>s_scope = None, s_exclude = [''drafts/**''],
     s_syncable = \<lparr>o_strategy = None, o_include = [], o_exclude = [], o_multimodal = False\<rparr>\<rparr>"

lemma rename_into_excluded:
  "let m = empty_manifest\<lparr>m_renamed := [\<lparr>r_from = ''a.md'', r_to = ''drafts/a.md''\<rparr>]\<rparr>
   in wanted rules1 ''a.md'' \<and> totalChanges (filter_manifest rules1 m) = 0"
  by code_simp

theorem filter_covers_changes_witness:
  "''a.md'' \<in> vanished (filter_manifest (rules1\<lparr>s_exclude := []\<rparr>) (empty_manifest\<lparr>m_deleted := [''a.md'']\<rparr>))"
proof -
  have "wanted (rules1\<lparr>s_exclude := []\<rparr>) ''a.md''"
    by code_simp
  from filter_covers_changes [OF this, of "empty_manifest\<lparr>m_deleted := [''a.md'']\<rparr>"]
  show ?thesis by (simp add: vanished_def empty_manifest_def)
qed

end
