(* ===== verification/Resumable_Sync.thy ===== *)
theory Resumable_Sync
  imports Op_Checkpoint Sync_Gate Sync_Manifest
begin

text \<open>
  The resumable incremental sync (\<open>performSyncInner\<close> in \<open>src/commands/sync.ts\<close>): the pinned target, the
  checkpoint of the paths already drained with its flushes, the deletes, renames and imports of one
  run, and the end of the run through the failure gate.  What happens outside, git, the file system,
  the engine, the clock and the network, is the record \<open>sync_world\<close> of the run.  The serial import loop
  is a function; the interleavings of the parallel one and a kill at any point are the relation
  \<open>drain_step\<close>.
\<close>

section \<open>What happens outside a run\<close>

text \<open>What importing one file ends with; an unchanged file tells whether it was skipped at the expected slug.\<close>

datatype file_result = FrImported | FrUnchanged bool | FrSkippedError string | FrThrew string

datatype import_outcome = FileGone | UnsafeFile | PermitAborted | FileRead file_result

text \<open>Of a rename: whether the row was renamed in place, the import at the new path if the file was there, and
  the error of removing the stale row, if it fails.\<close>

record rename_outcome =
  rn_applied :: bool
  rn_import :: "file_result option"
  rn_reconcile :: "string option"

record sync_world =
  w_source :: "string option"
  w_head :: string
  w_reachable :: "string \<Rightarrow> bool"
  w_read_target :: bool
  w_read_paths :: bool
  w_version_gate :: bool
  w_pull_failed :: bool
  w_detached :: "manifest option"
  w_git :: git
  w_rules :: sync_rules
  w_dry :: bool
  w_clear :: "nat \<Rightarrow> network"
  w_pin_net :: network
  w_flush_net :: "nat \<Rightarrow> nat \<Rightarrow> network"
  w_every :: nat
  w_seconds :: int
  w_max_failures :: nat
  w_clock :: "nat \<Rightarrow> int"
  w_aborted :: "nat \<Rightarrow> bool"
  w_batch_ok :: "string list \<Rightarrow> bool"
  w_delete :: "string \<Rightarrow> string option"
  w_rename :: "rename \<Rightarrow> rename_outcome"
  w_import :: "string \<Rightarrow> import_outcome"
  w_rank :: "string \<Rightarrow> int"
  w_head_end :: "string + string"
  w_reachable_end :: "string \<Rightarrow> bool"
  w_skip_failed :: bool
  w_threshold :: int
  w_now :: int
  w_advance_ok :: bool

section \<open>The knobs\<close>

text \<open>A variable that is unset, not a positive integer, or one.\<close>

definition positive_knob :: "env_number \<Rightarrow> rat \<Rightarrow> rat" where
  "positive_knob v d = (case v of Number n \<Rightarrow> if is_integer n \<and> n > 0 then n else d | _ \<Rightarrow> d)"

definition resolveSyncCheckpointEvery :: "env_number \<Rightarrow> rat" where
  "resolveSyncCheckpointEvery v = positive_knob v 1000"

definition resolveSyncCheckpointSeconds :: "env_number \<Rightarrow> rat" where
  "resolveSyncCheckpointSeconds v = positive_knob v 10"

definition resolveSyncMaxCheckpointFailures :: "env_number \<Rightarrow> rat" where
  "resolveSyncMaxCheckpointFailures v = positive_knob v 3"

section \<open>The checkpoint keys and the pin\<close>

definition paths_key :: "(string \<Rightarrow> string) \<Rightarrow> string option \<Rightarrow> string \<Rightarrow> op_key" where
  "paths_key sha source anchor = \<lparr>ck_op = ''sync'', ck_fingerprint = syncFingerprint sha source anchor\<rparr>"

definition target_key :: "(string \<Rightarrow> string) \<Rightarrow> string option \<Rightarrow> string \<Rightarrow> op_key" where
  "target_key sha source anchor = \<lparr>ck_op = ''sync-target'', ck_fingerprint = syncFingerprint sha source anchor\<rparr>"

definition clear_both :: "sync_world \<Rightarrow> nat \<Rightarrow> op_key \<Rightarrow> op_key \<Rightarrow> ckpt_tables \<Rightarrow> ckpt_tables" where
  "clear_both w i pk tk t =
     snd (clearOpCheckpoint (w_clear w (i + 2)) (w_clear w (i + 3)) tk
       (snd (clearOpCheckpoint (w_clear w i) (w_clear w (i + 1)) pk t)))"

text \<open>The target of this run, the paths a run before has drained, and the tables.\<close>

definition resolve_pin :: "sync_world \<Rightarrow> op_key \<Rightarrow> op_key \<Rightarrow> ckpt_tables \<Rightarrow> string \<times> string list \<times> ckpt_tables" where
  "resolve_pin w pk tk t =
     (case fst (loadOpCheckpoint (w_read_target w) tk t) of
        [] \<Rightarrow> (w_head w, [], t)
      | target # _ \<Rightarrow>
          if target = [] then (w_head w, [], t)
          else if w_reachable w target then (target, fst (loadOpCheckpoint (w_read_paths w) pk t), t)
          else (w_head w, [], clear_both w 0 pk tk t))"

section \<open>The state of a run\<close>

record drain =
  d_completed :: "string list"
  d_pending :: "string list"
  d_inflight :: "string list option"
  d_since :: nat
  d_flushed_at :: int
  d_failures :: nat
  d_banked :: nat
  d_dead :: bool
  d_tables :: ckpt_tables
  d_failed :: "file_failure list"
  d_succeeded :: "string list"
  d_imported :: nat
  d_marks :: nat
  d_flushes :: nat
  d_checks :: nat
  d_signal :: bool

definition init_drain :: "sync_world \<Rightarrow> string list \<Rightarrow> ckpt_tables \<Rightarrow> drain" where
  "init_drain w done t =
     \<lparr>d_completed = done, d_pending = [], d_inflight = None, d_since = 0, d_flushed_at = w_clock w 0, d_failures = 0,
      d_banked = length done, d_dead = False, d_tables = t, d_failed = [], d_succeeded = [], d_imported = 0,
      d_marks = 1, d_flushes = 0, d_checks = 0, d_signal = False\<rparr>"

definition set_add :: "string \<Rightarrow> string list \<Rightarrow> string list" where
  "set_add x xs = (if x \<in> set xs then xs else xs @ [x])"

text \<open>\<open>flushCheckpoint\<close> up to its write, and from the end of its write on.\<close>

definition flush_begin :: "drain \<Rightarrow> drain" where
  "flush_begin d =
     (if d_pending d = [] \<or> d_inflight d \<noteq> None then d
      else d\<lparr>d_inflight := Some (d_pending d), d_pending := []\<rparr>)"

definition flush_end :: "sync_world \<Rightarrow> op_key \<Rightarrow> drain \<Rightarrow> drain" where
  "flush_end w pk d =
     (case d_inflight d of
        None \<Rightarrow> d
      | Some batch \<Rightarrow>
          (case appendCompleted (w_flush_net w (d_flushes d)) pk batch (d_tables d) of
             (ok, t) \<Rightarrow>
               (let d1 = d\<lparr>d_tables := t, d_inflight := None, d_flushes := d_flushes d + 1\<rparr>
                in if ok = Some True
                   then d1\<lparr>d_failures := 0, d_banked := d_banked d + length batch\<rparr>
                   else d1\<lparr>d_pending := fold set_add batch (d_pending d), d_failures := d_failures d + 1,
                           d_dead := (d_dead d \<or> d_failures d + 1 \<ge> w_max_failures w)\<rparr>)))"

definition flushCheckpoint :: "sync_world \<Rightarrow> op_key \<Rightarrow> drain \<Rightarrow> drain" where
  "flushCheckpoint w pk d = flush_end w pk (flush_begin d)"

text \<open>\<open>markCompleted\<close> up to the write of the flush it may start.\<close>

definition markCompleted :: "sync_world \<Rightarrow> string \<Rightarrow> drain \<Rightarrow> drain" where
  "markCompleted w path d =
     (let d1 = d\<lparr>d_completed := set_add path (d_completed d), d_pending := set_add path (d_pending d),
                d_since := d_since d + 1, d_marks := d_marks d + 1\<rparr>;
          now = w_clock w (d_marks d)
      in if d_since d1 \<ge> w_every w \<or> now - d_flushed_at d \<ge> w_seconds w * 1000 \<or> length (d_completed d1) = 1
         then flush_begin (d1\<lparr>d_since := 0, d_flushed_at := now\<rparr>) else d1)"

definition fail_path :: "string \<Rightarrow> string \<Rightarrow> drain \<Rightarrow> drain" where
  "fail_path path err d = d\<lparr>d_failed := d_failed d @ [\<lparr>x_path = path, x_error = err, x_line = None\<rparr>]\<rparr>"

section \<open>Deletes, renames, imports\<close>

text \<open>One piece of work, with what happens outside decided.\<close>

datatype task =
  DoDelete string "string option"
| DoRename rename rename_outcome
| DoImport string import_outcome

definition rename_mark :: "string \<Rightarrow> string" where
  "rename_mark to_path = ''<rename:'' @ to_path @ ''>''"

definition dest_materialized :: "file_result option \<Rightarrow> bool" where
  "dest_materialized r = (case r of Some FrImported \<Rightarrow> True | Some (FrUnchanged at_new) \<Rightarrow> at_new | _ \<Rightarrow> False)"

definition reconcile_failed :: "rename_outcome \<Rightarrow> string option" where
  "reconcile_failed oc = (if \<not> rn_applied oc \<and> dest_materialized (rn_import oc) then rn_reconcile oc else None)"

definition note_rename_error :: "rename \<Rightarrow> rename_outcome \<Rightarrow> drain \<Rightarrow> drain" where
  "note_rename_error r oc d =
     (case rn_import oc of
        Some (FrSkippedError e) \<Rightarrow> fail_path (r_to r) e d
      | Some (FrThrew e) \<Rightarrow> fail_path (r_to r) e d
      | _ \<Rightarrow> d)"

definition do_rename :: "sync_world \<Rightarrow> rename \<Rightarrow> rename_outcome \<Rightarrow> drain \<Rightarrow> drain" where
  "do_rename w r oc d =
     (let d1 = note_rename_error r oc d
      in case reconcile_failed oc of
           Some e \<Rightarrow> fail_path (rename_mark (r_to r))
                       (''rename reconcile failed (stale row for '' @ r_from r @ '' not removed): '' @ e) d1
         | None \<Rightarrow> markCompleted w (r_to r) (d1\<lparr>d_succeeded := d_succeeded d1 @ [rename_mark (r_to r)]\<rparr>))"

definition do_import :: "sync_world \<Rightarrow> string \<Rightarrow> import_outcome \<Rightarrow> drain \<Rightarrow> drain" where
  "do_import w path oc d =
     (case oc of
        FileGone \<Rightarrow> markCompleted w path (d\<lparr>d_succeeded := d_succeeded d @ [path]\<rparr>)
      | UnsafeFile \<Rightarrow> fail_path path ''path resolves outside git repo (symlink escape)'' d
      | PermitAborted \<Rightarrow> d\<lparr>d_signal := True\<rparr>
      | FileRead FrImported \<Rightarrow>
          markCompleted w path (d\<lparr>d_succeeded := d_succeeded d @ [path], d_imported := d_imported d + 1\<rparr>)
      | FileRead (FrUnchanged _) \<Rightarrow> markCompleted w path d
      | FileRead (FrSkippedError e) \<Rightarrow> fail_path path e d
      | FileRead (FrThrew e) \<Rightarrow> fail_path path e d)"

fun do_task :: "sync_world \<Rightarrow> task \<Rightarrow> drain \<Rightarrow> drain" where
  "do_task w (DoDelete path None) d = markCompleted w path d"
| "do_task w (DoDelete path (Some e)) d = fail_path path (''delete failed: '' @ e) d"
| "do_task w (DoRename r oc) d = do_rename w r oc d"
| "do_task w (DoImport path oc) d = do_import w path oc d"

text \<open>A loop that waits for the flush of each mark.\<close>

definition run_task :: "sync_world \<Rightarrow> op_key \<Rightarrow> task \<Rightarrow> drain \<Rightarrow> drain" where
  "run_task w pk task d = flush_end w pk (do_task w task d)"

definition DELETE_BATCH_SIZE :: nat where "DELETE_BATCH_SIZE = 500"

function chunks_of :: "nat \<Rightarrow> 'a list \<Rightarrow> 'a list list" where
  "chunks_of n xs = (if xs = [] \<or> n = 0 then [] else take n xs # chunks_of n (drop n xs))"
  by pat_completeness auto
termination
  by (relation "measure (\<lambda>(n, xs). length xs)") auto

declare chunks_of.simps [simp del]

text \<open>A refused permit means that the signal is aborted, and it stays aborted.\<close>

definition aborted_now :: "sync_world \<Rightarrow> drain \<Rightarrow> bool" where
  "aborted_now w d \<longleftrightarrow> d_signal d \<or> w_aborted w (d_checks d)"

definition checked :: "drain \<Rightarrow> drain" where
  "checked d = d\<lparr>d_checks := d_checks d + 1\<rparr>"

text \<open>Each phase tells whether it was aborted.  A batch of deletes that fails as a whole is tried path by path;
  without a source the loop is path by path from the start.\<close>

definition delete_batches :: "sync_world \<Rightarrow> string list \<Rightarrow> task list list" where
  "delete_batches w todo =
     (case w_source w of
        None \<Rightarrow> map (\<lambda>p. [DoDelete p (w_delete w p)]) todo
      | Some _ \<Rightarrow>
          map (\<lambda>b. map (\<lambda>p. DoDelete p (if w_batch_ok w b then None else w_delete w p)) b) (chunks_of DELETE_BATCH_SIZE todo))"

fun run_batches :: "sync_world \<Rightarrow> op_key \<Rightarrow> task list list \<Rightarrow> drain \<Rightarrow> bool \<times> drain" where
  "run_batches w pk [] d = (False, d)"
| "run_batches w pk (b # bs) d =
     (if aborted_now w d then (True, checked d)
      else run_batches w pk bs (fold (run_task w pk) b (checked d)))"

text \<open>The slugs of the old paths are looked up in batches before the first rename.\<close>

definition rename_batches :: "sync_world \<Rightarrow> rename list \<Rightarrow> task list list" where
  "rename_batches w todo =
     (case w_source w of None \<Rightarrow> [] | Some _ \<Rightarrow> map (\<lambda>_. []) (chunks_of DELETE_BATCH_SIZE todo))
     @ map (\<lambda>r. [DoRename r (w_rename w r)]) todo"

definition import_order :: "sync_world \<Rightarrow> manifest \<Rightarrow> string list" where
  "import_order w f = sort_key (\<lambda>p. - w_rank w p) (m_added f @ m_modified f)"

definition drain_serial :: "sync_world \<Rightarrow> op_key \<Rightarrow> manifest \<Rightarrow> drain \<Rightarrow> bool \<times> drain" where
  "drain_serial w pk f d =
     (case run_batches w pk (delete_batches w (resumeFilter (m_deleted f) (d_completed d))) d of
        (True, d1) \<Rightarrow> (True, d1)
      | (False, d1) \<Rightarrow>
          (case run_batches w pk (rename_batches w (filter (\<lambda>r. r_to r \<notin> set (d_completed d1)) (m_renamed f))) d1 of
             (True, d2) \<Rightarrow> (True, d2)
           | (False, d2) \<Rightarrow>
               (let todo = resumeFilter (import_order w f) (d_completed d2)
                in case run_batches w pk (map (\<lambda>p. [DoImport p (w_import w p)]) todo) d2 of
                     (True, d3) \<Rightarrow> (True, d3)
                   | (False, d3) \<Rightarrow> if todo \<noteq> [] \<and> aborted_now w d3 then (True, checked d3) else (False, checked d3))))"

section \<open>The end of a run\<close>

record source_state =
  src_anchor :: string
  src_tables :: ckpt_tables
  src_ledger :: "sync_failure list"

text \<open>The watchdog of stalled imports aborts the same signal as a timeout; its label \<open>stall_timeout\<close> is read as
  \<open>Timeout\<close>.\<close>

datatype partial_reason = Timeout | PullFailed | CheckpointUnavailable

datatype sync_result =
  UpToDate | DryRun | FullReconcile | Partial partial_reason nat nat | Blocked nat nat | Synced gate_outcome | AdvanceThrew

definition partial_run :: "sync_world \<Rightarrow> op_key \<Rightarrow> source_state \<Rightarrow> drain \<Rightarrow> sync_result \<times> source_state" where
  "partial_run w pk s d =
     (let d1 = (if d_dead d then d else flushCheckpoint w pk d)
      in (Partial (if d_dead d1 then CheckpointUnavailable else Timeout) (d_imported d1) (d_banked d1),
          s\<lparr>src_tables := d_tables d1\<rparr>))"

text \<open>The check that the pin is still an ancestor of the head; asking git for the head can fail.\<close>

definition head_verified :: "sync_world \<Rightarrow> string \<Rightarrow> bool" where
  "head_verified w pin = (case w_head_end w of Inl _ \<Rightarrow> False | Inr h \<Rightarrow> h = pin \<or> w_reachable_end w pin)"

definition head_failure :: "sync_world \<Rightarrow> string \<Rightarrow> file_failure" where
  "head_failure w pin =
     \<lparr>x_path = ''<head>'',
      x_error =
        (case w_head_end w of
           Inl e \<Rightarrow> ''git HEAD verification failed: '' @ e
         | Inr h \<Rightarrow> ''git history rewritten during sync: pinned target '' @ take 8 pin
                     @ '' is no longer an ancestor of HEAD '' @ take 8 h),
      x_line = None\<rparr>"

definition resolved_paths :: "sync_world \<Rightarrow> string \<Rightarrow> manifest \<Rightarrow> drain \<Rightarrow> string list" where
  "resolved_paths w pin f d =
     d_succeeded d @ m_deleted f @ map r_from (m_renamed f) @ (if head_verified w pin then [''<head>''] else [])"

definition run_failures :: "sync_world \<Rightarrow> string \<Rightarrow> drain \<Rightarrow> file_failure list" where
  "run_failures w pin d = d_failed d @ (if head_verified w pin then [] else [head_failure w pin])"

definition finish_run ::
  "sync_world \<Rightarrow> op_key \<Rightarrow> op_key \<Rightarrow> string \<Rightarrow> manifest \<Rightarrow> source_state \<Rightarrow> drain \<Rightarrow> sync_result \<times> source_state" where
  "finish_run w pk tk pin f s d =
     (let d1 = flushCheckpoint w pk d;
          failed = run_failures w pin d1;
          g = \<lparr>g_source = orElse (w_source w) DEFAULT_SOURCE_ID, g_failed = failed,
               g_succeeded = resolved_paths w pin f d1, g_commit = pin, g_skip_failed = w_skip_failed w,
               g_threshold = w_threshold w, g_now = w_now w, g_advance_ok = w_advance_ok w\<rparr>
      in case applySyncFailureGate g (src_ledger s) of
           (Inl _, file) \<Rightarrow> (AdvanceThrew, s\<lparr>src_tables := d_tables d1, src_ledger := file\<rparr>)
         | (Inr out, file) \<Rightarrow>
             if advanced out
             then (Synced out, \<lparr>src_anchor = pin, src_tables = clear_both w 4 pk tk (d_tables d1), src_ledger = file\<rparr>)
             else (Blocked (length failed) (d_banked d1), s\<lparr>src_tables := d_tables d1, src_ledger := file\<rparr>))"

section \<open>One run\<close>

definition has_changes :: "manifest option \<Rightarrow> bool" where
  "has_changes m = (case m of None \<Rightarrow> False | Some x \<Rightarrow> totalChanges x > 0)"

text \<open>From the filtered manifest on: a dry run, nothing to do, or the drain under the pin, which is stored
  before anything is imported.\<close>

definition sync_changes ::
  "sync_world \<Rightarrow> op_key \<Rightarrow> op_key \<Rightarrow> string \<Rightarrow> string list \<Rightarrow> manifest \<Rightarrow> source_state \<Rightarrow> sync_result \<times> source_state" where
  "sync_changes w pk tk pin done f s =
     (if w_dry w then (DryRun, s)
      else if totalChanges f = 0
      then (if w_pull_failed w then (Partial PullFailed 0 0, s)
            else (UpToDate, s\<lparr>src_anchor := pin, src_tables := clear_both w 4 pk tk (src_tables s)\<rparr>))
      else (case recordCompleted (w_pin_net w) tk [pin] (src_tables s) of
              (Some True, t') \<Rightarrow>
                (case drain_serial w pk f (init_drain w done t') of
                   (True, d) \<Rightarrow> partial_run w pk s d
                 | (False, d) \<Rightarrow> if d_dead d then partial_run w pk s d else finish_run w pk tk pin f s d)
            | (_, t') \<Rightarrow> (Partial CheckpointUnavailable 0 (length done), s\<lparr>src_tables := t'\<rparr>)))"

definition sync_run :: "(string \<Rightarrow> string) \<Rightarrow> sync_world \<Rightarrow> source_state \<Rightarrow> sync_result \<times> source_state" where
  "sync_run sha w s =
     (let anchor = src_anchor s; pk = paths_key sha (w_source w) anchor; tk = target_key sha (w_source w) anchor
      in case resolve_pin w pk tk (src_tables s) of
           (pin, done, t) \<Rightarrow>
             (let s1 = s\<lparr>src_tables := t\<rparr>
              in if anchor = w_head w \<and> \<not> w_version_gate w \<and> \<not> has_changes (w_detached w)
                 then (if w_pull_failed w then (Partial PullFailed 0 0, s1) else (UpToDate, s1))
                 else if w_version_gate w \<and> anchor = w_head w then (FullReconcile, s1)
                 else (case computeSyncDelta (w_git w) anchor pin (w_detached w) of
                         DeltaOk m \<Rightarrow> sync_changes w pk tk pin done (filter_manifest (w_rules w) m) s1
                       | _ \<Rightarrow> (FullReconcile, s1))))"

section \<open>Every interleaving of a run\<close>

text \<open>The state of a run with the tasks it has done.  Workers do the tasks of \<open>T\<close> in any order, a flush is begun
  and its write ends between them.\<close>

inductive drain_step :: "sync_world \<Rightarrow> op_key \<Rightarrow> task set \<Rightarrow> task set \<times> drain \<Rightarrow> task set \<times> drain \<Rightarrow> bool"
  for w pk T where
  work: "t \<in> T \<Longrightarrow> drain_step w pk T (F, d) (insert t F, do_task w t d)"
| begin_write: "drain_step w pk T (F, d) (F, flush_begin d)"
| end_write: "drain_step w pk T (F, d) (F, flush_end w pk d)"
| check_signal: "drain_step w pk T (F, d) (F, checked d)"

abbreviation drain_reach where
  "drain_reach w pk T \<equiv> (drain_step w pk T)\<^sup>*\<^sup>*"

fun task_path :: "task \<Rightarrow> string" where
  "task_path (DoDelete path _) = path"
| "task_path (DoRename r _) = r_to r"
| "task_path (DoImport path _) = path"

text \<open>The tasks after which the path counts as done.\<close>

fun task_marks :: "task \<Rightarrow> bool" where
  "task_marks (DoDelete path err) \<longleftrightarrow> err = None"
| "task_marks (DoRename r oc) \<longleftrightarrow> reconcile_failed oc = None"
| "task_marks (DoImport path oc) \<longleftrightarrow> oc = FileGone \<or> oc = FileRead FrImported \<or> (\<exists>b. oc = FileRead (FrUnchanged b))"

definition failed_paths :: "drain \<Rightarrow> string set" where
  "failed_paths d = x_path ` set (d_failed d)"

text \<open>The paths that are marked and not yet written.\<close>

definition unbanked :: "drain \<Rightarrow> string set" where
  "unbanked d = set (d_pending d) \<union> (case d_inflight d of None \<Rightarrow> {} | Some xs \<Rightarrow> set xs)"

text \<open>What was done is done or failed, or the signal stopped it.\<close>

definition task_settled :: "drain \<Rightarrow> task \<Rightarrow> bool" where
  "task_settled d t \<longleftrightarrow>
     task_marks t \<and> task_path t \<in> set (d_completed d)
     \<or> task_path t \<in> failed_paths d \<or> rename_mark (task_path t) \<in> failed_paths d \<or> d_signal d"

lemma set_set_add [simp]: "set (set_add x xs) = insert x (set xs)"
  by (auto simp: set_add_def)

lemma set_fold_add [simp]: "set (fold set_add ys xs) = set ys \<union> set xs"
  by (induction ys arbitrary: xs) auto

text \<open>The invariant of a run that starts from the paths \<open>L\<close> and the tables \<open>t0\<close>.\<close>

definition run_ok :: "op_key \<Rightarrow> string set \<Rightarrow> ckpt_tables \<Rightarrow> task set \<times> drain \<Rightarrow> bool" where
  "run_ok pk L t0 Fd \<longleftrightarrow> (case Fd of (F, d) \<Rightarrow>
     set (d_completed d) = L \<union> task_path ` {t \<in> F. task_marks t}
     \<and> appended (d_tables d) pk \<union> unbanked d \<subseteq> set (d_completed d) \<union> appended t0 pk
     \<and> set (d_completed d) \<subseteq> L \<union> appended (d_tables d) pk \<union> unbanked d
     \<and> appended t0 pk \<subseteq> appended (d_tables d) pk
     \<and> (\<forall>l. l \<noteq> pk \<longrightarrow> appended (d_tables d) l = appended t0 l)
     \<and> replaced (d_tables d) = replaced t0
     \<and> tables_ok (d_tables d)
     \<and> (\<forall>t \<in> F. task_settled d t)
     \<and> (d_signal d \<longrightarrow> (\<exists>p. DoImport p PermitAborted \<in> F)))"

lemma flush_begin_simps [simp]:
  "d_completed (flush_begin d) = d_completed d" "d_tables (flush_begin d) = d_tables d"
  "d_failed (flush_begin d) = d_failed d" "d_signal (flush_begin d) = d_signal d" "unbanked (flush_begin d) = unbanked d"
  by (auto simp: flush_begin_def unbanked_def split: option.splits)

lemma markCompleted_simps [simp]:
  "d_completed (markCompleted w p d) = set_add p (d_completed d)" "d_tables (markCompleted w p d) = d_tables d"
  "d_failed (markCompleted w p d) = d_failed d" "d_signal (markCompleted w p d) = d_signal d"
  by (simp_all add: markCompleted_def Let_def)

lemma markCompleted_unbanked [simp]: "unbanked (markCompleted w p d) = insert p (unbanked d)"
  by (simp add: markCompleted_def Let_def) (simp add: unbanked_def)

lemma other_fields_unbanked [simp]:
  "unbanked (fail_path p e d) = unbanked d" "unbanked (d\<lparr>d_succeeded := xs\<rparr>) = unbanked d"
  "unbanked (d\<lparr>d_succeeded := xs, d_imported := n\<rparr>) = unbanked d" "unbanked (d\<lparr>d_signal := b\<rparr>) = unbanked d"
  "unbanked (checked d) = unbanked d"
  by (simp_all add: unbanked_def fail_path_def checked_def)

lemma fail_path_simps [simp]:
  "d_completed (fail_path p e d) = d_completed d" "d_tables (fail_path p e d) = d_tables d"
  "d_signal (fail_path p e d) = d_signal d" "failed_paths (fail_path p e d) = insert p (failed_paths d)"
  "set (d_failed d) \<subseteq> set (d_failed (fail_path p e d))"
  by (auto simp: fail_path_def failed_paths_def)

lemma failed_paths_same: "d_failed d = d_failed e \<Longrightarrow> failed_paths d = failed_paths e"
  by (simp add: failed_paths_def)

lemma task_settled_mono:
  "task_settled d t \<Longrightarrow> set (d_completed d) \<subseteq> set (d_completed e) \<Longrightarrow> set (d_failed d) \<subseteq> set (d_failed e)
    \<Longrightarrow> (d_signal d \<Longrightarrow> d_signal e) \<Longrightarrow> task_settled e t"
  by (auto simp: task_settled_def failed_paths_def)

text \<open>What a task does to the fields the invariant speaks of.\<close>

definition effect_of :: "task \<Rightarrow> drain \<Rightarrow> drain \<Rightarrow> bool" where
  "effect_of t d e \<longleftrightarrow>
     set (d_completed e) = (if task_marks t then {task_path t} else {}) \<union> set (d_completed d)
     \<and> unbanked e = (if task_marks t then {task_path t} else {}) \<union> unbanked d
     \<and> d_tables e = d_tables d \<and> set (d_failed d) \<subseteq> set (d_failed e) \<and> (d_signal d \<longrightarrow> d_signal e) \<and> task_settled e t
     \<and> (d_signal e \<longrightarrow> d_signal d \<or> (\<exists>p. t = DoImport p PermitAborted))"

lemma note_rename_error_simps:
  "d_completed (note_rename_error r oc d) = d_completed d" "unbanked (note_rename_error r oc d) = unbanked d"
  "d_tables (note_rename_error r oc d) = d_tables d" "set (d_failed d) \<subseteq> set (d_failed (note_rename_error r oc d))"
  "d_signal (note_rename_error r oc d) = d_signal d"
  by (simp_all add: note_rename_error_def split: option.split file_result.split)

lemma do_task_effect: "effect_of t d (do_task w t d)"
proof (cases t)
  case (DoDelete p e)
  then show ?thesis by (cases e) (auto simp: effect_of_def task_settled_def)
next
  case (DoRename r oc)
  note n = note_rename_error_simps [where r = r and oc = oc and d = d]
  show ?thesis
  proof (cases "reconcile_failed oc")
    case None
    then show ?thesis using DoRename n by (simp add: do_rename_def Let_def effect_of_def task_settled_def)
  next
    case (Some e)
    have "set (d_failed d) \<subseteq> set (d_failed (fail_path q x (note_rename_error r oc d)))" for q x
      using n(4) fail_path_simps(5) by (rule subset_trans)
    then show ?thesis using Some DoRename n by (simp add: do_rename_def Let_def effect_of_def task_settled_def)
  qed
next
  case (DoImport p oc)
  then show ?thesis
    by (cases oc) (auto simp: do_import_def effect_of_def task_settled_def split: file_result.splits)
qed

lemma flush_end_effect:
  assumes "tables_ok (d_tables d)"
  shows "d_completed (flush_end w pk d) = d_completed d \<and> d_failed (flush_end w pk d) = d_failed d
    \<and> d_signal (flush_end w pk d) = d_signal d
    \<and> unbanked (flush_end w pk d) \<subseteq> unbanked d
    \<and> appended (d_tables d) pk \<subseteq> appended (d_tables (flush_end w pk d)) pk
    \<and> appended (d_tables (flush_end w pk d)) pk \<subseteq> appended (d_tables d) pk \<union> unbanked d
    \<and> unbanked d \<subseteq> unbanked (flush_end w pk d) \<union> appended (d_tables (flush_end w pk d)) pk
    \<and> (\<forall>l. l \<noteq> pk \<longrightarrow> appended (d_tables (flush_end w pk d)) l = appended (d_tables d) l)
    \<and> replaced (d_tables (flush_end w pk d)) = replaced (d_tables d)
    \<and> tables_ok (d_tables (flush_end w pk d))"
proof (cases "d_inflight d")
  case None
  then show ?thesis using assms by (simp add: flush_end_def)
next
  case (Some batch)
  let ?n = "w_flush_net w (d_flushes d)"
  let ?r = "appendCompleted ?n pk batch (d_tables d)"
  obtain ok t where r: "?r = (ok, t)" by (cases ?r)
  note store = retried_store.append_valid [OF assms, of ?n pk batch] retried_store.append_keeps [of "d_tables d" pk ?n batch]
    retried_store.append_within [of ?n pk batch "d_tables d"] retried_store.append_done [of ?n pk batch "d_tables d"]
    retried_store.append_other [of _ pk ?n batch "d_tables d"] retried_store.append_rest [of ?n pk batch "d_tables d"]
  show ?thesis
  proof (cases "ok = Some True")
    case True
    then show ?thesis using store Some r by (auto simp: flush_end_def Let_def unbanked_def)
  next
    case False
    then show ?thesis using store Some r by (auto simp: flush_end_def Let_def unbanked_def)
  qed
qed

lemma run_ok_step:
  assumes "drain_step w pk T Fd Gd" "run_ok pk L t0 Fd"
  shows "run_ok pk L t0 Gd"
  using assms
proof (induction rule: drain_step.induct)
  case (work t F d)
  note e = do_task_effect [of t d w, unfolded effect_of_def]
  have keep: "task_settled (do_task w t d) u" if "u \<in> F" for u
    using work(2) e that by (auto simp: run_ok_def intro: task_settled_mono)
  show ?case using work(2) e keep by (auto simp: run_ok_def split: if_splits)
next
  case (begin_write F d)
  then show ?case by (auto simp: run_ok_def task_settled_def failed_paths_def)
next
  case (end_write F d)
  let ?e = "flush_end w pk d"
  have h: "set (d_completed d) = L \<union> task_path ` {t \<in> F. task_marks t}"
    "appended (d_tables d) pk \<union> unbanked d \<subseteq> set (d_completed d) \<union> appended t0 pk"
    "set (d_completed d) \<subseteq> L \<union> appended (d_tables d) pk \<union> unbanked d"
    "appended t0 pk \<subseteq> appended (d_tables d) pk" "\<forall>l. l \<noteq> pk \<longrightarrow> appended (d_tables d) l = appended t0 l"
    "replaced (d_tables d) = replaced t0" "tables_ok (d_tables d)" "\<forall>t \<in> F. task_settled d t"
    "d_signal d \<longrightarrow> (\<exists>p. DoImport p PermitAborted \<in> F)"
    using end_write unfolding run_ok_def prod.case by blast+
  have e: "d_completed ?e = d_completed d" "d_failed ?e = d_failed d" "d_signal ?e = d_signal d" "unbanked ?e \<subseteq> unbanked d"
    "appended (d_tables d) pk \<subseteq> appended (d_tables ?e) pk"
    "appended (d_tables ?e) pk \<subseteq> appended (d_tables d) pk \<union> unbanked d"
    "unbanked d \<subseteq> unbanked ?e \<union> appended (d_tables ?e) pk"
    "\<forall>l. l \<noteq> pk \<longrightarrow> appended (d_tables ?e) l = appended (d_tables d) l"
    "replaced (d_tables ?e) = replaced (d_tables d)" "tables_ok (d_tables ?e)"
    using flush_end_effect [OF h(7), of w pk] by simp_all
  have 1: "\<forall>u \<in> F. task_settled ?e u"
    using h(8) e(1-3) by (auto intro: task_settled_mono)
  have 2: "appended (d_tables ?e) pk \<union> unbanked ?e \<subseteq> set (d_completed ?e) \<union> appended t0 pk" unfolding e(1) using h(2) e(4,6) by blast
  have 3: "set (d_completed ?e) \<subseteq> L \<union> appended (d_tables ?e) pk \<union> unbanked ?e" unfolding e(1) using h(3) e(5,7) by blast
  have 4: "appended t0 pk \<subseteq> appended (d_tables ?e) pk" using h(4) e(5) by blast
  have 5: "set (d_completed ?e) = L \<union> task_path ` {t \<in> F. task_marks t}" unfolding e(1) by (rule h(1))
  have 6: "replaced (d_tables ?e) = replaced t0" "\<forall>l. l \<noteq> pk \<longrightarrow> appended (d_tables ?e) l = appended t0 l"
    "d_signal ?e \<longrightarrow> (\<exists>p. DoImport p PermitAborted \<in> F)"
    using h(5,6,9) e(3,8,9) by simp_all
  show ?case unfolding run_ok_def prod.case by (intro conjI) (fact 5 2 3 4 6 1 e)+
next
  case (check_signal F d)
  then show ?case by (auto simp: run_ok_def task_settled_def failed_paths_def unbanked_def checked_def)
qed

lemma done_tasks: "drain_reach w pk T Fd Gd \<Longrightarrow> fst Gd \<subseteq> fst Fd \<union> T"
proof (induction rule: rtranclp_induct)
  case (step Gd Hd)
  from step(2) have "fst Hd \<subseteq> fst Gd \<union> T" by (induction rule: drain_step.induct) auto
  then show ?case using step(3) by blast
qed simp

lemma run_ok_init:
  "tables_ok t \<Longrightarrow> run_ok pk (set L) t ({}, init_drain w L t)"
  by (auto simp: run_ok_def init_drain_def unbanked_def)

interpretation sync_drain: invariant_system
  "\<lambda>s. \<exists>L'. tables_ok t \<and> set L' = L \<and> s = ({}, init_drain w L' t)" "drain_step w pk T" "run_ok pk L t" for w pk T L t
  by unfold_locales (auto intro: run_ok_init run_ok_step)

section \<open>The serial run is one interleaving\<close>

lemma reach_task: "t \<in> T \<Longrightarrow> drain_reach w pk T (F, d) (insert t F, run_task w pk t d)"
  unfolding run_task_def by (meson drain_step.work drain_step.end_write converse_rtranclp_into_rtranclp rtranclp.rtrancl_refl)

lemma reach_tasks: "set ts \<subseteq> T \<Longrightarrow> drain_reach w pk T (F, d) (F \<union> set ts, fold (run_task w pk) ts d)"
proof (induction ts arbitrary: F d)
  case (Cons t ts)
  have "drain_reach w pk T (F, d) (insert t F, run_task w pk t d)" using Cons.prems by (intro reach_task) simp
  also have "drain_reach w pk T (insert t F, run_task w pk t d)
      (insert t F \<union> set ts, fold (run_task w pk) ts (run_task w pk t d))"
    using Cons.prems by (intro Cons.IH) simp
  finally show ?case by simp
qed simp

lemma reach_checked: "drain_reach w pk T (F, d) (F, checked d)"
  by (meson drain_step.check_signal r_into_rtranclp)

lemma reach_flush: "drain_reach w pk T (F, d) (F, flushCheckpoint w pk d)"
  unfolding flushCheckpoint_def
  by (meson drain_step.begin_write drain_step.end_write converse_rtranclp_into_rtranclp rtranclp.rtrancl_refl)

lemma reach_batches:
  assumes "\<Union> (set ` set bs) \<subseteq> T"
  shows "\<exists>G. drain_reach w pk T (F, d) (G, snd (run_batches w pk bs d))
     \<and> F \<subseteq> G \<and> (\<not> fst (run_batches w pk bs d) \<longrightarrow> G = F \<union> \<Union> (set ` set bs))"
  using assms
proof (induction bs arbitrary: F d)
  case Nil
  then show ?case by auto
next
  case (Cons b bs)
  show ?case
  proof (cases "aborted_now w d")
    case True
    then show ?thesis using reach_checked [of w pk T F d] by (intro exI [of _ F]) simp
  next
    case False
    let ?e = "fold (run_task w pk) b (checked d)"
    have "drain_reach w pk T (F, d) (F \<union> set b, ?e)"
      using reach_checked [of w pk T F d] reach_tasks [of b T w pk F "checked d"] Cons.prems by auto
    moreover obtain G where "drain_reach w pk T (F \<union> set b, ?e) (G, snd (run_batches w pk bs ?e))"
      "F \<union> set b \<subseteq> G" "\<not> fst (run_batches w pk bs ?e) \<longrightarrow> G = F \<union> set b \<union> \<Union> (set ` set bs)"
      using Cons.IH [of "F \<union> set b" ?e] Cons.prems by auto
    ultimately show ?thesis using False by (intro exI [of _ G]) (auto intro: rtranclp_trans)
  qed
qed

text \<open>The tasks of a run.\<close>

definition run_tasks :: "sync_world \<Rightarrow> manifest \<Rightarrow> task set" where
  "run_tasks w f =
     {DoDelete p e | p e. p \<in> set (m_deleted f) \<and> (e = None \<or> e = w_delete w p)}
     \<union> {DoRename r (w_rename w r) | r. r \<in> set (m_renamed f)}
     \<union> {DoImport p (w_import w p) | p. p \<in> set (m_added f) \<union> set (m_modified f)}"

lemma chunks_of_set: "0 < n \<Longrightarrow> \<Union> (set ` set (chunks_of n xs)) = set xs"
proof (induction n xs rule: chunks_of.induct)
  case (1 n xs)
  have "set (take n xs) \<union> set (drop n xs) = set xs" by (metis append_take_drop_id set_append)
  then show ?case using 1 by (cases "xs = []") (auto simp: chunks_of.simps [of n xs] chunks_of.simps [of n "[]"])
qed

lemma delete_batches_tasks:
  "\<Union> (set ` set (delete_batches w todo)) \<subseteq> {DoDelete p e | p e. p \<in> set todo \<and> (e = None \<or> e = w_delete w p)}"
  "p \<in> set todo \<Longrightarrow> \<exists>e. DoDelete p e \<in> \<Union> (set ` set (delete_batches w todo))"
proof -
  have c: "\<Union> (set ` set (chunks_of DELETE_BATCH_SIZE todo)) = set todo"
    by (rule chunks_of_set) (simp add: DELETE_BATCH_SIZE_def)
  show "\<Union> (set ` set (delete_batches w todo)) \<subseteq> {DoDelete p e | p e. p \<in> set todo \<and> (e = None \<or> e = w_delete w p)}"
    using c by (auto simp: delete_batches_def split: option.split)
  show "\<exists>e. DoDelete p e \<in> \<Union> (set ` set (delete_batches w todo))" if p: "p \<in> set todo"
  proof (cases "w_source w")
    case None
    then show ?thesis using p by (auto simp: delete_batches_def)
  next
    case (Some src)
    obtain b where "b \<in> set (chunks_of DELETE_BATCH_SIZE todo)" "p \<in> set b" using p c by blast
    then show ?thesis using Some
      by (intro exI [of _ "if w_batch_ok w b then None else w_delete w p"]) (force simp: delete_batches_def)
  qed
qed

lemma rename_batches_tasks: "\<Union> (set ` set (rename_batches w todo)) = (\<lambda>r. DoRename r (w_rename w r)) ` set todo"
  by (auto simp: rename_batches_def split: option.split)

lemma resumeFilter_set: "set (resumeFilter xs ys) = set xs - set ys"
  by (auto simp: resumeFilter_def)

lemma import_order_set: "set (import_order w f) = set (m_added f) \<union> set (m_modified f)"
  by (simp add: import_order_def)

lemma reach_completed_mono:
  assumes "drain_reach w pk T Fd Gd"
  shows "fst Fd \<subseteq> fst Gd \<and> (tables_ok (d_tables (snd Fd)) \<longrightarrow> tables_ok (d_tables (snd Gd)) \<and> set (d_completed (snd Fd)) \<subseteq> set (d_completed (snd Gd)))"
  using assms
proof (induction rule: rtranclp_induct)
  case (step Gd Hd)
  from step(2) have "fst Gd \<subseteq> fst Hd \<and> (tables_ok (d_tables (snd Gd)) \<longrightarrow> tables_ok (d_tables (snd Hd)) \<and> set (d_completed (snd Gd)) \<subseteq> set (d_completed (snd Hd)))"
  proof (induction rule: drain_step.induct)
    case (work t F d)
    then show ?case using do_task_effect [of t d w] by (auto simp: effect_of_def)
  next
    case (end_write F d)
    then show ?case using flush_end_effect [of d w pk] by auto
  qed (auto simp: checked_def)
  then show ?case using step(3) by blast
qed simp

text \<open>What a run that was not stopped has done with every path of the manifest.\<close>

definition all_done :: "sync_world \<Rightarrow> manifest \<Rightarrow> task set \<Rightarrow> drain \<Rightarrow> bool" where
  "all_done w f G d \<longleftrightarrow>
     (\<forall>p \<in> set (m_deleted f). p \<in> set (d_completed d) \<or> (\<exists>e. DoDelete p e \<in> G))
     \<and> (\<forall>r \<in> set (m_renamed f). r_to r \<in> set (d_completed d) \<or> DoRename r (w_rename w r) \<in> G)
     \<and> (\<forall>p \<in> set (m_added f) \<union> set (m_modified f). p \<in> set (d_completed d) \<or> DoImport p (w_import w p) \<in> G)"

lemma serial_reach:
  assumes "tables_ok (d_tables d)"
  shows "\<exists>G. drain_reach w pk (run_tasks w f) ({}, d) (G, snd (drain_serial w pk f d))
    \<and> (\<not> fst (drain_serial w pk f d) \<longrightarrow> all_done w f G (snd (drain_serial w pk f d))
         \<and> (d_signal (snd (drain_serial w pk f d)) \<longrightarrow> (\<forall>p oc. DoImport p oc \<notin> G)))"
proof -
  let ?T = "run_tasks w f"
  let ?D = "delete_batches w (resumeFilter (m_deleted f) (d_completed d))"
  let ?r1 = "run_batches w pk ?D d"
  let ?d1 = "snd ?r1"
  let ?ren = "filter (\<lambda>r. r_to r \<notin> set (d_completed ?d1)) (m_renamed f)"
  let ?r2 = "run_batches w pk (rename_batches w ?ren) ?d1"
  let ?d2 = "snd ?r2"
  let ?todo = "resumeFilter (import_order w f) (d_completed ?d2)"
  let ?I = "map (\<lambda>p. [DoImport p (w_import w p)]) ?todo"
  let ?r3 = "run_batches w pk ?I ?d2"
  let ?d3 = "snd ?r3"
  have subD: "\<Union> (set ` set ?D) \<subseteq> ?T"
    using delete_batches_tasks(1) [of w "resumeFilter (m_deleted f) (d_completed d)"]
    by (auto simp: run_tasks_def resumeFilter_set)
  have subR: "\<Union> (set ` set (rename_batches w ?ren)) \<subseteq> ?T"
    unfolding rename_batches_tasks by (auto simp: run_tasks_def)
  have subI: "\<Union> (set ` set ?I) \<subseteq> ?T"
    by (auto simp: run_tasks_def resumeFilter_set import_order_set)
  obtain G1 where G1: "drain_reach w pk ?T ({}, d) (G1, ?d1)" "\<not> fst ?r1 \<longrightarrow> G1 = \<Union> (set ` set ?D)"
    using reach_batches [OF subD, of w pk "{}" d] by auto
  show ?thesis
  proof (cases "fst ?r1")
    case True
    then have "drain_serial w pk f d = (True, ?d1)" by (cases ?r1) (simp add: drain_serial_def)
    then show ?thesis using G1(1) by auto
  next
    case False
    obtain G2 where G2: "drain_reach w pk ?T (G1, ?d1) (G2, ?d2)" "G1 \<subseteq> G2"
      "\<not> fst ?r2 \<longrightarrow> G2 = G1 \<union> \<Union> (set ` set (rename_batches w ?ren))"
      using reach_batches [OF subR, of w pk G1 ?d1] by blast
    have c12: "set (d_completed ?d1) \<subseteq> set (d_completed ?d2)" and ok2: "tables_ok (d_tables ?d2)"
      and c01: "set (d_completed d) \<subseteq> set (d_completed ?d1)"
      using reach_completed_mono [OF G1(1)] reach_completed_mono [OF G2(1)] assms by auto
    show ?thesis
    proof (cases "fst ?r2")
      case True
      then have "drain_serial w pk f d = (True, ?d2)"
        using False by (cases ?r1; cases ?r2) (simp add: drain_serial_def)
      then show ?thesis using rtranclp_trans [OF G1(1) G2(1)] by auto
    next
      case False2: False
      obtain G3 where G3: "drain_reach w pk ?T (G2, ?d2) (G3, ?d3)" "G2 \<subseteq> G3"
        "\<not> fst ?r3 \<longrightarrow> G3 = G2 \<union> \<Union> (set ` set ?I)"
        using reach_batches [OF subI, of w pk G2 ?d2] by blast
      have c23: "set (d_completed ?d2) \<subseteq> set (d_completed ?d3)"
        using reach_completed_mono [OF G3(1)] ok2 by auto
      have reach: "drain_reach w pk ?T ({}, d) (G3, ?d3)" "drain_reach w pk ?T ({}, d) (G3, checked ?d3)"
        using G1(1) G2(1) G3(1) reach_checked [of w pk ?T G3 ?d3] by (auto intro: rtranclp_trans)
      show ?thesis
      proof (cases "fst ?r3 \<or> ?todo \<noteq> [] \<and> aborted_now w ?d3")
        case True
        then have "drain_serial w pk f d = (True, ?d3) \<or> drain_serial w pk f d = (True, checked ?d3)"
          using False False2 by (cases ?r1; cases ?r2; cases ?r3) (auto simp: drain_serial_def Let_def split: bool.split)
        then show ?thesis using reach by auto
      next
        case False3: False
        have res: "drain_serial w pk f d = (False, checked ?d3)"
          using False False2 False3 by (cases ?r1; cases ?r2; cases ?r3) (auto simp: drain_serial_def Let_def)
        have G: "G3 = \<Union> (set ` set ?D) \<union> (\<lambda>r. DoRename r (w_rename w r)) ` set ?ren \<union> (\<lambda>p. DoImport p (w_import w p)) ` set ?todo"
          using G1(2) G2(3) G3(3) False False2 False3 unfolding rename_batches_tasks by auto
        have comp: "set (d_completed d) \<subseteq> set (d_completed (checked ?d3))"
          "set (d_completed ?d1) \<subseteq> set (d_completed (checked ?d3))" "set (d_completed ?d2) \<subseteq> set (d_completed (checked ?d3))"
          using c01 c12 c23 by (auto simp: checked_def)
        have "\<exists>e. DoDelete p e \<in> G3" if "p \<in> set (m_deleted f)" "p \<notin> set (d_completed d)" for p
          using that delete_batches_tasks(2) [of p "resumeFilter (m_deleted f) (d_completed d)" w] unfolding G
          by (auto simp: resumeFilter_set)
        moreover have "DoRename r (w_rename w r) \<in> G3" if "r \<in> set (m_renamed f)" "r_to r \<notin> set (d_completed ?d1)" for r
          using that unfolding G by auto
        moreover have "DoImport p (w_import w p) \<in> G3"
          if "p \<in> set (m_added f) \<union> set (m_modified f)" "p \<notin> set (d_completed ?d2)" for p
          using that unfolding G by (auto simp: resumeFilter_set import_order_set)
        ultimately have "all_done w f G3 (checked ?d3)" using comp unfolding all_done_def by blast
        moreover have "DoImport p oc \<notin> G3" if "d_signal (checked ?d3)" for p oc
        proof -
          have "?todo = []" using False3 that by (auto simp: aborted_now_def checked_def)
          then show ?thesis using delete_batches_tasks(1) [of w "resumeFilter (m_deleted f) (d_completed d)"]
            unfolding G by auto
        qed
        ultimately show ?thesis using res reach(2) by (intro exI [of _ G3]) auto
      qed
    qed
  qed
qed

section \<open>Runs between two anchors\<close>

definition marked_by :: "task set \<Rightarrow> string set" where
  "marked_by G = task_path ` {t \<in> G. task_marks t}"

text \<open>What a run relies on: the query for the pin is answered, the first attempt of a clear takes effect, and
  a commit has a name.\<close>

definition trusted :: "sync_world \<Rightarrow> bool" where
  "trusted w \<longleftrightarrow> w_read_target w \<and> takes_effect (n_attempt (w_clear w 0) 0) \<and> w_head w \<noteq> []"

text \<open>The runs that start at one anchor and do not move it, with the paths each of them marked under its pin.
  A run stops anywhere: killed, timed out, blocked, or with a dead checkpoint.\<close>

inductive episode :: "(string \<Rightarrow> string) \<Rightarrow> string option \<Rightarrow> string \<Rightarrow> ckpt_tables \<Rightarrow> (string \<Rightarrow> string set) \<Rightarrow> bool"
  for sha source anchor where
  fresh: "tables_ok t \<Longrightarrow> fst (loadOpCheckpoint True (paths_key sha source anchor) t) = []
    \<Longrightarrow> fst (loadOpCheckpoint True (target_key sha source anchor) t) = [] \<Longrightarrow> episode sha source anchor t (\<lambda>_. {})"
| resolved: "episode sha source anchor t dn \<Longrightarrow> trusted w
    \<Longrightarrow> resolve_pin w (paths_key sha source anchor) (target_key sha source anchor) t = (pin, L, t')
    \<Longrightarrow> episode sha source anchor t' dn"
| unpinned: "episode sha source anchor t dn \<Longrightarrow> trusted w
    \<Longrightarrow> resolve_pin w (paths_key sha source anchor) (target_key sha source anchor) t = (pin, L, t')
    \<Longrightarrow> episode sha source anchor (snd (recordCompleted (w_pin_net w) (target_key sha source anchor) [pin] t')) dn"
| stopped: "episode sha source anchor t dn \<Longrightarrow> trusted w
    \<Longrightarrow> resolve_pin w (paths_key sha source anchor) (target_key sha source anchor) t = (pin, L, t')
    \<Longrightarrow> recordCompleted (w_pin_net w) (target_key sha source anchor) [pin] t' = (Some True, t'')
    \<Longrightarrow> drain_reach w (paths_key sha source anchor) T ({}, init_drain w L t'') (G, d)
    \<Longrightarrow> episode sha source anchor (d_tables d) (dn(pin := dn pin \<union> marked_by G))"
| terminated: "episode sha source anchor t dn \<Longrightarrow> trusted w
    \<Longrightarrow> resolve_pin w (paths_key sha source anchor) (target_key sha source anchor) t = (pin, L, t')
    \<Longrightarrow> recordCompleted (w_pin_net w) (target_key sha source anchor) [pin] t' = (Some True, t'')
    \<Longrightarrow> drain_reach w (paths_key sha source anchor) T ({}, init_drain w L t'') (G, d)
    \<Longrightarrow> episode sha source anchor (snd (appendCompletedOnce a now (paths_key sha source anchor) (d_pending d) (d_tables d)))
          (dn(pin := dn pin \<union> marked_by G))"
| purged: "episode sha source anchor t dn \<Longrightarrow> t' = snd (purgeStaleCheckpoints works ttl now t)
    \<Longrightarrow> (fst (loadOpCheckpoint True (target_key sha source anchor) t') = []
           \<Longrightarrow> fst (loadOpCheckpoint True (paths_key sha source anchor) t') = [])
    \<Longrightarrow> episode sha source anchor t' dn"

text \<open>What holds of the tables between runs: the stored paths were marked under the stored pin.\<close>

definition between_runs :: "op_key \<Rightarrow> op_key \<Rightarrow> ckpt_tables \<Rightarrow> (string \<Rightarrow> string set) \<Rightarrow> bool" where
  "between_runs pk tk t dn \<longleftrightarrow>
     tables_ok t \<and> replaced t pk = {} \<and> appended t tk = {}
     \<and> (replaced t tk = {} \<and> appended t pk = {}
        \<or> (\<exists>pin. pin \<noteq> [] \<and> replaced t tk = {pin} \<and> appended t pk \<subseteq> dn pin))"

lemma load_empty_iff: "fst (loadOpCheckpoint True k t) = [] \<longleftrightarrow> appended t k = {} \<and> replaced t k = {}"
  using load_is_union [of k t] by (metis Un_empty set_empty)

lemma load_single:
  assumes "appended t k \<union> replaced t k = {x}"
  shows "fst (loadOpCheckpoint True k t) = [x]"
proof -
  have "set (fst (loadOpCheckpoint True k t)) = {x}" using assms load_is_union by simp
  moreover have "distinct (fst (loadOpCheckpoint True k t))" by (simp add: loadOpCheckpoint_def)
  ultimately show ?thesis by (metis distinct_singleton set_empty insert_not_empty distinct.simps(2) list.set(2) neq_Nil_conv
      insert_ident list.set_intros(1) singletonD set_ConsD empty_iff)
qed

lemma keys_differ [simp]: "paths_key sha source anchor \<noteq> target_key sha source anchor'" "target_key sha source anchor' \<noteq> paths_key sha source anchor"
  by (simp_all add: paths_key_def target_key_def)

lemma clear_both_view:
  assumes "tables_ok t" "pk \<noteq> tk"
  shows "tables_ok (clear_both w i pk tk t)"
    "appended (clear_both w i pk tk t) pk \<in> {appended t pk, {}}" "replaced (clear_both w i pk tk t) pk \<in> {replaced t pk, {}}"
    "appended (clear_both w i pk tk t) tk \<in> {appended t tk, {}}" "replaced (clear_both w i pk tk t) tk \<in> {replaced t tk, {}}"
    "takes_effect (n_attempt (w_clear w i) 0) \<Longrightarrow> appended (clear_both w i pk tk t) pk = {}"
proof -
  let ?t1 = "snd (clearOpCheckpoint (w_clear w i) (w_clear w (i + 1)) pk t)"
  have ok: "tables_ok ?t1" using apply_call_ok [OF assms(1), of "CallClear (w_clear w i) (w_clear w (i + 1)) pk"] by simp
  note c1 = clear_outcome [OF assms(1), where ?n1.0 = "w_clear w i" and ?n2.0 = "w_clear w (i + 1)" and k = pk]
  note c2 = clear_outcome [OF ok, where ?n1.0 = "w_clear w (i + 2)" and ?n2.0 = "w_clear w (i + 3)" and k = tk]
  show "tables_ok (clear_both w i pk tk t)"
    using apply_call_ok [OF ok, of "CallClear (w_clear w (i + 2)) (w_clear w (i + 3)) tk"] by (simp add: clear_both_def)
  show "appended (clear_both w i pk tk t) pk \<in> {appended t pk, {}}" "replaced (clear_both w i pk tk t) pk \<in> {replaced t pk, {}}"
    using c1(3,4) c2(2) assms(2) by (simp_all add: clear_both_def)
  show "appended (clear_both w i pk tk t) tk \<in> {appended t tk, {}}" "replaced (clear_both w i pk tk t) tk \<in> {replaced t tk, {}}"
    using c2(3,4) c1(2) assms(2) by (auto simp: clear_both_def)
  show "appended (clear_both w i pk tk t) pk = {}" if "takes_effect (n_attempt (w_clear w i) 0)"
    using c1(5) [OF that] c2(2) assms(2) by (simp add: clear_both_def)
qed

lemma resolve_between:
  assumes "between_runs pk tk t dn" "trusted w" "resolve_pin w pk tk t = (pin, L, t')" "pk \<noteq> tk"
  shows "pin \<noteq> [] \<and> between_runs pk tk t' dn \<and> set L \<subseteq> appended t' pk \<and> appended t' pk \<subseteq> dn pin"
proof -
  have ok: "tables_ok t" "replaced t pk = {}" "appended t tk = {}" using assms(1) by (simp_all add: between_runs_def)
  have tr: "w_read_target w" "takes_effect (n_attempt (w_clear w 0) 0)" "w_head w \<noteq> []" using assms(2) by (simp_all add: trusted_def)
  from assms(1) consider "replaced t tk = {}" "appended t pk = {}"
    | T where "T \<noteq> []" "replaced t tk = {T}" "appended t pk \<subseteq> dn T"
    unfolding between_runs_def by blast
  then show ?thesis
  proof cases
    case 1
    then have "fst (loadOpCheckpoint True tk t) = []" using ok(3) load_empty_iff by simp
    then have "pin = w_head w" "L = []" "t' = t" using assms(3) tr(1) by (simp_all add: resolve_pin_def)
    then show ?thesis using 1 tr(3) assms(1) by simp
  next
    case 2
    have load: "fst (loadOpCheckpoint True tk t) = [T]" using load_single [of t tk T] ok(3) 2(2) by simp
    show ?thesis
    proof (cases "w_reachable w T")
      case True
      have "set (fst (loadOpCheckpoint b pk t)) \<subseteq> appended t pk" for b
        using load_is_union [of pk t] ok(2) by (cases b) (simp_all add: loadOpCheckpoint_def)
      moreover have "pin = T" "t' = t" "L = fst (loadOpCheckpoint (w_read_paths w) pk t)"
        using assms(3) load tr(1) True 2(1) by (auto simp: resolve_pin_def)
      ultimately show ?thesis using 2 assms(1) by simp
    next
      case False
      then have r: "pin = w_head w" "L = []" "t' = clear_both w 0 pk tk t"
        using assms(3) load tr(1) 2(1) by (simp_all add: resolve_pin_def)
      note v = clear_both_view [OF ok(1) assms(4), of w 0]
      have "between_runs pk tk t' dn"
        using v(1) v(3,4,5) v(6) [OF tr(2)] ok 2 unfolding r(3) between_runs_def by auto
      then show ?thesis using r v(6) [OF tr(2)] tr(3) by simp
    qed
  qed
qed

lemma pin_written:
  assumes "between_runs pk tk t dn" "pk \<noteq> tk" "pin \<noteq> []" "appended t pk \<subseteq> dn pin"
  shows "between_runs pk tk (snd (recordCompleted n tk [pin] t)) dn"
    and "fst (recordCompleted n tk [pin] t) = Some True \<Longrightarrow> replaced (snd (recordCompleted n tk [pin] t)) tk = {pin}"
    and "appended (snd (recordCompleted n tk [pin] t)) = appended t"
proof -
  let ?t = "snd (recordCompleted n tk [pin] t)"
  obtain b where b: "fst (recordCompleted n tk [pin] t) = Some b"
    "appended ?t = appended t" "replaced ?t = (replaced t)(tk := {pin}) \<or> \<not> b \<and> replaced ?t = replaced t"
    using durable_view [OF repeatable_write write_stmt_view, of tk "sort [pin]" n t]
    unfolding recordCompleted_def set_sort list.set by blast
  have "tables_ok t" using assms(1) by (simp add: between_runs_def)
  then have ok: "tables_ok ?t" using apply_call_ok [of t "CallRecord n tk [pin]"] by simp
  show "between_runs pk tk ?t dn" using b(2,3) ok assms unfolding between_runs_def by auto
  show "replaced ?t tk = {pin}" if "fst (recordCompleted n tk [pin] t) = Some True" using that b by auto
  show "appended ?t = appended t" by (rule b(2))
qed

lemma between_runs_mono:
  assumes "tables_ok t'" "replaced t' pk = {}" "appended t' tk = {}" "replaced t' tk = {pin}" "pin \<noteq> []"
    "appended t' pk \<subseteq> dn pin"
  shows "between_runs pk tk t' dn"
  using assms by (auto simp: between_runs_def)

lemma drained:
  assumes "between_runs pk tk t dn" "trusted w" "resolve_pin w pk tk t = (pin, L, t')" "pk \<noteq> tk"
    "recordCompleted (w_pin_net w) tk [pin] t' = (Some True, t'')" "drain_reach w pk T ({}, init_drain w L t'') (G, d)"
  shows "run_ok pk (set L) t'' (G, d) \<and> set L \<union> appended t'' pk \<subseteq> dn pin \<and> pin \<noteq> []
    \<and> replaced t'' pk = {} \<and> appended t'' tk = {} \<and> replaced t'' tk = {pin}"
proof -
  note r = resolve_between [OF assms(1-4)]
  note p = pin_written [of pk tk t' dn pin "w_pin_net w"]
  have t'': "snd (recordCompleted (w_pin_net w) tk [pin] t') = t''" "fst (recordCompleted (w_pin_net w) tk [pin] t') = Some True"
    using assms(5) by simp_all
  have "between_runs pk tk t'' dn" "replaced t'' tk = {pin}" "appended t'' = appended t'"
    using p r assms(4) t'' by auto
  moreover from this(1) have "run_ok pk (set L) t'' (G, d)"
    using sync_drain.steps_inv [OF assms(6) run_ok_init] by (simp add: between_runs_def)
  ultimately show ?thesis using r by (auto simp: between_runs_def)
qed

lemma drained_between:
  assumes "run_ok pk L t0 (G, d)" "L \<union> appended t0 pk \<subseteq> dn pin" "pin \<noteq> []" "replaced t0 pk = {}" "appended t0 tk = {}"
    "replaced t0 tk = {pin}" "pk \<noteq> tk"
  shows "between_runs pk tk (d_tables d) (dn(pin := dn pin \<union> marked_by G))"
    and "unbanked d \<subseteq> dn pin \<union> marked_by G"
proof -
  have h: "set (d_completed d) = L \<union> marked_by G" "appended (d_tables d) pk \<union> unbanked d \<subseteq> set (d_completed d) \<union> appended t0 pk"
    "\<forall>l. l \<noteq> pk \<longrightarrow> appended (d_tables d) l = appended t0 l" "replaced (d_tables d) = replaced t0" "tables_ok (d_tables d)"
    using assms(1) unfolding run_ok_def prod.case marked_by_def by blast+
  have sub: "appended (d_tables d) pk \<union> unbanked d \<subseteq> dn pin \<union> marked_by G" using h(1,2) assms(2) by blast
  then show "unbanked d \<subseteq> dn pin \<union> marked_by G" by blast
  show "between_runs pk tk (d_tables d) (dn(pin := dn pin \<union> marked_by G))"
    using sub h(3-5) assms(3-7) by (intro between_runs_mono [of _ _ _ pin]) auto
qed

lemma once_view:
  assumes "tables_ok t"
  shows "tables_ok (snd (appendCompletedOnce a now k xs t))"
    "appended (snd (appendCompletedOnce a now k xs t)) k \<subseteq> appended t k \<union> set xs"
    "l \<noteq> k \<Longrightarrow> appended (snd (appendCompletedOnce a now k xs t)) l = appended t l"
    "replaced (snd (appendCompletedOnce a now k xs t)) = replaced t"
proof -
  show "tables_ok (snd (appendCompletedOnce a now k xs t))"
    using once_store.append_valid [OF assms, of "(a, now)" k xs] by (simp add: append_once_def)
  show "appended (snd (appendCompletedOnce a now k xs t)) k \<subseteq> appended t k \<union> set xs"
    using once_store.append_within [of "(a, now)" k xs t] by (simp add: append_once_def)
  show "appended (snd (appendCompletedOnce a now k xs t)) l = appended t l" if "l \<noteq> k"
    using once_store.append_other [OF that, of "(a, now)" xs t] by (simp add: append_once_def)
  show "replaced (snd (appendCompletedOnce a now k xs t)) = replaced t"
    using once_store.append_rest [of "(a, now)" k xs t] by (simp add: append_once_def)
qed

lemma purge_view:
  assumes "tables_ok t"
  shows "tables_ok (snd (purgeStaleCheckpoints works ttl now t))"
    "appended (snd (purgeStaleCheckpoints works ttl now t)) k \<subseteq> appended t k"
    "replaced (snd (purgeStaleCheckpoints works ttl now t)) k \<subseteq> replaced t k"
proof -
  show "tables_ok (snd (purgeStaleCheckpoints works ttl now t))"
    using apply_call_ok [OF assms, of "CallPurge works ttl now"] by simp
  have rows: "set (paths (delete_parents P t)) \<subseteq> set (paths t)" "set (parents (delete_parents P t)) \<subseteq> set (parents t)" for P
    by (simp_all add: delete_parents_def filter_is_subset)
  have shape: "\<exists>P. snd (purgeStaleCheckpoints works ttl now t) = t \<or> snd (purgeStaleCheckpoints works ttl now t) = delete_parents P t"
    by (auto simp: purgeStaleCheckpoints_def Let_def)
  show "appended (snd (purgeStaleCheckpoints works ttl now t)) k \<subseteq> appended t k"
    using shape rows(1) by (force simp: appended_def banked_paths_def)
  show "replaced (snd (purgeStaleCheckpoints works ttl now t)) k \<subseteq> replaced t k"
    using shape rows(2) by (force simp: replaced_def array_keys_def)
qed

lemma episode_between:
  assumes "episode sha source anchor t dn"
  shows "between_runs (paths_key sha source anchor) (target_key sha source anchor) t dn"
  using assms
proof (induction rule: episode.induct)
  case (fresh t)
  then show ?case by (simp add: between_runs_def load_empty_iff)
next
  case (resolved t dn w pin L t')
  then show ?case using resolve_between [OF resolved(4,2,3)] by simp
next
  case (unpinned t dn w pin L t')
  then show ?case using resolve_between [OF unpinned(4,2,3)] pin_written(1) by simp
next
  case (stopped t dn w pin L t' t'' T G d)
  note dr = drained [OF stopped(6,2,3) _ stopped(4,5)]
  show ?case by (rule drained_between(1) [where L = "set L" and ?t0.0 = t'']) (use dr in simp_all)
next
  case (terminated t dn w pin L t' t'' T G d a now)
  note dr = drained [OF terminated(6,2,3) _ terminated(4,5)]
  let ?pk = "paths_key sha source anchor" and ?tk = "target_key sha source anchor"
  have b: "between_runs ?pk ?tk (d_tables d) (dn(pin := dn pin \<union> marked_by G))" "unbanked d \<subseteq> dn pin \<union> marked_by G"
    using dr by (intro drained_between [where L = "set L" and ?t0.0 = t'' and pk = ?pk and tk = ?tk]; simp)+
  have ok: "tables_ok (d_tables d)" using b(1) by (simp add: between_runs_def)
  have rep: "replaced (d_tables d) = replaced t''" using dr by (simp add: run_ok_def)
  have pend: "set (d_pending d) \<subseteq> unbanked d" by (auto simp: unbanked_def)
  have app: "appended (d_tables d) ?pk \<subseteq> dn pin \<union> marked_by G"
    using b(1) rep dr by (auto simp: between_runs_def)
  note once = once_view [OF ok, where a = a and now = now and k = ?pk and xs = "d_pending d"]
  have sub: "appended (snd (appendCompletedOnce a now ?pk (d_pending d) (d_tables d))) ?pk \<subseteq> dn pin \<union> marked_by G"
    using once(2) app pend b(2) by blast
  have tk: "appended (d_tables d) ?tk = {}" using b(1) by (simp add: between_runs_def)
  show ?case
    by (rule between_runs_mono [where pin = pin]) (use once rep dr sub tk in simp_all)
next
  case (purged t dn t' works ttl now)
  let ?pk = "paths_key sha source anchor" and ?tk = "target_key sha source anchor"
  have ok: "tables_ok t" using purged(4) by (simp add: between_runs_def)
  note v = purge_view [OF ok, where works = works and ttl = ttl and now = now, folded purged(2)]
  have e: "replaced t' ?pk = {}" "appended t' ?tk = {}"
    using v(2) [of ?tk] v(3) [of ?pk] purged(4) by (auto simp: between_runs_def)
  show ?case
  proof (cases "replaced t' ?tk = {}")
    case True
    then have "appended t' ?pk = {}" using purged(3) e(2) by (simp add: load_empty_iff)
    then show ?thesis using True e v(1) by (simp add: between_runs_def)
  next
    case False
    then obtain pin where "pin \<noteq> []" "replaced t ?tk = {pin}" "appended t ?pk \<subseteq> dn pin"
      using v(3) [of ?tk] purged(4) by (auto simp: between_runs_def)
    then show ?thesis using False v(1) v(2) [of ?pk] v(3) [of ?tk] e by (intro between_runs_mono [of _ _ _ pin]) auto
  qed
qed

section \<open>What a run that moves the anchor has covered\<close>

lemma gate_lets_through:
  assumes "applySyncFailureGate g file = (Inr out, file')" "advanced out" "f \<in> set (g_failed g)"
  shows "isSkippablePath (x_path f) \<and> (g_skip_failed g \<or> x_path f \<in> set (autoSkipped out))"
proof -
  have ne: "g_failed g \<noteq> []" using assms(3) by auto
  show ?thesis
    using assms unfolding gate_unfold [OF ne] decide_shape Let_def
    by (auto simp: filter_empty_conv split: if_splits)
qed

lemma partial_run_result: "fst (partial_run w pk s d) = Synced out \<longleftrightarrow> False"
  by (simp add: partial_run_def Let_def)

lemma synced_run:
  assumes "sync_run sha w s = (Synced out, s')"
  defines "pk \<equiv> paths_key sha (w_source w) (src_anchor s)" and "tk \<equiv> target_key sha (w_source w) (src_anchor s)"
  shows "\<exists>pin L t m t' d s1. resolve_pin w pk tk (src_tables s) = (pin, L, t)
    \<and> computeSyncDelta (w_git w) (src_anchor s) pin (w_detached w) = DeltaOk m
    \<and> recordCompleted (w_pin_net w) tk [pin] t = (Some True, t')
    \<and> drain_serial w pk (filter_manifest (w_rules w) m) (init_drain w L t') = (False, d)
    \<and> finish_run w pk tk pin (filter_manifest (w_rules w) m) s1 d = (Synced out, s')"
proof -
  obtain pin L t where r: "resolve_pin w pk tk (src_tables s) = (pin, L, t)" by (cases "resolve_pin w pk tk (src_tables s)")
  have np: "partial_run w pk s1 d \<noteq> (Synced out, s')" for s1 d
    using partial_run_result [of w pk s1 d out] by (metis fst_conv)
  show ?thesis
    using assms(1) r np unfolding sync_run_def sync_changes_def Let_def pk_def [symmetric] tk_def [symmetric]
    by (fastforce split: if_splits sync_delta.splits prod.splits option.splits bool.splits)
qed

lemma finish_synced:
  assumes "finish_run w pk tk pin f s1 d = (Synced out, s')"
  shows "src_anchor s' = pin"
    and "x \<in> set (run_failures w pin (flushCheckpoint w pk d)) \<Longrightarrow>
      isSkippablePath (x_path x) \<and> (w_skip_failed w \<or> x_path x \<in> set (autoSkipped out))"
proof -
  let ?d = "flushCheckpoint w pk d"
  let ?g = "\<lparr>g_source = orElse (w_source w) DEFAULT_SOURCE_ID, g_failed = run_failures w pin ?d,
      g_succeeded = resolved_paths w pin f ?d, g_commit = pin, g_skip_failed = w_skip_failed w,
      g_threshold = w_threshold w, g_now = w_now w, g_advance_ok = w_advance_ok w\<rparr>"
  obtain rows where g: "applySyncFailureGate ?g (src_ledger s1) = (Inr out, rows)" "advanced out" "src_anchor s' = pin"
    using assms by (auto simp: finish_run_def Let_def split: prod.splits sum.splits if_splits)
  show "src_anchor s' = pin" by (rule g(3))
  show "isSkippablePath (x_path x) \<and> (w_skip_failed w \<or> x_path x \<in> set (autoSkipped out))"
    if "x \<in> set (run_failures w pin ?d)"
    using gate_lets_through [OF g(1,2), of x] that by simp
qed

lemma rename_mark_sentinel [simp]: "\<not> isSkippablePath (rename_mark p)"
  by (simp add: isSkippablePath_def rename_mark_def)

definition touched_paths :: "manifest \<Rightarrow> string set" where
  "touched_paths f = set (m_added f) \<union> set (m_modified f) \<union> set (m_deleted f) \<union> r_to ` set (m_renamed f)"


definition moves_anchor :: "sync_result \<Rightarrow> bool" where
  "moves_anchor res = (case res of UpToDate \<Rightarrow> True | Synced _ \<Rightarrow> True | _ \<Rightarrow> False)"

lemma drained_episode:
  assumes "episode sha (w_source w) anchor t dn" "trusted w"
    "resolve_pin w (paths_key sha (w_source w) anchor) (target_key sha (w_source w) anchor) t = (pin, L, t1)"
    "recordCompleted (w_pin_net w) (target_key sha (w_source w) anchor) [pin] t1 = (Some True, t2)"
    "d = snd (drain_serial w (paths_key sha (w_source w) anchor) f (init_drain w L t2))"
    "e = d \<or> e = flushCheckpoint w (paths_key sha (w_source w) anchor) d"
  shows "\<exists>dn'. episode sha (w_source w) anchor (d_tables e) dn' \<and> (\<forall>q. dn q \<subseteq> dn' q)"
proof -
  let ?pk = "paths_key sha (w_source w) anchor"
  have "tables_ok t2"
    using drained [OF episode_between [OF assms(1)] assms(2,3) _ assms(4) rtranclp.rtrancl_refl]
    by (simp add: run_ok_def init_drain_def)
  then obtain G where "drain_reach w ?pk (run_tasks w f) ({}, init_drain w L t2) (G, d)"
    using serial_reach [of "init_drain w L t2" w ?pk f] assms(5) by (auto simp: init_drain_def)
  then have "drain_reach w ?pk (run_tasks w f) ({}, init_drain w L t2) (G, e)"
    using assms(6) reach_flush [of w ?pk "run_tasks w f" G d] by (auto intro: rtranclp_trans)
  from episode.stopped [OF assms(1-4) this] show ?thesis by (intro exI conjI) auto
qed

lemma partial_run_tables:
  "\<exists>e. (e = d \<or> e = flushCheckpoint w pk d) \<and> snd (partial_run w pk s d) = s\<lparr>src_tables := d_tables e\<rparr>"
  by (auto simp: partial_run_def Let_def)

lemma finish_run_tables:
  "finish_run w pk tk pin f s d = (res, s') \<Longrightarrow> \<not> moves_anchor res
    \<Longrightarrow> src_anchor s' = src_anchor s \<and> src_tables s' = d_tables (flushCheckpoint w pk d)"
  by (auto simp: finish_run_def Let_def moves_anchor_def split: prod.splits sum.splits if_splits)


section \<open>Where the code falls short\<close>

text \<open>A small repository: commit \<open>a\<close> is the anchor, \<open>b\<close> and \<open>c\<close> follow.\<close>

definition small_git :: "string \<Rightarrow> string \<Rightarrow> git" where
  "small_git ab ac cmd =
     (if cmd = [''cat-file'', ''-t'', ''a''] then Some ''commit''
      else if cmd = [''diff'', ''--name-status'', ''-M'', ''a..b''] then Some ab
      else if cmd = [''diff'', ''--name-status'', ''-M'', ''a..c''] then Some ac else None)"

definition all_rules :: sync_rules where
  "all_rules = \<lparr>s_scope = None, s_exclude = [],
     s_syncable = \<lparr>o_strategy = None, o_include = [], o_exclude = [], o_multimodal = False\<rparr>\<rparr>"

definition calm_world :: sync_world where
  "calm_world =
     \<lparr>w_source = Some ''s'', w_head = ''b'', w_reachable = (\<lambda>_. True), w_read_target = True, w_read_paths = True,
      w_version_gate = False, w_pull_failed = False, w_detached = None, w_git = small_git [] [],
      w_rules = all_rules, w_dry = False, w_clear = (\<lambda>_. good_network), w_pin_net = good_network,
      w_flush_net = (\<lambda>_ _. good_network), w_every = 1000, w_seconds = 10, w_max_failures = 3, w_clock = (\<lambda>_. 0),
      w_aborted = (\<lambda>_. False), w_batch_ok = (\<lambda>_. True), w_delete = (\<lambda>_. None),
      w_rename = (\<lambda>_. \<lparr>rn_applied = True, rn_import = Some FrImported, rn_reconcile = None\<rparr>),
      w_import = (\<lambda>_. FileRead FrImported), w_rank = (\<lambda>_. 0), w_head_end = Inr ''b'', w_reachable_end = (\<lambda>_. True),
      w_skip_failed = False, w_threshold = 3, w_now = 0, w_advance_ok = True\<rparr>"

definition start_state :: source_state where
  "start_state = \<lparr>src_anchor = ''a'', src_tables = no_rows, src_ledger = []\<rparr>"

definition rename_world :: sync_world where
  "rename_world = calm_world\<lparr>w_git := small_git (diff_text [Renamed ''90'' ''x.md'' ''y.md'']) [],
     w_rename := (\<lambda>_. \<lparr>rn_applied = True, rn_import = Some (FrThrew ''parse error''), rn_reconcile = None\<rparr>)\<rparr>"


text \<open>In general a rename that fails to import is marked, and an import that fails is not.\<close>

lemma failed_rename_marks:
  "rn_import oc = Some (FrThrew e) \<Longrightarrow>
     r_to r \<in> set (d_completed (do_task w (DoRename r oc) d)) \<and> r_to r \<in> failed_paths (do_task w (DoRename r oc) d)"
  by (auto simp: do_rename_def Let_def note_rename_error_def reconcile_failed_def dest_materialized_def fail_path_def failed_paths_def)

lemma failed_import_does_not_mark: "d_completed (do_task w (DoImport p (FileRead (FrThrew e))) d) = d_completed d"
  by (simp add: do_import_def)

text \<open>Two files change between \<open>a\<close> and \<open>b\<close>, and again between \<open>b\<close> and \<open>c\<close>.  The first run is stopped after the
  first file; the second run starts at \<open>c\<close> and is stopped before any; in the third the import of the
  first file would fail.\<close>

definition two_files :: git where
  "two_files = small_git (diff_text [Modified ''p.md'', Modified ''q.md'']) (diff_text [Modified ''p.md'', Modified ''q.md''])"

definition run_b :: sync_world where
  "run_b = calm_world\<lparr>w_git := two_files, w_aborted := (\<lambda>i. i = 1), w_rank := (\<lambda>p. if p = ''p.md'' then 1 else 0)\<rparr>"

definition run_c :: sync_world where
  "run_c = calm_world\<lparr>w_git := two_files, w_head := ''c'', w_head_end := Inr ''c'', w_aborted := (\<lambda>i. i = 0)\<rparr>"

definition run_c_again :: sync_world where
  "run_c_again = run_c\<lparr>w_aborted := (\<lambda>_. False),
     w_import := (\<lambda>p. FileRead (if p = ''p.md'' then FrThrew ''not read'' else FrImported))\<rparr>"

definition after_b :: source_state where
  "after_b = snd (sync_run id run_b start_state)"

definition synced_clean :: "source_state \<Rightarrow> bool" where
  "synced_clean s \<longleftrightarrow>
     sync_run id run_c_again s =
       (Synced \<lparr>advanced = True, sentinelBlocked = False, fresh = 0, chronic = 0, autoSkipped = [], acknowledged = 0\<rparr>,
        \<lparr>src_anchor = ''c'', src_tables = no_rows, src_ledger = []\<rparr>)"


text \<open>A clear that is swallowed after a rewritten history, and a purge that falls between the time stamps of the
  two rows, do the same.\<close>

definition pg_down :: pg_error where
  "pg_down = \<lparr>e_code = Some ''42501'', e_problem = None, e_message = ''permission denied''\<rparr>"

lemma swallowed_clear_skips_changes:
  "synced_clean (snd (sync_run id (run_c\<lparr>w_reachable := (\<lambda>_. False),
      w_clear := (\<lambda>_. good_network\<lparr>n_attempt := (\<lambda>_. Refused pg_down)\<rparr>)\<rparr>) after_b))"
  by code_simp

definition after_late_b :: source_state where
  "after_late_b = snd (sync_run id (run_b\<lparr>w_flush_net := (\<lambda>_ _. good_network\<lparr>n_now := (\<lambda>_. 5000)\<rparr>)\<rparr>) start_state)"

lemma purge_between_rows_skips_changes:
  "synced_clean (snd (sync_run id run_c (after_late_b\<lparr>src_tables :=
      snd (purgeStaleCheckpoints True 7 (7 * 86400000 + 1000) (src_tables after_late_b))\<rparr>)))"
  by code_simp

text \<open>The serial loop does not look at the dead checkpoint: with every write refused and one failure allowed it
  still imports every file before it gives up.\<close>

lemma dead_checkpoint_keeps_importing:
  "fst (sync_run id (calm_world\<lparr>w_git := two_files, w_every := 1, w_max_failures := 1,
     w_flush_net := (\<lambda>_ _. good_network\<lparr>n_attempt := (\<lambda>_. Refused pg_down)\<rparr>)\<rparr>) start_state)
   = Partial CheckpointUnavailable 2 0"
  by code_simp

section \<open>Witnesses\<close>

lemma start_episode: "episode id (Some ''s'') ''a'' (src_tables start_state) (\<lambda>_. {})"
  by (rule episode.fresh)
    (simp_all add: start_state_def no_rows_ok, simp_all add: no_rows_def loadOpCheckpoint_def banked_paths_def array_keys_def)

lemma run_b_trusted: "trusted run_b"
  by (simp add: trusted_def run_b_def calm_world_def good_network_def takes_effect_def)


definition run_all :: sync_world where
  "run_all = calm_world\<lparr>w_git := two_files\<rparr>"


end
